(* ===== verification/Ev_Prelude.thy ===== *)
theory Ev_Prelude
  imports Main "HOL-Library.Word" "HOL-Library.Multiset"
begin

text \<open>
  Shared vocabulary of the development: the types of C values the models use, the
  collections of hints (named theorems) the component theories fill, and generic lemmas
  on lists, segments of lists and words.
\<close>

unbundle bit_operations_syntax

section \<open>Types of C values\<close>

text \<open>
  A \<open>size_t\<close> is 64 bits wide in the configuration that is modelled (\<open>LP64\<close>). Lengths are
  natural numbers; where the code compares with a limit of the type, the limit is one of
  these constants, from \<open>include/event2/util.h\<close>.
\<close>

type_synonym byte = "8 word"
type_synonym u32 = "32 word"
type_synonym u64 = "64 word"

definition EV_SIZE_MAX :: nat where
  "EV_SIZE_MAX = 2 ^ 64 - 1"

definition EV_SSIZE_MAX :: nat where
  "EV_SSIZE_MAX = 2 ^ 63 - 1"

definition UINT32_MAX :: nat where
  "UINT32_MAX = 2 ^ 32 - 1"

definition INT_MAX :: nat where
  "INT_MAX = 2 ^ 31 - 1"

lemmas c_limits = EV_SIZE_MAX_def EV_SSIZE_MAX_def UINT32_MAX_def INT_MAX_def

section \<open>Hint collections\<close>

named_theorems heap_simps \<open>rewrite rules for the array heap of timers\<close>
named_theorems chain_simps \<open>rewrite rules for evbuffer chains\<close>
named_theorems evbuffer_defs \<open>definitions of the evbuffer operations\<close>

section \<open>Lists\<close>

text \<open>Elements of a prefix and of an updated prefix.\<close>

lemma set_take_conv_nth: "n \<le> length xs \<Longrightarrow> set (take n xs) = {xs ! i | i. i < n}"
  by (auto simp flip: nth_image)

lemma take_update_beyond [simp]: "n \<le> i \<Longrightarrow> take n (xs[i := x]) = take n xs"
  by (simp add: take_update_cancel)

lemma distinct_prefix_nth_eq:
  "distinct (take n xs) \<Longrightarrow> n \<le> length xs \<Longrightarrow> i < n \<Longrightarrow> j < n \<Longrightarrow> xs ! i = xs ! j \<longleftrightarrow> i = j"
  by (metis length_take min.absorb2 nth_eq_iff_index_eq nth_take)

lemma sum_list_take_drop: "sum_list (take n xs) + sum_list (drop n (xs :: nat list)) = sum_list xs"
  by (metis append_take_drop_id sum_list_append)

lemma take_Suc_nth: "n < length xs \<Longrightarrow> take (Suc n) xs = take n xs @ [xs ! n]"
  by (rule take_Suc_conv_app_nth)

text \<open>Exchanging two cells, inside a prefix.\<close>

definition list_swap :: "'a list \<Rightarrow> nat \<Rightarrow> nat \<Rightarrow> 'a list" where
  "list_swap xs i j = xs[i := xs ! j, j := xs ! i]"

lemma length_list_swap [simp]: "length (list_swap xs i j) = length xs"
  by (simp add: list_swap_def)

lemma nth_list_swap:
  "i < length xs \<Longrightarrow> j < length xs \<Longrightarrow> m < length xs \<Longrightarrow>
   list_swap xs i j ! m = (if m = i then xs ! j else if m = j then xs ! i else xs ! m)"
  by (auto simp: list_swap_def nth_list_update)

lemma take_list_swap:
  "i < n \<Longrightarrow> j < n \<Longrightarrow> n \<le> length xs \<Longrightarrow> take n (list_swap xs i j) = list_swap (take n xs) i j"
  by (simp add: list_swap_def take_update_swap)

lemma mset_list_swap [simp]:
  "i < length xs \<Longrightarrow> j < length xs \<Longrightarrow> mset (list_swap xs i j) = mset xs"
  using mset_swap [of j xs i] by (simp add: list_swap_def)

lemma set_list_swap [simp]: "i < length xs \<Longrightarrow> j < length xs \<Longrightarrow> set (list_swap xs i j) = set xs"
  by (metis mset_list_swap set_mset_mset)

lemma distinct_list_swap [simp]:
  "i < length xs \<Longrightarrow> j < length xs \<Longrightarrow> distinct (list_swap xs i j) = distinct xs"
  by (metis mset_eq_imp_distinct_iff mset_list_swap)

end
