(* ===== verification/Ev_Time.thy ===== *)
theory Ev_Time
  imports Ev_Prelude
begin

text \<open>
  Time values: \<open>struct timeval\<close> with the macros of \<open>include/event2/util.h\<close>
  (\<open>evutil_timeradd\<close>, \<open>evutil_timersub\<close>, \<open>evutil_timercmp\<close>) and the two computations of
  \<open>evutil_time.c\<close> that every timer depends on: the conversion to milliseconds and the
  ratchet that makes a clock monotonic. Seconds and microseconds are integers
  (\<open>time_t\<close> is 64 bits wide and no value near its limits is formed).
\<close>

section \<open>timeval and its order\<close>

datatype timeval = Timeval (tv_sec: int) (tv_usec: int)

text \<open>
  The macro \<open>evutil_timercmp(tvp, uvp, cmp)\<close> compares the microseconds when the seconds
  agree and the seconds otherwise. The comparison operator is its third argument.
\<close>

definition evutil_timercmp :: "timeval \<Rightarrow> timeval \<Rightarrow> (int \<Rightarrow> int \<Rightarrow> bool) \<Rightarrow> bool" where
  "evutil_timercmp tvp uvp cmp =
     (if tv_sec tvp = tv_sec uvp then cmp (tv_usec tvp) (tv_usec uvp)
      else cmp (tv_sec tvp) (tv_sec uvp))"

text \<open>With \<open>\<le>\<close> and \<open><\<close> the macro is a linear order, so timevals join the library's class.\<close>

instantiation timeval :: linorder
begin

definition less_eq_timeval :: "timeval \<Rightarrow> timeval \<Rightarrow> bool" where
  "less_eq_timeval a b = evutil_timercmp a b (\<le>)"

definition less_timeval :: "timeval \<Rightarrow> timeval \<Rightarrow> bool" where
  "less_timeval a b = evutil_timercmp a b (<)"

instance
  by standard
    (auto simp: less_eq_timeval_def less_timeval_def evutil_timercmp_def timeval.expand
      split: if_splits)

end

lemma timercmp_less [simp]: "evutil_timercmp a b (<) \<longleftrightarrow> a < b"
  by (simp add: less_timeval_def)

lemma timercmp_greater [simp]: "evutil_timercmp a b (>) \<longleftrightarrow> b < a"
  by (auto simp: less_timeval_def evutil_timercmp_def)

lemma timercmp_le [simp]: "evutil_timercmp a b (\<le>) \<longleftrightarrow> a \<le> b"
  by (simp add: less_eq_timeval_def)

lemma timercmp_ge [simp]: "evutil_timercmp a b (\<ge>) \<longleftrightarrow> b \<le> a"
  by (auto simp: less_eq_timeval_def evutil_timercmp_def)

lemma timercmp_eq [simp]: "evutil_timercmp a b (=) \<longleftrightarrow> a = b"
  by (auto simp: evutil_timercmp_def timeval.expand)

lemma timeval_less_code: "Timeval s u < Timeval s' u' \<longleftrightarrow> s < s' \<or> s = s' \<and> u < u'"
  by (auto simp: less_timeval_def evutil_timercmp_def)

lemma timeval_le_code: "Timeval s u \<le> Timeval s' u' \<longleftrightarrow> s < s' \<or> s = s' \<and> u \<le> u'"
  by (auto simp: less_eq_timeval_def evutil_timercmp_def)

section \<open>Addition and subtraction\<close>

definition evutil_timeradd :: "timeval \<Rightarrow> timeval \<Rightarrow> timeval" where
  "evutil_timeradd tvp uvp =
     (let sec = tv_sec tvp + tv_sec uvp; usec = tv_usec tvp + tv_usec uvp
      in if usec \<ge> 1000000 then Timeval (sec + 1) (usec - 1000000) else Timeval sec usec)"

definition evutil_timersub :: "timeval \<Rightarrow> timeval \<Rightarrow> timeval" where
  "evutil_timersub tvp uvp =
     (let sec = tv_sec tvp - tv_sec uvp; usec = tv_usec tvp - tv_usec uvp
      in if usec < 0 then Timeval (sec - 1) (usec + 1000000) else Timeval sec usec)"

definition evutil_timerisset :: "timeval \<Rightarrow> bool" where
  "evutil_timerisset tv \<longleftrightarrow> tv_sec tv \<noteq> 0 \<or> tv_usec tv \<noteq> 0"

definition evutil_timerclear :: timeval where
  "evutil_timerclear = Timeval 0 0"

text \<open>A normal value has its microseconds below one second; its value is a count of microseconds.\<close>

definition tv_normal :: "timeval \<Rightarrow> bool" where
  "tv_normal tv \<longleftrightarrow> 0 \<le> tv_usec tv \<and> tv_usec tv < 1000000"

definition tv_usecs :: "timeval \<Rightarrow> int" where
  "tv_usecs tv = tv_sec tv * 1000000 + tv_usec tv"

lemma tv_usecs_le_iff: "tv_normal a \<Longrightarrow> tv_normal b \<Longrightarrow> tv_usecs a \<le> tv_usecs b \<longleftrightarrow> a \<le> b"
  by (cases a; cases b) (auto simp: tv_usecs_def tv_normal_def timeval_le_code)

lemma tv_usecs_less_iff: "tv_normal a \<Longrightarrow> tv_normal b \<Longrightarrow> tv_usecs a < tv_usecs b \<longleftrightarrow> a < b"
  by (cases a; cases b) (auto simp: tv_usecs_def tv_normal_def timeval_less_code)

lemma tv_usecs_inj: "tv_normal a \<Longrightarrow> tv_normal b \<Longrightarrow> tv_usecs a = tv_usecs b \<Longrightarrow> a = b"
  using tv_usecs_le_iff[of a b] tv_usecs_le_iff[of b a] by simp

lemma timeradd_normal: "tv_normal a \<Longrightarrow> tv_normal b \<Longrightarrow> tv_normal (evutil_timeradd a b)"
  by (auto simp: tv_normal_def evutil_timeradd_def Let_def)

lemma timersub_normal: "tv_normal a \<Longrightarrow> tv_normal b \<Longrightarrow> tv_normal (evutil_timersub a b)"
  by (auto simp: tv_normal_def evutil_timersub_def Let_def)

lemma tv_usecs_timeradd [simp]: "tv_usecs (evutil_timeradd a b) = tv_usecs a + tv_usecs b"
  by (auto simp: tv_usecs_def evutil_timeradd_def Let_def algebra_simps)

lemma tv_usecs_timersub [simp]: "tv_usecs (evutil_timersub a b) = tv_usecs a - tv_usecs b"
  by (auto simp: tv_usecs_def evutil_timersub_def Let_def algebra_simps)

section \<open>Milliseconds\<close>

text \<open>
  C division truncates towards zero; the numerator is not negative for a normal value, so
  \<open>div\<close> is C's quotient there. \<open>LONG_MAX\<close> is that of a 64-bit \<open>long\<close>.
\<close>

definition LONG_MAX :: int where
  "LONG_MAX = 2 ^ 63 - 1"

definition c_div :: "int \<Rightarrow> int \<Rightarrow> int" where
  "c_div a b = sgn a * sgn b * (\<bar>a\<bar> div \<bar>b\<bar>)"

lemma c_div_nonneg: "0 \<le> a \<Longrightarrow> 0 < b \<Longrightarrow> c_div a b = a div b"
  by (cases "a = 0") (auto simp: c_div_def)

definition MAX_SECONDS_IN_MSEC_LONG :: int where
  "MAX_SECONDS_IN_MSEC_LONG = (LONG_MAX - 999) div 1000"

definition evutil_tv_to_msec :: "timeval \<Rightarrow> int" where
  "evutil_tv_to_msec tv =
     (if tv_usec tv > 1000000 \<or> tv_sec tv > MAX_SECONDS_IN_MSEC_LONG then -1
      else tv_sec tv * 1000 + c_div (tv_usec tv + 999) 1000)"

section \<open>The monotonic ratchet\<close>

record evutil_monotonic_timer =
  adjust_monotonic_clock :: timeval
  last_time :: timeval

text \<open>
  \<open>adjust_monotonic_time(base, tv)\<close>: the reading is shifted by the accumulated
  adjustment; if it lies before the last value handed out, the adjustment grows by the
  difference and the last value is handed out again.
\<close>

definition adjust_monotonic_time ::
  "evutil_monotonic_timer \<Rightarrow> timeval \<Rightarrow> evutil_monotonic_timer \<times> timeval" where
  "adjust_monotonic_time base tv0 =
     (let tv = evutil_timeradd tv0 (adjust_monotonic_clock base)
      in if evutil_timercmp tv (last_time base) (<) then
           (let adjust = evutil_timersub (last_time base) tv;
                base' = base\<lparr>adjust_monotonic_clock :=
                          evutil_timeradd adjust (adjust_monotonic_clock base)\<rparr>;
                tv' = last_time base
            in (base'\<lparr>last_time := tv'\<rparr>, tv'))
         else (base\<lparr>last_time := tv\<rparr>, tv))"

text \<open>Successive readings of the clock, as the loop takes them.\<close>

fun monotonic_readings ::
  "evutil_monotonic_timer \<Rightarrow> timeval list \<Rightarrow> evutil_monotonic_timer \<times> timeval list" where
  "monotonic_readings base [] = (base, [])"
| "monotonic_readings base (tv # tvs) =
     (let (base', out) = adjust_monotonic_time base tv;
          (base'', outs) = monotonic_readings base' tvs
      in (base'', out # outs))"

lemma adjust_monotonic_time_ge:
  "adjust_monotonic_time base tv = (base', out) \<Longrightarrow>
   last_time base \<le> out \<and> last_time base' = out"
  by (auto simp: adjust_monotonic_time_def Let_def split: if_splits)

lemma adjust_monotonic_time_normal:
  "adjust_monotonic_time base tv = (base', out) \<Longrightarrow> tv_normal tv \<Longrightarrow>
   tv_normal (adjust_monotonic_clock base) \<Longrightarrow> tv_normal (last_time base) \<Longrightarrow>
   tv_normal (adjust_monotonic_clock base') \<and> tv_normal (last_time base') \<and> tv_normal out"
  by (auto simp: adjust_monotonic_time_def Let_def timeradd_normal timersub_normal split: if_splits)

text \<open>
  After a reading, the value handed out is the raw reading plus the (new) adjustment: the
  ratchet shifts the clock, it does not stretch it.
\<close>

lemma adjust_monotonic_time_shift:
  "adjust_monotonic_time base tv = (base', out) \<Longrightarrow>
   tv_usecs out = tv_usecs tv + tv_usecs (adjust_monotonic_clock base')"
  by (auto simp: adjust_monotonic_time_def Let_def split: if_splits)

lemma monotonic_readings_ge:
  "monotonic_readings base tvs = (base', outs) \<Longrightarrow> sorted outs \<and> (\<forall>out \<in> set outs. last_time base \<le> out)"
proof (induction tvs arbitrary: base base' outs)
  case Nil
  then show ?case by simp
next
  case (Cons tv tvs)
  obtain b1 out where step: "adjust_monotonic_time base tv = (b1, out)" by fastforce
  obtain b2 outs' where rest: "monotonic_readings b1 tvs = (b2, outs')" by fastforce
  from Cons.prems step rest have outs: "outs = out # outs'" by simp
  from Cons.IH[OF rest] adjust_monotonic_time_ge[OF step] show ?case
    by (auto simp: outs)
qed

lemma monotonic_readings_last:
  "monotonic_readings base tvs = (base', outs) \<Longrightarrow>
   length outs = length tvs \<and> (outs \<noteq> [] \<longrightarrow> last_time base' = last outs \<and>
     tv_usecs (last outs) = tv_usecs (last tvs) + tv_usecs (adjust_monotonic_clock base'))"
proof (induction tvs arbitrary: base base' outs)
  case (Cons tv tvs)
  obtain b1 out where step: "adjust_monotonic_time base tv = (b1, out)" by fastforce
  obtain b2 outs' where rest: "monotonic_readings b1 tvs = (b2, outs')" by fastforce
  from Cons.prems step rest have outs: "outs = out # outs'" "base' = b2" by simp_all
  show ?case
    using Cons.IH [OF rest] adjust_monotonic_time_ge [OF step] adjust_monotonic_time_shift [OF step] rest
    by (cases tvs) (auto simp: outs)
qed simp

section \<open>Properties\<close>

text \<open>
  C30. However the raw clock jumps, the values \<open>adjust_monotonic_time\<close> hands out never decrease,
  and none is below the last one handed out before; each is the raw reading plus the
  adjustment then in force.
\<close>

theorem monotonic_clock_never_steps_back:
  assumes "monotonic_readings base tvs = (base', outs)"
  shows "sorted outs \<and> (\<forall>out \<in> set outs. last_time base \<le> out) \<and> length outs = length tvs \<and>
    (outs \<noteq> [] \<longrightarrow> last_time base' = last outs \<and>
       tv_usecs (last outs) = tv_usecs (last tvs) + tv_usecs (adjust_monotonic_clock base'))"
  using monotonic_readings_ge [OF assms] monotonic_readings_last [OF assms] by blast

theorem monotonic_clock_never_steps_back_witness:
  "let base = \<lparr>adjust_monotonic_clock = Timeval 0 0, last_time = Timeval 10 0\<rparr>
   in sorted (snd (monotonic_readings base [Timeval 12 0, Timeval 7 500000, Timeval 8 0]))"
proof -
  let ?base = "\<lparr>adjust_monotonic_clock = Timeval 0 0, last_time = Timeval 10 0\<rparr>"
  show ?thesis
    using monotonic_clock_never_steps_back [of ?base "[Timeval 12 0, Timeval 7 500000, Timeval 8 0]", OF surjective_pairing]
    by (simp only: Let_def)
qed

end
