(* ===== verification/Ev_Minheap.thy ===== *)
theory Ev_Minheap
  imports Ev_Time
begin

text \<open>
  The timer heap of \<open>minheap-internal.h\<close>: an array of pointers to events, each event
  holding its own position in \<open>ev_timeout_pos.min_heap_idx\<close> (\<open>-1\<close> when it is in no heap).
  Events are addresses (natural numbers) into a store of records that begin with the two
  fields the heap reads and writes (\<open>struct event\<close> extends them in the theory of events). Array indices are \<open>unsigned\<close> (32 bits) in the code, so the index
  arithmetic wraps around, and the loop of \<open>min_heap_shift_down_\<close> is a partial function:
  \<open>None\<close> would be a loop that does not return.
\<close>

section \<open>State\<close>

record ev_timer =
  min_heap_idx :: int
  ev_timeout :: timeval

type_synonym 'z ev_store = "nat \<Rightarrow> 'z ev_timer_scheme"

record min_heap =
  heap_p :: "nat list"
  heap_n :: nat
  heap_a :: nat

definition set_heap_idx :: "'z ev_store \<Rightarrow> nat \<Rightarrow> int \<Rightarrow> 'z ev_store" where
  "set_heap_idx st e i = st(e := (st e)\<lparr>min_heap_idx := i\<rparr>)"

definition min_heap_elem_greater :: "'z ev_store \<Rightarrow> nat \<Rightarrow> nat \<Rightarrow> bool" where
  "min_heap_elem_greater st a b = evutil_timercmp (ev_timeout (st a)) (ev_timeout (st b)) (>)"

text \<open>\<open>(hole_index - 1) / 2\<close> and \<open>2 * (hole_index + 1)\<close> on 32-bit unsigned values.\<close>

definition heap_parent :: "nat \<Rightarrow> nat" where
  "heap_parent hole = ((hole + 2 ^ 32 - 1) mod 2 ^ 32) div 2"

definition heap_child :: "nat \<Rightarrow> nat" where
  "heap_child hole = (2 * ((hole + 1) mod 2 ^ 32)) mod 2 ^ 32"

definition u32_pred :: "nat \<Rightarrow> nat" where
  "u32_pred n = (n + 2 ^ 32 - 1) mod 2 ^ 32"

lemma u32_pred_pos [simp]: "0 < n \<Longrightarrow> n < 2 ^ 32 \<Longrightarrow> u32_pred n = n - 1"
  by (simp add: u32_pred_def mod_if)

lemma heap_parent_pos [simp]: "0 < h \<Longrightarrow> h < 2 ^ 32 \<Longrightarrow> heap_parent h = (h - 1) div 2"
  by (simp add: heap_parent_def mod_if)

lemma heap_parent_less: "0 < h \<Longrightarrow> heap_parent h < h"
proof (cases "h < 2 ^ 32")
  case False
  have "(h + 2 ^ 32 - 1) mod 2 ^ 32 < (2 ^ 32 :: nat)" by (rule mod_less_divisor) simp
  with False show ?thesis by (simp add: heap_parent_def)
qed (auto simp: less_mult_imp_div_less)

lemma heap_child_small [simp]: "h < 2 ^ 31 - 1 \<Longrightarrow> heap_child h = 2 * (h + 1)"
  by (simp add: heap_child_def)

section \<open>Operations\<close>

definition min_heap_ctor :: min_heap where
  "min_heap_ctor = \<lparr>heap_p = [], heap_n = 0, heap_a = 0\<rparr>"

definition min_heap_elem_init :: "'z ev_store \<Rightarrow> nat \<Rightarrow> 'z ev_store" where
  "min_heap_elem_init st e = set_heap_idx st e (-1)"

definition min_heap_elt_is_top :: "'z ev_store \<Rightarrow> nat \<Rightarrow> bool" where
  "min_heap_elt_is_top st e \<longleftrightarrow> min_heap_idx (st e) = 0"

definition min_heap_empty :: "min_heap \<Rightarrow> bool" where
  "min_heap_empty s \<longleftrightarrow> heap_n s = 0"

definition min_heap_size :: "min_heap \<Rightarrow> nat" where
  "min_heap_size s = heap_n s"

definition min_heap_top :: "min_heap \<Rightarrow> nat option" where
  "min_heap_top s = (if heap_n s \<noteq> 0 then Some (heap_p s ! 0) else None)"

text \<open>Store an event in a cell of the array and its position in the event.\<close>

definition heap_put :: "'z ev_store \<Rightarrow> min_heap \<Rightarrow> nat \<Rightarrow> nat \<Rightarrow> 'z ev_store \<times> min_heap" where
  "heap_put st s i e = (set_heap_idx st e (int i), s\<lparr>heap_p := (heap_p s)[i := e]\<rparr>)"

function min_heap_shift_up :: "'z ev_store \<Rightarrow> min_heap \<Rightarrow> nat \<Rightarrow> nat \<Rightarrow> 'z ev_store \<times> min_heap" where
  "min_heap_shift_up st s hole e =
     (let parent = heap_parent hole
      in if hole \<noteq> 0 \<and> min_heap_elem_greater st (heap_p s ! parent) e
         then (let (st', s') = heap_put st s hole (heap_p s ! parent)
               in min_heap_shift_up st' s' parent e)
         else heap_put st s hole e)"
  by pat_completeness auto
termination
  by (relation "measure (\<lambda>(st, s, hole, e). hole)") (auto simp: heap_parent_less)

declare min_heap_shift_up.simps [simp del]

definition min_heap_shift_up_unconditional ::
  "'z ev_store \<Rightarrow> min_heap \<Rightarrow> nat \<Rightarrow> nat \<Rightarrow> 'z ev_store \<times> min_heap" where
  "min_heap_shift_up_unconditional st s hole e =
     (let parent = heap_parent hole;
          (st', s') = heap_put st s hole (heap_p s ! parent)
      in min_heap_shift_up st' s' parent e)"

text \<open>
  \<open>min_child -= min_child == s->n || min_heap_elem_greater(right, left)\<close> picks the left
  child when there is no right one or the right one is greater.
\<close>

partial_function (option) min_heap_shift_down ::
  "'z ev_store \<Rightarrow> min_heap \<Rightarrow> nat \<Rightarrow> nat \<Rightarrow> ('z ev_store \<times> min_heap) option" where
  "min_heap_shift_down st s hole e =
     (let right = heap_child hole
      in if right \<le> heap_n s then
           (let min_child = (if right = heap_n s \<or>
                  min_heap_elem_greater st (heap_p s ! right) (heap_p s ! u32_pred right)
                then u32_pred right else right)
            in if \<not> min_heap_elem_greater st e (heap_p s ! min_child)
               then Some (heap_put st s hole e)
               else (let (st', s') = heap_put st s hole (heap_p s ! min_child)
                     in min_heap_shift_down st' s' min_child e))
         else Some (heap_put st s hole e))"

text \<open>
  \<open>realloc_ok bytes\<close> says whether \<open>mm_realloc\<close> of that size succeeds. The new cells of a
  grown array hold no value yet; 0 stands for it, and no operation reads a cell before it
  was written.
\<close>

definition min_heap_reserve :: "(nat \<Rightarrow> bool) \<Rightarrow> min_heap \<Rightarrow> nat \<Rightarrow> min_heap \<times> int" where
  "min_heap_reserve realloc_ok s n =
     (if heap_a s < n then
        (let a1 = (if heap_a s \<noteq> 0 then (heap_a s * 2) mod 2 ^ 32 else 8);
             a2 = (if a1 < n then n else a1)
         in if \<not> realloc_ok (a2 * 8) then (s, -1)
            else (s\<lparr>heap_p := take a2 (heap_p s @ replicate (a2 - length (heap_p s)) 0),
                    heap_a := a2\<rparr>, 0))
      else (s, 0))"

definition min_heap_push ::
  "(nat \<Rightarrow> bool) \<Rightarrow> 'z ev_store \<Rightarrow> min_heap \<Rightarrow> nat \<Rightarrow> 'z ev_store \<times> min_heap \<times> int" where
  "min_heap_push realloc_ok st s e =
     (if heap_n s = UINT32_MAX then (st, s, -1)
      else (let (s1, r) = min_heap_reserve realloc_ok s (heap_n s + 1)
            in if r \<noteq> 0 then (st, s1, -1)
               else (let (st', s') = min_heap_shift_up st (s1\<lparr>heap_n := heap_n s1 + 1\<rparr>) (heap_n s1) e
                     in (st', s', 0))))"

definition min_heap_pop :: "'z ev_store \<Rightarrow> min_heap \<Rightarrow> ('z ev_store \<times> min_heap \<times> nat option) option" where
  "min_heap_pop st s =
     (if heap_n s \<noteq> 0 then
        (let e = heap_p s ! 0;
             s1 = s\<lparr>heap_n := u32_pred (heap_n s)\<rparr>
         in case min_heap_shift_down st s1 0 (heap_p s1 ! heap_n s1) of
              None \<Rightarrow> None
            | Some (st', s') \<Rightarrow> Some (set_heap_idx st' e (-1), s', Some e))
      else Some (st, s, None))"

definition min_heap_erase :: "'z ev_store \<Rightarrow> min_heap \<Rightarrow> nat \<Rightarrow> ('z ev_store \<times> min_heap \<times> int) option" where
  "min_heap_erase st s e =
     (if min_heap_idx (st e) \<noteq> -1 then
        (let s1 = s\<lparr>heap_n := u32_pred (heap_n s)\<rparr>;
             last = heap_p s1 ! heap_n s1;
             i = min_heap_idx (st e);
             parent = nat (c_div (i - 1) 2)
         in case (if i > 0 \<and> min_heap_elem_greater st (heap_p s1 ! parent) last
                  then Some (min_heap_shift_up_unconditional st s1 (nat i) last)
                  else min_heap_shift_down st s1 (nat i) last) of
              None \<Rightarrow> None
            | Some (st', s') \<Rightarrow> Some (set_heap_idx st' e (-1), s', 0))
      else Some (st, s, -1))"

definition min_heap_adjust ::
  "(nat \<Rightarrow> bool) \<Rightarrow> 'z ev_store \<Rightarrow> min_heap \<Rightarrow> nat \<Rightarrow> ('z ev_store \<times> min_heap \<times> int) option" where
  "min_heap_adjust realloc_ok st s e =
     (if min_heap_idx (st e) = -1 then Some (min_heap_push realloc_ok st s e)
      else
        (let i = min_heap_idx (st e);
             parent = nat (c_div (i - 1) 2)
         in map_option (\<lambda>(st', s'). (st', s', 0))
              (if i > 0 \<and> min_heap_elem_greater st (heap_p s ! parent) e
               then Some (min_heap_shift_up_unconditional st s (nat i) e)
               else min_heap_shift_down st s (nat i) e)))"

section \<open>Heap order on lists\<close>

text \<open>
  The order a binary heap keeps, over a key \<open>k\<close> of the elements, and its two weakenings
  around a hole \<open>h\<close>: \<open>up_ok\<close> while an element moves towards the root and \<open>down_ok\<close> while it
  moves towards the leaves.
\<close>

abbreviation par :: "nat \<Rightarrow> nat" where
  "par i \<equiv> (i - 1) div 2"

definition heap_order :: "('a \<Rightarrow> 'k::linorder) \<Rightarrow> nat \<Rightarrow> 'a list \<Rightarrow> bool" where
  "heap_order k n L \<longleftrightarrow> (\<forall>i. 0 < i \<and> i < n \<longrightarrow> k (L ! par i) \<le> k (L ! i))"

definition up_ok :: "('a \<Rightarrow> 'k::linorder) \<Rightarrow> nat \<Rightarrow> 'a list \<Rightarrow> nat \<Rightarrow> bool" where
  "up_ok k n L h \<longleftrightarrow>
     (\<forall>i. 0 < i \<and> i < n \<and> i \<noteq> h \<longrightarrow> k (L ! par i) \<le> k (L ! i)) \<and>
     (\<forall>i. 0 < i \<and> i < n \<and> par i = h \<and> 0 < h \<longrightarrow> k (L ! par h) \<le> k (L ! i))"

definition down_ok :: "('a \<Rightarrow> 'k::linorder) \<Rightarrow> nat \<Rightarrow> 'a list \<Rightarrow> nat \<Rightarrow> bool" where
  "down_ok k n L h \<longleftrightarrow>
     (\<forall>i. 0 < i \<and> i < n \<and> par i \<noteq> h \<longrightarrow> k (L ! par i) \<le> k (L ! i)) \<and>
     (\<forall>i. 0 < i \<and> i < n \<and> par i = h \<and> 0 < h \<longrightarrow> k (L ! par h) \<le> k (L ! i))"

lemma par_less: "0 < i \<Longrightarrow> par i < i"
  by arith

lemma up_ok_stop:
  "up_ok k n L h \<Longrightarrow> h = 0 \<or> k (L ! par h) \<le> k (L ! h) \<Longrightarrow> heap_order k n L"
  by (auto simp: up_ok_def heap_order_def)

lemma down_ok_stop:
  "down_ok k n L h \<Longrightarrow> (\<And>i. 0 < i \<Longrightarrow> i < n \<Longrightarrow> par i = h \<Longrightarrow> k (L ! h) \<le> k (L ! i)) \<Longrightarrow>
   heap_order k n L"
  by (auto simp: down_ok_def heap_order_def)

lemma up_ok_step:
  assumes ok: "up_ok k n L h" and h: "0 < h" "h < n" and n: "n \<le> length L"
    and less: "k (L ! h) < k (L ! par h)"
  shows "up_ok k n (list_swap L h (par h)) (par h)"
proof -
  have p: "par h < h" "par h < n" using h by arith+
  have nth: "list_swap L h (par h) ! m = (if m = h then L ! par h else if m = par h then L ! h else L ! m)"
    if "m < n" for m
    using that p h n by (intro nth_list_swap) auto
  have one: "k (L ! par i) \<le> k (L ! i)" if "0 < i" "i < n" "i \<noteq> h" for i
    using ok that by (auto simp: up_ok_def)
  have two: "k (L ! par h) \<le> k (L ! i)" if "0 < i" "i < n" "par i = h" for i
    using ok that h by (auto simp: up_ok_def)
  have three: "k (L ! par (par h)) \<le> k (L ! par h)" if "0 < par h"
    using one [of "par h"] that p by simp
  show ?thesis unfolding up_ok_def
  proof (intro conjI allI impI)
    fix i assume i: "0 < i \<and> i < n \<and> i \<noteq> par h"
    then have pi: "par i < n" by arith
    show "k (list_swap L h (par h) ! par i) \<le> k (list_swap L h (par h) ! i)"
      using i pi one [of i] two [of i] less nth p h by (auto simp: order.strict_implies_order)
  next
    fix i assume i: "0 < i \<and> i < n \<and> par i = par h \<and> 0 < par h"
    then have "par (par h) \<noteq> h" "par (par h) \<noteq> par h" "par (par h) < n" "i \<noteq> par h" using p by arith+
    then show "k (list_swap L h (par h) ! par (par h)) \<le> k (list_swap L h (par h) ! i)"
      using i three one [of i] nth by (auto intro: order_trans)
  qed
qed

lemma down_ok_step:
  assumes ok: "down_ok k n L h" and c: "0 < c" "c < n" "par c = h" and n: "n \<le> length L"
    and min: "\<And>i. 0 < i \<Longrightarrow> i < n \<Longrightarrow> par i = h \<Longrightarrow> k (L ! c) \<le> k (L ! i)"
    and less: "k (L ! c) < k (L ! h)"
  shows "down_ok k n (list_swap L h c) c"
proof -
  have h: "h < c" "h < n" using c by arith+
  have nth: "list_swap L h c ! m = (if m = h then L ! c else if m = c then L ! h else L ! m)"
    if "m < n" for m
    using that c h n by (intro nth_list_swap) auto
  have one: "k (L ! par i) \<le> k (L ! i)" if "0 < i" "i < n" "par i \<noteq> h" for i
    using ok that by (auto simp: down_ok_def)
  have two: "k (L ! par h) \<le> k (L ! i)" if "0 < i" "i < n" "par i = h" "0 < h" for i
    using ok that by (auto simp: down_ok_def)
  show ?thesis unfolding down_ok_def
  proof (intro conjI allI impI)
    fix i assume i: "0 < i \<and> i < n \<and> par i \<noteq> c"
    then have pi: "par i < n" "par i \<noteq> i" by arith+
    show "k (list_swap L h c ! par i) \<le> k (list_swap L h c ! i)"
    proof (cases "i = h")
      case True
      then show ?thesis using i pi two [of c] c nth by auto
    next
      case False
      then show ?thesis using i pi one [of i] min [of i] less nth c
        by (auto simp: order.strict_implies_order)
    qed
  next
    fix i assume i: "0 < i \<and> i < n \<and> par i = c \<and> 0 < c"
    then have "i \<noteq> c" "i \<noteq> h" using h by arith+
    moreover have "par c \<noteq> c" using c by arith
    ultimately show "k (list_swap L h c ! par c) \<le> k (list_swap L h c ! i)"
      using i one [of i] nth c h by auto
  qed
qed

section \<open>The shifting loops\<close>

text \<open>
  \<open>hole_ok\<close>: with the moving element written into the hole, the first \<open>n\<close> cells hold
  distinct events, and each event outside the hole knows its position. \<open>placed\<close> is what a
  finished loop has established.
\<close>

definition hole_ok :: "'z ev_store \<Rightarrow> nat \<Rightarrow> nat list \<Rightarrow> nat \<Rightarrow> bool" where
  "hole_ok st n L h \<longleftrightarrow> distinct (take n L) \<and> (\<forall>i<n. i \<noteq> h \<longrightarrow> min_heap_idx (st (L ! i)) = int i)"

definition heap_layout :: "'z ev_store \<Rightarrow> nat \<Rightarrow> nat list \<Rightarrow> bool" where
  "heap_layout st n L \<longleftrightarrow> distinct (take n L) \<and> (\<forall>i<n. min_heap_idx (st (L ! i)) = int i)"

abbreviation timeout_of :: "'z ev_store \<Rightarrow> nat \<Rightarrow> timeval" where
  "timeout_of st \<equiv> (\<lambda>x. ev_timeout (st x))"

definition placed :: "'z ev_store \<Rightarrow> min_heap \<Rightarrow> nat \<Rightarrow> nat list \<Rightarrow> 'z ev_store \<Rightarrow> min_heap \<Rightarrow> bool" where
  "placed st s n L st' s' \<longleftrightarrow>
     heap_n s' = heap_n s \<and> heap_a s' = heap_a s \<and> length (heap_p s') = length (heap_p s) \<and>
     heap_layout st' n (heap_p s') \<and> heap_order (timeout_of st) n (heap_p s') \<and>
     mset (take n (heap_p s')) = mset (take n L) \<and>
     timeout_of st' = timeout_of st \<and> (\<forall>x. x \<notin> set (take n L) \<longrightarrow> st' x = st x)"

lemma heap_put_proj [heap_simps]:
  "heap_put st s i e = (st', s') \<Longrightarrow>
   st' = set_heap_idx st e (int i) \<and> s' = s\<lparr>heap_p := (heap_p s)[i := e]\<rparr>"
  by (auto simp: heap_put_def)

lemma timeout_of_set_heap_idx [simp]: "timeout_of (set_heap_idx st e i) = timeout_of st"
  by (auto simp: set_heap_idx_def)

lemma set_heap_idx_apply:
  "set_heap_idx st e i x = (if x = e then (st e)\<lparr>min_heap_idx := i\<rparr> else st x)"
  by (simp add: set_heap_idx_def)

lemma set_heap_idx_fields [simp]:
  "ev_timeout (set_heap_idx st e i x) = ev_timeout (st x)"
  "min_heap_idx (set_heap_idx st e i x) = (if x = e then i else min_heap_idx (st x))"
  by (simp_all add: set_heap_idx_def)

lemma elem_greater_iff [simp]:
  "min_heap_elem_greater st a b \<longleftrightarrow> timeout_of st b < timeout_of st a"
  by (simp add: min_heap_elem_greater_def)

text \<open>Filling the hole ends the loop.\<close>

lemma put_final:
  assumes "hole_ok st n ((heap_p s)[h := e]) h" "heap_order (timeout_of st) n ((heap_p s)[h := e])"
    and "h < n" "n \<le> length (heap_p s)" "heap_put st s h e = (st', s')"
  shows "placed st s n ((heap_p s)[h := e]) st' s'"
proof -
  let ?L = "(heap_p s)[h := e]"
  have st': "st' = set_heap_idx st e (int h)" and s': "heap_p s' = ?L" "heap_n s' = heap_n s" "heap_a s' = heap_a s"
    using heap_put_proj [OF assms(5)] by auto
  have e: "?L ! h = e" using assms by simp
  have "e \<in> set (take n ?L)" using e assms(3,4) by (auto simp: in_set_conv_nth intro!: exI [of _ h])
  moreover have "min_heap_idx (st' (?L ! i)) = int i" if i: "i < n" for i
  proof (cases "i = h")
    case False
    then have "?L ! i \<noteq> ?L ! h"
      using assms i by (subst distinct_prefix_nth_eq [of n]) (auto simp: hole_ok_def)
    then show ?thesis using assms(1) e False i st' by (auto simp: hole_ok_def)
  qed (simp add: e st')
  ultimately show ?thesis using assms(1,2) s' st'
    by (auto simp: placed_def heap_layout_def hole_ok_def set_heap_idx_apply [of st e _ _ ])
qed

text \<open>Moving an element into the hole moves the hole to that element's cell \<open>q\<close>.\<close>

lemma put_step:
  assumes ok: "hole_ok st n ((heap_p s)[h := e]) h"
    and h: "h < n" and q: "q < n" "q \<noteq> h" and n: "n \<le> length (heap_p s)"
    and put: "heap_put st s h (heap_p s ! q) = (st1, s1)"
  defines "L \<equiv> (heap_p s)[h := e]"
  shows "(heap_p s1)[q := e] = list_swap L h q" "hole_ok st1 n (list_swap L h q) q"
    "timeout_of st1 = timeout_of st" "heap_n s1 = heap_n s" "heap_a s1 = heap_a s"
    "length (heap_p s1) = length (heap_p s)" "\<And>x. x \<notin> set (take n L) \<Longrightarrow> st1 x = st x"
    "mset (take n (list_swap L h q)) = mset (take n L)"
proof -
  let ?x = "heap_p s ! q"
  have st1: "st1 = set_heap_idx st ?x (int h)" and s1: "heap_p s1 = (heap_p s)[h := ?x]"
      "heap_n s1 = heap_n s" "heap_a s1 = heap_a s"
    using heap_put_proj [OF put] by auto
  show "timeout_of st1 = timeout_of st" "heap_n s1 = heap_n s" "heap_a s1 = heap_a s"
    "length (heap_p s1) = length (heap_p s)" by (auto simp: s1 st1)
  have Lq: "L ! q = ?x" "L ! h = e" using q n h by (auto simp: L_def)
  then show swap: "(heap_p s1)[q := e] = list_swap L h q"
    by (simp add: s1 list_swap_def L_def)
  show ms: "mset (take n (list_swap L h q)) = mset (take n L)"
    using h q n by (simp add: take_list_swap L_def)
  have x: "?x \<in> set (take n L)"
    using Lq q n by (auto simp: in_set_conv_nth L_def intro!: exI [of _ q])
  show "\<And>x. x \<notin> set (take n L) \<Longrightarrow> st1 x = st x" using x st1 by (auto simp: set_heap_idx_apply)
  have dist: "distinct (take n L)" using ok by (simp add: hole_ok_def L_def)
  have "min_heap_idx (st1 (list_swap L h q ! i)) = int i" if i: "i < n" "i \<noteq> q" for i
  proof (cases "i = h")
    case True
    then show ?thesis using i h q n Lq by (simp add: nth_list_swap L_def st1)
  next
    case False
    then have "L ! i \<noteq> L ! q"
      using i q n dist by (subst distinct_prefix_nth_eq [of n]) (auto simp: L_def)
    moreover have "list_swap L h q ! i = L ! i" using i h q n False by (simp add: nth_list_swap L_def)
    ultimately show ?thesis using ok False i Lq by (simp add: hole_ok_def L_def st1)
  qed
  moreover have "distinct (take n (list_swap L h q))"
    using dist ms mset_eq_imp_distinct_iff by blast
  ultimately show "hole_ok st1 n (list_swap L h q) q" by (simp add: hole_ok_def)
qed

lemma placed_trans:
  assumes "placed st1 s1 n L1 st' s'" "timeout_of st1 = timeout_of st" "heap_n s1 = heap_n s"
    "heap_a s1 = heap_a s" "length (heap_p s1) = length (heap_p s)"
    "mset (take n L1) = mset (take n L)" "\<And>x. x \<notin> set (take n L) \<Longrightarrow> st1 x = st x"
  shows "placed st s n L st' s'"
proof -
  have "set (take n L1) = set (take n L)" using assms(6) mset_eq_setD by blast
  then show ?thesis using assms by (auto simp: placed_def)
qed

lemma shift_up_placed:
  assumes "min_heap_shift_up st s h e = (st', s')" "h < n" "n \<le> length (heap_p s)" "n < 2 ^ 32"
    and "hole_ok st n ((heap_p s)[h := e]) h" "up_ok (timeout_of st) n ((heap_p s)[h := e]) h"
  shows "placed st s n ((heap_p s)[h := e]) st' s'"
  using assms
proof (induction st s h e arbitrary: st' s' rule: min_heap_shift_up.induct)
  case (1 st s h e)
  let ?L = "(heap_p s)[h := e]" and ?k = "timeout_of st"
  show ?case
  proof (cases "h \<noteq> 0 \<and> ?k e < ?k (heap_p s ! heap_parent h)")
    case False
    then have "heap_order ?k n ?L"
      using 1(3-7) by (intro up_ok_stop [OF 1(7)]) (auto simp: nth_list_update)
    then show ?thesis using False 1(2-6) by (intro put_final) (auto simp: min_heap_shift_up.simps)
  next
    case True
    then have hp: "heap_parent h = par h" "par h < n" "par h \<noteq> h" using 1(3,5) by auto
    obtain st1 s1 where put: "heap_put st s h (heap_p s ! par h) = (st1, s1)" by fastforce
    note step = put_step [OF 1(6,3) hp(2,3) 1(4) put]
    have rest: "min_heap_shift_up st1 s1 (par h) e = (st', s')"
      using 1(2) True put hp by (simp add: min_heap_shift_up.simps [of st s h e])
    have "up_ok (timeout_of st1) n ((heap_p s1)[par h := e]) (par h)"
      unfolding step(1,3) using True hp 1(3,4,7) by (intro up_ok_step) auto
    then have "placed st1 s1 n ((heap_p s1)[par h := e]) st' s'"
      using True hp put rest step 1(3-5) by (intro 1(1) [of _ "(st1, s1)" st1 s1]) auto
    then show ?thesis by (rule placed_trans) (use step in auto)
  qed
qed

text \<open>The child the downward loop compares with is the lesser one.\<close>

definition min_child_of :: "'z ev_store \<Rightarrow> min_heap \<Rightarrow> nat \<Rightarrow> nat" where
  "min_child_of st s h =
     (if 2 * (h + 1) = heap_n s \<or>
         timeout_of st (heap_p s ! (2 * h + 1)) < timeout_of st (heap_p s ! (2 * (h + 1)))
      then 2 * h + 1 else 2 * (h + 1))"

lemma children: "par i = h \<Longrightarrow> 0 < i \<Longrightarrow> i = 2 * h + 1 \<or> i = 2 * (h + 1)"
  by arith

lemma shift_down_unfold:
  assumes "h < 2 ^ 31 - 1" "heap_n s < 2 ^ 31"
  shows "min_heap_shift_down st s h e =
     (if 2 * (h + 1) \<le> heap_n s then
        (let c = min_child_of st s h
         in if \<not> timeout_of st (heap_p s ! c) < timeout_of st e
            then Some (heap_put st s h e)
            else (let (st', s') = heap_put st s h (heap_p s ! c)
                  in min_heap_shift_down st' s' c e))
      else Some (heap_put st s h e))"
  using assms by (subst min_heap_shift_down.simps) (simp add: Let_def min_child_of_def)

lemma min_child_of_props:
  assumes "2 * (h + 1) \<le> heap_n s"
  shows "min_child_of st s h < heap_n s" "par (min_child_of st s h) = h" "h < min_child_of st s h"
    "\<And>i. 0 < i \<Longrightarrow> i < heap_n s \<Longrightarrow> par i = h \<Longrightarrow>
       timeout_of st (heap_p s ! min_child_of st s h) \<le> timeout_of st (heap_p s ! i)"
proof -
  show "min_child_of st s h < heap_n s" "par (min_child_of st s h) = h" "h < min_child_of st s h"
    using assms by (auto simp: min_child_of_def)
  fix i assume "0 < i" "i < heap_n s" "par i = h"
  with children [of i h] show
    "timeout_of st (heap_p s ! min_child_of st s h) \<le> timeout_of st (heap_p s ! i)"
    by (auto simp: min_child_of_def order.strict_implies_order not_less)
qed

lemma shift_down_placed:
  assumes "h < n" "heap_n s = n" "n \<le> length (heap_p s)" "n < 2 ^ 31"
    and "hole_ok st n ((heap_p s)[h := e]) h" "down_ok (timeout_of st) n ((heap_p s)[h := e]) h"
  shows "\<exists>st' s'. min_heap_shift_down st s h e = Some (st', s') \<and>
           placed st s n ((heap_p s)[h := e]) st' s'"
  using assms
proof (induction "n - h" arbitrary: st s h rule: less_induct)
  case less
  let ?L = "(heap_p s)[h := e]" and ?k = "timeout_of st" and ?c = "min_child_of st s h"
  have h: "h < 2 ^ 31 - 1" "heap_n s < 2 ^ 31" using less.prems by simp_all
  note unfold = shift_down_unfold [OF h]
  have stop: "\<exists>st' s'. min_heap_shift_down st s h e = Some (st', s') \<and> placed st s n ?L st' s'"
    if "min_heap_shift_down st s h e = Some (heap_put st s h e)" "heap_order ?k n ?L"
    using that less.prems put_final [of st n s h e "fst (heap_put st s h e)" "snd (heap_put st s h e)"]
    by (cases "heap_put st s h e") auto
  show ?case
  proof (cases "2 * (h + 1) \<le> n")
    case False
    then have "heap_order ?k n ?L"
      by (intro down_ok_stop [OF less.prems(6)]) (use children in force)
    then show ?thesis using False less.prems by (intro stop) (simp_all add: unfold)
  next
    case True
    note c = min_child_of_props [where h = h and s = s and st = st, unfolded less.prems(2), OF True]
    have L: "?L ! h = e" "\<And>i. i \<noteq> h \<Longrightarrow> ?L ! i = heap_p s ! i" using less.prems by auto
    have min: "?k (?L ! ?c) \<le> ?k (?L ! i)" if "0 < i" "i < n" "par i = h" for i
      using c(3,4) that L by (metis par_less less_irrefl)
    show ?thesis
    proof (cases "?k (heap_p s ! ?c) < ?k e")
      case False
      then have "?k (?L ! h) \<le> ?k (?L ! i)" if "0 < i" "i < n" "par i = h" for i
        using min [OF that] L c(3) by simp
      then show ?thesis using False True less.prems
        by (intro stop down_ok_stop [OF less.prems(6)]) (simp_all add: unfold Let_def)
    next
      case gr: True
      obtain st1 s1 where put: "heap_put st s h (heap_p s ! ?c) = (st1, s1)" by fastforce
      have ch: "?c \<noteq> h" using c(3) by simp
      note step = put_step [OF less.prems(5,1) c(1) ch less.prems(3) put]
      have "down_ok (timeout_of st1) n ((heap_p s1)[?c := e]) ?c"
        unfolding step(1,3) using gr c L less.prems min by (intro down_ok_step) auto
      moreover have "n - ?c < n - h" using c(1,3) by simp
      ultimately obtain st' s' where rest: "min_heap_shift_down st1 s1 ?c e = Some (st', s')"
        "placed st1 s1 n ((heap_p s1)[?c := e]) st' s'"
        using less.hyps [of ?c s1 st1] c step less.prems(1-4) by auto
      from rest(2) have "placed st s n ?L st' s'" by (rule placed_trans) (use step in auto)
      then show ?thesis using gr True rest(1) put less.prems(2) by (simp add: unfold Let_def)
    qed
  qed
qed

section \<open>The invariant and the operations\<close>

definition heap_elems :: "min_heap \<Rightarrow> nat set" where
  "heap_elems s = set (take (heap_n s) (heap_p s))"

text \<open>
  The invariant: the array has the recorded size, the index arithmetic cannot wrap around
  (\<open>2\<^sup>3\<^sup>1\<close> events), every event in the heap knows its position, every other event has
  position \<open>-1\<close>, and no event is due before its parent.
\<close>

definition heap_inv :: "'z ev_store \<Rightarrow> min_heap \<Rightarrow> bool" where
  "heap_inv st s \<longleftrightarrow>
     heap_n s \<le> heap_a s \<and> length (heap_p s) = heap_a s \<and> heap_n s < 2 ^ 31 \<and>
     heap_layout st (heap_n s) (heap_p s) \<and> heap_order (timeout_of st) (heap_n s) (heap_p s) \<and>
     (\<forall>e. e \<notin> heap_elems s \<longrightarrow> min_heap_idx (st e) = -1)"

lemma heap_inv_idx:
  assumes "heap_inv st s"
  shows "i < heap_n s \<Longrightarrow> min_heap_idx (st (heap_p s ! i)) = int i"
    and "e \<in> heap_elems s \<longleftrightarrow> min_heap_idx (st e) \<noteq> -1"
    and "e \<in> heap_elems s \<Longrightarrow>
      \<exists>i<heap_n s. heap_p s ! i = e \<and> min_heap_idx (st e) = int i"
proof -
  show one: "i < heap_n s \<Longrightarrow> min_heap_idx (st (heap_p s ! i)) = int i" for i
    using assms by (simp add: heap_inv_def heap_layout_def)
  show three: "e \<in> heap_elems s \<Longrightarrow> \<exists>i<heap_n s. heap_p s ! i = e \<and> min_heap_idx (st e) = int i"
    using assms one by (auto simp: heap_inv_def heap_elems_def set_take_conv_nth)
  show "e \<in> heap_elems s \<longleftrightarrow> min_heap_idx (st e) \<noteq> -1"
  proof
    assume "e \<in> heap_elems s"
    from three [OF this] show "min_heap_idx (st e) \<noteq> -1" by auto
  next
    assume "min_heap_idx (st e) \<noteq> -1"
    then show "e \<in> heap_elems s" using assms unfolding heap_inv_def by blast
  qed
qed

text \<open>A placed array satisfies the invariant once the events outside it are out of the heap.\<close>

lemma placed_inv:
  assumes "placed st s n L st' s'" "heap_n s = n" "n \<le> heap_a s" "length (heap_p s) = heap_a s"
    and "n < 2 ^ 31" "\<And>x. x \<notin> set (take n L) \<Longrightarrow> x \<noteq> e \<Longrightarrow> min_heap_idx (st x) = -1"
  shows "e \<in> set (take n L) \<Longrightarrow> heap_inv st' s' \<and> heap_elems s' = set (take n L)"
    and "e \<notin> set (take n L) \<Longrightarrow>
      heap_inv (set_heap_idx st' e (-1)) s' \<and> heap_elems s' = set (take n L)"
proof -
  have el: "set (take n (heap_p s')) = set (take n L)"
    by (rule mset_eq_setD) (use assms(1) in \<open>simp add: placed_def\<close>)
  have len: "n \<le> length (heap_p s')" using assms by (simp add: placed_def)
  have mem: "heap_p s' ! i \<in> set (take n L)" if "i < n" for i
    using that len unfolding el [symmetric] by (auto simp: in_set_conv_nth intro!: exI [of _ i])
  show "e \<in> set (take n L) \<Longrightarrow> heap_inv st' s' \<and> heap_elems s' = set (take n L)"
    using assms el by (auto simp: heap_inv_def placed_def heap_elems_def)
  assume "e \<notin> set (take n L)"
  with mem have ne: "heap_p s' ! i \<noteq> e" if "i < n" for i using that by blast
  show "heap_inv (set_heap_idx st' e (-1)) s' \<and> heap_elems s' = set (take n L)"
    using assms el ne by (simp add: heap_inv_def placed_def heap_elems_def heap_layout_def)
qed

text \<open>What the array looks like after its last element took the place of the one at \<open>h\<close>.\<close>

lemma removal_hole:
  assumes inv: "heap_inv st s" and h: "h < heap_n s - 1"
  defines "n \<equiv> heap_n s - 1"
  defines "L \<equiv> (heap_p s)[h := heap_p s ! n]"
  shows "hole_ok st n L h" "set (take n L) = heap_elems s - {heap_p s ! h}"
    "0 < h \<Longrightarrow> timeout_of st (L ! h) < timeout_of st (heap_p s ! par h) \<Longrightarrow> up_ok (timeout_of st) n L h"
    "\<not> (0 < h \<and> timeout_of st (L ! h) < timeout_of st (heap_p s ! par h)) \<Longrightarrow>
      down_ok (timeout_of st) n L h"
proof -
  let ?k = "timeout_of st"
  have n: "h < n" "Suc n = heap_n s" "heap_n s \<le> length (heap_p s)"
    using inv h by (auto simp: heap_inv_def n_def)
  have split: "take (heap_n s) (heap_p s) = take n (heap_p s) @ [heap_p s ! n]"
    using n by (metis Suc_le_lessD take_Suc_conv_app_nth)
  have L: "take n L = (take n (heap_p s))[h := heap_p s ! n]" by (simp add: L_def take_update_swap)
  have "heap_p s ! h \<in># mset (take n (heap_p s))"
    using n by (auto simp: in_set_conv_nth intro!: exI [of _ h])
  then have ms: "mset (take (heap_n s) (heap_p s)) = mset (heap_p s ! h # take n L)"
    using n by (simp add: split L mset_update)
  moreover have "distinct (take (heap_n s) (heap_p s))"
    using inv by (simp add: heap_inv_def heap_layout_def)
  ultimately have d: "distinct (heap_p s ! h # take n L)" using mset_eq_imp_distinct_iff by blast
  show "set (take n L) = heap_elems s - {heap_p s ! h}"
    using d mset_eq_setD [OF ms] by (auto simp: heap_elems_def)
  have nth: "L ! i = heap_p s ! i" if "i \<noteq> h" for i using that by (simp add: L_def)
  show "hole_ok st n L h"
    using d n heap_inv_idx(1) [OF inv] nth by (auto simp: hole_ok_def)
  have ord: "?k (heap_p s ! par i) \<le> ?k (heap_p s ! i)" if "0 < i" "i < n" for i
    using inv that n by (auto simp: heap_inv_def heap_order_def)
  have ne: "i \<noteq> h" if "0 < i" "par i = h" for i using that par_less [of i] by auto
  have two: "?k (L ! par h) \<le> ?k (L ! i)" if "0 < i" "i < n" "par i = h" "0 < h" for i
  proof -
    have "?k (heap_p s ! par h) \<le> ?k (heap_p s ! i)"
      using ord [of h] ord [of i] that n(1) by (auto intro: order_trans)
    then show ?thesis using nth ne [of i] par_less [of h] that by auto
  qed
  show "up_ok ?k n L h" if "0 < h" and less: "?k (L ! h) < ?k (heap_p s ! par h)"
    unfolding up_ok_def
  proof (intro conjI allI impI)
    fix i assume i: "0 < i \<and> i < n \<and> i \<noteq> h"
    show "?k (L ! par i) \<le> ?k (L ! i)"
    proof (cases "par i = h")
      case True
      then have "?k (heap_p s ! par h) \<le> ?k (L ! i)"
        using two [of i] nth [of "par h"] par_less [of h] i that by auto
      then show ?thesis using less True by simp
    qed (use ord [of i] nth i in auto)
  qed (use two in blast)
  show "down_ok ?k n L h" if "\<not> (0 < h \<and> ?k (L ! h) < ?k (heap_p s ! par h))"
    unfolding down_ok_def
  proof (intro conjI allI impI)
    fix i assume i: "0 < i \<and> i < n \<and> par i \<noteq> h"
    show "?k (L ! par i) \<le> ?k (L ! i)"
      using that ord [of i] nth i by (cases "i = h") (auto simp: not_less)
  qed (use two in blast)
qed

subsection \<open>Insertion\<close>

lemma reserve_ok:
  assumes "heap_n s \<le> heap_a s" "length (heap_p s) = heap_a s" "m < 2 ^ 31"
    and "min_heap_reserve realloc_ok s m = (s1, r)"
  shows "r = 0 \<Longrightarrow> heap_n s1 = heap_n s \<and> m \<le> heap_a s1 \<and> length (heap_p s1) = heap_a s1 \<and>
           take (heap_n s) (heap_p s1) = take (heap_n s) (heap_p s) \<and> heap_a s \<le> heap_a s1"
    and "r \<noteq> 0 \<Longrightarrow> r = -1 \<and> s1 = s \<and> heap_a s < m \<and> (\<exists>b. \<not> realloc_ok b)"
  using assms by (auto simp: min_heap_reserve_def Let_def split: if_splits)

theorem push_spec:
  assumes inv: "heap_inv st s" and new: "e \<notin> heap_elems s" and room: "heap_n s + 1 < 2 ^ 31"
    and push: "min_heap_push realloc_ok st s e = (st', s', r)"
  shows "r = 0 \<and> heap_inv st' s' \<and> heap_elems s' = insert e (heap_elems s) \<and>
           timeout_of st' = timeout_of st
       \<or> r = -1 \<and> st' = st \<and> s' = s \<and> heap_n s = heap_a s \<and> (\<exists>b. \<not> realloc_ok b)"
proof -
  obtain s1 q where res: "min_heap_reserve realloc_ok s (heap_n s + 1) = (s1, q)" by fastforce
  have a: "heap_n s \<le> heap_a s" "length (heap_p s) = heap_a s" using inv by (auto simp: heap_inv_def)
  note reserve = reserve_ok [OF a room res]
  have nomax: "heap_n s \<noteq> UINT32_MAX" using room by (simp add: UINT32_MAX_def)
  show ?thesis
  proof (cases "q = 0")
    case False
    then show ?thesis using reserve(2) a push res nomax by (auto simp: min_heap_push_def)
  next
    case True
    let ?n = "heap_n s + 1" and ?s = "s1\<lparr>heap_n := heap_n s1 + 1\<rparr>" and ?L = "(heap_p s1)[heap_n s := e]"
    note r1 = reserve(1) [OF True]
    have up: "min_heap_shift_up st ?s (heap_n s) e = (st', s')" and r: "r = 0"
      using push res True r1 nomax by (auto simp: min_heap_push_def split: prod.splits)
    have takeL: "take ?n ?L = take (heap_n s) (heap_p s) @ [e]"
      using r1 by (simp add: take_Suc_conv_app_nth)
    have old: "?L ! i = heap_p s ! i" if "i < heap_n s" for i
      using that r1 by simp (metis nth_take)
    have "hole_ok st ?n ?L (heap_n s)"
      using inv new takeL old by (auto simp: hole_ok_def heap_inv_def heap_layout_def heap_elems_def)
    moreover have "up_ok (timeout_of st) ?n ?L (heap_n s)"
    proof -
      have "timeout_of st (?L ! par i) \<le> timeout_of st (?L ! i)" if "0 < i" "i < heap_n s" for i
        using inv old [of i] old [of "par i"] that by (auto simp: heap_inv_def heap_order_def)
      moreover have "par i \<noteq> heap_n s" if "0 < i" "i < ?n" for i using that par_less [of i] by linarith
      ultimately show ?thesis by (auto simp: up_ok_def)
    qed
    ultimately have "placed st ?s ?n ?L st' s'"
      using shift_up_placed [OF up, of ?n] r1 room by simp
    moreover have "set (take ?n ?L) = insert e (heap_elems s)"
      using takeL by (auto simp: heap_elems_def)
    ultimately have "heap_inv st' s' \<and> heap_elems s' = insert e (heap_elems s)"
      using placed_inv(1) [of st ?s ?n ?L st' s' e] r1 room inv by (auto simp: heap_inv_def)
    moreover have "timeout_of st' = timeout_of st"
      using \<open>placed st ?s ?n ?L st' s'\<close> by (simp add: placed_def)
    ultimately show ?thesis using r by simp
  qed
qed

subsection \<open>Minimum\<close>

lemma heap_order_root: "heap_order k n L \<Longrightarrow> i < n \<Longrightarrow> k (L ! 0) \<le> k (L ! i)"
proof (induction i rule: less_induct)
  case (less i)
  show ?case
  proof (cases "i = 0")
    case False
    then have "k (L ! 0) \<le> k (L ! par i)" using less par_less [of i] by simp
    moreover have "k (L ! par i) \<le> k (L ! i)" using less False by (simp add: heap_order_def)
    ultimately show ?thesis by (rule order_trans)
  qed simp
qed

theorem top_spec:
  assumes "heap_inv st s"
  shows "min_heap_top s = None \<longleftrightarrow> heap_elems s = {}"
    and "min_heap_top s = Some e \<Longrightarrow>
      e \<in> heap_elems s \<and> (\<forall>x \<in> heap_elems s. timeout_of st e \<le> timeout_of st x)"
proof -
  have a: "heap_n s \<le> length (heap_p s)" "heap_order (timeout_of st) (heap_n s) (heap_p s)"
    using assms by (auto simp: heap_inv_def)
  show "min_heap_top s = None \<longleftrightarrow> heap_elems s = {}"
    using a(1) by (auto simp: min_heap_top_def heap_elems_def)
  assume "min_heap_top s = Some e"
  then have n: "0 < heap_n s" "e = heap_p s ! 0" by (auto simp: min_heap_top_def split: if_splits)
  show "e \<in> heap_elems s \<and> (\<forall>x \<in> heap_elems s. timeout_of st e \<le> timeout_of st x)"
    unfolding heap_elems_def set_take_conv_nth [OF a(1)] using heap_order_root [OF a(2)] n by auto
qed

subsection \<open>Removal\<close>

lemma shift_down_beyond:
  "heap_n s \<le> h \<Longrightarrow> h < 2 ^ 31 - 1 \<Longrightarrow> min_heap_shift_down st s h e = Some (heap_put st s h e)"
  by (subst min_heap_shift_down.simps) simp

lemma shift_up_unconditional_eq:
  "h \<noteq> 0 \<Longrightarrow> timeout_of st e < timeout_of st (heap_p s ! heap_parent h) \<Longrightarrow>
   min_heap_shift_up_unconditional st s h e = min_heap_shift_up st s h e"
  by (simp add: min_heap_shift_up.simps [of st s h e] min_heap_shift_up_unconditional_def)

text \<open>
  The common step of \<open>pop\<close> and \<open>erase\<close>: the heap has shrunk by one cell, the event of that
  cell is put in place of the removed one, by the upward loop when it is due before the
  hole's parent and by the downward loop otherwise.
\<close>

definition refill :: "'z ev_store \<Rightarrow> min_heap \<Rightarrow> nat \<Rightarrow> ('z ev_store \<times> min_heap) option" where
  "refill st s h =
     (let s1 = s\<lparr>heap_n := u32_pred (heap_n s)\<rparr>; last = heap_p s ! u32_pred (heap_n s)
      in if 0 < h \<and> timeout_of st last < timeout_of st (heap_p s ! par h)
         then Some (min_heap_shift_up_unconditional st s1 h last)
         else min_heap_shift_down st s1 h last)"

lemma refill_down:
  assumes "0 < heap_n s" "heap_n s < 2 ^ 31"
    and "\<not> (0 < h \<and> timeout_of st (heap_p s ! (heap_n s - 1)) < timeout_of st (heap_p s ! par h))"
  shows "refill st s h =
    min_heap_shift_down st (s\<lparr>heap_n := heap_n s - 1\<rparr>) h (heap_p s ! (heap_n s - 1))"
proof -
  have "u32_pred (heap_n s) = heap_n s - 1" using assms by simp
  then show ?thesis unfolding refill_def Let_def using assms(3) by (simp only: if_False)
qed

lemma refill_last:
  assumes inv: "heap_inv st s" and n: "0 < heap_n s" and h: "h = heap_n s - 1"
    and r: "\<not> (0 < h \<and> timeout_of st (heap_p s ! h) < timeout_of st (heap_p s ! par h))"
  shows "\<exists>st' s'. refill st s h = Some (st', s') \<and> timeout_of st' = timeout_of st \<and>
      heap_inv (set_heap_idx st' (heap_p s ! h) (-1)) s' \<and>
      heap_elems s' = heap_elems s - {heap_p s ! h}"
proof -
  let ?e = "heap_p s ! h"
  have b: "heap_n s < 2 ^ 31" "heap_n s \<le> length (heap_p s)" using inv by (auto simp: heap_inv_def)
  have "refill st s h = Some (heap_put st (s\<lparr>heap_n := h\<rparr>) h ?e)"
    using refill_down [OF n b(1), of h st] r h b n by (simp add: shift_down_beyond)
  then have eq: "refill st s h = Some (set_heap_idx st ?e (int h), s\<lparr>heap_n := h\<rparr>)"
    by (simp add: heap_put_def)
  have split: "take (heap_n s) (heap_p s) = take h (heap_p s) @ [?e]"
    using n h b by (metis Suc_diff_1 Suc_le_lessD take_Suc_conv_app_nth)
  then have el: "heap_elems (s\<lparr>heap_n := h\<rparr>) = heap_elems s - {?e}" and fresh: "?e \<notin> set (take h (heap_p s))"
    using inv by (auto simp: heap_elems_def heap_inv_def heap_layout_def)
  have ne: "heap_p s ! i \<noteq> ?e" if "i < h" for i
    using inv that n h b by (subst distinct_prefix_nth_eq [of "heap_n s"]) (auto simp: heap_inv_def heap_layout_def)
  have "heap_inv (set_heap_idx (set_heap_idx st ?e (int h)) ?e (-1)) (s\<lparr>heap_n := h\<rparr>)"
    using inv n h el split ne by (auto simp: heap_inv_def heap_layout_def heap_order_def)
  then show ?thesis using eq el by auto
qed

lemma refill_spec:
  assumes inv: "heap_inv st s" and h: "h < heap_n s"
  shows "\<exists>st' s'. refill st s h = Some (st', s') \<and> timeout_of st' = timeout_of st \<and>
      heap_inv (set_heap_idx st' (heap_p s ! h) (-1)) s' \<and>
      heap_elems s' = heap_elems s - {heap_p s ! h}"
proof (cases "h = heap_n s - 1")
  case True
  have "timeout_of st (heap_p s ! par h) \<le> timeout_of st (heap_p s ! h)" if "0 < h"
    using inv that h by (auto simp: heap_inv_def heap_order_def)
  then show ?thesis using refill_last [OF inv _ True] h by fastforce
next
  case False
  let ?n = "heap_n s - 1" and ?e = "heap_p s ! h" and ?last = "heap_p s ! (heap_n s - 1)"
  let ?s = "s\<lparr>heap_n := ?n\<rparr>" and ?L = "(heap_p s)[h := ?last]"
  have h': "h < ?n" and b: "heap_n s < 2 ^ 31" "heap_n s \<le> heap_a s" "length (heap_p s) = heap_a s"
    using inv h False by (auto simp: heap_inv_def)
  note hole = removal_hole [OF inv h']
  have Lh: "?L ! h = ?last" using b h by simp
  have "\<exists>st' s'. refill st s h = Some (st', s') \<and> placed st ?s ?n ?L st' s'"
  proof (cases "0 < h \<and> timeout_of st ?last < timeout_of st (heap_p s ! par h)")
    case True
    obtain st' s' where up: "min_heap_shift_up st ?s h ?last = (st', s')" by fastforce
    have "min_heap_shift_up_unconditional st ?s h ?last = (st', s')"
      using True h b up by (subst shift_up_unconditional_eq) auto
    then have "refill st s h = Some (st', s')" using True b h by (simp add: refill_def Let_def)
    moreover have "placed st ?s ?n ?L st' s'"
      using shift_up_placed [OF up, of ?n] h' b hole(1,3) True Lh by simp
    ultimately show ?thesis by blast
  next
    case noup: False
    then have "refill st s h = min_heap_shift_down st ?s h ?last"
      using refill_down [of s h st] b h by simp
    then show ?thesis
      using shift_down_placed [of h ?n ?s st ?last] h' b hole(1,4) noup Lh by simp
  qed
  then obtain st' s' where r: "refill st s h = Some (st', s')" and pl: "placed st ?s ?n ?L st' s'"
    by blast
  have "heap_inv (set_heap_idx st' ?e (-1)) s' \<and> heap_elems s' = set (take ?n ?L)"
    by (rule placed_inv(2) [OF pl]) (use b hole(2) inv in \<open>auto simp: heap_inv_def\<close>)
  then show ?thesis using r pl hole(2) by (auto simp: placed_def)
qed

theorem pop_spec:
  assumes inv: "heap_inv st s"
  shows "heap_elems s = {} \<Longrightarrow> min_heap_pop st s = Some (st, s, None)"
    and "heap_elems s \<noteq> {} \<Longrightarrow>
      \<exists>st' s' e. min_heap_pop st s = Some (st', s', Some e) \<and> heap_inv st' s' \<and>
        timeout_of st' = timeout_of st \<and> e \<in> heap_elems s \<and>
        (\<forall>x \<in> heap_elems s. timeout_of st e \<le> timeout_of st x) \<and>
        heap_elems s' = heap_elems s - {e} \<and> min_heap_idx (st' e) = -1"
proof -
  have len: "heap_n s \<le> length (heap_p s)" using inv by (simp add: heap_inv_def)
  have empty: "heap_elems s = {} \<longleftrightarrow> heap_n s = 0" using len by (auto simp: heap_elems_def)
  then show "heap_elems s = {} \<Longrightarrow> min_heap_pop st s = Some (st, s, None)"
    by (simp add: min_heap_pop_def)
  assume "heap_elems s \<noteq> {}"
  with empty have n: "0 < heap_n s" by simp
  obtain st' s' where r: "refill st s 0 = Some (st', s')" "timeout_of st' = timeout_of st"
      "heap_inv (set_heap_idx st' (heap_p s ! 0) (-1)) s'" "heap_elems s' = heap_elems s - {heap_p s ! 0}"
    using refill_spec [OF inv n] by blast
  have "min_heap_pop st s = Some (set_heap_idx st' (heap_p s ! 0) (-1), s', Some (heap_p s ! 0))"
    using n r(1) by (auto simp: min_heap_pop_def refill_def Let_def split: option.splits prod.splits)
  moreover have "heap_p s ! 0 \<in> heap_elems s \<and>
      (\<forall>x \<in> heap_elems s. timeout_of st (heap_p s ! 0) \<le> timeout_of st x)"
    using top_spec(2) [OF inv, of "heap_p s ! 0"] n by (simp add: min_heap_top_def)
  ultimately show "\<exists>st' s' e. min_heap_pop st s = Some (st', s', Some e) \<and> heap_inv st' s' \<and>
        timeout_of st' = timeout_of st \<and> e \<in> heap_elems s \<and>
        (\<forall>x \<in> heap_elems s. timeout_of st e \<le> timeout_of st x) \<and>
        heap_elems s' = heap_elems s - {e} \<and> min_heap_idx (st' e) = -1"
    using r by auto
qed

theorem erase_spec:
  assumes inv: "heap_inv st s"
  shows "e \<notin> heap_elems s \<Longrightarrow> min_heap_erase st s e = Some (st, s, -1)"
    and "e \<in> heap_elems s \<Longrightarrow>
      \<exists>st' s'. min_heap_erase st s e = Some (st', s', 0) \<and> heap_inv st' s' \<and>
        timeout_of st' = timeout_of st \<and> heap_elems s' = heap_elems s - {e}"
proof -
  show "e \<notin> heap_elems s \<Longrightarrow> min_heap_erase st s e = Some (st, s, -1)"
    using heap_inv_idx(2) [OF inv] by (auto simp: min_heap_erase_def)
  assume e: "e \<in> heap_elems s"
  obtain h where h: "h < heap_n s" "heap_p s ! h = e" "min_heap_idx (st e) = int h"
    using heap_inv_idx(3) [OF inv e] by blast
  obtain st' s' where r: "refill st s h = Some (st', s')" "timeout_of st' = timeout_of st"
      "heap_inv (set_heap_idx st' e (-1)) s'" "heap_elems s' = heap_elems s - {e}"
    using refill_spec [OF inv h(1)] h(2) by blast
  have parent: "nat (c_div (int h - 1) 2) = par h" if "0 < h"
    using that by (simp add: c_div_nonneg nat_div_distrib nat_diff_distrib')
  have "min_heap_erase st s e = (case refill st s h of None \<Rightarrow> None
      | Some (st', s') \<Rightarrow> Some (set_heap_idx st' e (-1), s', 0))"
    by (cases "0 < h")
      (simp_all add: h(3) parent min_heap_erase_def refill_def Let_def del: u32_pred_pos
        split del: if_split cong: if_cong)
  then have "min_heap_erase st s e = Some (set_heap_idx st' e (-1), s', 0)"
    using r(1) by simp
  then show "\<exists>st' s'. min_heap_erase st s e = Some (st', s', 0) \<and> heap_inv st' s' \<and>
        timeout_of st' = timeout_of st \<and> heap_elems s' = heap_elems s - {e}"
    using r by auto
qed

subsection \<open>A changed timeout\<close>

text \<open>
  \<open>min_heap_adjust_\<close> is called after the timeout of \<open>e\<close> was overwritten: the invariant held
  before, and only the order around \<open>e\<close> can be wrong.
\<close>

definition set_timeout :: "'z ev_store \<Rightarrow> nat \<Rightarrow> timeval \<Rightarrow> 'z ev_store" where
  "set_timeout st e tv = st(e := (st e)\<lparr>ev_timeout := tv\<rparr>)"

lemma set_timeout_fields [simp]:
  "min_heap_idx (set_timeout st e tv x) = min_heap_idx (st x)"
  "ev_timeout (set_timeout st e tv x) = (if x = e then tv else ev_timeout (st x))"
  by (simp_all add: set_timeout_def)

lemma adjust_hole:
  fixes tv :: timeval
  assumes inv: "heap_inv st s" and h: "h < heap_n s" "heap_p s ! h = e"
  defines "st1 \<equiv> set_timeout st e tv"
  shows "hole_ok st1 (heap_n s) (heap_p s) h"
    "0 < h \<Longrightarrow> timeout_of st1 e < timeout_of st1 (heap_p s ! par h) \<Longrightarrow>
      up_ok (timeout_of st1) (heap_n s) (heap_p s) h"
    "\<not> (0 < h \<and> timeout_of st1 e < timeout_of st1 (heap_p s ! par h)) \<Longrightarrow>
      down_ok (timeout_of st1) (heap_n s) (heap_p s) h"
proof -
  let ?n = "heap_n s" and ?k = "timeout_of st1"
  show "hole_ok st1 ?n (heap_p s) h"
    using inv by (auto simp: hole_ok_def heap_inv_def heap_layout_def st1_def)
  have ne: "heap_p s ! i \<noteq> e" if "i < ?n" "i \<noteq> h" for i
    using inv that h by (metis distinct_prefix_nth_eq heap_inv_def heap_layout_def)
  then have key: "?k (heap_p s ! i) = timeout_of st (heap_p s ! i)" if "i < ?n" "i \<noteq> h" for i
    using that by (simp add: st1_def)
  have ord: "timeout_of st (heap_p s ! par i) \<le> timeout_of st (heap_p s ! i)" if "0 < i" "i < ?n" for i
    using inv that by (auto simp: heap_inv_def heap_order_def)
  have one: "?k (heap_p s ! par i) \<le> ?k (heap_p s ! i)" if "0 < i" "i < ?n" "i \<noteq> h" "par i \<noteq> h" for i
    using ord [of i] key [of i] key [of "par i"] that by simp
  have two: "?k (heap_p s ! par h) \<le> ?k (heap_p s ! i)" if "0 < i" "i < ?n" "par i = h" "0 < h" for i
  proof -
    have "timeout_of st (heap_p s ! par h) \<le> timeout_of st (heap_p s ! i)"
      using ord [of h] ord [of i] that h(1) by (auto intro: order_trans)
    moreover have "i \<noteq> h" "par h \<noteq> h" "par h < ?n" using that par_less [of i] par_less [of h] h(1) by auto
    ultimately show ?thesis using key that by simp
  qed
  show "up_ok ?k ?n (heap_p s) h" if "0 < h" and less: "?k e < ?k (heap_p s ! par h)"
    unfolding up_ok_def
  proof (intro conjI allI impI)
    fix i assume i: "0 < i \<and> i < ?n \<and> i \<noteq> h"
    show "?k (heap_p s ! par i) \<le> ?k (heap_p s ! i)"
    proof (cases "par i = h")
      case True
      then show ?thesis using two [of i] i less h(2) \<open>0 < h\<close> by simp
    qed (use one i in simp)
  qed (use two in blast)
  show "down_ok ?k ?n (heap_p s) h" if "\<not> (0 < h \<and> ?k e < ?k (heap_p s ! par h))"
    unfolding down_ok_def
  proof (intro conjI allI impI)
    fix i assume i: "0 < i \<and> i < ?n \<and> par i \<noteq> h"
    show "?k (heap_p s ! par i) \<le> ?k (heap_p s ! i)"
      using that one [of i] i h(2) by (cases "i = h") (auto simp: not_less)
  qed (use two in blast)
qed

theorem adjust_spec:
  assumes inv: "heap_inv st s" and e: "e \<in> heap_elems s"
  shows "\<exists>st' s'. min_heap_adjust realloc_ok (set_timeout st e tv) s e = Some (st', s', 0) \<and>
      heap_inv st' s' \<and> heap_elems s' = heap_elems s \<and>
      timeout_of st' = (timeout_of st)(e := tv)"
proof -
  let ?st = "set_timeout st e tv" and ?n = "heap_n s"
  obtain h where h: "h < ?n" "heap_p s ! h = e" "min_heap_idx (st e) = int h"
    using heap_inv_idx(3) [OF inv e] by blast
  have b: "?n < 2 ^ 31" "?n \<le> heap_a s" "length (heap_p s) = heap_a s" using inv by (auto simp: heap_inv_def)
  note hole = adjust_hole [OF inv h(1,2), where tv = tv]
  have same: "(heap_p s)[h := e] = heap_p s" using h by auto
  have parent: "nat (c_div (int h - 1) 2) = par h" if "0 < h"
    using that by (simp add: c_div_nonneg nat_div_distrib nat_diff_distrib')
  have "\<exists>st' s'. min_heap_adjust realloc_ok ?st s e = Some (st', s', 0) \<and> placed ?st s ?n (heap_p s) st' s'"
  proof (cases "0 < h \<and> timeout_of ?st e < timeout_of ?st (heap_p s ! par h)")
    case True
    obtain st' s' where up: "min_heap_shift_up ?st s h e = (st', s')" by fastforce
    have "min_heap_shift_up_unconditional ?st s h e = (st', s')"
      using True h b up by (subst shift_up_unconditional_eq) auto
    then have "min_heap_adjust realloc_ok ?st s e = Some (st', s', 0)"
      using True h(3) parent by (auto simp: min_heap_adjust_def Let_def split: if_splits)
    moreover have "placed ?st s ?n (heap_p s) st' s'"
      using shift_up_placed [OF up, of ?n] b h same hole(1,2) True by simp
    ultimately show ?thesis by blast
  next
    case False
    obtain st' s' where down: "min_heap_shift_down ?st s h e = Some (st', s')" "placed ?st s ?n (heap_p s) st' s'"
      using shift_down_placed [of h ?n s ?st e] b h same hole(1,3) False by auto
    moreover have "min_heap_adjust realloc_ok ?st s e = Some (st', s', 0)"
      using False h(3) parent down(1) by (cases "h = 0") (auto simp: min_heap_adjust_def Let_def)
    ultimately show ?thesis by blast
  qed
  then obtain st' s' where r: "min_heap_adjust realloc_ok ?st s e = Some (st', s', 0)"
    and pl: "placed ?st s ?n (heap_p s) st' s'" by blast
  have "heap_inv st' s' \<and> heap_elems s' = set (take ?n (heap_p s))"
    by (rule placed_inv(1) [OF pl, of e]) (use b inv e in \<open>auto simp: heap_inv_def heap_elems_def\<close>)
  moreover have "timeout_of st' = (timeout_of st)(e := tv)" using pl by (auto simp: placed_def)
  ultimately show ?thesis using r by (auto simp: heap_elems_def)
qed

section \<open>What the heap leaves alone\<close>

text \<open>The operations write no field of an event but its position.\<close>

definition idx_frame :: "'z ev_store \<Rightarrow> 'z ev_store \<Rightarrow> bool" where
  "idx_frame st st' \<longleftrightarrow> (\<forall>e. \<exists>i. st' e = (st e)\<lparr>min_heap_idx := i\<rparr>)"

lemma idx_same: "\<exists>i. r = (r :: 'z ev_timer_scheme)\<lparr>min_heap_idx := i\<rparr>"
proof
  show "r = r\<lparr>min_heap_idx := min_heap_idx r\<rparr>" by simp
qed

lemma idx_frame_refl [simp]: "idx_frame st st"
  unfolding idx_frame_def by (intro allI idx_same)

lemma idx_frame_trans: "idx_frame st st' \<Longrightarrow> idx_frame st' st'' \<Longrightarrow> idx_frame st st''"
  unfolding idx_frame_def
proof
  fix e
  assume "\<forall>e. \<exists>i. st' e = (st e)\<lparr>min_heap_idx := i\<rparr>" "\<forall>e. \<exists>i. st'' e = (st' e)\<lparr>min_heap_idx := i\<rparr>"
  then obtain i j where "st' e = (st e)\<lparr>min_heap_idx := i\<rparr>" "st'' e = (st' e)\<lparr>min_heap_idx := j\<rparr>" by blast
  then have "st'' e = (st e)\<lparr>min_heap_idx := j\<rparr>" by simp
  then show "\<exists>i. st'' e = (st e)\<lparr>min_heap_idx := i\<rparr>" by blast
qed

lemma idx_frame_set: "idx_frame st (set_heap_idx st e i)"
  by (auto simp: idx_frame_def set_heap_idx_def idx_same)

lemma idx_frame_put: "heap_put st s i e = (st', s') \<Longrightarrow> idx_frame st st'"
  by (auto simp: heap_put_def idx_frame_set)

lemma idx_frame_put_fst: "idx_frame st (fst (heap_put st s i e))"
  by (simp add: heap_put_def idx_frame_set)

lemma shift_up_frame: "min_heap_shift_up st s h e = (st', s') \<Longrightarrow> idx_frame st st'"
proof (induction st s h e rule: min_heap_shift_up.induct)
  case (1 st s h e)
  show ?case
  proof (cases "h \<noteq> 0 \<and> min_heap_elem_greater st (heap_p s ! heap_parent h) e")
    case True
    obtain st1 s1 where put: "heap_put st s h (heap_p s ! heap_parent h) = (st1, s1)" by fastforce
    then have "min_heap_shift_up st1 s1 (heap_parent h) e = (st', s')"
      using 1(2) True by (simp add: min_heap_shift_up.simps [of st s h e] Let_def)
    then have "idx_frame st1 st'" using 1(1) [OF refl True put [symmetric] refl] by simp
    then show ?thesis using idx_frame_put [OF put] idx_frame_trans by blast
  next
    case False
    then have "heap_put st s h e = (st', s')"
      using 1(2) by (simp add: min_heap_shift_up.simps [of st s h e] Let_def split: if_splits)
    then show ?thesis by (rule idx_frame_put)
  qed
qed

lemma shift_down_frame: "min_heap_shift_down st s h e = Some r \<Longrightarrow> idx_frame st (fst r)"
proof (induction rule: min_heap_shift_down.raw_induct [rotated 1, consumes 1, case_names Step])
  case (Step f st s h e r)
  show ?case
    using Step(2)
    by (auto simp: Let_def idx_frame_put_fst split: if_splits prod.splits
        dest!: Step(1) intro: idx_frame_put idx_frame_trans)
qed

text \<open>Nor do they change the capacity, which only a reservation does.\<close>

lemma heap_put_capacity [simp]: "heap_put st s i e = (st', s') \<Longrightarrow> heap_a s' = heap_a s"
  "heap_a (snd (heap_put st s i e)) = heap_a s"
  by (auto simp: heap_put_def)

lemma shift_up_capacity: "min_heap_shift_up st s h e = (st', s') \<Longrightarrow> heap_a s' = heap_a s"
proof (induction st s h e rule: min_heap_shift_up.induct)
  case (1 st s h e)
  show ?case
  proof (cases "h \<noteq> 0 \<and> min_heap_elem_greater st (heap_p s ! heap_parent h) e")
    case True
    obtain st1 s1 where put: "heap_put st s h (heap_p s ! heap_parent h) = (st1, s1)" by fastforce
    then have "min_heap_shift_up st1 s1 (heap_parent h) e = (st', s')"
      using 1(2) True by (simp add: min_heap_shift_up.simps [of st s h e] Let_def)
    then have "heap_a s' = heap_a s1" using 1(1) [OF refl True put [symmetric] refl] by simp
    then show ?thesis using put by simp
  next
    case False
    then have "heap_put st s h e = (st', s')"
      using 1(2) by (simp add: min_heap_shift_up.simps [of st s h e] Let_def split: if_splits)
    then show ?thesis by simp
  qed
qed

lemma shift_down_capacity: "min_heap_shift_down st s h e = Some r \<Longrightarrow> heap_a (snd r) = heap_a s"
proof (induction rule: min_heap_shift_down.raw_induct [rotated 1, consumes 1, case_names Step])
  case (Step f st s h e r)
  show ?case
    using Step(2) by (auto simp: Let_def split: if_splits prod.splits dest!: Step(1))
qed

lemma erase_capacity: "min_heap_erase st s e = Some (st', s', r) \<Longrightarrow> heap_a s' = heap_a s"
  unfolding min_heap_erase_def min_heap_shift_up_unconditional_def
  by (auto simp: Let_def split: if_splits prod.splits option.splits
      dest!: shift_up_capacity shift_down_capacity)

lemma heap_n_card: "heap_inv st s \<Longrightarrow> heap_n s = card (heap_elems s)"
  by (simp add: heap_inv_def heap_layout_def heap_elems_def distinct_card)

lemma reserve_inv:
  assumes "heap_inv st s" "m < 2 ^ 31" "min_heap_reserve realloc_ok s m = (s1, r)" "r \<noteq> -1"
  shows "heap_inv st s1" "heap_elems s1 = heap_elems s" "m \<le> heap_a s1" "heap_n s1 = heap_n s"
proof -
  have b: "heap_n s \<le> heap_a s" "length (heap_p s) = heap_a s" using assms(1) by (simp_all add: heap_inv_def)
  have r: "r = 0" using reserve_ok(2) [OF b assms(2,3)] assms(4) by blast
  note k = reserve_ok(1) [OF b assms(2,3) r]
  have nth: "heap_p s1 ! i = heap_p s ! i" if "i < heap_n s" for i
  proof -
    have "take (heap_n s) (heap_p s1) ! i = take (heap_n s) (heap_p s) ! i" using k by simp
    then show ?thesis using that by simp
  qed
  show e: "heap_elems s1 = heap_elems s" "m \<le> heap_a s1" "heap_n s1 = heap_n s"
    using k by (simp_all add: heap_elems_def)
  have "heap_order (timeout_of st) (heap_n s) (heap_p s1)"
    unfolding heap_order_def
  proof (intro allI impI)
    fix i
    assume i: "0 < i \<and> i < heap_n s"
    then have "par i < heap_n s" by arith
    then show "timeout_of st (heap_p s1 ! par i) \<le> timeout_of st (heap_p s1 ! i)"
      using i nth assms(1) unfolding heap_inv_def heap_order_def by presburger
  qed
  then show "heap_inv st s1"
    using assms(1) k e(1) nth by (simp add: heap_inv_def heap_layout_def)
qed

lemma push_frame: "min_heap_push realloc_ok st s e = (st', s', r) \<Longrightarrow> idx_frame st st'"
  by (auto simp: min_heap_push_def Let_def shift_up_frame split: if_splits prod.splits)

lemma erase_frame: "min_heap_erase st s e = Some (st', s', r) \<Longrightarrow> idx_frame st st'"
  unfolding min_heap_erase_def min_heap_shift_up_unconditional_def
  by (auto simp: Let_def split: if_splits prod.splits option.splits
      dest!: shift_up_frame shift_down_frame dest: idx_frame_put intro: idx_frame_trans idx_frame_set)

section \<open>The contract with the event loop\<close>

text \<open>
  \<open>timeout_process\<close> of \<open>event.c\<close> takes the top of the queue, fires it when it is due and
  repeats: the loop, with the list of the fired elements as its result.
\<close>

partial_function (option) expire_loop ::
  "('s \<Rightarrow> 'e option) \<Rightarrow> ('s \<Rightarrow> 'e \<Rightarrow> bool) \<Rightarrow> ('s \<Rightarrow> 'e \<Rightarrow> 's option) \<Rightarrow> 's \<Rightarrow> ('s \<times> 'e list) option"
where
  "expire_loop peek due fire s =
     (case peek s of
        None \<Rightarrow> Some (s, [])
      | Some e \<Rightarrow>
          (if \<not> due s e then Some (s, [])
           else Option.bind (fire s e) (\<lambda>s'.
                  Option.bind (expire_loop peek due fire s') (\<lambda>(s'', es). Some (s'', e # es)))))"

text \<open>
  What the loop needs of a timer queue: the top is an element with the least timeout, and
  firing the top removes it and leaves the timeouts of the others alone.
\<close>

locale timer_queue =
  fixes inv :: "'s \<Rightarrow> bool"
    and elems :: "'s \<Rightarrow> 'e set"
    and timeout :: "'s \<Rightarrow> 'e \<Rightarrow> timeval"
    and peek :: "'s \<Rightarrow> 'e option"
    and fire :: "'s \<Rightarrow> 'e \<Rightarrow> 's option"
  assumes finite_elems: "inv s \<Longrightarrow> finite (elems s)"
    and peek_None: "inv s \<Longrightarrow> peek s = None \<longleftrightarrow> elems s = {}"
    and peek_Some: "inv s \<Longrightarrow> peek s = Some e \<Longrightarrow>
      e \<in> elems s \<and> (\<forall>x \<in> elems s. timeout s e \<le> timeout s x)"
    and fire_peek: "inv s \<Longrightarrow> peek s = Some e \<Longrightarrow>
      \<exists>s'. fire s e = Some s' \<and> inv s' \<and> elems s' = elems s - {e} \<and>
        (\<forall>x \<in> elems s'. timeout s' x = timeout s x)"
begin

lemma expire_loop_complete:
  assumes "inv s"
  shows "\<exists>s' es. expire_loop peek (\<lambda>s e. timeout s e \<le> now) fire s = Some (s', es) \<and> inv s' \<and>
    distinct es \<and> set es = {x \<in> elems s. timeout s x \<le> now} \<and> sorted (map (timeout s) es) \<and>
    elems s' = {x \<in> elems s. now < timeout s x}"
  using assms
proof (induction "card (elems s)" arbitrary: s rule: less_induct)
  case less
  let ?loop = "expire_loop peek (\<lambda>s e. timeout s e \<le> now) fire"
  show ?case
  proof (cases "peek s")
    case None
    then have "elems s = {}" using less.prems peek_None by blast
    then show ?thesis using less.prems None by (simp add: expire_loop.simps)
  next
    case (Some e)
    have e: "e \<in> elems s" "\<forall>x \<in> elems s. timeout s e \<le> timeout s x"
      using peek_Some [OF less.prems Some] by simp_all
    show ?thesis
    proof (cases "timeout s e \<le> now")
      case False
      with e have "{x \<in> elems s. timeout s x \<le> now} = {}" "{x \<in> elems s. now < timeout s x} = elems s"
        by (auto simp: not_le)
      then show ?thesis using False Some less.prems by (simp add: expire_loop.simps)
    next
      case True
      obtain s1 where s1: "fire s e = Some s1" "inv s1" "elems s1 = elems s - {e}"
        and same: "\<forall>x \<in> elems s1. timeout s1 x = timeout s x"
        using fire_peek [OF less.prems Some] by blast
      have "card (elems s1) < card (elems s)"
        unfolding s1(3) using finite_elems [OF less.prems] e by (intro card_Diff1_less) auto
      then obtain s' es where IH: "?loop s1 = Some (s', es)" "inv s'" "distinct es"
        "set es = {x \<in> elems s1. timeout s1 x \<le> now}" "sorted (map (timeout s1) es)"
        "elems s' = {x \<in> elems s1. now < timeout s1 x}"
        using less.hyps [OF _ s1(2)] by blast
      have eq: "map (timeout s1) es = map (timeout s) es" using IH(4) same by auto
      have "sorted (map (timeout s) es)" using IH(5) unfolding eq .
      then have "sorted (map (timeout s) (e # es))" using IH(4) e s1(3) by auto
      moreover have "?loop s = Some (s', e # es)"
        using Some True s1(1) IH(1) by (simp add: expire_loop.simps)
      moreover have "set (e # es) = {x \<in> elems s. timeout s x \<le> now}"
        using e(1) True same unfolding list.set(2) IH(4) s1(3) by auto
      moreover have "elems s' = {x \<in> elems s. now < timeout s x}"
      proof -
        have "now < timeout s1 x \<longleftrightarrow> now < timeout s x" if "x \<in> elems s" "x \<noteq> e" for x
          using same that s1(3) by simp
        moreover have "\<not> now < timeout s e" using True by simp
        ultimately show ?thesis unfolding IH(6) s1(3) by auto
      qed
      moreover have "distinct (e # es)" using IH(3,4) s1(3) by simp
      ultimately show ?thesis using IH(2) by blast
    qed
  qed
qed

end

text \<open>The heap is such a queue when an element is fired by erasing it.\<close>

definition heap_fire :: "'z ev_store \<times> min_heap \<Rightarrow> nat \<Rightarrow> ('z ev_store \<times> min_heap) option" where
  "heap_fire = (\<lambda>(st, s) e. map_option (\<lambda>(st', s', r). (st', s')) (min_heap_erase st s e))"

interpretation heapq: timer_queue
  "\<lambda>(st, s). heap_inv st s" "\<lambda>(st, s). heap_elems s" "\<lambda>(st, s). timeout_of st"
  "\<lambda>(st, s). min_heap_top s" heap_fire
proof (unfold_locales, goal_cases)
  case (1 s)
  then show ?case by (cases s) (simp add: heap_elems_def)
next
  case (2 s)
  then show ?case by (cases s) (simp add: top_spec(1))
next
  case (3 s e)
  then show ?case using top_spec(2) by (cases s) force
next
  case (4 s e)
  obtain st h where s: "s = (st, h)" by fastforce
  have "e \<in> heap_elems h" using top_spec(2) [of st h e] 4 s by simp
  with erase_spec(2) [of st h e] 4 s obtain st' h' where
    "min_heap_erase st h e = Some (st', h', 0)" "heap_inv st' h'" "timeout_of st' = timeout_of st"
    "heap_elems h' = heap_elems h - {e}" by auto
  then show ?case by (auto simp: s heap_fire_def dest: fun_cong)
qed

section \<open>Properties\<close>

text \<open>A heap with the one event 5, for the witnesses.\<close>

definition one_timer :: "unit ev_store" where
  "one_timer = (\<lambda>e. \<lparr>min_heap_idx = (if e = 5 then 0 else -1), ev_timeout = Timeval 3 0\<rparr>)"

definition one_heap :: min_heap where
  "one_heap = \<lparr>heap_p = [5], heap_n = 1, heap_a = 1\<rparr>"

lemma one_heap_inv: "heap_inv one_timer one_heap" "heap_elems one_heap = {5}"
  by (simp_all add: heap_inv_def heap_elems_def heap_layout_def heap_order_def one_timer_def one_heap_def)

text \<open>
  C27. Pushing an event that is not in the heap inserts it, whatever its timeout, and keeps the
  heap invariant; it fails only when the array is full and cannot grow, and then nothing has
  changed.
\<close>

theorem min_heap_push_correct:
  assumes "heap_inv st s" "e \<notin> heap_elems s" "heap_n s + 1 < 2 ^ 31"
  shows "case min_heap_push realloc_ok st s e of (st', s', r) \<Rightarrow>
    if r = 0 then heap_inv st' s' \<and> heap_elems s' = insert e (heap_elems s) \<and> timeout_of st' = timeout_of st
    else r = -1 \<and> st' = st \<and> s' = s \<and> heap_n s = heap_a s \<and> (\<exists>b. \<not> realloc_ok b)"
proof -
  obtain st' s' r where p: "min_heap_push realloc_ok st s e = (st', s', r)" by (rule prod_cases3)
  show ?thesis
    unfolding p prod.case
  proof (cases "r = 0")
    case True
    then have "r \<noteq> -1" by simp
    with True show "if r = 0 then heap_inv st' s' \<and> heap_elems s' = insert e (heap_elems s) \<and> timeout_of st' = timeout_of st
      else r = -1 \<and> st' = st \<and> s' = s \<and> heap_n s = heap_a s \<and> (\<exists>b. \<not> realloc_ok b)"
      unfolding if_P [OF True] using push_spec [OF assms p] by blast
  next
    case False
    show "if r = 0 then heap_inv st' s' \<and> heap_elems s' = insert e (heap_elems s) \<and> timeout_of st' = timeout_of st
      else r = -1 \<and> st' = st \<and> s' = s \<and> heap_n s = heap_a s \<and> (\<exists>b. \<not> realloc_ok b)"
      unfolding if_not_P [OF False] using push_spec [OF assms p] False by blast
  qed
qed

theorem min_heap_push_correct_witness:
  "case min_heap_push (\<lambda>_. True) one_timer one_heap 7 of (st', s', r) \<Rightarrow> r = 0 \<and> heap_elems s' = {5, 7}"
proof -
  have "7 \<notin> heap_elems one_heap" "heap_n one_heap + 1 < 2 ^ 31" by (simp_all add: one_heap_def heap_elems_def)
  note p = min_heap_push_correct [OF one_heap_inv(1) this, of "\<lambda>_. True"]
  show ?thesis using p by (auto simp: one_heap_inv(2) split: prod.splits if_splits)
qed

text \<open>
  C25. Popping a heap that is not empty removes an event with the least timeout, the one
  \<open>min_heap_top_\<close> shows, and leaves the rest a heap; an empty heap gives \<open>NULL\<close>.
\<close>

theorem min_heap_pop_correct:
  assumes "heap_inv st s"
  shows "if heap_elems s = {} then min_heap_pop st s = Some (st, s, None) \<and> min_heap_top s = None
    else (\<exists>st' s' e. min_heap_pop st s = Some (st', s', Some e) \<and> heap_inv st' s' \<and>
      timeout_of st' = timeout_of st \<and> e \<in> heap_elems s \<and>
      (\<forall>x \<in> heap_elems s. timeout_of st e \<le> timeout_of st x) \<and>
      heap_elems s' = heap_elems s - {e} \<and> min_heap_idx (st' e) = -1)"
  using pop_spec [OF assms] top_spec(1) [OF assms] by auto

theorem min_heap_pop_correct_witness:
  "\<exists>st' s'. min_heap_pop one_timer one_heap = Some (st', s', Some 5) \<and> heap_elems s' = {}"
proof -
  have "heap_elems one_heap \<noteq> {}" by (simp add: one_heap_inv(2))
  then obtain st' s' e where p: "min_heap_pop one_timer one_heap = Some (st', s', Some e)"
    "e \<in> heap_elems one_heap" "heap_elems s' = heap_elems one_heap - {e}"
    using min_heap_pop_correct [OF one_heap_inv(1)] by auto
  then show ?thesis by (auto simp: one_heap_inv(2))
qed

text \<open>
  C26. Erasing an event finds it through its recorded position: the others stay a heap with
  their timeouts; an event that is not in the heap gives -1 and no change.
\<close>

theorem min_heap_erase_correct:
  assumes "heap_inv st s"
  shows "if e \<in> heap_elems s
    then (\<exists>st' s'. min_heap_erase st s e = Some (st', s', 0) \<and> heap_inv st' s' \<and>
      timeout_of st' = timeout_of st \<and> heap_elems s' = heap_elems s - {e})
    else min_heap_erase st s e = Some (st, s, -1)"
  using erase_spec [OF assms] by simp

theorem min_heap_erase_correct_witness:
  "(\<exists>st' s'. min_heap_erase one_timer one_heap 5 = Some (st', s', 0) \<and> heap_elems s' = {}) \<and>
   min_heap_erase one_timer one_heap 9 = Some (one_timer, one_heap, -1)"
  using min_heap_erase_correct [OF one_heap_inv(1), of 5] min_heap_erase_correct [OF one_heap_inv(1), of 9]
  by (auto simp: one_heap_inv(2))

text \<open>C28. After the timeout of an event in the heap was changed, \<open>min_heap_adjust_\<close> restores the heap.\<close>

theorem min_heap_adjust_correct:
  assumes "heap_inv st s" "e \<in> heap_elems s"
  shows "\<exists>st' s'. min_heap_adjust realloc_ok (set_timeout st e tv) s e = Some (st', s', 0) \<and>
    heap_inv st' s' \<and> heap_elems s' = heap_elems s \<and> timeout_of st' = (timeout_of st)(e := tv)"
  by (rule adjust_spec [OF assms])

theorem min_heap_adjust_correct_witness:
  "\<exists>st' s'. min_heap_adjust (\<lambda>_. True) (set_timeout one_timer 5 (Timeval 8 0)) one_heap 5 = Some (st', s', 0) \<and>
    heap_elems s' = {5}"
  using min_heap_adjust_correct [OF one_heap_inv(1), of 5 "\<lambda>_. True" "Timeval 8 0"]
  by (auto simp: one_heap_inv(2))

end
