(* ===== verification/Ev_Types.thy ===== *)
theory Ev_Types
  imports Ev_Minheap
begin

text \<open>
  The data the event core shares: the event flags of \<open>include/event2/event.h\<close>, the list
  flags and \<open>struct event\<close> of \<open>include/event2/event_struct.h\<close>, and the decision procedure
  for single-bit flags on words that the component proofs use.
\<close>

section \<open>Flags\<close>

text \<open>\<open>short\<close> flag fields are 16-bit words, \<open>ev_uint8_t\<close> ones 8-bit words.\<close>

type_synonym short = "16 word"

definition EV_TIMEOUT :: short where "EV_TIMEOUT = 0x01"
definition EV_READ :: short where "EV_READ = 0x02"
definition EV_WRITE :: short where "EV_WRITE = 0x04"
definition EV_SIGNAL :: short where "EV_SIGNAL = 0x08"
definition EV_PERSIST :: short where "EV_PERSIST = 0x10"
definition EV_ET :: short where "EV_ET = 0x20"
definition EV_FINALIZE :: short where "EV_FINALIZE = 0x40"
definition EV_CLOSED :: short where "EV_CLOSED = 0x80"

lemmas ev_flag_defs = EV_TIMEOUT_def EV_READ_def EV_WRITE_def EV_SIGNAL_def EV_PERSIST_def
  EV_ET_def EV_FINALIZE_def EV_CLOSED_def

definition EVLIST_TIMEOUT :: short where "EVLIST_TIMEOUT = 0x01"
definition EVLIST_INSERTED :: short where "EVLIST_INSERTED = 0x02"
definition EVLIST_SIGNAL :: short where "EVLIST_SIGNAL = 0x04"
definition EVLIST_ACTIVE :: short where "EVLIST_ACTIVE = 0x08"
definition EVLIST_INTERNAL :: short where "EVLIST_INTERNAL = 0x10"
definition EVLIST_ACTIVE_LATER :: short where "EVLIST_ACTIVE_LATER = 0x20"
definition EVLIST_FINALIZING :: short where "EVLIST_FINALIZING = 0x40"
definition EVLIST_INIT :: short where "EVLIST_INIT = 0x80"
definition EVLIST_ALL :: short where "EVLIST_ALL = 0xff"

lemmas evlist_flag_defs = EVLIST_TIMEOUT_def EVLIST_INSERTED_def EVLIST_SIGNAL_def EVLIST_ACTIVE_def
  EVLIST_INTERNAL_def EVLIST_ACTIVE_LATER_def EVLIST_FINALIZING_def EVLIST_INIT_def EVLIST_ALL_def

text \<open>\<open>if (x & FLAG)\<close> of the code.\<close>

definition has_flag :: "'a::len word \<Rightarrow> 'a word \<Rightarrow> bool" where
  "has_flag x m \<longleftrightarrow> x AND m \<noteq> 0"

text \<open>A test of a single bit is that bit: after these rules a goal about flags is propositional.\<close>

lemma has_flag_push: "has_flag (x :: 'a::len word) (push_bit n 1) \<longleftrightarrow> bit x n"
  by (simp add: has_flag_def bit_iff_and_push_bit_not_eq_0)

lemma has_flag_bits:
  "has_flag x 1 \<longleftrightarrow> bit x 0" "has_flag x 2 \<longleftrightarrow> bit x 1" "has_flag x 4 \<longleftrightarrow> bit x 2"
  "has_flag x 8 \<longleftrightarrow> bit x 3" "has_flag x 16 \<longleftrightarrow> bit x 4" "has_flag x 32 \<longleftrightarrow> bit x 5"
  "has_flag x 64 \<longleftrightarrow> bit x 6" "has_flag x 128 \<longleftrightarrow> bit x 7"
  for x :: "'a::len word"
  using has_flag_push [of x 0] has_flag_push [of x 1] has_flag_push [of x 2] has_flag_push [of x 3]
    has_flag_push [of x 4] has_flag_push [of x 5] has_flag_push [of x 6] has_flag_push [of x 7]
  by (simp_all add: push_bit_eq_mult)

lemma has_flag_or: "has_flag x (a OR b) \<longleftrightarrow> has_flag x a \<or> has_flag x b"
proof -
  have "x AND (a OR b) = (x AND a) OR (x AND b)"
    by (rule bit_word_eqI) (auto simp: bit_simps)
  then show ?thesis by (simp add: has_flag_def or_eq_0_iff)
qed

lemma has_flag_0 [simp]: "\<not> has_flag x 0" "\<not> has_flag 0 m"
  by (simp_all add: has_flag_def)

text \<open>The value of a C condition used as a flag.\<close>

definition flag_if :: "bool \<Rightarrow> 'a::len word \<Rightarrow> 'a word" where
  "flag_if b m = (if b then m else 0)"

lemma bit_flag_if: "bit (flag_if b m) n \<longleftrightarrow> b \<and> bit m n"
  by (simp add: flag_if_def)

lemma flag_if_simps [simp]: "flag_if True m = m" "flag_if False m = 0"
  by (simp_all add: flag_if_def)

lemma and_push_bit_1: "x AND push_bit n 1 = flag_if (bit x n) (push_bit n 1)" for x :: "'a::len word"
  by (rule bit_word_eqI) (auto simp: bit_simps bit_flag_if)

lemma and_flag:
  "x AND 1 = flag_if (has_flag x 1) 1" "x AND 2 = flag_if (has_flag x 2) 2"
  "x AND 4 = flag_if (has_flag x 4) 4" "x AND 128 = flag_if (has_flag x 128) 128"
  for x :: "'a::len word"
  using and_push_bit_1 [of x 0] and_push_bit_1 [of x 1] and_push_bit_1 [of x 2] and_push_bit_1 [of x 7]
  by (simp_all add: has_flag_bits push_bit_eq_mult)

lemma flag_if_map:
  "ucast (flag_if b f) = flag_if b (ucast f)" "push_bit n (flag_if b f) = flag_if b (push_bit n f)"
  by (simp_all add: flag_if_def)

lemmas flag_simps = has_flag_or has_flag_bits ev_flag_defs evlist_flag_defs bit_flag_if
  bit_or_iff bit_and_iff bit_not_iff bit_1_iff

text \<open>\<open>x & EV_READ\<close> and the like kept as a value: the flags of \<open>x\<close> inside a mask.\<close>

lemma has_flag_and_mask: "has_flag (x AND m) f \<longleftrightarrow> has_flag x (m AND f)"
  by (simp add: has_flag_def and.assoc)

text \<open>The three flags a descriptor can wait for, as a mask.\<close>

definition io_mask :: "bool \<Rightarrow> bool \<Rightarrow> bool \<Rightarrow> short" where
  "io_mask r w c = flag_if r EV_READ OR flag_if w EV_WRITE OR flag_if c EV_CLOSED"

definition io_flags :: "short \<Rightarrow> short" where
  "io_flags events = io_mask (has_flag events EV_READ) (has_flag events EV_WRITE) (has_flag events EV_CLOSED)"

lemma io_mask_inject [simp]: "io_mask r w c = io_mask r' w' c' \<longleftrightarrow> r = r' \<and> w = w' \<and> c = c'"
  by (cases r; cases w; cases c; cases r'; cases w'; cases c') (simp_all add: io_mask_def ev_flag_defs)

lemma io_mask_eq_0 [simp]: "io_mask r w c = 0 \<longleftrightarrow> \<not> r \<and> \<not> w \<and> \<not> c"
  by (cases r; cases w; cases c) (simp_all add: io_mask_def ev_flag_defs)

lemma has_flag_io_mask [simp]:
  "has_flag (io_mask r w c) EV_READ = r" "has_flag (io_mask r w c) EV_WRITE = w"
  "has_flag (io_mask r w c) EV_CLOSED = c" "\<not> has_flag (io_mask r w c) EV_ET"
  "\<not> has_flag (io_mask r w c) EV_SIGNAL"
  by (cases r; cases w; cases c; simp add: io_mask_def ev_flag_defs has_flag_def)+

lemma io_mask_or: "io_mask r w c OR io_mask r' w' c' = io_mask (r \<or> r') (w \<or> w') (c \<or> c')"
  by (cases r; cases w; cases c; cases r'; cases w'; cases c') (simp_all add: io_mask_def ev_flag_defs)

lemma io_mask_and: "io_mask r w c AND io_mask r' w' c' = io_mask (r \<and> r') (w \<and> w') (c \<and> c')"
  by (cases r; cases w; cases c; cases r'; cases w'; cases c') (simp_all add: io_mask_def ev_flag_defs)

lemma io_mask_diff:
  "io_mask r w c AND NOT (io_mask r' w' c') = io_mask (r \<and> \<not> r') (w \<and> \<not> w') (c \<and> \<not> c')"
  by (cases r; cases w; cases c; cases r'; cases w'; cases c') (simp_all add: io_mask_def ev_flag_defs)

lemma io_flags_io_mask [simp]: "io_flags (io_mask r w c) = io_mask r w c"
  by (simp add: io_flags_def)

lemma io_flags_0 [simp]: "io_flags 0 = 0"
  by (simp add: io_flags_def)

section \<open>struct event\<close>

datatype ev_closure =
    EV_CLOSURE_EVENT
  | EV_CLOSURE_EVENT_SIGNAL
  | EV_CLOSURE_EVENT_PERSIST
  | EV_CLOSURE_CB_SELF
  | EV_CLOSURE_CB_FINALIZE
  | EV_CLOSURE_EVENT_FINALIZE
  | EV_CLOSURE_EVENT_FINALIZE_FREE

text \<open>
  An event is an address into a store of these records. The first member of
  \<open>struct event\<close> is its \<open>struct event_callback\<close>, so the two have one address and
  \<open>event_callback_to_event\<close> is the identity on addresses; a deferred callback is an address
  whose callback fields alone are used (its \<open>EVLIST_INIT\<close> flag is clear). The links
  (\<open>evcb_active_next\<close>, \<open>ev_io_next\<close>, \<open>ev_signal_next\<close>, \<open>ev_next_with_common_timeout\<close>) are
  not fields: the lists they form are lists of addresses held by the base. The members of
  the union \<open>ev_\<close> of I/O and signal events are separate fields; the pointer \<open>ev_pncalls\<close>
  is \<open>False\<close> when it is \<open>NULL\<close>; otherwise it points at the local counter of
  \<open>event_signal_closure\<close>, which the base holds (\<open>signal_ncalls\<close>).
\<close>

record event = ev_timer +
  ev_flags :: short
  ev_pri :: nat
  ev_closure :: ev_closure
  ev_fd :: int
  ev_events :: short
  ev_res :: short
  ev_io_timeout :: timeval
  ev_ncalls :: short
  ev_pncalls :: bool

type_synonym ev_addr = nat
type_synonym ev_heap = "ev_addr \<Rightarrow> event"

end
