(* ===== verification/Ev_Changelist.thy ===== *)
theory Ev_Changelist
  imports Ev_Types
begin

text \<open>
  The changelist of \<open>changelist-internal.h\<close> and \<open>evmap.c\<close>: the queue of changes to the
  descriptors' event sets that a backend applies at its next dispatch. A change records the
  events enabled before it and, for reading, writing and closing, whether to add or delete.
  The per-descriptor \<open>fdinfo\<close> holds the position of the descriptor's change plus one, or 0.
\<close>

section \<open>State\<close>

definition EV_CHANGE_ADD :: byte where "EV_CHANGE_ADD = 0x01"
definition EV_CHANGE_DEL :: byte where "EV_CHANGE_DEL = 0x02"
definition EV_CHANGE_SIGNAL :: byte where "EV_CHANGE_SIGNAL = ucast EV_SIGNAL"
definition EV_CHANGE_ET :: byte where "EV_CHANGE_ET = ucast EV_ET"

lemmas change_flag_defs = EV_CHANGE_ADD_def EV_CHANGE_DEL_def EV_CHANGE_SIGNAL_def EV_CHANGE_ET_def

record event_change =
  ch_fd :: int
  old_events :: short
  read_change :: byte
  write_change :: byte
  close_change :: byte

text \<open>\<open>memset(change, 0, sizeof(struct event_change))\<close>.\<close>

definition zero_change :: event_change where
  "zero_change = \<lparr>ch_fd = 0, old_events = 0, read_change = 0, write_change = 0, close_change = 0\<rparr>"

text \<open>
  The array \<open>changes\<close> has \<open>changes_size\<close> cells; the cells a reallocation adds hold a zero
  change here (the code clears a cell before it uses it).
\<close>

record event_changelist =
  changes :: "event_change list"
  n_changes :: nat
  changes_size :: nat

definition event_changelist_init :: event_changelist where
  "event_changelist_init = \<lparr>changes = [], n_changes = 0, changes_size = 0\<rparr>"

section \<open>Operations\<close>

text \<open>
  \<open>realloc_ok bytes\<close>: whether \<open>mm_realloc\<close> succeeds; \<open>sizeof(struct event_change)\<close> is 12.
  Results: the new state and the C return value.
\<close>

definition event_changelist_grow :: "(nat \<Rightarrow> bool) \<Rightarrow> event_changelist \<Rightarrow> event_changelist \<times> int" where
  "event_changelist_grow realloc_ok cl =
     (let new_size = (if changes_size cl < 64 then 64 else changes_size cl * 2)
      in if \<not> realloc_ok (new_size * 12) then (cl, -1)
         else (cl\<lparr>changes := changes cl @ replicate (new_size - length (changes cl)) zero_change,
                  changes_size := new_size\<rparr>, 0))"

text \<open>
  \<open>event_changelist_get_or_construct\<close>: the index of the descriptor's change, made if there
  is none, with the new changelist and \<open>fdinfo\<close>. The outer \<open>None\<close> is a failed
  \<open>EVUTIL_ASSERT\<close> or an index outside the array; the inner one the code's \<open>NULL\<close>.
\<close>

definition event_changelist_get_or_construct ::
  "(nat \<Rightarrow> bool) \<Rightarrow> event_changelist \<Rightarrow> int \<Rightarrow> short \<Rightarrow> nat
   \<Rightarrow> (event_changelist \<times> nat \<times> nat option) option"
where
  "event_changelist_get_or_construct realloc_ok cl fd old fdinfo =
     (if fdinfo = 0 then
        (if \<not> n_changes cl \<le> changes_size cl then None
         else
           (let (cl1, r) = (if n_changes cl = changes_size cl
                            then event_changelist_grow realloc_ok cl else (cl, 0))
            in if r < 0 then Some (cl1, fdinfo, None)
               else
                 (let idx = n_changes cl1
                  in if \<not> idx < length (changes cl1) then None
                     else Some (cl1\<lparr>n_changes := n_changes cl1 + 1,
                                   changes := (changes cl1)[idx :=
                                      zero_change\<lparr>ch_fd := fd, old_events := old\<rparr>]\<rparr>,
                                idx + 1, Some idx))))
      else
        (let idx = fdinfo - 1
         in if \<not> idx < length (changes cl) \<or> ch_fd (changes cl ! idx) \<noteq> fd then None
            else Some (cl, fdinfo, Some idx)))"

definition set_change :: "event_changelist \<Rightarrow> nat \<Rightarrow> event_change \<Rightarrow> event_changelist" where
  "set_change cl idx c = cl\<lparr>changes := (changes cl)[idx := c]\<rparr>"

text \<open>The assignments to the three change fields of \<open>event_changelist_add_\<close>.\<close>

definition record_add :: "event_change \<Rightarrow> short \<Rightarrow> event_change" where
  "record_add change events =
     (let evchange = EV_CHANGE_ADD OR ucast (events AND (EV_ET OR EV_PERSIST OR EV_SIGNAL));
          c1 = (if has_flag events (EV_READ OR EV_SIGNAL)
                then change\<lparr>read_change := evchange\<rparr> else change);
          c2 = (if has_flag events EV_WRITE then c1\<lparr>write_change := evchange\<rparr> else c1)
      in if has_flag events EV_CLOSED then c2\<lparr>close_change := evchange\<rparr> else c2)"

definition event_changelist_add ::
  "(nat \<Rightarrow> bool) \<Rightarrow> event_changelist \<Rightarrow> int \<Rightarrow> short \<Rightarrow> short \<Rightarrow> nat
   \<Rightarrow> (event_changelist \<times> nat \<times> int) option"
where
  "event_changelist_add realloc_ok cl fd old events fdinfo =
     (case event_changelist_get_or_construct realloc_ok cl fd old fdinfo of
        None \<Rightarrow> None
      | Some (cl1, fdinfo1, None) \<Rightarrow> Some (cl1, fdinfo1, -1)
      | Some (cl1, fdinfo1, Some idx) \<Rightarrow>
          Some (set_change cl1 idx (record_add (changes cl1 ! idx) events), fdinfo1, 0))"

text \<open>
  The three updates of \<open>event_changelist_del_\<close>: a delete of an event that was not enabled
  before the change leaves no change at all.
\<close>

definition record_del :: "event_change \<Rightarrow> short \<Rightarrow> event_change" where
  "record_del change events =
     (let del = EV_CHANGE_DEL OR ucast (events AND EV_ET);
          c1 = (if has_flag events (EV_READ OR EV_SIGNAL)
                then change\<lparr>read_change :=
                       (if \<not> has_flag (old_events change) (EV_READ OR EV_SIGNAL) then 0 else del)\<rparr>
                else change);
          c2 = (if has_flag events EV_WRITE
                then c1\<lparr>write_change :=
                       (if \<not> has_flag (old_events change) EV_WRITE then 0 else del)\<rparr>
                else c1)
      in if has_flag events EV_CLOSED
         then c2\<lparr>close_change := (if \<not> has_flag (old_events change) EV_CLOSED then 0 else del)\<rparr>
         else c2)"

definition event_changelist_del ::
  "(nat \<Rightarrow> bool) \<Rightarrow> event_changelist \<Rightarrow> int \<Rightarrow> short \<Rightarrow> short \<Rightarrow> nat
   \<Rightarrow> (event_changelist \<times> nat \<times> int) option"
where
  "event_changelist_del realloc_ok cl fd old events fdinfo =
     (case event_changelist_get_or_construct realloc_ok cl fd old fdinfo of
        None \<Rightarrow> None
      | Some (cl1, fdinfo1, None) \<Rightarrow> Some (cl1, fdinfo1, -1)
      | Some (cl1, fdinfo1, Some idx) \<Rightarrow>
          Some (set_change cl1 idx (record_del (changes cl1 ! idx) events), fdinfo1, 0))"

text \<open>
  \<open>event_change_get_fdinfo\<close> finds the \<open>fdinfo\<close> of a change in the signal map when the
  change is one of a signal, in the I/O map otherwise. The two maps appear as functions from
  numbers to the \<open>fdinfo\<close> behind the entry; \<open>None\<close> is a missing entry.
\<close>

type_synonym fdinfo_map = "int \<Rightarrow> nat option"

definition event_change_get_fdinfo :: "fdinfo_map \<Rightarrow> fdinfo_map \<Rightarrow> event_change \<Rightarrow> nat option" where
  "event_change_get_fdinfo io sigs change =
     (if has_flag (read_change change) EV_CHANGE_SIGNAL then sigs (ch_fd change)
      else io (ch_fd change))"

definition clear_fdinfo :: "fdinfo_map \<Rightarrow> fdinfo_map \<Rightarrow> event_change \<Rightarrow> fdinfo_map \<times> fdinfo_map" where
  "clear_fdinfo io sigs change =
     (if has_flag (read_change change) EV_CHANGE_SIGNAL then (io, sigs(ch_fd change \<mapsto> 0))
      else (io(ch_fd change \<mapsto> 0), sigs))"

text \<open>The loop of \<open>event_changelist_remove_all_\<close> from index \<open>i\<close>, over the remaining changes.\<close>

fun remove_all_from ::
  "nat \<Rightarrow> event_change list \<Rightarrow> fdinfo_map \<Rightarrow> fdinfo_map \<Rightarrow> (fdinfo_map \<times> fdinfo_map) option"
where
  "remove_all_from i [] io sigs = Some (io, sigs)"
| "remove_all_from i (ch # chs) io sigs =
     (if event_change_get_fdinfo io sigs ch \<noteq> Some (i + 1) then None
      else (let (io', sigs') = clear_fdinfo io sigs ch in remove_all_from (i + 1) chs io' sigs'))"

definition event_changelist_remove_all ::
  "event_changelist \<Rightarrow> fdinfo_map \<Rightarrow> fdinfo_map \<Rightarrow> (event_changelist \<times> fdinfo_map \<times> fdinfo_map) option"
where
  "event_changelist_remove_all cl io sigs =
     map_option (\<lambda>(io', sigs'). (cl\<lparr>n_changes := 0\<rparr>, io', sigs'))
       (remove_all_from 0 (take (n_changes cl) (changes cl)) io sigs)"

definition event_changelist_freemem :: "event_changelist \<Rightarrow> event_changelist" where
  "event_changelist_freemem cl = event_changelist_init"

text \<open>
  \<open>event_changelist_assert_ok\<close> as a predicate, what it asserts: every change is for a valid number
  whose \<open>fdinfo\<close> points back at it, and every \<open>fdinfo\<close> of the \<open>nio\<close> slots of the I/O map that points at a
  change points at one of its descriptor. A position outside the array makes the check fail.
\<close>

definition event_changelist_assert_ok_foreach_iter_fn :: "event_changelist \<Rightarrow> int \<Rightarrow> nat \<Rightarrow> bool" where
  "event_changelist_assert_ok_foreach_iter_fn cl fd idxplus1 \<longleftrightarrow>
     (idxplus1 \<noteq> 0 \<longrightarrow> idxplus1 - 1 < length (changes cl) \<and> ch_fd (changes cl ! (idxplus1 - 1)) = fd)"

definition event_changelist_assert_ok :: "event_changelist \<Rightarrow> nat \<Rightarrow> fdinfo_map \<Rightarrow> fdinfo_map \<Rightarrow> bool" where
  "event_changelist_assert_ok cl nio io sigs \<longleftrightarrow>
     n_changes cl \<le> changes_size cl \<and>
     (\<forall>i < n_changes cl. 0 \<le> ch_fd (changes cl ! i) \<and>
        event_change_get_fdinfo io sigs (changes cl ! i) = Some (i + 1)) \<and>
     (\<forall>fd < nio. case io (int fd) of None \<Rightarrow> True
        | Some idxplus1 \<Rightarrow> event_changelist_assert_ok_foreach_iter_fn cl (int fd) idxplus1)"

section \<open>What a change stands for\<close>

text \<open>
  Whether the event is enabled after a change field is applied, and the set of events a
  change leaves enabled on its descriptor.
\<close>

definition change_applies :: "bool \<Rightarrow> byte \<Rightarrow> bool" where
  "change_applies old x =
     (if has_flag x EV_CHANGE_ADD then True else if has_flag x EV_CHANGE_DEL then False else old)"

definition change_view :: "event_change \<Rightarrow> short" where
  "change_view c = io_mask
     (change_applies (has_flag (old_events c) EV_READ) (read_change c))
     (change_applies (has_flag (old_events c) EV_WRITE) (write_change c))
     (change_applies (has_flag (old_events c) EV_CLOSED) (close_change c))"

text \<open>No field asks for an addition and a deletion at once, and none is a signal's.\<close>

definition change_field_ok :: "byte \<Rightarrow> bool" where
  "change_field_ok x \<longleftrightarrow> \<not> (has_flag x EV_CHANGE_ADD \<and> has_flag x EV_CHANGE_DEL) \<and>
     \<not> has_flag x EV_CHANGE_SIGNAL"

definition change_ok :: "event_change \<Rightarrow> bool" where
  "change_ok c \<longleftrightarrow> change_field_ok (read_change c) \<and> change_field_ok (write_change c) \<and>
     change_field_ok (close_change c) \<and> \<not> has_flag (old_events c) EV_SIGNAL"

lemma add_field:
  assumes "\<not> has_flag events EV_SIGNAL"
  shows "change_field_ok (EV_CHANGE_ADD OR ucast (events AND (EV_ET OR EV_PERSIST OR EV_SIGNAL)))"
    "change_applies b (EV_CHANGE_ADD OR ucast (events AND (EV_ET OR EV_PERSIST OR EV_SIGNAL)))"
  using assms
  by (simp_all add: change_field_ok_def change_applies_def change_flag_defs flag_simps bit_ucast_iff del: bit_0)

lemma del_field:
  shows "change_field_ok (EV_CHANGE_DEL OR ucast (events AND EV_ET))"
    "\<not> change_applies b (EV_CHANGE_DEL OR ucast (events AND EV_ET))"
  by (simp_all add: change_field_ok_def change_applies_def change_flag_defs flag_simps bit_ucast_iff del: bit_0)

lemma zero_field [simp]: "change_field_ok 0" "change_applies b 0 = b"
  by (simp_all add: change_field_ok_def change_applies_def)

lemma record_add_view:
  assumes "\<not> has_flag events EV_SIGNAL" "change_ok c"
  shows "change_view (record_add c events) = change_view c OR io_flags events"
    "change_ok (record_add c events)" "ch_fd (record_add c events) = ch_fd c"
    "old_events (record_add c events) = old_events c"
  using assms
  by (auto simp: record_add_def change_view_def io_flags_def io_mask_or Let_def has_flag_or
      change_ok_def add_field)

lemma record_del_view:
  assumes "\<not> has_flag events EV_SIGNAL" "change_ok c"
  shows "change_view (record_del c events) = change_view c AND NOT (io_flags events)"
    "change_ok (record_del c events)" "ch_fd (record_del c events) = ch_fd c"
    "old_events (record_del c events) = old_events c"
  using assms
  by (auto simp: record_del_def change_view_def io_flags_def io_mask_diff Let_def has_flag_or
      change_ok_def del_field)

section \<open>The invariant and the operations\<close>

definition changelist_inv :: "event_changelist \<Rightarrow> fdinfo_map \<Rightarrow> bool" where
  "changelist_inv cl io \<longleftrightarrow>
     length (changes cl) = changes_size cl \<and> n_changes cl \<le> changes_size cl \<and>
     (\<forall>i < n_changes cl. 0 \<le> ch_fd (changes cl ! i) \<and> io (ch_fd (changes cl ! i)) = Some (i + 1) \<and>
        change_ok (changes cl ! i)) \<and>
     (\<forall>fd k. io fd = Some k \<longrightarrow> k \<noteq> 0 \<longrightarrow> k \<le> n_changes cl \<and> ch_fd (changes cl ! (k - 1)) = fd)"

text \<open>
  The set a descriptor will have after the changes are applied: what its change says, or
  what is enabled now when it has none.
\<close>

definition pending_view :: "event_changelist \<Rightarrow> nat \<Rightarrow> short \<Rightarrow> short" where
  "pending_view cl fdinfo old =
     (if fdinfo = 0 then io_flags old else change_view (changes cl ! (fdinfo - 1)))"

text \<open>The set the change was made against.\<close>

definition base_view :: "event_changelist \<Rightarrow> nat \<Rightarrow> short \<Rightarrow> short" where
  "base_view cl fdinfo old =
     io_flags (if fdinfo = 0 then old else old_events (changes cl ! (fdinfo - 1)))"

lemma changelist_inv_assert_ok: "changelist_inv cl io \<Longrightarrow> event_changelist_assert_ok cl nio io sigs"
proof -
  assume inv: "changelist_inv cl io"
  have "event_changelist_assert_ok_foreach_iter_fn cl fd k" if "io fd = Some k" for fd k
  proof -
    have "k \<noteq> 0 \<longrightarrow> k \<le> n_changes cl \<and> ch_fd (changes cl ! (k - 1)) = fd" "n_changes cl \<le> length (changes cl)"
      using inv that unfolding changelist_inv_def by simp_all
    then show ?thesis by (auto simp: event_changelist_assert_ok_foreach_iter_fn_def)
  qed
  then show ?thesis using inv
    by (auto simp: changelist_inv_def event_changelist_assert_ok_def event_change_get_fdinfo_def
        change_ok_def change_field_ok_def split: option.splits)
qed

lemma changelist_inv_length: "changelist_inv cl io \<Longrightarrow> n_changes cl \<le> length (changes cl)"
  by (simp add: changelist_inv_def)

lemma changelist_inv_cong:
  assumes inv: "changelist_inv cl io" and n: "n_changes cl' = n_changes cl"
    and len: "length (changes cl') = changes_size cl'" "n_changes cl \<le> changes_size cl'"
    and same: "\<forall>j < n_changes cl. changes cl' ! j = changes cl ! j"
  shows "changelist_inv cl' io"
proof -
  have "k \<le> n_changes cl' \<and> ch_fd (changes cl' ! (k - 1)) = fd" if "io fd = Some k" "k \<noteq> 0" for fd k
  proof -
    have "k \<le> n_changes cl" "ch_fd (changes cl ! (k - 1)) = fd"
      using inv that unfolding changelist_inv_def by blast+
    then show ?thesis using that(2) n same by simp
  qed
  moreover have "\<forall>i < n_changes cl'. 0 \<le> ch_fd (changes cl' ! i) \<and>
      io (ch_fd (changes cl' ! i)) = Some (i + 1) \<and> change_ok (changes cl' ! i)"
    using inv n same by (simp add: changelist_inv_def)
  ultimately show ?thesis using n len unfolding changelist_inv_def by simp
qed

lemma grow_spec:
  assumes "changelist_inv cl io" "event_changelist_grow realloc_ok cl = (cl', r)"
  shows "changelist_inv cl' io" "n_changes cl' = n_changes cl"
    "\<forall>j < n_changes cl. changes cl' ! j = changes cl ! j"
    "r < 0 \<Longrightarrow> cl' = cl" "\<not> r < 0 \<Longrightarrow> changes_size cl < changes_size cl'" "r = 0 \<or> r = -1"
proof -
  have b: "length (changes cl) = changes_size cl" "n_changes cl \<le> changes_size cl"
    using assms(1) by (simp_all add: changelist_inv_def)
  show same: "n_changes cl' = n_changes cl" "\<forall>j < n_changes cl. changes cl' ! j = changes cl ! j"
    "r < 0 \<Longrightarrow> cl' = cl" "\<not> r < 0 \<Longrightarrow> changes_size cl < changes_size cl'" "r = 0 \<or> r = -1"
    using assms(2) b by (auto simp: event_changelist_grow_def nth_append Let_def split: if_splits)
  show "changelist_inv cl' io"
    by (rule changelist_inv_cong [OF assms(1) same(1) _ _ same(2)])
      (use assms(2) b in \<open>auto simp: event_changelist_grow_def Let_def split: if_splits\<close>)
qed

lemma changelist_inv_insert:
  assumes inv: "changelist_inv cl io" and fd: "0 \<le> fd" "io fd = Some 0"
    and room: "n_changes cl < changes_size cl" and c: "ch_fd c = fd" "change_ok c"
  shows "changelist_inv
    (cl\<lparr>n_changes := n_changes cl + 1, changes := (changes cl)[n_changes cl := c]\<rparr>)
    (io(fd \<mapsto> n_changes cl + 1))"
proof -
  have new: "ch_fd (changes cl ! i) \<noteq> fd" if "i < n_changes cl" for i
    using inv fd(2) that by (auto simp: changelist_inv_def)
  have len: "length (changes cl) = changes_size cl"
    and cells: "\<And>i. i < n_changes cl \<Longrightarrow> 0 \<le> ch_fd (changes cl ! i) \<and>
        io (ch_fd (changes cl ! i)) = Some (i + 1) \<and> change_ok (changes cl ! i)"
    using inv by (simp_all add: changelist_inv_def)
  have idx: "k \<le> n_changes cl \<and> k - 1 \<noteq> n_changes cl \<and> ch_fd (changes cl ! (k - 1)) = fd'"
    if "io fd' = Some k" "k \<noteq> 0" for fd' k
  proof -
    have "k \<le> n_changes cl" "ch_fd (changes cl ! (k - 1)) = fd'"
      using inv that unfolding changelist_inv_def by blast+
    then show ?thesis using that(2) by simp
  qed
  let ?cl = "cl\<lparr>n_changes := n_changes cl + 1, changes := (changes cl)[n_changes cl := c]\<rparr>"
  let ?io = "io(fd \<mapsto> n_changes cl + 1)"
  have "0 \<le> ch_fd (changes ?cl ! i) \<and> ?io (ch_fd (changes ?cl ! i)) = Some (i + 1) \<and>
      change_ok (changes ?cl ! i)" if "i < n_changes ?cl" for i
    using that cells [of i] new [of i] fd(1) c len room
    by (cases "i = n_changes cl") auto
  moreover have "k \<le> n_changes ?cl \<and> ch_fd (changes ?cl ! (k - 1)) = fd'"
    if "?io fd' = Some k" "k \<noteq> 0" for fd' k
    using that idx [of fd' k] c(1) len room by (cases "fd' = fd") auto
  ultimately show ?thesis using len room unfolding changelist_inv_def by simp
qed

lemma changelist_inv_update:
  assumes inv: "changelist_inv cl io" and i: "i < n_changes cl"
    and c: "ch_fd c = ch_fd (changes cl ! i)" "change_ok c"
  shows "changelist_inv (set_change cl i c) io"
  using assms unfolding changelist_inv_def set_change_def by (auto simp: nth_list_update)

lemma get_or_construct_spec:
  assumes inv: "changelist_inv cl io" and fd: "0 \<le> fd" "io fd = Some k"
    and old: "\<not> has_flag old EV_SIGNAL"
  shows "\<exists>cl' k' r. event_changelist_get_or_construct realloc_ok cl fd old k = Some (cl', k', r) \<and>
    changelist_inv cl' (io(fd \<mapsto> k')) \<and> n_changes cl \<le> n_changes cl' \<and>
    (\<forall>j < n_changes cl. changes cl' ! j = changes cl ! j) \<and>
    (case r of None \<Rightarrow> cl' = cl \<and> k' = k
     | Some idx \<Rightarrow> idx < n_changes cl' \<and> k' = idx + 1 \<and> ch_fd (changes cl' ! idx) = fd \<and>
         change_view (changes cl' ! idx) = pending_view cl k old \<and>
         io_flags (old_events (changes cl' ! idx)) = base_view cl k old)"
proof (cases "k = 0")
  case True
  have size: "n_changes cl \<le> changes_size cl" using inv by (simp add: changelist_inv_def)
  obtain cl1 r where g: "(if n_changes cl = changes_size cl
      then event_changelist_grow realloc_ok cl else (cl, 0)) = (cl1, r)" by fastforce
  have grown: "changelist_inv cl1 io" "n_changes cl1 = n_changes cl"
    "\<forall>j < n_changes cl. changes cl1 ! j = changes cl ! j" "r < 0 \<Longrightarrow> cl1 = cl"
    using g grow_spec [OF inv, of realloc_ok cl1 r] inv by (auto split: if_splits)
  have room: "n_changes cl < changes_size cl1" if "\<not> r < 0"
    using g grow_spec(5) [OF inv, of realloc_ok cl1 r] size that by (auto split: if_splits)
  have ids: "io(fd \<mapsto> 0) = io" using fd(2) True by auto
  show ?thesis
  proof (cases "r < 0")
    case True
    then show ?thesis using g grown(4) inv \<open>k = 0\<close> ids size
      by (simp add: event_changelist_get_or_construct_def)
  next
    case False
    let ?c = "zero_change\<lparr>ch_fd := fd, old_events := old\<rparr>"
    let ?cl = "cl1\<lparr>n_changes := n_changes cl + 1, changes := (changes cl1)[n_changes cl := ?c]\<rparr>"
    have c: "ch_fd ?c = fd" "change_ok ?c" "change_view ?c = io_flags old" "old_events ?c = old"
      using old by (simp_all add: change_ok_def zero_change_def change_view_def io_flags_def)
    have len: "n_changes cl < length (changes cl1)" "n_changes cl \<le> changes_size cl"
      using room [OF False] grown(1) inv by (simp_all add: changelist_inv_def)
    have "changelist_inv ?cl (io(fd \<mapsto> n_changes cl + 1))"
      using changelist_inv_insert [OF grown(1) fd(1) _ _ c(1,2)] fd(2) True room [OF False] grown(2) by simp
    moreover have "event_changelist_get_or_construct realloc_ok cl fd old k =
        Some (?cl, n_changes cl + 1, Some (n_changes cl))"
      using g False True len grown(2) by (simp add: event_changelist_get_or_construct_def Let_def)
    ultimately show ?thesis using c len(1) grown(3) True by (simp add: pending_view_def base_view_def)
  qed
next
  case False
  then have k: "k \<le> n_changes cl" "ch_fd (changes cl ! (k - 1)) = fd"
    using inv fd(2) by (auto simp: changelist_inv_def)
  moreover have "io(fd \<mapsto> k) = io" using fd(2) by auto
  ultimately show ?thesis using False inv
    by (auto simp: event_changelist_get_or_construct_def pending_view_def base_view_def Let_def dest: changelist_inv_length)
qed

text \<open>
  What both operations do: a failed allocation changes nothing and is reported, and otherwise
  the descriptor's pending set is updated and no other descriptor's is.
\<close>

definition changelist_updated ::
  "event_changelist \<Rightarrow> fdinfo_map \<Rightarrow> int \<Rightarrow> short \<Rightarrow> short \<Rightarrow> event_changelist \<Rightarrow> nat \<Rightarrow> int \<Rightarrow> bool"
where
  "changelist_updated cl io fd old new cl' k' r \<longleftrightarrow>
     changelist_inv cl' (io(fd \<mapsto> k')) \<and>
     (\<forall>fd' k2 old2. fd' \<noteq> fd \<longrightarrow> io fd' = Some k2 \<longrightarrow>
        pending_view cl' k2 old2 = pending_view cl k2 old2 \<and> base_view cl' k2 old2 = base_view cl k2 old2) \<and>
     (if r = 0 then k' \<noteq> 0 \<and> pending_view cl' k' old = new \<and>
        (\<forall>k. io fd = Some k \<longrightarrow> base_view cl' k' old = base_view cl k old)
      else r = -1 \<and> cl' = cl \<and> io fd = Some k')"

lemma changelist_record:
  assumes inv: "changelist_inv cl io" and fd: "0 \<le> fd" "io fd = Some k"
    and old: "\<not> has_flag old EV_SIGNAL"
    and rec: "\<And>c. change_ok c \<Longrightarrow> ch_fd (rec c) = ch_fd c \<and> change_ok (rec c) \<and>
      change_view (rec c) = upd (change_view c) \<and> old_events (rec c) = old_events c"
  shows "\<exists>cl' k' r.
    (case event_changelist_get_or_construct realloc_ok cl fd old k of
        None \<Rightarrow> None
      | Some (cl1, fdinfo1, None) \<Rightarrow> Some (cl1, fdinfo1, -1)
      | Some (cl1, fdinfo1, Some idx) \<Rightarrow>
          Some (set_change cl1 idx (rec (changes cl1 ! idx)), fdinfo1, 0)) = Some (cl', k', r) \<and>
    changelist_updated cl io fd old (upd (pending_view cl k old)) cl' k' r"
proof -
  obtain cl1 k1 r where g: "event_changelist_get_or_construct realloc_ok cl fd old k = Some (cl1, k1, r)"
    and inv1: "changelist_inv cl1 (io(fd \<mapsto> k1))" and n: "n_changes cl \<le> n_changes cl1"
    and same: "\<forall>j < n_changes cl. changes cl1 ! j = changes cl ! j"
    and r: "case r of None \<Rightarrow> cl1 = cl \<and> k1 = k
     | Some idx \<Rightarrow> idx < n_changes cl1 \<and> k1 = idx + 1 \<and> ch_fd (changes cl1 ! idx) = fd \<and>
         change_view (changes cl1 ! idx) = pending_view cl k old \<and>
         io_flags (old_events (changes cl1 ! idx)) = base_view cl k old"
    using get_or_construct_spec [OF inv fd old, of realloc_ok] by blast
  show ?thesis
  proof (cases r)
    case None
    then show ?thesis using g r inv1 fd(2) by (auto simp: changelist_updated_def)
  next
    case (Some idx)
    let ?c = "rec (changes cl1 ! idx)"
    have i: "idx < n_changes cl1" "k1 = idx + 1" "ch_fd (changes cl1 ! idx) = fd"
      "change_view (changes cl1 ! idx) = pending_view cl k old"
      "io_flags (old_events (changes cl1 ! idx)) = base_view cl k old" using r Some by simp_all
    have ok: "change_ok (changes cl1 ! idx)" using inv1 i(1) by (simp add: changelist_inv_def)
    note c = rec [OF ok]
    have "changelist_inv (set_change cl1 idx ?c) (io(fd \<mapsto> k1))"
      by (rule changelist_inv_update [OF inv1 i(1)]) (use c in simp_all)
    moreover have "pending_view (set_change cl1 idx ?c) k2 old2 = pending_view cl k2 old2 \<and>
        base_view (set_change cl1 idx ?c) k2 old2 = base_view cl k2 old2"
      if "fd' \<noteq> fd" "io fd' = Some k2" for fd' k2 old2
    proof (cases "k2 = 0")
      case False
      then have "k2 \<le> n_changes cl" "ch_fd (changes cl ! (k2 - 1)) = fd'"
        using inv that(2) by (auto simp: changelist_inv_def)
      then have "k2 - 1 \<noteq> idx" "changes cl1 ! (k2 - 1) = changes cl ! (k2 - 1)"
        using same i(3) that(1) False by auto
      then show ?thesis using False by (simp add: pending_view_def base_view_def set_change_def)
    qed (simp add: pending_view_def base_view_def)
    moreover have "pending_view (set_change cl1 idx ?c) k1 old = upd (pending_view cl k old)"
      using i c changelist_inv_length [OF inv1] by (simp add: pending_view_def set_change_def)
    moreover have "base_view (set_change cl1 idx ?c) k1 old = base_view cl k old"
      using i c changelist_inv_length [OF inv1] by (simp add: base_view_def set_change_def)
    ultimately show ?thesis using g Some i(2) fd(2) by (simp add: changelist_updated_def)
  qed
qed

lemma changelist_add_spec:
  assumes "changelist_inv cl io" "0 \<le> fd" "io fd = Some k"
    "\<not> has_flag old EV_SIGNAL" "\<not> has_flag events EV_SIGNAL"
  shows "\<exists>cl' k' r. event_changelist_add realloc_ok cl fd old events k = Some (cl', k', r) \<and>
    changelist_updated cl io fd old (pending_view cl k old OR io_flags events) cl' k' r"
  unfolding event_changelist_add_def
  by (rule changelist_record [where upd = "\<lambda>v. v OR io_flags events"])
    (use assms record_add_view in auto)

lemma changelist_del_spec:
  assumes "changelist_inv cl io" "0 \<le> fd" "io fd = Some k"
    "\<not> has_flag old EV_SIGNAL" "\<not> has_flag events EV_SIGNAL"
  shows "\<exists>cl' k' r. event_changelist_del realloc_ok cl fd old events k = Some (cl', k', r) \<and>
    changelist_updated cl io fd old (pending_view cl k old AND NOT (io_flags events)) cl' k' r"
  unfolding event_changelist_del_def
  by (rule changelist_record [where upd = "\<lambda>v. v AND NOT (io_flags events)"])
    (use assms record_del_view in auto)

text \<open>An operation fails only when the descriptor needs a new change, the array is full and it cannot grow.\<close>

definition changelist_full :: "(nat \<Rightarrow> bool) \<Rightarrow> event_changelist \<Rightarrow> nat \<Rightarrow> bool" where
  "changelist_full realloc_ok cl k \<longleftrightarrow> k = 0 \<and> n_changes cl = changes_size cl \<and>
     \<not> realloc_ok (12 * (if changes_size cl < 64 then 64 else 2 * changes_size cl))"

lemma changelist_result:
  "event_changelist_add realloc_ok cl fd old events k = Some (cl', k', r) \<Longrightarrow> r = (if changelist_full realloc_ok cl k then -1 else 0)"
  "event_changelist_del realloc_ok cl fd old events k = Some (cl', k', r) \<Longrightarrow> r = (if changelist_full realloc_ok cl k then -1 else 0)"
  by (auto simp: event_changelist_add_def event_changelist_del_def event_changelist_get_or_construct_def event_changelist_grow_def
      changelist_full_def Let_def mult.commute split: if_splits option.splits prod.splits)

text \<open>Clearing the list resets exactly the positions it used.\<close>

lemma remove_all_from_spec:
  assumes "\<forall>j < length chs. io (ch_fd (chs ! j)) = Some (i + j + 1) \<and>
      \<not> has_flag (read_change (chs ! j)) EV_CHANGE_SIGNAL"
  shows "remove_all_from i chs io sigs =
    Some (\<lambda>fd. if fd \<in> ch_fd ` set chs then Some 0 else io fd, sigs)"
  using assms
proof (induction chs arbitrary: i io)
  case Nil
  then show ?case by simp
next
  case (Cons ch chs)
  have hd: "io (ch_fd ch) = Some (i + 1)" "\<not> has_flag (read_change ch) EV_CHANGE_SIGNAL"
    using Cons.prems by (auto dest: spec [of _ 0])
  have tl: "io (ch_fd (chs ! j)) = Some (i + 1 + j + 1)"
    "\<not> has_flag (read_change (chs ! j)) EV_CHANGE_SIGNAL" if "j < length chs" for j
    using Cons.prems [rule_format, of "Suc j"] that by simp_all
  have "ch_fd (chs ! j) \<noteq> ch_fd ch" if "j < length chs" for j
    using tl(1) [OF that] hd(1) by auto
  then have "remove_all_from (i + 1) chs (io(ch_fd ch \<mapsto> 0)) sigs =
      Some (\<lambda>fd. if fd \<in> ch_fd ` set chs then Some 0 else (io(ch_fd ch \<mapsto> 0)) fd, sigs)"
    by (intro Cons.IH) (use tl in simp)
  then show ?case
    using hd by (auto simp: event_change_get_fdinfo_def clear_fdinfo_def)
qed

lemma remove_all_spec:
  assumes inv: "changelist_inv cl io"
  shows "\<exists>io'. event_changelist_remove_all cl io sigs = Some (cl\<lparr>n_changes := 0\<rparr>, io', sigs) \<and>
    dom io' = dom io \<and> (\<forall>fd \<in> dom io. io' fd = Some 0) \<and> changelist_inv (cl\<lparr>n_changes := 0\<rparr>) io'"
proof -
  let ?chs = "take (n_changes cl) (changes cl)"
  let ?io' = "\<lambda>fd. if fd \<in> ch_fd ` set ?chs then Some 0 else io fd"
  have n: "n_changes cl \<le> length (changes cl)" "length (changes cl) = changes_size cl"
    using inv by (simp_all add: changelist_inv_def)
  have cells: "io (ch_fd (changes cl ! j)) = Some (j + 1) \<and>
      \<not> has_flag (read_change (changes cl ! j)) EV_CHANGE_SIGNAL" if "j < n_changes cl" for j
    using inv that by (simp add: changelist_inv_def change_ok_def change_field_ok_def)
  then have "remove_all_from 0 ?chs io sigs = Some (?io', sigs)"
    using n(1) by (intro remove_all_from_spec) simp
  then have r: "event_changelist_remove_all cl io sigs = Some (cl\<lparr>n_changes := 0\<rparr>, ?io', sigs)"
    by (simp add: event_changelist_remove_all_def)
  have dom: "dom ?io' = dom io"
    using cells n(1) by (auto simp: set_take_conv_nth split: if_splits)
  have "fd \<in> ch_fd ` set ?chs" if "io fd = Some k" "k \<noteq> 0" for fd k
  proof -
    have "k \<le> n_changes cl" "ch_fd (changes cl ! (k - 1)) = fd"
      using inv that unfolding changelist_inv_def by blast+
    moreover have "changes cl ! (k - 1) \<in> set ?chs"
      using n(1) calculation(1) that(2) by (auto simp: set_take_conv_nth)
    ultimately show ?thesis by blast
  qed
  then have zero: "\<forall>fd \<in> dom io. ?io' fd = Some 0" by auto
  then have "changelist_inv (cl\<lparr>n_changes := 0\<rparr>) ?io'"
    using n dom by (auto simp: changelist_inv_def split: if_splits)
  with r dom zero show ?thesis by blast
qed

section \<open>Properties\<close>

text \<open>A list with room and one descriptor without a change, for the witnesses.\<close>

definition empty_changes :: event_changelist where
  "empty_changes = \<lparr>changes = replicate 4 zero_change, n_changes = 0, changes_size = 4\<rparr>"

lemma empty_changes_inv: "changelist_inv empty_changes [3 \<mapsto> 0]"
  by (simp add: changelist_inv_def empty_changes_def)

text \<open>
  C22. Recording an addition: the set queued for the descriptor becomes the one queued before
  (or the enabled one) with the new events, the set the change is made against stays the one
  first recorded, and no other descriptor is touched. It fails, with no change at all, exactly when
  the descriptor has no change yet, the array is full and there is no memory for a larger one.
\<close>

theorem event_changelist_add_correct:
  assumes "changelist_inv cl m" "0 \<le> fd" "m fd = Some k"
    "\<not> has_flag old EV_SIGNAL" "\<not> has_flag events EV_SIGNAL"
  shows "\<exists>cl' k' r. event_changelist_add realloc_ok cl fd old events k = Some (cl', k', r) \<and>
    changelist_updated cl m fd old (pending_view cl k old OR io_flags events) cl' k' r \<and>
    r = (if k = 0 \<and> n_changes cl = changes_size cl \<and>
           \<not> realloc_ok (12 * (if changes_size cl < 64 then 64 else 2 * changes_size cl)) then -1 else 0)"
  using changelist_add_spec [OF assms, of realloc_ok] changelist_result(1) unfolding changelist_full_def by blast

theorem event_changelist_add_correct_witness:
  "\<exists>cl' k'. event_changelist_add (\<lambda>_. True) event_changelist_init 3 0 EV_READ 0 = Some (cl', k', 0) \<and>
    changelist_updated event_changelist_init [3 \<mapsto> 0] 3 0 (pending_view event_changelist_init 0 0 OR io_flags EV_READ) cl' k' 0 \<and>
    event_changelist_add (\<lambda>_. False) event_changelist_init 3 0 EV_READ 0 = Some (event_changelist_init, 0, -1)"
proof -
  have inv: "changelist_inv event_changelist_init [3 \<mapsto> 0]" by (simp add: changelist_inv_def event_changelist_init_def)
  have f: "\<not> has_flag (0 :: short) EV_SIGNAL" "\<not> has_flag EV_READ EV_SIGNAL" by (simp_all add: ev_flag_defs has_flag_def)
  have full: "n_changes event_changelist_init = changes_size event_changelist_init" by (simp add: event_changelist_init_def)
  show ?thesis
    using event_changelist_add_correct [OF inv _ _ f, of 3 0 "\<lambda>_. True"] event_changelist_add_correct [OF inv _ _ f, of 3 0 "\<lambda>_. False"]
    by (auto simp: full changelist_updated_def)
qed

text \<open>
  C23. Recording a deletion removes the events from the queued set, also the ones a recorded
  addition had put there, with the same frame.
\<close>

theorem event_changelist_del_correct:
  assumes "changelist_inv cl m" "0 \<le> fd" "m fd = Some k"
    "\<not> has_flag old EV_SIGNAL" "\<not> has_flag events EV_SIGNAL"
  shows "\<exists>cl' k' r. event_changelist_del realloc_ok cl fd old events k = Some (cl', k', r) \<and>
    changelist_updated cl m fd old (pending_view cl k old AND NOT (io_flags events)) cl' k' r \<and>
    r = (if k = 0 \<and> n_changes cl = changes_size cl \<and>
           \<not> realloc_ok (12 * (if changes_size cl < 64 then 64 else 2 * changes_size cl)) then -1 else 0)"
  using changelist_del_spec [OF assms, of realloc_ok] changelist_result(2) unfolding changelist_full_def by blast

theorem event_changelist_del_correct_witness:
  "\<exists>cl' k'. event_changelist_del (\<lambda>_. True) empty_changes 3 EV_READ EV_READ 0 = Some (cl', k', 0) \<and>
    changelist_updated empty_changes [3 \<mapsto> 0] 3 EV_READ
      (pending_view empty_changes 0 EV_READ AND NOT (io_flags EV_READ)) cl' k' 0"
  using event_changelist_del_correct [OF empty_changes_inv, of 3 0 EV_READ EV_READ "\<lambda>_. True"]
  by (simp add: ev_flag_defs has_flag_def)

text \<open>
  C24. \<open>event_changelist_remove_all_\<close> passes its assertions, empties the list and resets the
  position of every descriptor; before and after it both passes of the changelist's own check hold.
\<close>

theorem event_changelist_remove_all_correct:
  assumes "changelist_inv cl m"
  shows "event_changelist_assert_ok cl nio m sigs \<and>
    (\<exists>m'. event_changelist_remove_all cl m sigs = Some (cl\<lparr>n_changes := 0\<rparr>, m', sigs) \<and>
      dom m' = dom m \<and> (\<forall>fd \<in> dom m. m' fd = Some 0) \<and> changelist_inv (cl\<lparr>n_changes := 0\<rparr>) m' \<and>
      event_changelist_assert_ok (cl\<lparr>n_changes := 0\<rparr>) nio m' sigs)"
  using remove_all_spec [OF assms] changelist_inv_assert_ok [OF assms] changelist_inv_assert_ok by blast

theorem event_changelist_remove_all_correct_witness:
  "event_changelist_assert_ok empty_changes 32 [3 \<mapsto> 0] (\<lambda>_. None) \<and>
   (\<exists>m'. event_changelist_remove_all empty_changes [3 \<mapsto> 0] (\<lambda>_. None) =
      Some (empty_changes\<lparr>n_changes := 0\<rparr>, m', \<lambda>_. None) \<and> m' 3 = Some 0)"
  using event_changelist_remove_all_correct [OF empty_changes_inv, of 32 "\<lambda>_. None"] by auto

end
