(* ===== verification/Ev_Evmap.thy ===== *)
theory Ev_Evmap
  imports Ev_Changelist
begin

text \<open>
  The event maps of \<open>evmap.c\<close>: for each descriptor and each signal the list of the events
  waiting for it and, for descriptors, how many of them wait for reading, writing and
  closing. The backend is told when one of the three counts leaves or reaches zero. The
  configuration modelled is the array one (\<open>EVMAP_USE_HT\<close> undefined). Functions that can
  fail an \<open>EVUTIL_ASSERT\<close> or follow a \<open>NULL\<close> entry return \<open>None\<close> there.
\<close>

section \<open>State\<close>

text \<open>The backend's \<open>fdinfo\<close> is stored behind each \<open>struct evmap_io\<close>; its type is \<open>'x\<close>.\<close>

record 'x evmap_io =
  io_events :: "ev_addr list"
  nread :: short
  nwrite :: short
  nclose :: short
  fdinfo :: 'x

record evmap_signal =
  sig_events :: "ev_addr list"

record 'a event_map =
  entries :: "'a option list"
  nentries :: nat

text \<open>
  The functions of \<open>struct eventop\<close> the maps call, on the backend's state \<open>'b\<close>; the signal
  backend gets no \<open>fdinfo\<close>. \<open>m_realloc\<close> and \<open>m_calloc\<close> say whether an allocation of a size
  succeeds, \<open>fdinfo_zero\<close> is the cleared \<open>fdinfo\<close>.
\<close>

record ('b, 'x) evmap_env =
  be_add :: "'b \<Rightarrow> int \<Rightarrow> short \<Rightarrow> short \<Rightarrow> 'x \<Rightarrow> ('b \<times> 'x \<times> int) option"
  be_del :: "'b \<Rightarrow> int \<Rightarrow> short \<Rightarrow> short \<Rightarrow> 'x \<Rightarrow> ('b \<times> 'x \<times> int) option"
  sig_add :: "'b \<Rightarrow> int \<Rightarrow> ('b \<times> int) option"
  sig_del :: "'b \<Rightarrow> int \<Rightarrow> ('b \<times> int) option"
  fdinfo_len :: nat
  fdinfo_zero :: 'x
  m_realloc :: "nat \<Rightarrow> bool"
  m_calloc :: "nat \<Rightarrow> bool"
  debug_mode :: bool

record ('b, 'x) evmap_base =
  io :: "'x evmap_io event_map"
  sigmap :: "evmap_signal event_map"
  evbase :: 'b

section \<open>The arrays\<close>

text \<open>\<open>while (nentries <= slot) nentries <<= 1\<close>, started with a positive number.\<close>

function double_above :: "nat \<Rightarrow> nat \<Rightarrow> nat" where
  "double_above n slot = (if 0 < n \<and> n \<le> slot then double_above (2 * n) slot else n)"
  by pat_completeness auto
termination
  by (relation "measure (\<lambda>(n, slot). Suc slot - n)") auto

declare double_above.simps [simp del]

definition evmap_make_space ::
  "(nat \<Rightarrow> bool) \<Rightarrow> 'a event_map \<Rightarrow> nat \<Rightarrow> nat \<Rightarrow> 'a event_map \<times> int"
where
  "evmap_make_space realloc_ok m slot msize =
     (if nentries m \<le> slot then
        (if slot > INT_MAX div 2 then (m, -1)
         else
           (let n = double_above (if nentries m \<noteq> 0 then nentries m else 32) slot
            in if n > INT_MAX div msize then (m, -1)
               else if \<not> realloc_ok (n * msize) then (m, -1)
               else (m\<lparr>entries := entries m @ replicate (n - nentries m) None, nentries := n\<rparr>, 0)))
      else (m, 0))"

definition evmap_signal_initmap :: "'a event_map" where
  "evmap_signal_initmap = \<lparr>entries = [], nentries = 0\<rparr>"

definition evmap_signal_clear :: "'a event_map \<Rightarrow> 'a event_map" where
  "evmap_signal_clear ctx = \<lparr>entries = [], nentries = 0\<rparr>"

definition evmap_io_initmap :: "'x evmap_io event_map" where
  "evmap_io_initmap = evmap_signal_initmap"

definition evmap_io_clear :: "'x evmap_io event_map \<Rightarrow> 'x evmap_io event_map" where
  "evmap_io_clear ctx = evmap_signal_clear ctx"

text \<open>
  \<open>GET_SIGNAL_SLOT_AND_CTOR\<close>: the entry of a slot, allocated and constructed when it is
  missing; the second component is \<open>None\<close> when the allocation fails.
\<close>

definition GET_SLOT_AND_CTOR :: "bool \<Rightarrow> 'a \<Rightarrow> 'a event_map \<Rightarrow> nat \<Rightarrow> 'a event_map \<times> 'a option" where
  "GET_SLOT_AND_CTOR alloc_ok ctor m slot =
     (case entries m ! slot of
        Some ctx \<Rightarrow> (m, Some ctx)
      | None \<Rightarrow>
          (if \<not> alloc_ok then (m, None)
           else (m\<lparr>entries := (entries m)[slot := Some ctor]\<rparr>, Some ctor)))"

definition set_slot :: "'a event_map \<Rightarrow> nat \<Rightarrow> 'a \<Rightarrow> 'a event_map" where
  "set_slot m slot ctx = m\<lparr>entries := (entries m)[slot := Some ctx]\<rparr>"

section \<open>Descriptors\<close>

definition evmap_io_init :: "'x \<Rightarrow> 'x evmap_io" where
  "evmap_io_init zero = \<lparr>io_events = [], nread = 0, nwrite = 0, nclose = 0, fdinfo = zero\<rparr>"

definition sizeof_evmap_io :: nat where "sizeof_evmap_io = 16"

text \<open>\<open>old\<close>: the flags whose count is not zero.\<close>

definition io_old :: "'x evmap_io \<Rightarrow> short" where
  "io_old ctx = io_mask (nread ctx \<noteq> 0) (nwrite ctx \<noteq> 0) (nclose ctx \<noteq> 0)"

text \<open>The part of \<open>evmap_io_add_\<close> after the entry was found.\<close>

definition evmap_io_add_ctx ::
  "('b, 'x, 'y) evmap_env_scheme \<Rightarrow> ev_heap \<Rightarrow> ('b, 'x, 'z) evmap_base_scheme \<Rightarrow> int \<Rightarrow> ev_addr \<Rightarrow> 'x evmap_io
   \<Rightarrow> (('b, 'x, 'z) evmap_base_scheme \<times> int) option"
where
  "evmap_io_add_ctx E st b fd e ctx =
     (let evs = ev_events (st e);
          nr = uint (nread ctx) + of_bool (has_flag evs EV_READ);
          nw = uint (nwrite ctx) + of_bool (has_flag evs EV_WRITE);
          nc = uint (nclose ctx) + of_bool (has_flag evs EV_CLOSED);
          old = io_old ctx;
          res = io_mask (has_flag evs EV_READ \<and> nr = 1) (has_flag evs EV_WRITE \<and> nw = 1)
                  (has_flag evs EV_CLOSED \<and> nc = 1);
          done = (\<lambda>bs x r. b\<lparr>io := set_slot (io b) (nat fd)
                     (ctx\<lparr>io_events := e # io_events ctx, nread := word_of_int nr,
                          nwrite := word_of_int nw, nclose := word_of_int nc, fdinfo := x\<rparr>),
                   evbase := bs\<rparr>)
      in if nr > 0xffff \<or> nw > 0xffff \<or> nc > 0xffff then Some (b, -1)
         else if debug_mode E \<and> io_events ctx \<noteq> [] \<and>
                 ev_events (st (hd (io_events ctx))) AND EV_ET \<noteq> evs AND EV_ET then Some (b, -1)
         else if res \<noteq> 0 then
           (case be_add E (evbase b) (ev_fd (st e)) old ((evs AND EV_ET) OR res) (fdinfo ctx) of
              None \<Rightarrow> None
            | Some (bs, x, r) \<Rightarrow>
                (if r = -1 then
                   Some (b\<lparr>io := set_slot (io b) (nat fd) (ctx\<lparr>fdinfo := x\<rparr>), evbase := bs\<rparr>, -1)
                 else Some (done bs x r, 1)))
         else Some (done (evbase b) (fdinfo ctx) 0, 0))"

definition evmap_io_add ::
  "('b, 'x, 'y) evmap_env_scheme \<Rightarrow> ev_heap \<Rightarrow> ('b, 'x, 'z) evmap_base_scheme \<Rightarrow> int \<Rightarrow> ev_addr
   \<Rightarrow> (('b, 'x, 'z) evmap_base_scheme \<times> int) option"
where
  "evmap_io_add E st b fd e =
     (if fd \<noteq> ev_fd (st e) then None
      else if fd < 0 then Some (b, 0)
      else
        (let (io1, r) = (if fd \<ge> int (nentries (io b)) then evmap_make_space (m_realloc E) (io b) (nat fd) 8
                         else (io b, 0))
         in if r = -1 then Some (b\<lparr>io := io1\<rparr>, -1)
            else
              (case GET_SLOT_AND_CTOR (m_calloc E (sizeof_evmap_io + fdinfo_len E))
                      (evmap_io_init (fdinfo_zero E)) io1 (nat fd) of
                 (io2, None) \<Rightarrow> Some (b\<lparr>io := io2\<rparr>, -1)
               | (io2, Some ctx) \<Rightarrow> evmap_io_add_ctx E st (b\<lparr>io := io2\<rparr>) fd e ctx)))"

text \<open>\<open>LIST_REMOVE\<close> of an event that is not on the list would corrupt memory: \<open>None\<close>.\<close>

definition list_remove :: "'a \<Rightarrow> 'a list \<Rightarrow> 'a list option" where
  "list_remove x xs = (if x \<in> set xs then Some (remove1 x xs) else None)"

definition evmap_io_del ::
  "('b, 'x, 'y) evmap_env_scheme \<Rightarrow> ev_heap \<Rightarrow> ('b, 'x, 'z) evmap_base_scheme \<Rightarrow> int \<Rightarrow> ev_addr
   \<Rightarrow> (('b, 'x, 'z) evmap_base_scheme \<times> int) option"
where
  "evmap_io_del E st b fd e =
     (if fd < 0 then Some (b, 0)
      else if fd \<noteq> ev_fd (st e) then None
      else if fd \<ge> int (nentries (io b)) then Some (b, -1)
      else
        (case entries (io b) ! nat fd of
           None \<Rightarrow> None
         | Some ctx \<Rightarrow>
             (let evs = ev_events (st e);
                  nr = uint (nread ctx) - of_bool (has_flag evs EV_READ);
                  nw = uint (nwrite ctx) - of_bool (has_flag evs EV_WRITE);
                  nc = uint (nclose ctx) - of_bool (has_flag evs EV_CLOSED);
                  old = io_old ctx;
                  res = io_mask (has_flag evs EV_READ \<and> nr = 0) (has_flag evs EV_WRITE \<and> nw = 0)
                          (has_flag evs EV_CLOSED \<and> nc = 0)
              in if nr < 0 \<or> nw < 0 \<or> nc < 0 then None
                 else
                   (case (if res \<noteq> 0 then
                            (case be_del E (evbase b) (ev_fd (st e)) old ((evs AND EV_ET) OR res) (fdinfo ctx) of
                               None \<Rightarrow> None
                             | Some (bs, x, r) \<Rightarrow> Some (bs, x, if r = -1 then -1 else 1))
                          else Some (evbase b, fdinfo ctx, 0)) of
                      None \<Rightarrow> None
                    | Some (bs, x, retval) \<Rightarrow>
                        (case list_remove e (io_events ctx) of
                           None \<Rightarrow> None
                         | Some evl \<Rightarrow>
                             Some (b\<lparr>io := set_slot (io b) (nat fd)
                                       (ctx\<lparr>io_events := evl, nread := word_of_int nr,
                                            nwrite := word_of_int nw, nclose := word_of_int nc,
                                            fdinfo := x\<rparr>),
                                     evbase := bs\<rparr>, retval))))))"

text \<open>
  \<open>evmap_io_active_\<close>: the calls of \<open>event_active_nolock_(ev, ev->ev_events & events, 1)\<close> in
  their order.
\<close>

definition evmap_io_active ::
  "ev_heap \<Rightarrow> ('b, 'x, 'z) evmap_base_scheme \<Rightarrow> int \<Rightarrow> short \<Rightarrow> (ev_addr \<times> short) list"
where
  "evmap_io_active st b fd events =
     (if fd < 0 \<or> fd \<ge> int (nentries (io b)) then []
      else
        (case entries (io b) ! nat fd of
           None \<Rightarrow> []
         | Some ctx \<Rightarrow>
             map (\<lambda>e. (e, ev_events (st e) AND events))
               (filter (\<lambda>e. has_flag (ev_events (st e)) (events AND NOT EV_ET)) (io_events ctx))))"

section \<open>Signals\<close>

definition NSIG :: int where "NSIG = 65"

definition evmap_signal_init :: evmap_signal where
  "evmap_signal_init = \<lparr>sig_events = []\<rparr>"

definition evmap_signal_add ::
  "('b, 'x, 'y) evmap_env_scheme \<Rightarrow> ev_heap \<Rightarrow> ('b, 'x, 'z) evmap_base_scheme \<Rightarrow> int \<Rightarrow> ev_addr
   \<Rightarrow> (('b, 'x, 'z) evmap_base_scheme \<times> int) option"
where
  "evmap_signal_add E st b sig e =
     (if sig < 0 \<or> sig \<ge> NSIG then Some (b, -1)
      else
        (let (m1, r) = (if sig \<ge> int (nentries (sigmap b)) then evmap_make_space (m_realloc E) (sigmap b) (nat sig) 8
                        else (sigmap b, 0))
         in if r = -1 then Some (b\<lparr>sigmap := m1\<rparr>, -1)
            else
              (case GET_SLOT_AND_CTOR (m_calloc E 8) evmap_signal_init m1 (nat sig) of
                 (m2, None) \<Rightarrow> Some (b\<lparr>sigmap := m2\<rparr>, -1)
               | (m2, Some ctx) \<Rightarrow>
                   (let insert = (\<lambda>bs. b\<lparr>sigmap := set_slot m2 (nat sig) (ctx\<lparr>sig_events := e # sig_events ctx\<rparr>),
                                        evbase := bs\<rparr>)
                    in if sig_events ctx = [] then
                         (case sig_add E (evbase b) (ev_fd (st e)) of
                            None \<Rightarrow> None
                          | Some (bs, r) \<Rightarrow>
                              (if r = -1 then Some (b\<lparr>sigmap := m2, evbase := bs\<rparr>, -1)
                               else Some (insert bs, 1)))
                       else Some (insert (evbase b), 1)))))"

definition evmap_signal_del ::
  "('b, 'x, 'y) evmap_env_scheme \<Rightarrow> ev_heap \<Rightarrow> ('b, 'x, 'z) evmap_base_scheme \<Rightarrow> int \<Rightarrow> ev_addr
   \<Rightarrow> (('b, 'x, 'z) evmap_base_scheme \<times> int) option"
where
  "evmap_signal_del E st b sig e =
     (if sig < 0 \<or> sig \<ge> int (nentries (sigmap b)) then Some (b, -1)
      else
        (case entries (sigmap b) ! nat sig of
           None \<Rightarrow> None
         | Some ctx \<Rightarrow>
             (case list_remove e (sig_events ctx) of
                None \<Rightarrow> None
              | Some evl \<Rightarrow>
                  (let m = set_slot (sigmap b) (nat sig) (ctx\<lparr>sig_events := evl\<rparr>)
                   in if evl = [] then
                        (case sig_del E (evbase b) (ev_fd (st e)) of
                           None \<Rightarrow> None
                         | Some (bs, r) \<Rightarrow> Some (b\<lparr>sigmap := m, evbase := bs\<rparr>, if r = -1 then -1 else 1))
                      else Some (b\<lparr>sigmap := m\<rparr>, 1)))))"

definition evmap_signal_active :: "('b, 'x, 'z) evmap_base_scheme \<Rightarrow> int \<Rightarrow> short \<Rightarrow> (ev_addr \<times> short \<times> short) list" where
  "evmap_signal_active b sig ncalls =
     (if sig < 0 \<or> sig \<ge> int (nentries (sigmap b)) then []
      else
        (case entries (sigmap b) ! nat sig of
           None \<Rightarrow> []
         | Some ctx \<Rightarrow> map (\<lambda>e. (e, EV_SIGNAL, ncalls)) (sig_events ctx)))"

section \<open>Iteration\<close>

definition evmap_io_get_fdinfo :: "'x evmap_io event_map \<Rightarrow> int \<Rightarrow> 'x option" where
  "evmap_io_get_fdinfo m fd = map_option fdinfo (entries m ! nat fd)"

text \<open>
  The loops of \<open>evmap_io_foreach_fd\<close> and \<open>evmap_signal_foreach_signal\<close>: over the slots in
  order, skipping empty ones and stopping at the first result that is not 0. The state
  threaded through is the base and the callback's argument; \<open>get\<close> reads the array in it.
\<close>

fun foreach_slot ::
  "('s \<Rightarrow> 'a option list) \<Rightarrow> ('s \<Rightarrow> nat \<Rightarrow> 'a \<Rightarrow> ('s \<times> int) option) \<Rightarrow> nat list \<Rightarrow> 's \<Rightarrow> ('s \<times> int) option"
where
  "foreach_slot get fn [] s = Some (s, 0)"
| "foreach_slot get fn (slot # slots) s =
     (case get s ! slot of
        None \<Rightarrow> foreach_slot get fn slots s
      | Some ctx \<Rightarrow>
          (case fn s slot ctx of
             None \<Rightarrow> None
           | Some (s', r) \<Rightarrow> (if r \<noteq> 0 then Some (s', r) else foreach_slot get fn slots s')))"

definition evmap_io_foreach_fd ::
  "(('b, 'x, 'z) evmap_base_scheme \<times> 'r \<Rightarrow> nat \<Rightarrow> 'x evmap_io \<Rightarrow> ((('b, 'x, 'z) evmap_base_scheme \<times> 'r) \<times> int) option)
   \<Rightarrow> ('b, 'x, 'z) evmap_base_scheme \<Rightarrow> 'r \<Rightarrow> ((('b, 'x, 'z) evmap_base_scheme \<times> 'r) \<times> int) option"
where
  "evmap_io_foreach_fd fn b arg =
     foreach_slot (\<lambda>(b, _). entries (io b)) fn [0..<nentries (io b)] (b, arg)"

definition evmap_signal_foreach_signal ::
  "(('b, 'x, 'z) evmap_base_scheme \<times> 'r \<Rightarrow> nat \<Rightarrow> evmap_signal \<Rightarrow> ((('b, 'x, 'z) evmap_base_scheme \<times> 'r) \<times> int) option)
   \<Rightarrow> ('b, 'x, 'z) evmap_base_scheme \<Rightarrow> 'r \<Rightarrow> ((('b, 'x, 'z) evmap_base_scheme \<times> 'r) \<times> int) option"
where
  "evmap_signal_foreach_signal fn b arg =
     foreach_slot (\<lambda>(b, _). entries (sigmap b)) fn [0..<nentries (sigmap b)] (b, arg)"

text \<open>Re-registering everything after a fork; the argument is the \<open>result\<close> the callbacks set.\<close>

definition evmap_io_reinit_iter_fn ::
  "('b, 'x, 'y) evmap_env_scheme \<Rightarrow> ev_heap \<Rightarrow> ('b, 'x, 'z) evmap_base_scheme \<times> int \<Rightarrow> nat \<Rightarrow> 'x evmap_io
   \<Rightarrow> ((('b, 'x, 'z) evmap_base_scheme \<times> int) \<times> int) option"
where
  "evmap_io_reinit_iter_fn E st = (\<lambda>(b, result) fd ctx.
     (let extra = (if fdinfo_len E \<noteq> 0 then fdinfo_zero E else fdinfo ctx);
          events = io_old ctx;
          events' = (if events \<noteq> 0 \<and> io_events ctx \<noteq> [] \<and>
                        has_flag (ev_events (st (hd (io_events ctx)))) EV_ET
                     then events OR EV_ET else events)
      in case be_add E (evbase b) (int fd) 0 events' extra of
           None \<Rightarrow> None
         | Some (bs, x, r) \<Rightarrow>
             Some ((b\<lparr>io := set_slot (io b) fd (ctx\<lparr>fdinfo := x\<rparr>), evbase := bs\<rparr>,
                    if r = -1 then -1 else result), 0)))"

definition evmap_signal_reinit_iter_fn ::
  "('b, 'x, 'y) evmap_env_scheme \<Rightarrow> ('b, 'x, 'z) evmap_base_scheme \<times> int \<Rightarrow> nat \<Rightarrow> evmap_signal
   \<Rightarrow> ((('b, 'x, 'z) evmap_base_scheme \<times> int) \<times> int) option"
where
  "evmap_signal_reinit_iter_fn E = (\<lambda>(b, result) signum ctx.
     (if sig_events ctx \<noteq> [] then
        (case sig_add E (evbase b) (int signum) of
           None \<Rightarrow> None
         | Some (bs, r) \<Rightarrow> Some ((b\<lparr>evbase := bs\<rparr>, if r = -1 then -1 else result), 0))
      else Some ((b, result), 0)))"

definition evmap_reinit ::
  "('b, 'x, 'y) evmap_env_scheme \<Rightarrow> ev_heap \<Rightarrow> ('b, 'x, 'z) evmap_base_scheme \<Rightarrow> (('b, 'x, 'z) evmap_base_scheme \<times> int) option"
where
  "evmap_reinit E st b =
     (case evmap_io_foreach_fd (evmap_io_reinit_iter_fn E st) b 0 of
        None \<Rightarrow> None
      | Some ((b1, result), _) \<Rightarrow>
          (if result < 0 then Some (b1, -1)
           else
             (case evmap_signal_foreach_signal (evmap_signal_reinit_iter_fn E) b1 result of
                None \<Rightarrow> None
              | Some ((b2, result'), _) \<Rightarrow> Some (b2, if result' < 0 then -1 else 0))))"

text \<open>
  The checks of \<open>evmap_check_integrity_\<close> on one entry, as predicates: what they assert of it. (The
  list macro \<open>EVUTIL_ASSERT_LIST_OK\<close> checks that the list has no cycle: \<open>distinct\<close>.)
\<close>

definition evmap_io_check_integrity :: "ev_heap \<Rightarrow> int \<Rightarrow> 'x evmap_io \<Rightarrow> bool" where
  "evmap_io_check_integrity st fd io_info \<longleftrightarrow>
     distinct (io_events io_info) \<and>
     list_all (\<lambda>e. has_flag (ev_flags (st e)) EVLIST_INSERTED \<and> ev_fd (st e) = fd \<and>
         \<not> has_flag (ev_events (st e)) EV_SIGNAL \<and>
         has_flag (ev_events (st e)) (EV_READ OR EV_WRITE OR EV_CLOSED)) (io_events io_info) \<and>
     int (length (filter (\<lambda>e. has_flag (ev_events (st e)) EV_READ) (io_events io_info))) = uint (nread io_info) \<and>
     int (length (filter (\<lambda>e. has_flag (ev_events (st e)) EV_WRITE) (io_events io_info))) = uint (nwrite io_info) \<and>
     int (length (filter (\<lambda>e. has_flag (ev_events (st e)) EV_CLOSED) (io_events io_info))) = uint (nclose io_info)"

definition evmap_signal_check_integrity :: "ev_heap \<Rightarrow> int \<Rightarrow> evmap_signal \<Rightarrow> bool" where
  "evmap_signal_check_integrity st signum sig_info \<longleftrightarrow>
     distinct (sig_events sig_info) \<and>
     list_all (\<lambda>e. has_flag (ev_flags (st e)) EVLIST_INSERTED \<and> ev_fd (st e) = signum \<and>
         has_flag (ev_events (st e)) EV_SIGNAL \<and>
         \<not> has_flag (ev_events (st e)) (EV_READ OR EV_WRITE OR EV_CLOSED)) (sig_events sig_info)"

text \<open>
  The order in which \<open>evmap_foreach_event_\<close> visits the events while its callback returns 0:
  the descriptors in order, then the signals.
\<close>

definition evmap_events_order :: "('b, 'x, 'z) evmap_base_scheme \<Rightarrow> ev_addr list" where
  "evmap_events_order b =
     concat (map (\<lambda>c. case c of None \<Rightarrow> [] | Some ctx \<Rightarrow> io_events ctx) (take (nentries (io b)) (entries (io b)))) @
     concat (map (\<lambda>c. case c of None \<Rightarrow> [] | Some ctx \<Rightarrow> sig_events ctx) (take (nentries (sigmap b)) (entries (sigmap b))))"

fun foreach_event :: "(ev_addr \<Rightarrow> 's \<Rightarrow> 's \<times> int) \<Rightarrow> ev_addr list \<Rightarrow> 's \<Rightarrow> 's \<times> int" where
  "foreach_event fn [] s = (s, 0)"
| "foreach_event fn (e # es) s = (let (s', r) = fn e s in if r \<noteq> 0 then (s', r) else foreach_event fn es s')"

definition evmap_foreach_event ::
  "('b, 'x, 'z) evmap_base_scheme \<Rightarrow> (ev_addr \<Rightarrow> 's \<Rightarrow> 's \<times> int) \<Rightarrow> 's \<Rightarrow> 's \<times> int"
where
  "evmap_foreach_event b fn s = foreach_event fn (evmap_events_order b) s"

section \<open>Invariant\<close>

definition count_flag :: "ev_heap \<Rightarrow> short \<Rightarrow> ev_addr list \<Rightarrow> nat" where
  "count_flag st f evl = length (filter (\<lambda>e. has_flag (ev_events (st e)) f) evl)"

lemma count_flag_Cons [simp]:
  "count_flag st f (e # evl) = of_bool (has_flag (ev_events (st e)) f) + count_flag st f evl"
  "count_flag st f [] = 0"
  by (simp_all add: count_flag_def)

lemma count_flag_remove1:
  "e \<in> set evl \<Longrightarrow>
   int (count_flag st f (remove1 e evl)) = int (count_flag st f evl) - of_bool (has_flag (ev_events (st e)) f)"
  by (induction evl) auto

text \<open>An event for a descriptor: no signal, and at least one of the three flags.\<close>

definition io_event :: "event \<Rightarrow> bool" where
  "io_event ev \<longleftrightarrow> \<not> has_flag (ev_events ev) EV_SIGNAL \<and> has_flag (ev_events ev) (EV_READ OR EV_WRITE OR EV_CLOSED)"

definition io_entry_ok :: "ev_heap \<Rightarrow> int \<Rightarrow> 'x evmap_io \<Rightarrow> bool" where
  "io_entry_ok st fd ctx \<longleftrightarrow> distinct (io_events ctx) \<and>
     (\<forall>e \<in> set (io_events ctx). ev_fd (st e) = fd \<and> io_event (st e)) \<and>
     int (count_flag st EV_READ (io_events ctx)) = uint (nread ctx) \<and>
     int (count_flag st EV_WRITE (io_events ctx)) = uint (nwrite ctx) \<and>
     int (count_flag st EV_CLOSED (io_events ctx)) = uint (nclose ctx)"

lemma evmap_io_check_integrity_iff:
  "evmap_io_check_integrity st fd ctx \<longleftrightarrow> io_entry_ok st fd ctx \<and>
     (\<forall>e \<in> set (io_events ctx). has_flag (ev_flags (st e)) EVLIST_INSERTED)"
  by (auto simp: evmap_io_check_integrity_def io_entry_ok_def io_event_def count_flag_def list_all_iff)

definition map_slot :: "'a event_map \<Rightarrow> int \<Rightarrow> 'a option" where
  "map_slot m fd = (if 0 \<le> fd \<and> fd < int (nentries m) then entries m ! nat fd else None)"

definition map_ok :: "'a event_map \<Rightarrow> bool" where
  "map_ok m \<longleftrightarrow> length (entries m) = nentries m"

definition io_list :: "('b, 'x, 'z) evmap_base_scheme \<Rightarrow> int \<Rightarrow> ev_addr list" where
  "io_list b fd = (case map_slot (io b) fd of None \<Rightarrow> [] | Some ctx \<Rightarrow> io_events ctx)"

definition sig_list :: "('b, 'x, 'z) evmap_base_scheme \<Rightarrow> int \<Rightarrow> ev_addr list" where
  "sig_list b sig = (case map_slot (sigmap b) sig of None \<Rightarrow> [] | Some ctx \<Rightarrow> sig_events ctx)"

definition fdinfos :: "'x evmap_io event_map \<Rightarrow> int \<Rightarrow> 'x option" where
  "fdinfos m fd = map_option fdinfo (map_slot m fd)"

text \<open>
  \<open>evmap_check_integrity_\<close>: every entry of both maps, and the changelist when the base has one.
  \<open>changelist\<close> gives the base's changelist when \<open>base->evsel->add\<close> is \<open>event_changelist_add_\<close> and
  \<open>None\<close> for another backend; \<open>idx_of\<close> reads the position out of an \<open>fdinfo\<close>. No signal has an
  \<open>fdinfo\<close>: \<open>evsigops\<close> asks for none.
\<close>

definition evmap_check_integrity ::
  "('b \<Rightarrow> event_changelist option) \<Rightarrow> ('x \<Rightarrow> nat) \<Rightarrow> ev_heap \<Rightarrow> ('b, 'x, 'z) evmap_base_scheme \<Rightarrow> bool"
where
  "evmap_check_integrity changelist idx_of st b \<longleftrightarrow>
     (\<forall>fd < nentries (io b). case entries (io b) ! fd of None \<Rightarrow> True
        | Some ctx \<Rightarrow> evmap_io_check_integrity st (int fd) ctx) \<and>
     (\<forall>sig < nentries (sigmap b). case entries (sigmap b) ! sig of None \<Rightarrow> True
        | Some ctx \<Rightarrow> evmap_signal_check_integrity st (int sig) ctx) \<and>
     (case changelist (evbase b) of None \<Rightarrow> True
      | Some cl \<Rightarrow> event_changelist_assert_ok cl (nentries (io b)) (\<lambda>fd. map_option idx_of (fdinfos (io b) fd)) (\<lambda>_. None))"

lemma map_slot_set_slot:
  "map_ok m \<Longrightarrow> 0 \<le> fd \<Longrightarrow> fd < int (nentries m) \<Longrightarrow>
   map_slot (set_slot m (nat fd) ctx) = (map_slot m)(fd \<mapsto> ctx)"
  by (auto simp: map_slot_def set_slot_def map_ok_def fun_eq_iff nth_list_update nat_eq_iff)

lemma map_ok_set_slot [simp]: "map_ok (set_slot m i ctx) = map_ok m" "nentries (set_slot m i ctx) = nentries m"
  by (simp_all add: map_ok_def set_slot_def)

text \<open>Growing the array makes room for the slot and keeps every entry.\<close>

lemma double_above_greater: "0 < n \<Longrightarrow> slot < double_above n slot \<and> n \<le> double_above n slot"
proof (induction n slot rule: double_above.induct)
  case (1 n slot)
  then show ?case by (subst (1 2) double_above.simps) force
qed

lemma make_space_spec:
  assumes "map_ok m" "evmap_make_space realloc_ok m slot msize = (m', r)"
  shows "map_ok m'" "map_slot m' = map_slot m" "r = 0 \<or> r = -1" "r = -1 \<Longrightarrow> m' = m"
    "r = 0 \<Longrightarrow> slot < nentries m'"
proof -
  let ?n = "double_above (if nentries m \<noteq> 0 then nentries m else 32) slot"
  have n: "slot < ?n" "nentries m \<le> ?n"
    using double_above_greater [of "if nentries m \<noteq> 0 then nentries m else 32" slot] by auto
  have cases: "m' = m \<and> (r = -1 \<or> r = 0 \<and> slot < nentries m) \<or>
      r = 0 \<and> m' = m\<lparr>entries := entries m @ replicate (?n - nentries m) None, nentries := ?n\<rparr>"
    using assms(2) unfolding evmap_make_space_def Let_def
    by (auto simp: not_le split: if_split_asm)
  have grown: "map_slot (m\<lparr>entries := entries m @ replicate (?n - nentries m) None, nentries := ?n\<rparr>) = map_slot m"
    using assms(1) n by (auto simp: map_slot_def map_ok_def fun_eq_iff nth_append)
  show "map_ok m'" "map_slot m' = map_slot m" "r = 0 \<or> r = -1" "r = -1 \<Longrightarrow> m' = m" "r = 0 \<Longrightarrow> slot < nentries m'"
    using cases n assms(1) grown by (auto simp: map_ok_def)
qed

lemma get_slot_spec:
  assumes "map_ok m" "0 \<le> fd" "fd < int (nentries m)" "GET_SLOT_AND_CTOR alloc_ok ctor m (nat fd) = (m', ctx)"
  shows "map_ok m'" "nentries m' = nentries m"
    "case map_slot m fd of
       Some c \<Rightarrow> ctx = Some c \<and> m' = m
     | None \<Rightarrow> if alloc_ok then ctx = Some ctor \<and> map_slot m' = (map_slot m)(fd \<mapsto> ctor) else ctx = None \<and> m' = m"
  using assms map_slot_set_slot [OF assms(1-3), of ctor, unfolded set_slot_def]
  by (auto simp: GET_SLOT_AND_CTOR_def map_slot_def map_ok_def split: option.splits if_splits)

section \<open>Counts\<close>

lemma uint_word_of_count: "0 \<le> n \<Longrightarrow> n \<le> 0xffff \<Longrightarrow> uint (word_of_int n :: short) = n"
  by (simp add: uint_word_of_int take_bit_int_eq_self)

lemma uint_nonneg_count [simp]: "0 \<le> uint (x :: short)" "(uint x = 0) = (x = 0)"
  by (simp_all add: uint_0_iff)

lemma uint_count_max: "uint (x :: short) \<le> 0xffff"
  using uint_lt2p [of x] by simp

text \<open>The counts after an addition, as the code computes them.\<close>

lemma io_entry_ok_insert:
  assumes ok: "io_entry_ok st fd ctx" and e: "ev_fd (st e) = fd" "io_event (st e)" "e \<notin> set (io_events ctx)"
    and n: "nr = uint (nread ctx) + of_bool (has_flag (ev_events (st e)) EV_READ)"
      "nw = uint (nwrite ctx) + of_bool (has_flag (ev_events (st e)) EV_WRITE)"
      "nc = uint (nclose ctx) + of_bool (has_flag (ev_events (st e)) EV_CLOSED)"
    and le: "nr \<le> 0xffff" "nw \<le> 0xffff" "nc \<le> 0xffff"
  shows "io_entry_ok st fd (ctx\<lparr>io_events := e # io_events ctx, nread := word_of_int nr,
      nwrite := word_of_int nw, nclose := word_of_int nc, fdinfo := x\<rparr>)"
proof -
  have c: "int (count_flag st EV_READ (e # io_events ctx)) = nr"
    "int (count_flag st EV_WRITE (e # io_events ctx)) = nw"
    "int (count_flag st EV_CLOSED (e # io_events ctx)) = nc"
    using ok by (simp_all add: n io_entry_ok_def)
  then have "0 \<le> nr" "0 \<le> nw" "0 \<le> nc" by linarith+
  then show ?thesis
    using ok e le c by (simp add: io_entry_ok_def uint_word_of_count del: count_flag_Cons)
qed

lemma io_entry_ok_remove:
  assumes ok: "io_entry_ok st fd ctx" and e: "e \<in> set (io_events ctx)"
    and n: "nr = uint (nread ctx) - of_bool (has_flag (ev_events (st e)) EV_READ)"
      "nw = uint (nwrite ctx) - of_bool (has_flag (ev_events (st e)) EV_WRITE)"
      "nc = uint (nclose ctx) - of_bool (has_flag (ev_events (st e)) EV_CLOSED)"
  shows "0 \<le> nr" "0 \<le> nw" "0 \<le> nc"
    "io_entry_ok st fd (ctx\<lparr>io_events := remove1 e (io_events ctx), nread := word_of_int nr,
      nwrite := word_of_int nw, nclose := word_of_int nc, fdinfo := x\<rparr>)"
proof -
  have c: "int (count_flag st EV_READ (remove1 e (io_events ctx))) = nr"
    "int (count_flag st EV_WRITE (remove1 e (io_events ctx))) = nw"
    "int (count_flag st EV_CLOSED (remove1 e (io_events ctx))) = nc"
    using ok by (simp_all add: count_flag_remove1 [OF e] n io_entry_ok_def)
  from c show nonneg: "0 \<le> nr" "0 \<le> nw" "0 \<le> nc" by linarith+
  have "nr \<le> 0xffff" "nw \<le> 0xffff" "nc \<le> 0xffff"
    using uint_count_max [of "nread ctx"] uint_count_max [of "nwrite ctx"] uint_count_max [of "nclose ctx"]
    by (auto simp: n)
  then show "io_entry_ok st fd (ctx\<lparr>io_events := remove1 e (io_events ctx), nread := word_of_int nr,
      nwrite := word_of_int nw, nclose := word_of_int nc, fdinfo := x\<rparr>)"
    using ok c nonneg by (auto simp: io_entry_ok_def uint_word_of_count set_remove1_eq)
qed

text \<open>The mask of an entry, computed from its list.\<close>

definition want_mask :: "ev_heap \<Rightarrow> ev_addr list \<Rightarrow> short" where
  "want_mask st evl = io_mask (\<exists>e \<in> set evl. has_flag (ev_events (st e)) EV_READ)
     (\<exists>e \<in> set evl. has_flag (ev_events (st e)) EV_WRITE) (\<exists>e \<in> set evl. has_flag (ev_events (st e)) EV_CLOSED)"

lemma count_flag_0: "count_flag st f evl = 0 \<longleftrightarrow> \<not> (\<exists>e \<in> set evl. has_flag (ev_events (st e)) f)"
  by (simp add: count_flag_def filter_empty_conv)

lemma io_old_want: "io_entry_ok st fd ctx \<Longrightarrow> io_old ctx = want_mask st (io_events ctx)"
proof -
  assume "io_entry_ok st fd ctx"
  then have "nread ctx \<noteq> 0 \<longleftrightarrow> count_flag st EV_READ (io_events ctx) \<noteq> 0"
    "nwrite ctx \<noteq> 0 \<longleftrightarrow> count_flag st EV_WRITE (io_events ctx) \<noteq> 0"
    "nclose ctx \<noteq> 0 \<longleftrightarrow> count_flag st EV_CLOSED (io_events ctx) \<noteq> 0"
    unfolding io_entry_ok_def uint_nonneg_count(2) [symmetric] by linarith+
  then show ?thesis by (simp add: io_old_def want_mask_def count_flag_0)
qed

lemma io_flags_et [simp]:
  "io_flags ((x AND EV_ET) OR io_mask r w c) = io_mask r w c"
  "\<not> has_flag ((x AND EV_ET) OR io_mask r w c) EV_SIGNAL"
proof -
  have f: "has_flag ((x AND EV_ET) OR m) f \<longleftrightarrow> has_flag m f" if "EV_ET AND f = 0" for m f
  proof -
    have "((x AND EV_ET) OR m) AND f = (x AND (EV_ET AND f)) OR (m AND f)"
      by (rule bit_word_eqI) (auto simp: bit_simps)
    then show ?thesis by (simp add: has_flag_def that)
  qed
  have d: "EV_ET AND EV_READ = 0" "EV_ET AND EV_WRITE = 0" "EV_ET AND EV_CLOSED = 0" "EV_ET AND EV_SIGNAL = 0"
    by (simp_all add: ev_flag_defs)
  show "io_flags ((x AND EV_ET) OR io_mask r w c) = io_mask r w c"
    "\<not> has_flag ((x AND EV_ET) OR io_mask r w c) EV_SIGNAL"
    by (simp_all add: io_flags_def f d)
qed

section \<open>The contract with the backend\<close>

text \<open>
  What the maps need of a backend that keeps, per descriptor, an \<open>fdinfo\<close> and a set of
  enabled events (\<open>view\<close>): called with the set that is enabled now, adding and deleting
  change the set by the events passed and leave the other descriptors alone; a failed
  addition changes nothing.
\<close>

locale io_backend =
  fixes add del :: "'b \<Rightarrow> int \<Rightarrow> short \<Rightarrow> short \<Rightarrow> 'x \<Rightarrow> ('b \<times> 'x \<times> int) option"
    and zero :: 'x
    and binv :: "'b \<Rightarrow> (int \<Rightarrow> 'x option) \<Rightarrow> bool"
    and view :: "'b \<Rightarrow> int \<Rightarrow> 'x \<Rightarrow> short"
  assumes new_slot: "binv b m \<Longrightarrow> 0 \<le> fd \<Longrightarrow> m fd = None \<Longrightarrow> binv b (m(fd \<mapsto> zero)) \<and> view b fd zero = 0"
    and add_ok: "binv b m \<Longrightarrow> 0 \<le> fd \<Longrightarrow> m fd = Some x \<Longrightarrow> view b fd x = old \<Longrightarrow> io_flags old = old \<Longrightarrow>
      \<not> has_flag events EV_SIGNAL \<Longrightarrow>
      \<exists>b' x' r. add b fd old events x = Some (b', x', r) \<and> binv b' (m(fd \<mapsto> x')) \<and> (r = 0 \<or> r = -1) \<and>
        view b' fd x' = (if r = 0 then old OR io_flags events else old) \<and>
        (\<forall>fd' x2. fd' \<noteq> fd \<longrightarrow> m fd' = Some x2 \<longrightarrow> view b' fd' x2 = view b fd' x2)"
    and del_ok: "binv b m \<Longrightarrow> 0 \<le> fd \<Longrightarrow> m fd = Some x \<Longrightarrow> view b fd x = old \<Longrightarrow> io_flags old = old \<Longrightarrow>
      \<not> has_flag events EV_SIGNAL \<Longrightarrow>
      \<exists>b' x' r. del b fd old events x = Some (b', x', r) \<and> binv b' (m(fd \<mapsto> x')) \<and> (r = 0 \<or> r = -1) \<and>
        (r = 0 \<longrightarrow> view b' fd x' = old AND NOT (io_flags events)) \<and>
        (\<forall>fd' x2. fd' \<noteq> fd \<longrightarrow> m fd' = Some x2 \<longrightarrow> view b' fd' x2 = view b fd' x2)"

text \<open>
  The invariant of the maps over such a backend, in two parts: every entry is
  consistent and the backend has enabled exactly the events some listed event waits for.
\<close>

definition io_map_inv :: "ev_heap \<Rightarrow> ('b, 'x, 'z) evmap_base_scheme \<Rightarrow> bool" where
  "io_map_inv st b \<longleftrightarrow> map_ok (io b) \<and> (\<forall>fd ctx. map_slot (io b) fd = Some ctx \<longrightarrow> io_entry_ok st fd ctx)"

definition backend_agrees ::
  "('b \<Rightarrow> (int \<Rightarrow> 'x option) \<Rightarrow> bool) \<Rightarrow> ('b \<Rightarrow> int \<Rightarrow> 'x \<Rightarrow> short) \<Rightarrow> ev_heap \<Rightarrow> ('b, 'x, 'z) evmap_base_scheme \<Rightarrow> bool"
where
  "backend_agrees binv view st b \<longleftrightarrow> binv (evbase b) (fdinfos (io b)) \<and>
     (\<forall>fd ctx. map_slot (io b) fd = Some ctx \<longrightarrow>
        view (evbase b) fd (fdinfo ctx) = want_mask st (io_events ctx))"

lemma io_list_slot: "map_slot (io b) fd = Some ctx \<Longrightarrow> io_list b fd = io_events ctx"
  by (simp add: io_list_def)

lemma want_mask_Cons: "want_mask st (e # evl) = io_flags (ev_events (st e)) OR want_mask st evl"
  by (simp add: want_mask_def io_flags_def io_mask_or)

lemma want_mask_flags [simp]: "io_flags (want_mask st evl) = want_mask st evl"
  by (simp add: want_mask_def)

text \<open>Writing an entry back: the invariant of the arrays and the lists it leaves.\<close>

lemma io_map_inv_set:
  assumes "io_map_inv st b" "0 \<le> fd" "fd < int (nentries (io b))" "io_entry_ok st fd ctx"
  shows "io_map_inv st (b\<lparr>io := set_slot (io b) (nat fd) ctx, evbase := bs\<rparr>)"
    "io_list (b\<lparr>io := set_slot (io b) (nat fd) ctx, evbase := bs\<rparr>) = (io_list b)(fd := io_events ctx)"
    "fdinfos (set_slot (io b) (nat fd) ctx) = (fdinfos (io b))(fd \<mapsto> fdinfo ctx)"
  using assms map_slot_set_slot [of "io b" fd ctx]
  by (auto simp: io_map_inv_def io_list_def fdinfos_def fun_eq_iff)

lemma backend_agrees_set:
  assumes ag: "backend_agrees binv view st b" and inv: "io_map_inv st b"
    and fd: "0 \<le> fd" "fd < int (nentries (io b))"
    and bs: "binv bs ((fdinfos (io b))(fd \<mapsto> fdinfo ctx))"
    and here: "view bs fd (fdinfo ctx) = want_mask st (io_events ctx)"
    and there: "\<forall>fd' x2. fd' \<noteq> fd \<longrightarrow> fdinfos (io b) fd' = Some x2 \<longrightarrow> view bs fd' x2 = view (evbase b) fd' x2"
  shows "backend_agrees binv view st (b\<lparr>io := set_slot (io b) (nat fd) ctx, evbase := bs\<rparr>)"
proof -
  have "map_ok (io b)" using inv by (simp add: io_map_inv_def)
  note slot = map_slot_set_slot [OF this fd, of ctx]
  have "fdinfos (set_slot (io b) (nat fd) ctx) = (fdinfos (io b))(fd \<mapsto> fdinfo ctx)"
    by (auto simp: fdinfos_def slot)
  moreover have "view bs fd' (fdinfo c) = want_mask st (io_events c)"
    if "map_slot (set_slot (io b) (nat fd) ctx) fd' = Some c" for fd' c
  proof (cases "fd' = fd")
    case False
    then have c: "map_slot (io b) fd' = Some c" using that slot by simp
    then have "fdinfos (io b) fd' = Some (fdinfo c)" by (simp add: fdinfos_def)
    then show ?thesis using there False ag c by (simp add: backend_agrees_def)
  qed (use that slot here in simp)
  ultimately show ?thesis using bs by (simp add: backend_agrees_def)
qed

text \<open>The flags an addition turns on and a deletion turns off, from the counts.\<close>

lemma add_res:
  assumes ok: "io_entry_ok st fd ctx"
  shows "want_mask st (e # io_events ctx) = io_old ctx OR
    io_mask (has_flag (ev_events (st e)) EV_READ \<and> uint (nread ctx) + of_bool (has_flag (ev_events (st e)) EV_READ) = 1)
      (has_flag (ev_events (st e)) EV_WRITE \<and> uint (nwrite ctx) + of_bool (has_flag (ev_events (st e)) EV_WRITE) = 1)
      (has_flag (ev_events (st e)) EV_CLOSED \<and> uint (nclose ctx) + of_bool (has_flag (ev_events (st e)) EV_CLOSED) = 1)"
  unfolding want_mask_Cons io_old_want [OF ok, symmetric] io_old_def io_flags_def
  by (auto simp: io_mask_or)

lemma del_res:
  assumes ok: "io_entry_ok st fd ctx" and e: "e \<in> set (io_events ctx)"
  shows "want_mask st (remove1 e (io_events ctx)) = io_old ctx AND NOT
    (io_mask (has_flag (ev_events (st e)) EV_READ \<and> uint (nread ctx) - of_bool (has_flag (ev_events (st e)) EV_READ) = 0)
      (has_flag (ev_events (st e)) EV_WRITE \<and> uint (nwrite ctx) - of_bool (has_flag (ev_events (st e)) EV_WRITE) = 0)
      (has_flag (ev_events (st e)) EV_CLOSED \<and> uint (nclose ctx) - of_bool (has_flag (ev_events (st e)) EV_CLOSED) = 0))"
proof -
  have c: "(\<exists>x \<in> set (remove1 e (io_events ctx)). has_flag (ev_events (st x)) f) \<longleftrightarrow>
      k \<noteq> 0 \<and> \<not> (has_flag (ev_events (st e)) f \<and> k - of_bool (has_flag (ev_events (st e)) f) = 0)"
    if "int (count_flag st f (io_events ctx)) = k" for f k
    using count_flag_remove1 [OF e, of st f] that count_flag_0 [of st f "remove1 e (io_events ctx)"]
    by (cases "has_flag (ev_events (st e)) f") auto
  show ?thesis
    unfolding want_mask_def io_old_def
    using c [of EV_READ "uint (nread ctx)"] c [of EV_WRITE "uint (nwrite ctx)"] c [of EV_CLOSED "uint (nclose ctx)"] ok
    by (simp add: io_entry_ok_def io_mask_diff)
qed

definition io_maps_inv ::
  "('b \<Rightarrow> (int \<Rightarrow> 'x option) \<Rightarrow> bool) \<Rightarrow> ('b \<Rightarrow> int \<Rightarrow> 'x \<Rightarrow> short) \<Rightarrow> ev_heap \<Rightarrow> ('b, 'x, 'z) evmap_base_scheme \<Rightarrow> bool"
where
  "io_maps_inv binv view st b \<longleftrightarrow> io_map_inv st b \<and> backend_agrees binv view st b"

context io_backend
begin

lemma add_ctx_spec:
  assumes E: "be_add E = add" and inv: "io_maps_inv binv view st b"
    and fd: "0 \<le> fd" "fd < int (nentries (io b))" "map_slot (io b) fd = Some ctx"
    and e: "ev_fd (st e) = fd" "io_event (st e)" "e \<notin> set (io_events ctx)"
  shows "\<exists>b' r. evmap_io_add_ctx E st b fd e ctx = Some (b', r) \<and> io_maps_inv binv view st b' \<and>
    sigmap b' = sigmap b \<and> (r = -1 \<or> r = 0 \<or> r = 1) \<and>
    io_list b' = (if r = -1 then io_list b else (io_list b)(fd := e # io_list b fd))"
proof -
  define evs where "evs = ev_events (st e)"
  define nr nw nc where n: "nr = uint (nread ctx) + of_bool (has_flag evs EV_READ)"
    "nw = uint (nwrite ctx) + of_bool (has_flag evs EV_WRITE)"
    "nc = uint (nclose ctx) + of_bool (has_flag evs EV_CLOSED)"
  define res where "res = io_mask (has_flag evs EV_READ \<and> nr = 1) (has_flag evs EV_WRITE \<and> nw = 1)
    (has_flag evs EV_CLOSED \<and> nc = 1)"
  define ctx' where "ctx' x = ctx\<lparr>io_events := e # io_events ctx, nread := word_of_int nr,
    nwrite := word_of_int nw, nclose := word_of_int nc, fdinfo := x\<rparr>" for x
  have iinv: "io_map_inv st b" and ag: "backend_agrees binv view st b"
    using inv by (simp_all add: io_maps_inv_def)
  have ok: "io_entry_ok st fd ctx" using iinv fd(3) by (simp add: io_map_inv_def)
  have fi: "fdinfos (io b) fd = Some (fdinfo ctx)" using fd(3) by (simp add: fdinfos_def)
  have old: "view (evbase b) fd (fdinfo ctx) = io_old ctx"
    using ag fd(3) io_old_want [OF ok] by (simp add: backend_agrees_def)
  have want: "want_mask st (e # io_events ctx) = io_old ctx OR res"
    unfolding res_def n evs_def by (rule add_res [OF ok])
  have dfn: "evmap_io_add_ctx E st b fd e ctx =
    (if nr > 0xffff \<or> nw > 0xffff \<or> nc > 0xffff then Some (b, -1)
     else if debug_mode E \<and> io_events ctx \<noteq> [] \<and>
             ev_events (st (hd (io_events ctx))) AND EV_ET \<noteq> evs AND EV_ET then Some (b, -1)
     else if res \<noteq> 0 then
       (case add (evbase b) fd (io_old ctx) ((evs AND EV_ET) OR res) (fdinfo ctx) of
          None \<Rightarrow> None
        | Some (bs, x, r) \<Rightarrow>
            (if r = -1 then Some (b\<lparr>io := set_slot (io b) (nat fd) (ctx\<lparr>fdinfo := x\<rparr>), evbase := bs\<rparr>, -1)
             else Some (b\<lparr>io := set_slot (io b) (nat fd) (ctx' x), evbase := bs\<rparr>, 1)))
     else Some (b\<lparr>io := set_slot (io b) (nat fd) (ctx' (fdinfo ctx)), evbase := evbase b\<rparr>, 0))"
    unfolding evmap_io_add_ctx_def Let_def E res_def n ctx'_def evs_def e(1) ..
  have lst: "io_list b fd = io_events ctx" by (rule io_list_slot [OF fd(3)])
  show ?thesis
  proof (cases "(nr > 0xffff \<or> nw > 0xffff \<or> nc > 0xffff) \<or> debug_mode E \<and> io_events ctx \<noteq> [] \<and>
      ev_events (st (hd (io_events ctx))) AND EV_ET \<noteq> evs AND EV_ET")
    case True
    then show ?thesis using inv unfolding dfn by auto
  next
    case False
    then have le: "nr \<le> 0xffff" "nw \<le> 0xffff" "nc \<le> 0xffff" by linarith+
    have ok': "io_entry_ok st fd (ctx' x)" for x
      unfolding ctx'_def by (rule io_entry_ok_insert [OF ok e]) (use n le in \<open>simp_all add: evs_def\<close>)
    have set: "io_map_inv st (b\<lparr>io := set_slot (io b) (nat fd) (ctx' x), evbase := bs\<rparr>)"
      "io_list (b\<lparr>io := set_slot (io b) (nat fd) (ctx' x), evbase := bs\<rparr>) = (io_list b)(fd := e # io_list b fd)"
      for x bs using io_map_inv_set(1,2) [OF iinv fd(1,2) ok' [of x], of bs] lst by (simp_all add: ctx'_def)
    show ?thesis
    proof (cases "res = 0")
      case True
      have "backend_agrees binv view st (b\<lparr>io := set_slot (io b) (nat fd) (ctx' (fdinfo ctx)), evbase := evbase b\<rparr>)"
        by (rule backend_agrees_set [OF ag iinv fd(1,2)])
          (use ag fi old want True in \<open>simp_all add: backend_agrees_def ctx'_def fun_upd_idem\<close>)
      then show ?thesis
        using True False set [where x = "fdinfo ctx" and bs = "evbase b"] dfn by (auto simp: io_maps_inv_def)
    next
      case res: False
      have flags: "io_flags ((evs AND EV_ET) OR res) = res" "\<not> has_flag ((evs AND EV_ET) OR res) EV_SIGNAL"
        by (simp_all add: res_def)
      have "binv (evbase b) (fdinfos (io b))" using ag by (simp add: backend_agrees_def)
      from add_ok [OF this fd(1) fi old _ flags(2)] obtain bs x r where
        call: "add (evbase b) fd (io_old ctx) ((evs AND EV_ET) OR res) (fdinfo ctx) = Some (bs, x, r)"
        and bs: "binv bs ((fdinfos (io b))(fd \<mapsto> x))" "r = 0 \<or> r = -1"
        "view bs fd x = (if r = 0 then io_old ctx OR res else io_old ctx)"
        "\<forall>fd' x2. fd' \<noteq> fd \<longrightarrow> fdinfos (io b) fd' = Some x2 \<longrightarrow> view bs fd' x2 = view (evbase b) fd' x2"
        unfolding flags(1) by (auto simp: io_old_def)
      show ?thesis
      proof (cases "r = -1")
        case True
        let ?b = "b\<lparr>io := set_slot (io b) (nat fd) (ctx\<lparr>fdinfo := x\<rparr>), evbase := bs\<rparr>"
        have ok0: "io_entry_ok st fd (ctx\<lparr>fdinfo := x\<rparr>)" using ok by (simp add: io_entry_ok_def)
        have "backend_agrees binv view st ?b"
          by (rule backend_agrees_set [OF ag iinv fd(1,2)])
            (use bs True io_old_want [OF ok] in simp_all)
        moreover have "io_list ?b = io_list b" "io_map_inv st ?b"
          using io_map_inv_set(1,2) [OF iinv fd(1,2) ok0, of bs] lst by (simp_all add: fun_upd_idem)
        ultimately show ?thesis using call True res False dfn by (auto simp: io_maps_inv_def)
      next
        case rnz: False
        have "backend_agrees binv view st (b\<lparr>io := set_slot (io b) (nat fd) (ctx' x), evbase := bs\<rparr>)"
          by (rule backend_agrees_set [OF ag iinv fd(1,2)])
            (use bs rnz want in \<open>simp_all add: ctx'_def\<close>)
        then show ?thesis using call rnz res False dfn set by (auto simp: io_maps_inv_def)
      qed
    qed
  qed
qed

lemma evmap_io_add_spec:
  assumes E: "be_add E = add" "fdinfo_zero E = zero" and inv: "io_maps_inv binv view st b"
    and e: "ev_fd (st e) = fd" "0 \<le> fd" "io_event (st e)" "e \<notin> set (io_list b fd)"
  shows "\<exists>b' r. evmap_io_add E st b fd e = Some (b', r) \<and> io_maps_inv binv view st b' \<and>
    sigmap b' = sigmap b \<and> (r = -1 \<or> r = 0 \<or> r = 1) \<and>
    io_list b' = (if r = -1 then io_list b else (io_list b)(fd := e # io_list b fd))"
proof -
  have iinv: "io_map_inv st b" and ag: "backend_agrees binv view st b" and mok: "map_ok (io b)"
    using inv by (simp_all add: io_maps_inv_def io_map_inv_def)
  obtain io1 r1 where space: "(if fd \<ge> int (nentries (io b)) then evmap_make_space (m_realloc E) (io b) (nat fd) 8
      else (io b, 0)) = (io1, r1)" by fastforce
  have ms: "map_ok io1" "map_slot io1 = map_slot (io b)" "r1 = 0 \<or> r1 = -1" "r1 = -1 \<Longrightarrow> io1 = io b"
    "r1 = 0 \<Longrightarrow> fd < int (nentries io1)"
    using space make_space_spec [OF mok, of "m_realloc E" "nat fd" 8 io1 r1] mok e(2)
    by (auto split: if_splits)
  have keep: "io_maps_inv binv view st (b\<lparr>io := m\<rparr>)" "io_list (b\<lparr>io := m\<rparr>) = io_list b"
    if "map_ok m" "map_slot m = map_slot (io b)" for m
  proof -
    have "fdinfos m = fdinfos (io b)" by (simp add: fun_eq_iff fdinfos_def that(2))
    then show "io_maps_inv binv view st (b\<lparr>io := m\<rparr>)"
      using inv that by (simp add: io_maps_inv_def io_map_inv_def backend_agrees_def)
    show "io_list (b\<lparr>io := m\<rparr>) = io_list b"
      using that(2) by (simp add: io_list_def fun_eq_iff)
  qed
  show ?thesis
  proof (cases "r1 = -1")
    case True
    then show ?thesis using space keep [OF mok] ms(4) e inv by (auto simp: evmap_io_add_def Let_def)
  next
    case False
    then have in1: "fd < int (nentries io1)" using ms(3,5) by blast
    obtain io2 c where get: "GET_SLOT_AND_CTOR (m_calloc E (sizeof_evmap_io + fdinfo_len E))
        (evmap_io_init (fdinfo_zero E)) io1 (nat fd) = (io2, c)" by fastforce
    note g = get_slot_spec [OF ms(1) e(2) in1 get, unfolded ms(2)]
    show ?thesis
    proof (cases c)
      case None
      then have "map_slot io2 = map_slot (io b)"
        using g(3) ms(2) by (auto split: option.splits if_splits)
      then show ?thesis
        using space False get None keep [OF g(1)] e by (auto simp: evmap_io_add_def)
    next
      case (Some ctx)
      let ?b = "b\<lparr>io := io2\<rparr>"
      have slot2: "map_slot io2 fd = Some ctx"
        using g(3) Some ms(2) by (auto split: option.splits if_splits)
      have b2: "io_maps_inv binv view st ?b \<and> io_list ?b = io_list b"
      proof (cases "map_slot (io b) fd")
        case None
        then have s2: "map_slot io2 = (map_slot (io b))(fd \<mapsto> ctx)" "ctx = evmap_io_init zero"
          using g(3) Some E(2) by (auto split: if_splits)
        have f2: "fdinfos io2 = (fdinfos (io b))(fd \<mapsto> zero)"
          by (auto simp: fdinfos_def fun_eq_iff s2 evmap_io_init_def)
        have "fdinfos (io b) fd = None" by (simp add: fdinfos_def None)
        then have "binv (evbase b) (fdinfos io2) \<and> view (evbase b) fd zero = 0"
          unfolding f2 by (intro new_slot e(2)) (use ag in \<open>simp add: backend_agrees_def\<close>)
        then have "backend_agrees binv view st ?b"
          using ag s2 by (auto simp: backend_agrees_def evmap_io_init_def want_mask_def io_mask_def)
        moreover have "io_map_inv st ?b"
          using iinv g(1) s2 by (auto simp: io_map_inv_def io_entry_ok_def evmap_io_init_def)
        moreover have "io_list ?b = io_list b"
          using None s2 by (auto simp: io_list_def fun_eq_iff evmap_io_init_def)
        ultimately show ?thesis by (simp add: io_maps_inv_def)
      next
        case (Some c')
        then have "io2 = io1" using g(3) by simp
        then show ?thesis using keep [OF ms(1,2)] by simp
      qed
      have evs: "io_events ctx = io_list b fd"
        using io_list_slot [of ?b fd ctx] slot2 b2 by simp
      from add_ctx_spec [OF E(1) conjunct1 [OF b2], of fd ctx e] obtain b' r where
        "evmap_io_add_ctx E st ?b fd e ctx = Some (b', r)" "io_maps_inv binv view st b'"
        "sigmap b' = sigmap ?b" "r = -1 \<or> r = 0 \<or> r = 1"
        "io_list b' = (if r = -1 then io_list ?b else (io_list ?b)(fd := e # io_list ?b fd))"
        using e slot2 g(2) in1 evs by auto
      then show ?thesis
        using space False get Some e b2 by (auto simp: evmap_io_add_def)
    qed
  qed
qed

text \<open>A deletion of a listed event: only a failing backend can leave the two apart.\<close>

lemma evmap_io_del_spec:
  assumes E: "be_del E = del" and inv: "io_maps_inv binv view st b"
    and e: "ev_fd (st e) = fd" "0 \<le> fd" "e \<in> set (io_list b fd)"
  shows "\<exists>b' r. evmap_io_del E st b fd e = Some (b', r) \<and> io_map_inv st b' \<and>
    (r \<noteq> -1 \<longrightarrow> backend_agrees binv view st b') \<and>
    sigmap b' = sigmap b \<and> (r = -1 \<or> r = 0 \<or> r = 1) \<and>
    io_list b' = (io_list b)(fd := remove1 e (io_list b fd))"
proof -
  have iinv: "io_map_inv st b" and ag: "backend_agrees binv view st b" and mok: "map_ok (io b)"
    using inv by (simp_all add: io_maps_inv_def io_map_inv_def)
  obtain ctx where slot: "map_slot (io b) fd = Some ctx" and mem: "e \<in> set (io_events ctx)"
    using e(3) by (cases "map_slot (io b) fd") (auto simp: io_list_def)
  have fd: "fd < int (nentries (io b))" and entry: "entries (io b) ! nat fd = Some ctx"
    using slot by (auto simp: map_slot_def split: if_splits)
  have ok: "io_entry_ok st fd ctx" using iinv slot by (simp add: io_map_inv_def)
  have lst: "io_list b fd = io_events ctx" by (rule io_list_slot [OF slot])
  define evs where "evs = ev_events (st e)"
  define nr nw nc where n: "nr = uint (nread ctx) - of_bool (has_flag evs EV_READ)"
    "nw = uint (nwrite ctx) - of_bool (has_flag evs EV_WRITE)"
    "nc = uint (nclose ctx) - of_bool (has_flag evs EV_CLOSED)"
  define res where "res = io_mask (has_flag evs EV_READ \<and> nr = 0) (has_flag evs EV_WRITE \<and> nw = 0)
    (has_flag evs EV_CLOSED \<and> nc = 0)"
  define ctx' where "ctx' x = ctx\<lparr>io_events := remove1 e (io_events ctx), nread := word_of_int nr,
    nwrite := word_of_int nw, nclose := word_of_int nc, fdinfo := x\<rparr>" for x
  define call where "call = (if res \<noteq> 0 then
      (case del (evbase b) fd (io_old ctx) ((evs AND EV_ET) OR res) (fdinfo ctx) of
         None \<Rightarrow> None
       | Some (bs, x, r) \<Rightarrow> Some (bs, x, if r = -1 then -1 else 1 :: int))
      else Some (evbase b, fdinfo ctx, 0))"
  note rem = io_entry_ok_remove [OF ok mem n [unfolded evs_def]]
  have dfn: "evmap_io_del E st b fd e =
     (case call of None \<Rightarrow> None
      | Some (bs, x, r) \<Rightarrow> Some (b\<lparr>io := set_slot (io b) (nat fd) (ctx' x), evbase := bs\<rparr>, r))"
  proof -
    have g: "\<not> fd < 0" "\<not> fd \<noteq> ev_fd (st e)" "\<not> int (nentries (io b)) \<le> fd"
      "\<not> (nr < 0 \<or> nw < 0 \<or> nc < 0)" using e fd rem(1-3) by (auto simp: n evs_def)
    have l: "list_remove e (io_events ctx) = Some (remove1 e (io_events ctx))"
      using mem by (simp add: list_remove_def)
    show ?thesis
      unfolding evmap_io_del_def Let_def entry option.case E evs_def [symmetric] n [symmetric] l
        res_def [symmetric] e(1) call_def [symmetric] ctx'_def
      by (simp only: g if_False not_True_eq_False not_False_eq_True simp_thms)
  qed
  have ok': "io_entry_ok st fd (ctx' x)" for x unfolding ctx'_def by (rule rem(4))
  have set: "io_map_inv st (b\<lparr>io := set_slot (io b) (nat fd) (ctx' x), evbase := bs\<rparr>)"
    "io_list (b\<lparr>io := set_slot (io b) (nat fd) (ctx' x), evbase := bs\<rparr>) = (io_list b)(fd := remove1 e (io_list b fd))"
    for x bs using io_map_inv_set(1,2) [OF iinv e(2) fd ok' [of x], of bs] lst by (simp_all add: ctx'_def)
  have fi: "fdinfos (io b) fd = Some (fdinfo ctx)" using slot by (simp add: fdinfos_def)
  have old: "view (evbase b) fd (fdinfo ctx) = io_old ctx"
    using ag slot io_old_want [OF ok] by (simp add: backend_agrees_def)
  have want: "want_mask st (remove1 e (io_events ctx)) = io_old ctx AND NOT res"
    unfolding res_def n evs_def by (rule del_res [OF ok mem])
  have agree: "backend_agrees binv view st (b\<lparr>io := set_slot (io b) (nat fd) (ctx' x), evbase := bs\<rparr>)"
    if "binv bs ((fdinfos (io b))(fd \<mapsto> x))" "view bs fd x = io_old ctx AND NOT res"
      "\<forall>fd' x2. fd' \<noteq> fd \<longrightarrow> fdinfos (io b) fd' = Some x2 \<longrightarrow> view bs fd' x2 = view (evbase b) fd' x2" for x bs
    by (rule backend_agrees_set [OF ag iinv e(2) fd]) (use that want in \<open>simp_all add: ctx'_def\<close>)
  show ?thesis
  proof (cases "res = 0")
    case True
    have "backend_agrees binv view st (b\<lparr>io := set_slot (io b) (nat fd) (ctx' (fdinfo ctx)), evbase := evbase b\<rparr>)"
      by (rule agree) (use ag fi old True in \<open>simp_all add: backend_agrees_def fun_upd_idem\<close>)
    then show ?thesis using True dfn set [where x = "fdinfo ctx" and bs = "evbase b"] by (simp add: call_def)
  next
    case False
    have flags: "io_flags ((evs AND EV_ET) OR res) = res" "\<not> has_flag ((evs AND EV_ET) OR res) EV_SIGNAL"
      by (simp_all add: res_def)
    have "binv (evbase b) (fdinfos (io b))" using ag by (simp add: backend_agrees_def)
    from del_ok [OF this e(2) fi old _ flags(2)] obtain bs x r where
      "del (evbase b) fd (io_old ctx) ((evs AND EV_ET) OR res) (fdinfo ctx) = Some (bs, x, r)"
      and bs: "binv bs ((fdinfos (io b))(fd \<mapsto> x))" "r = 0 \<or> r = -1" "r = 0 \<longrightarrow> view bs fd x = io_old ctx AND NOT res"
      "\<forall>fd' x2. fd' \<noteq> fd \<longrightarrow> fdinfos (io b) fd' = Some x2 \<longrightarrow> view bs fd' x2 = view (evbase b) fd' x2"
      unfolding flags(1) by (auto simp: io_old_def)
    then have "evmap_io_del E st b fd e = Some (b\<lparr>io := set_slot (io b) (nat fd) (ctx' x), evbase := bs\<rparr>,
        if r = -1 then -1 else 1)"
      using False dfn by (simp add: call_def)
    then show ?thesis using set [where x = x and bs = bs] agree [OF bs(1) _ bs(4)] bs(2,3) by auto
  qed
qed

end

section \<open>The changelist is such a backend\<close>

text \<open>
  The state is the changelist and what the kernel has enabled on each descriptor (it changes
  only when the changes are applied, at the next dispatch).
\<close>

type_synonym changelist_state = "event_changelist \<times> (int \<Rightarrow> short)"

definition changelist_be_add ::
  "(nat \<Rightarrow> bool) \<Rightarrow> changelist_state \<Rightarrow> int \<Rightarrow> short \<Rightarrow> short \<Rightarrow> nat \<Rightarrow> (changelist_state \<times> nat \<times> int) option"
where
  "changelist_be_add realloc_ok = (\<lambda>(cl, k) fd old events x.
     map_option (\<lambda>(cl', x', r). ((cl', k), x', r)) (event_changelist_add realloc_ok cl fd old events x))"

definition changelist_be_del ::
  "(nat \<Rightarrow> bool) \<Rightarrow> changelist_state \<Rightarrow> int \<Rightarrow> short \<Rightarrow> short \<Rightarrow> nat \<Rightarrow> (changelist_state \<times> nat \<times> int) option"
where
  "changelist_be_del realloc_ok = (\<lambda>(cl, k) fd old events x.
     map_option (\<lambda>(cl', x', r). ((cl', k), x', r)) (event_changelist_del realloc_ok cl fd old events x))"

definition changelist_binv :: "changelist_state \<Rightarrow> fdinfo_map \<Rightarrow> bool" where
  "changelist_binv = (\<lambda>(cl, k) m. changelist_inv cl m \<and>
     (\<forall>fd x. m fd = Some x \<longrightarrow> base_view cl x (k fd) = k fd) \<and>
     (\<forall>fd. io_flags (k fd) = k fd) \<and> (\<forall>fd. 0 \<le> fd \<longrightarrow> m fd = None \<longrightarrow> k fd = 0))"

definition changelist_view :: "changelist_state \<Rightarrow> int \<Rightarrow> nat \<Rightarrow> short" where
  "changelist_view = (\<lambda>(cl, k) fd x. pending_view cl x (k fd))"

lemma io_flags_signal: "io_flags old = old \<Longrightarrow> \<not> has_flag old EV_SIGNAL"
  by (metis has_flag_io_mask(5) io_flags_def)

lemma changelist_be:
  assumes inv: "changelist_binv (cl, k) m" and fd: "0 \<le> fd" "m fd = Some x"
    and old: "changelist_view (cl, k) fd x = old"
    and upd: "changelist_updated cl m fd old new cl' x' r"
  shows "changelist_binv (cl', k) (m(fd \<mapsto> x'))" "r = 0 \<or> r = -1"
    "changelist_view (cl', k) fd x' = (if r = 0 then new else old)"
    "fd' \<noteq> fd \<Longrightarrow> m fd' = Some x2 \<Longrightarrow> changelist_view (cl', k) fd' x2 = changelist_view (cl, k) fd' x2"
proof -
  have r: "r = 0 \<or> r = -1 \<and> cl' = cl \<and> x' = x"
    using upd fd(2) by (auto simp: changelist_updated_def split: if_splits)
  then show "r = 0 \<or> r = -1" by blast
  have other: "pending_view cl' x2 o2 = pending_view cl x2 o2 \<and> base_view cl' x2 o2 = base_view cl x2 o2"
    if "fd' \<noteq> fd" "m fd' = Some x2" for fd' x2 o2
    using upd that by (auto simp: changelist_updated_def)
  then show "fd' \<noteq> fd \<Longrightarrow> m fd' = Some x2 \<Longrightarrow> changelist_view (cl', k) fd' x2 = changelist_view (cl, k) fd' x2"
    by (simp add: changelist_view_def)
  have here: "x' \<noteq> 0 \<and> pending_view cl' x' old = new \<and> base_view cl' x' old = base_view cl x old" if "r = 0"
    using upd that fd(2) by (auto simp: changelist_updated_def)
  then show "changelist_view (cl', k) fd x' = (if r = 0 then new else old)"
    using r old by (auto simp: changelist_view_def pending_view_def)
  have kfd: "base_view cl x (k fd) = k fd" using inv fd(2) by (simp add: changelist_binv_def)
  have "base_view cl' x' (k fd) = k fd"
  proof (cases "r = 0")
    case True
    have "old = k fd" if "x = 0" using old that inv by (simp add: changelist_view_def pending_view_def changelist_binv_def)
    then have "base_view cl x old = base_view cl x (k fd)" by (cases "x = 0") (simp_all add: base_view_def)
    moreover have "base_view cl' x' (k fd) = base_view cl' x' old" using here [OF True] by (simp add: base_view_def)
    ultimately show ?thesis using here [OF True] kfd by simp
  qed (use r kfd in simp)
  then have "\<forall>fd' y. (m(fd \<mapsto> x')) fd' = Some y \<longrightarrow> base_view cl' y (k fd') = k fd'"
    using other inv by (auto simp: changelist_binv_def)
  then show "changelist_binv (cl', k) (m(fd \<mapsto> x'))"
    using inv upd fd by (auto simp: changelist_binv_def changelist_updated_def)
qed

interpretation changelist_backend: io_backend
  "changelist_be_add realloc_ok" "changelist_be_del realloc_ok" 0 changelist_binv changelist_view for realloc_ok
proof (unfold_locales, goal_cases)
  case (1 b m fd)
  obtain cl k where b: "b = (cl, k)" by fastforce
  have "changelist_inv cl (m(fd \<mapsto> 0))"
    using 1 by (auto simp: b changelist_binv_def changelist_inv_def)
  then show ?case
    using 1 by (auto simp: b changelist_binv_def changelist_view_def pending_view_def base_view_def)
next
  case (2 b m fd x old events)
  obtain cl k where b: "b = (cl, k)" by fastforce
  have inv: "changelist_inv cl m" using 2(1) by (simp add: b changelist_binv_def)
  from changelist_add_spec [OF inv 2(2,3) io_flags_signal [OF 2(5)] 2(6), of realloc_ok] obtain cl' x' r where
    call: "event_changelist_add realloc_ok cl fd old events x = Some (cl', x', r)" and
    upd: "changelist_updated cl m fd old (pending_view cl x old OR io_flags events) cl' x' r" by blast
  have "pending_view cl x old = old"
    using 2(4,5) by (auto simp: b changelist_view_def pending_view_def split: if_splits)
  note be = changelist_be [OF 2(1) [unfolded b] 2(2,3) 2(4) [unfolded b] upd, unfolded this]
  show ?case
    unfolding b changelist_be_add_def using be call by simp
next
  case (3 b m fd x old events)
  obtain cl k where b: "b = (cl, k)" by fastforce
  have inv: "changelist_inv cl m" using 3(1) by (simp add: b changelist_binv_def)
  from changelist_del_spec [OF inv 3(2,3) io_flags_signal [OF 3(5)] 3(6), of realloc_ok] obtain cl' x' r where
    call: "event_changelist_del realloc_ok cl fd old events x = Some (cl', x', r)" and
    upd: "changelist_updated cl m fd old (pending_view cl x old AND NOT (io_flags events)) cl' x' r" by blast
  have "pending_view cl x old = old"
    using 3(4,5) by (auto simp: b changelist_view_def pending_view_def split: if_splits)
  note be = changelist_be [OF 3(1) [unfolded b] 3(2,3) 3(4) [unfolded b] upd, unfolded this]
  show ?case
    unfolding b changelist_be_del_def using be call by simp
qed

end
