(* ===== verification/Ev_Base.thy ===== *)
theory Ev_Base
  imports Ev_Evmap
begin

text \<open>
  \<open>struct event_base\<close> of \<open>event-internal.h\<close>, its clock, and the eight functions of
  \<open>event.c\<close> that put an event on one of the base's queues or take it off:
  \<open>event_queue_insert_*\<close> and \<open>event_queue_remove_*\<close>. A state holds the events themselves
  (\<open>evs\<close>, a store of records) and the counter of a running \<open>event_signal_closure\<close>
  (\<open>signal_ncalls\<close>) beside the fields of the base. \<open>None\<close> is a failed
  \<open>EVUTIL_ASSERT\<close>, an \<open>event_errx\<close> (which ends the process) or a corrupted list.
\<close>

section \<open>State\<close>

text \<open>\<open>struct common_timeout_list\<close>: the events waiting in order, and the internal timer event.\<close>

record common_timeout_list =
  ctl_events :: "ev_addr list"
  ctl_duration :: timeval
  ctl_timeout_event :: ev_addr

record ('b, 'x) event_base = "('b, 'x) evmap_base" +
  evs :: ev_heap
  timeheap :: min_heap
  virtual_event_count :: int
  virtual_event_count_max :: int
  event_count :: int
  event_count_max :: int
  event_count_active :: int
  event_count_active_max :: int
  event_gotterm :: bool
  event_break :: bool
  event_continue :: bool
  event_running_priority :: int
  running_loop :: bool
  n_deferreds_queued :: int
  activequeues :: "ev_addr list list"
  active_later_queue :: "ev_addr list"
  common_timeout_queues :: "common_timeout_list list"
  tv_cache :: timeval
  monotonic_timer :: evutil_monotonic_timer
  tv_clock_diff :: timeval
  last_updated_clock_diff :: int
  current_event :: "ev_addr option"
  no_cache_time :: bool
  max_dispatch_time :: timeval
  max_dispatch_callbacks :: int
  limit_callbacks_after_prio :: int
  is_notify_pending :: bool
  clock_reads :: nat
  signal_ncalls :: short

text \<open>
  The environment: the allocator and the backend (of the event maps), the clocks, read once
  per call (\<open>None\<close> when \<open>clock_gettime\<close> fails; \<open>gettimeofday\<close> does not, with a valid pointer), and whether another thread has to be woken
  (\<open>EVBASE_NEED_NOTIFY\<close>) and can be (\<open>th_notify_fn\<close>).
\<close>

record ('b, 'x) event_env = "('b, 'x) evmap_env" +
  posix_clock :: bool
  clock_gettime :: "nat \<Rightarrow> timeval option"
  wall_clock :: "nat \<Rightarrow> timeval"
  need_notify :: bool
  has_notify_fn :: bool

abbreviation nactivequeues :: "('b, 'x) event_base \<Rightarrow> nat" where
  "nactivequeues b \<equiv> length (activequeues b)"

abbreviation n_common_timeouts :: "('b, 'x) event_base \<Rightarrow> nat" where
  "n_common_timeouts b \<equiv> length (common_timeout_queues b)"

definition upd_ev :: "ev_addr \<Rightarrow> (event \<Rightarrow> event) \<Rightarrow> ('b, 'x) event_base \<Rightarrow> ('b, 'x) event_base" where
  "upd_ev e f b = b\<lparr>evs := (evs b)(e := f (evs b e))\<rparr>"

text \<open>\<open>evthread_notify_base\<close>, called when another thread runs the loop.\<close>

definition evthread_notify_base :: "('b, 'x) event_env \<Rightarrow> ('b, 'x) event_base \<Rightarrow> ('b, 'x) event_base" where
  "evthread_notify_base E b = (if has_notify_fn E then b\<lparr>is_notify_pending := True\<rparr> else b)"

definition notify_if :: "bool \<Rightarrow> ('b, 'x) event_env \<Rightarrow> ('b, 'x) event_base \<Rightarrow> ('b, 'x) event_base" where
  "notify_if c E b = (if c \<and> need_notify E then evthread_notify_base E b else b)"

section \<open>The clock\<close>

text \<open>
  \<open>evutil_gettime_monotonic_\<close>: \<open>clock_gettime\<close>, or without a monotonic clock the wall clock
  made monotonic.
\<close>

definition evutil_gettime_monotonic ::
  "('b, 'x) event_env \<Rightarrow> nat \<Rightarrow> evutil_monotonic_timer \<Rightarrow> (evutil_monotonic_timer \<times> timeval) option"
where
  "evutil_gettime_monotonic E n timer =
     (if posix_clock E then map_option (\<lambda>tv. (timer, tv)) (clock_gettime E n)
      else Some (adjust_monotonic_time timer (wall_clock E n)))"

definition CLOCK_SYNC_INTERVAL :: int where "CLOCK_SYNC_INTERVAL = 5"

text \<open>
  \<open>gettime\<close>: the cached time if there is one; otherwise a reading, with the difference to the
  wall clock renewed when it is old. The result is \<open>None\<close> where the code returns -1 (and
  leaves its argument \<open>tp\<close> unwritten).
\<close>

definition gettime :: "('b, 'x) event_env \<Rightarrow> ('b, 'x) event_base \<Rightarrow> ('b, 'x) event_base \<times> timeval option" where
  "gettime E b =
     (if tv_sec (tv_cache b) \<noteq> 0 then (b, Some (tv_cache b))
      else
        (case evutil_gettime_monotonic E (clock_reads b) (monotonic_timer b) of
           None \<Rightarrow> (b\<lparr>clock_reads := clock_reads b + 1\<rparr>, None)
         | Some (timer, tp) \<Rightarrow>
             (let b1 = b\<lparr>clock_reads := clock_reads b + 1, monotonic_timer := timer\<rparr>
              in if last_updated_clock_diff b + CLOCK_SYNC_INTERVAL < tv_sec tp then
                   (b1\<lparr>clock_reads := clock_reads b1 + 1,
                       tv_clock_diff := evutil_timersub (wall_clock E (clock_reads b1)) tp,
                       last_updated_clock_diff := tv_sec tp\<rparr>, Some tp)
                 else (b1, Some tp))))"

definition clear_time_cache :: "('b, 'x) event_base \<Rightarrow> ('b, 'x) event_base" where
  "clear_time_cache b = b\<lparr>tv_cache := Timeval 0 (tv_usec (tv_cache b))\<rparr>"

definition update_time_cache :: "('b, 'x) event_env \<Rightarrow> ('b, 'x) event_base \<Rightarrow> ('b, 'x) event_base" where
  "update_time_cache E b =
     (let b1 = b\<lparr>tv_cache := Timeval 0 (tv_usec (tv_cache b))\<rparr>
      in if no_cache_time b then b1
         else (case gettime E b1 of (b2, None) \<Rightarrow> b2 | (b2, Some tv) \<Rightarrow> b2\<lparr>tv_cache := tv\<rparr>))"

section \<open>Common timeouts\<close>

definition MICROSECONDS_MASK :: int where "MICROSECONDS_MASK = 0x000fffff"
definition COMMON_TIMEOUT_IDX_MASK :: int where "COMMON_TIMEOUT_IDX_MASK = 0x0ff00000"
definition COMMON_TIMEOUT_IDX_SHIFT :: nat where "COMMON_TIMEOUT_IDX_SHIFT = 20"
definition COMMON_TIMEOUT_MASK :: int where "COMMON_TIMEOUT_MASK = 0xf0000000"
definition COMMON_TIMEOUT_MAGIC :: int where "COMMON_TIMEOUT_MAGIC = 0x50000000"
definition MAX_COMMON_TIMEOUTS :: nat where "MAX_COMMON_TIMEOUTS = 256"

definition COMMON_TIMEOUT_IDX :: "timeval \<Rightarrow> nat" where
  "COMMON_TIMEOUT_IDX tv = nat (drop_bit COMMON_TIMEOUT_IDX_SHIFT (tv_usec tv AND COMMON_TIMEOUT_IDX_MASK))"

definition is_common_timeout :: "timeval \<Rightarrow> ('b, 'x) event_base \<Rightarrow> bool" where
  "is_common_timeout tv b \<longleftrightarrow>
     (if tv_usec tv AND COMMON_TIMEOUT_MASK \<noteq> COMMON_TIMEOUT_MAGIC then False
      else COMMON_TIMEOUT_IDX tv < n_common_timeouts b)"

definition is_same_common_timeout :: "timeval \<Rightarrow> timeval \<Rightarrow> bool" where
  "is_same_common_timeout tv1 tv2 \<longleftrightarrow>
     tv_usec tv1 AND NOT MICROSECONDS_MASK = tv_usec tv2 AND NOT MICROSECONDS_MASK"

definition real_timeout :: "timeval \<Rightarrow> timeval" where
  "real_timeout tv = Timeval (tv_sec tv) (tv_usec tv AND MICROSECONDS_MASK)"

text \<open>
  The loop of \<open>insert_common_timeout_inorder\<close> from the end of the list, on the reversed list:
  the event goes after the last one that is not due later. \<open>None\<close> is the failed assertion that
  both have the same magic value.
\<close>

fun insert_rev :: "ev_heap \<Rightarrow> ev_addr \<Rightarrow> ev_addr list \<Rightarrow> ev_addr list option" where
  "insert_rev st e [] = Some [e]"
| "insert_rev st e (x # xs) =
     (if \<not> is_same_common_timeout (ev_timeout (st x)) (ev_timeout (st e)) then None
      else if evutil_timercmp (ev_timeout (st e)) (ev_timeout (st x)) (\<ge>) then Some (e # x # xs)
      else map_option ((#) x) (insert_rev st e xs))"

definition insert_common_timeout_inorder :: "ev_heap \<Rightarrow> ev_addr list \<Rightarrow> ev_addr \<Rightarrow> ev_addr list option" where
  "insert_common_timeout_inorder st evl e = map_option rev (insert_rev st e (rev evl))"

definition set_ctl_events :: "nat \<Rightarrow> ev_addr list \<Rightarrow> ('b, 'x) event_base \<Rightarrow> ('b, 'x) event_base" where
  "set_ctl_events i evl b =
     b\<lparr>common_timeout_queues := (common_timeout_queues b)[i := (common_timeout_queues b ! i)\<lparr>ctl_events := evl\<rparr>]\<rparr>"

section \<open>The queues\<close>

definition DECR_EVENT_COUNT :: "ev_addr \<Rightarrow> ('b, 'x) event_base \<Rightarrow> ('b, 'x) event_base" where
  "DECR_EVENT_COUNT e b = b\<lparr>event_count := event_count b - of_bool (\<not> has_flag (ev_flags (evs b e)) EVLIST_INTERNAL)\<rparr>"

definition INCR_EVENT_COUNT :: "ev_addr \<Rightarrow> ('b, 'x) event_base \<Rightarrow> ('b, 'x) event_base" where
  "INCR_EVENT_COUNT e b =
     (let n = event_count b + of_bool (\<not> has_flag (ev_flags (evs b e)) EVLIST_INTERNAL)
      in b\<lparr>event_count := n, event_count_max := max (event_count_max b) n\<rparr>)"

definition set_ev_flag :: "short \<Rightarrow> ev_addr \<Rightarrow> ('b, 'x) event_base \<Rightarrow> ('b, 'x) event_base" where
  "set_ev_flag f e = upd_ev e (\<lambda>ev. ev\<lparr>ev_flags := ev_flags ev OR f\<rparr>)"

definition clear_ev_flag :: "short \<Rightarrow> ev_addr \<Rightarrow> ('b, 'x) event_base \<Rightarrow> ('b, 'x) event_base" where
  "clear_ev_flag f e = upd_ev e (\<lambda>ev. ev\<lparr>ev_flags := ev_flags ev AND NOT f\<rparr>)"

definition event_queue_remove_inserted :: "('b, 'x) event_base \<Rightarrow> ev_addr \<Rightarrow> ('b, 'x) event_base option" where
  "event_queue_remove_inserted b e =
     (if \<not> has_flag (ev_flags (evs b e)) EVLIST_INSERTED then None
      else Some (clear_ev_flag EVLIST_INSERTED e (DECR_EVENT_COUNT e b)))"

definition event_queue_remove_active :: "('b, 'x) event_base \<Rightarrow> ev_addr \<Rightarrow> ('b, 'x) event_base option" where
  "event_queue_remove_active b e =
     (if \<not> has_flag (ev_flags (evs b e)) EVLIST_ACTIVE then None
      else
        (let b1 = clear_ev_flag EVLIST_ACTIVE e (DECR_EVENT_COUNT e b);
             pri = ev_pri (evs b e)
         in if \<not> pri < nactivequeues b then None
            else
              (case list_remove e (activequeues b ! pri) of
                 None \<Rightarrow> None
               | Some q \<Rightarrow>
                   Some (b1\<lparr>event_count_active := event_count_active b - 1,
                            activequeues := (activequeues b)[pri := q]\<rparr>))))"

definition event_queue_remove_active_later :: "('b, 'x) event_base \<Rightarrow> ev_addr \<Rightarrow> ('b, 'x) event_base option" where
  "event_queue_remove_active_later b e =
     (if \<not> has_flag (ev_flags (evs b e)) EVLIST_ACTIVE_LATER then None
      else
        (let b1 = clear_ev_flag EVLIST_ACTIVE_LATER e (DECR_EVENT_COUNT e b)
         in (case list_remove e (active_later_queue b) of
               None \<Rightarrow> None
             | Some q \<Rightarrow> Some (b1\<lparr>event_count_active := event_count_active b - 1, active_later_queue := q\<rparr>))))"

definition event_queue_remove_timeout :: "('b, 'x) event_base \<Rightarrow> ev_addr \<Rightarrow> ('b, 'x) event_base option" where
  "event_queue_remove_timeout b e =
     (if \<not> has_flag (ev_flags (evs b e)) EVLIST_TIMEOUT then None
      else
        (let b1 = clear_ev_flag EVLIST_TIMEOUT e (DECR_EVENT_COUNT e b);
             tv = ev_timeout (evs b e)
         in if is_common_timeout tv b then
              (let i = COMMON_TIMEOUT_IDX tv
               in map_option (\<lambda>evl. set_ctl_events i evl b1)
                    (list_remove e (ctl_events (common_timeout_queues b ! i))))
            else
              map_option (\<lambda>(st, h, r). b1\<lparr>evs := st, timeheap := h\<rparr>)
                (min_heap_erase (evs b1) (timeheap b1) e)))"

definition event_queue_insert_inserted :: "('b, 'x) event_base \<Rightarrow> ev_addr \<Rightarrow> ('b, 'x) event_base option" where
  "event_queue_insert_inserted b e =
     (if has_flag (ev_flags (evs b e)) EVLIST_INSERTED then None
      else Some (set_ev_flag EVLIST_INSERTED e (INCR_EVENT_COUNT e b)))"

definition event_queue_insert_active :: "('b, 'x) event_base \<Rightarrow> ev_addr \<Rightarrow> ('b, 'x) event_base option" where
  "event_queue_insert_active b e =
     (if has_flag (ev_flags (evs b e)) EVLIST_ACTIVE then Some b
      else
        (let b1 = set_ev_flag EVLIST_ACTIVE e (INCR_EVENT_COUNT e b);
             n = event_count_active b + 1;
             pri = ev_pri (evs b e)
         in if \<not> pri < nactivequeues b then None
            else Some (b1\<lparr>event_count_active := n, event_count_active_max := max (event_count_active_max b) n,
                          activequeues := (activequeues b)[pri := activequeues b ! pri @ [e]]\<rparr>)))"

definition event_queue_insert_active_later :: "('b, 'x) event_base \<Rightarrow> ev_addr \<Rightarrow> ('b, 'x) event_base option" where
  "event_queue_insert_active_later b e =
     (if has_flag (ev_flags (evs b e)) (EVLIST_ACTIVE_LATER OR EVLIST_ACTIVE) then Some b
      else
        (let b1 = set_ev_flag EVLIST_ACTIVE_LATER e (INCR_EVENT_COUNT e b);
             n = event_count_active b + 1
         in if \<not> ev_pri (evs b e) < nactivequeues b then None
            else Some (b1\<lparr>event_count_active := n, event_count_active_max := max (event_count_active_max b) n,
                          active_later_queue := active_later_queue b @ [e]\<rparr>)))"

text \<open>
  \<open>min_heap_push_\<close> can fail; \<open>event_queue_insert_timeout\<close> does not look at its result, as
  \<open>event_add_nolock_\<close> reserves the cell first.
\<close>

definition event_queue_insert_timeout ::
  "('b, 'x) event_env \<Rightarrow> ('b, 'x) event_base \<Rightarrow> ev_addr \<Rightarrow> ('b, 'x) event_base option"
where
  "event_queue_insert_timeout E b e =
     (if has_flag (ev_flags (evs b e)) EVLIST_TIMEOUT then None
      else
        (let b1 = set_ev_flag EVLIST_TIMEOUT e (INCR_EVENT_COUNT e b);
             tv = ev_timeout (evs b e)
         in if is_common_timeout tv b then
              (let i = COMMON_TIMEOUT_IDX tv
               in map_option (\<lambda>evl. set_ctl_events i evl b1)
                    (insert_common_timeout_inorder (evs b1) (ctl_events (common_timeout_queues b ! i)) e))
            else
              (let (st, h, r) = min_heap_push (m_realloc E) (evs b1) (timeheap b1) e
               in Some (b1\<lparr>evs := st, timeheap := h\<rparr>))))"

text \<open>\<open>event_queue_make_later_events_active\<close>, over the queue it empties.\<close>

fun make_later_active :: "ev_addr list \<Rightarrow> ('b, 'x) event_base \<Rightarrow> ('b, 'x) event_base option" where
  "make_later_active [] b = Some (b\<lparr>active_later_queue := []\<rparr>)"
| "make_later_active (e # es) b =
     (let b1 = upd_ev e (\<lambda>ev. ev\<lparr>ev_flags := (ev_flags ev AND NOT EVLIST_ACTIVE_LATER) OR EVLIST_ACTIVE\<rparr>)
                 (b\<lparr>active_later_queue := es\<rparr>);
          pri = ev_pri (evs b e)
      in if \<not> pri < nactivequeues b then None
         else make_later_active es
           (b1\<lparr>activequeues := (activequeues b)[pri := activequeues b ! pri @ [e]],
               n_deferreds_queued := n_deferreds_queued b + of_bool (ev_closure (evs b e) = EV_CLOSURE_CB_SELF)\<rparr>))"

definition event_queue_make_later_events_active :: "('b, 'x) event_base \<Rightarrow> ('b, 'x) event_base option" where
  "event_queue_make_later_events_active b = make_later_active (active_later_queue b) b"

end
