(* ===== verification/Ev_Queues.thy ===== *)
theory Ev_Queues
  imports Ev_Base
begin

text \<open>
  The invariant of the base's queues (what \<open>event_base_assert_ok_nolock_\<close> checks, made
  complete: the flags of an event say exactly which queues hold it, and the counters count
  them) and its preservation by the eight queue functions.
\<close>

section \<open>Single flags\<close>

definition single_bit :: "short \<Rightarrow> bool" where
  "single_bit f \<longleftrightarrow> (\<exists>n < 16. f = 2 ^ n)"

lemma has_flag_exp: "has_flag (x :: 'a::len word) (2 ^ n) \<longleftrightarrow> bit x n"
  using has_flag_push [of x n] by (simp add: push_bit_eq_mult)

lemma bit_exp_short: "bit (2 ^ m :: short) n \<longleftrightarrow> m = n \<and> n < 16"
  by (auto simp: bit_exp_iff)

lemma single_bit_set:
  assumes "single_bit f" "single_bit g"
  shows "has_flag (x OR f) g \<longleftrightarrow> has_flag x g \<or> f = g" "has_flag (x AND NOT f) g \<longleftrightarrow> has_flag x g \<and> f \<noteq> g"
proof -
  obtain m n where f: "f = 2 ^ m" "g = 2 ^ n" "m < 16" "n < 16"
    using assms by (auto simp: single_bit_def)
  have "f = g \<longleftrightarrow> m = n"
  proof
    assume "f = g"
    then have "bit f m = bit g m" by simp
    then show "m = n" using f by (simp add: bit_exp_short)
  qed (use f in simp)
  then show "has_flag (x OR f) g \<longleftrightarrow> has_flag x g \<or> f = g" "has_flag (x AND NOT f) g \<longleftrightarrow> has_flag x g \<and> f \<noteq> g"
    using f by (auto simp: f(1,2) has_flag_exp bit_or_iff bit_and_iff bit_not_iff bit_exp_short)
qed

lemma single_bit_exp: "n < 16 \<Longrightarrow> single_bit (2 ^ n)"
  by (auto simp: single_bit_def)

lemma single_bit_evlist [simp]:
  "single_bit EVLIST_TIMEOUT" "single_bit EVLIST_INSERTED" "single_bit EVLIST_ACTIVE"
  "single_bit EVLIST_INTERNAL" "single_bit EVLIST_ACTIVE_LATER" "single_bit EVLIST_FINALIZING" "single_bit EVLIST_INIT"
  using single_bit_exp [of 0] single_bit_exp [of 1] single_bit_exp [of 3] single_bit_exp [of 4]
    single_bit_exp [of 5] single_bit_exp [of 6] single_bit_exp [of 7]
  by (simp_all add: evlist_flag_defs)

lemma evlist_neq [simp]:
  "EVLIST_TIMEOUT \<noteq> EVLIST_INSERTED" "EVLIST_TIMEOUT \<noteq> EVLIST_ACTIVE"
  "EVLIST_TIMEOUT \<noteq> EVLIST_INTERNAL" "EVLIST_TIMEOUT \<noteq> EVLIST_ACTIVE_LATER"
  "EVLIST_TIMEOUT \<noteq> EVLIST_FINALIZING" "EVLIST_TIMEOUT \<noteq> EVLIST_INIT"
  "EVLIST_INSERTED \<noteq> EVLIST_TIMEOUT" "EVLIST_INSERTED \<noteq> EVLIST_ACTIVE"
  "EVLIST_INSERTED \<noteq> EVLIST_INTERNAL" "EVLIST_INSERTED \<noteq> EVLIST_ACTIVE_LATER"
  "EVLIST_INSERTED \<noteq> EVLIST_FINALIZING" "EVLIST_INSERTED \<noteq> EVLIST_INIT"
  "EVLIST_ACTIVE \<noteq> EVLIST_TIMEOUT" "EVLIST_ACTIVE \<noteq> EVLIST_INSERTED"
  "EVLIST_ACTIVE \<noteq> EVLIST_INTERNAL" "EVLIST_ACTIVE \<noteq> EVLIST_ACTIVE_LATER"
  "EVLIST_ACTIVE \<noteq> EVLIST_FINALIZING" "EVLIST_ACTIVE \<noteq> EVLIST_INIT"
  "EVLIST_INTERNAL \<noteq> EVLIST_TIMEOUT" "EVLIST_INTERNAL \<noteq> EVLIST_INSERTED"
  "EVLIST_INTERNAL \<noteq> EVLIST_ACTIVE" "EVLIST_INTERNAL \<noteq> EVLIST_ACTIVE_LATER"
  "EVLIST_INTERNAL \<noteq> EVLIST_FINALIZING" "EVLIST_INTERNAL \<noteq> EVLIST_INIT"
  "EVLIST_ACTIVE_LATER \<noteq> EVLIST_TIMEOUT" "EVLIST_ACTIVE_LATER \<noteq> EVLIST_INSERTED"
  "EVLIST_ACTIVE_LATER \<noteq> EVLIST_ACTIVE" "EVLIST_ACTIVE_LATER \<noteq> EVLIST_INTERNAL"
  "EVLIST_ACTIVE_LATER \<noteq> EVLIST_FINALIZING" "EVLIST_ACTIVE_LATER \<noteq> EVLIST_INIT"
  "EVLIST_FINALIZING \<noteq> EVLIST_TIMEOUT" "EVLIST_FINALIZING \<noteq> EVLIST_INSERTED"
  "EVLIST_FINALIZING \<noteq> EVLIST_ACTIVE" "EVLIST_FINALIZING \<noteq> EVLIST_INTERNAL"
  "EVLIST_FINALIZING \<noteq> EVLIST_ACTIVE_LATER" "EVLIST_FINALIZING \<noteq> EVLIST_INIT"
  "EVLIST_INIT \<noteq> EVLIST_TIMEOUT" "EVLIST_INIT \<noteq> EVLIST_INSERTED"
  "EVLIST_INIT \<noteq> EVLIST_ACTIVE" "EVLIST_INIT \<noteq> EVLIST_INTERNAL"
  "EVLIST_INIT \<noteq> EVLIST_ACTIVE_LATER" "EVLIST_INIT \<noteq> EVLIST_FINALIZING"
  by (simp_all add: evlist_flag_defs)

section \<open>The invariant\<close>

abbreviation fl :: "('b, 'x) event_base \<Rightarrow> short \<Rightarrow> ev_addr \<Rightarrow> bool" where
  "fl b f e \<equiv> has_flag (ev_flags (evs b e)) f"

text \<open>The magic microseconds of a common timeout fit 32 bits.\<close>

definition usec_32 :: "timeval \<Rightarrow> bool" where
  "usec_32 tv \<longleftrightarrow> 0 \<le> tv_usec tv \<and> tv_usec tv < 2 ^ 32"

text \<open>
  A time on the heap has its microseconds below \<open>2 ^ 20\<close> (a normal time has), so it never looks
  like a common timeout, however many of them there are.
\<close>

definition tv_small :: "timeval \<Rightarrow> bool" where
  "tv_small tv \<longleftrightarrow> 0 \<le> tv_usec tv \<and> tv_usec tv < 2 ^ 20"

lemma low_and_high: "take_bit 20 x AND push_bit 20 m = 0" for x m :: int
  by (rule bit_eqI) (simp add: bit_and_iff bit_take_bit_iff bit_push_bit_iff)

lemma small_not_common: "tv_small tv \<Longrightarrow> \<not> is_common_timeout tv b"
proof -
  assume a: "tv_small tv"
  then have "tv_usec tv = take_bit 20 (tv_usec tv)" by (simp add: tv_small_def take_bit_int_eq_self)
  moreover have "COMMON_TIMEOUT_MASK = push_bit 20 0xf00" by (simp add: COMMON_TIMEOUT_MASK_def push_bit_eq_mult)
  ultimately have "tv_usec tv AND COMMON_TIMEOUT_MASK = 0" by (metis low_and_high)
  then show ?thesis by (simp add: is_common_timeout_def COMMON_TIMEOUT_MAGIC_def)
qed

lemma normal_small: "tv_normal tv \<Longrightarrow> tv_small tv"
  by (simp add: tv_small_def tv_normal_def)

definition timeouts_ok :: "('b, 'x) event_base \<Rightarrow> bool" where
  "timeouts_ok b \<longleftrightarrow> heap_inv (evs b) (timeheap b) \<and>
     (\<forall>e. fl b EVLIST_TIMEOUT e \<longleftrightarrow> e \<in> heap_elems (timeheap b) \<or>
        (\<exists>i < n_common_timeouts b. e \<in> set (ctl_events (common_timeout_queues b ! i)))) \<and>
     (\<forall>e \<in> heap_elems (timeheap b). tv_small (ev_timeout (evs b e))) \<and>
     (\<forall>i < n_common_timeouts b. distinct (ctl_events (common_timeout_queues b ! i)) \<and>
        sorted (map (\<lambda>e. ev_timeout (evs b e)) (ctl_events (common_timeout_queues b ! i))) \<and>
        (\<forall>e \<in> set (ctl_events (common_timeout_queues b ! i)).
           is_common_timeout (ev_timeout (evs b e)) b \<and> COMMON_TIMEOUT_IDX (ev_timeout (evs b e)) = i \<and>
           usec_32 (ev_timeout (evs b e))))"

definition actives_ok :: "('b, 'x) event_base \<Rightarrow> bool" where
  "actives_ok b \<longleftrightarrow>
     (\<forall>i < nactivequeues b. distinct (activequeues b ! i) \<and>
        (\<forall>e. e \<in> set (activequeues b ! i) \<longleftrightarrow> fl b EVLIST_ACTIVE e \<and> ev_pri (evs b e) = i)) \<and>
     distinct (active_later_queue b) \<and> (\<forall>e. e \<in> set (active_later_queue b) \<longleftrightarrow> fl b EVLIST_ACTIVE_LATER e) \<and>
     (\<forall>e. \<not> (fl b EVLIST_ACTIVE e \<and> fl b EVLIST_ACTIVE_LATER e)) \<and>
     (\<forall>e. fl b EVLIST_ACTIVE e \<or> fl b EVLIST_ACTIVE_LATER e \<longrightarrow> ev_pri (evs b e) < nactivequeues b) \<and>
     event_count_active b = int (sum_list (map length (activequeues b)) + length (active_later_queue b))"

text \<open>The number of the user's events with a flag, and the counter as the sum over the four flags.\<close>

definition flag_count :: "('b, 'x) event_base \<Rightarrow> short \<Rightarrow> nat" where
  "flag_count b f = card {e. fl b f e \<and> \<not> fl b EVLIST_INTERNAL e}"

definition counts_ok :: "('b, 'x) event_base \<Rightarrow> bool" where
  "counts_ok b \<longleftrightarrow>
     (\<forall>f \<in> {EVLIST_TIMEOUT, EVLIST_ACTIVE, EVLIST_ACTIVE_LATER, EVLIST_INSERTED}. finite {e. fl b f e}) \<and>
     event_count b = int (flag_count b EVLIST_TIMEOUT + flag_count b EVLIST_ACTIVE +
       flag_count b EVLIST_ACTIVE_LATER + flag_count b EVLIST_INSERTED)"

definition flags_ok :: "('b, 'x) event_base \<Rightarrow> bool" where
  "flags_ok b \<longleftrightarrow> (\<forall>e. ev_flags (evs b e) AND NOT EVLIST_ALL = 0)"

definition queues_inv :: "('b, 'x) event_base \<Rightarrow> bool" where
  "queues_inv b \<longleftrightarrow> timeouts_ok b \<and> actives_ok b \<and> counts_ok b \<and> flags_ok b"

text \<open>Everything of an event but its flags and its heap position.\<close>

definition ev_core :: "event \<Rightarrow> event" where
  "ev_core ev = ev\<lparr>ev_flags := 0, min_heap_idx := 0\<rparr>"

lemma ev_core_eqD:
  "ev_core x = ev_core y \<Longrightarrow> ev_timeout x = ev_timeout y \<and> ev_pri x = ev_pri y \<and> ev_fd x = ev_fd y \<and>
     ev_events x = ev_events y \<and> ev_closure x = ev_closure y \<and> ev_res x = ev_res y \<and>
     ev_io_timeout x = ev_io_timeout y \<and> ev_ncalls x = ev_ncalls y \<and> ev_pncalls x = ev_pncalls y"
  by (cases x, cases y) (simp add: ev_core_def)

lemma ev_core_flags [simp]: "ev_core (ev\<lparr>ev_flags := x\<rparr>) = ev_core ev"
  by (simp add: ev_core_def)

lemma idx_frame_core: "idx_frame st st' \<Longrightarrow> ev_core (st' e) = ev_core (st e) \<and> ev_flags (st' e) = ev_flags (st e)"
proof -
  assume "idx_frame st st'"
  then obtain i where "st' e = (st e)\<lparr>min_heap_idx := i\<rparr>" unfolding idx_frame_def by blast
  then show ?thesis by (simp add: ev_core_def)
qed

text \<open>
  The step of a queue function: one flag of one event is switched; no event changes
  otherwise (but for heap positions), and the event maps, the clock and the timers of the
  common timeouts (\<open>sides\<close>) are not touched.
\<close>

definition sides :: "('b, 'x) event_base \<Rightarrow> timeval \<times> evutil_monotonic_timer \<times> nat \<times> ev_addr list \<times> int" where
  "sides b = (tv_cache b, monotonic_timer b, clock_reads b, map ctl_timeout_event (common_timeout_queues b), event_running_priority b)"

definition queue_step :: "('b, 'x) event_base \<Rightarrow> ('b, 'x) event_base \<Rightarrow> short \<Rightarrow> ev_addr \<Rightarrow> bool \<Rightarrow> bool" where
  "queue_step b b' f e on \<longleftrightarrow>
     (\<forall>x. ev_core (evs b' x) = ev_core (evs b x)) \<and>
     (\<forall>x g. single_bit g \<longrightarrow> fl b' g x = (if x = e \<and> g = f then on else fl b g x)) \<and>
     io b' = io b \<and> sigmap b' = sigmap b \<and> evbase b' = evbase b \<and> sides b' = sides b \<and>
     length (common_timeout_queues b') = length (common_timeout_queues b) \<and>
     length (activequeues b') = length (activequeues b)"

lemma queue_step_core:
  assumes "queue_step b b' f e on"
  shows "ev_core (evs b' x) = ev_core (evs b x)" "ev_timeout (evs b' x) = ev_timeout (evs b x)"
    "ev_pri (evs b' x) = ev_pri (evs b x)" "ev_fd (evs b' x) = ev_fd (evs b x)"
    "ev_events (evs b' x) = ev_events (evs b x)" "ev_closure (evs b' x) = ev_closure (evs b x)"
    "ev_res (evs b' x) = ev_res (evs b x)" "ev_io_timeout (evs b' x) = ev_io_timeout (evs b x)"
  using assms ev_core_eqD [of "evs b' x" "evs b x"] by (auto simp: queue_step_def)

lemma queue_step_fl:
  "queue_step b b' f e on \<Longrightarrow> single_bit g \<Longrightarrow> fl b' g x = (if x = e \<and> g = f then on else fl b g x)"
  by (simp add: queue_step_def)

lemma counts_ok_step:
  assumes ok: "counts_ok b" and step: "queue_step b b' f e on" and now: "fl b f e \<noteq> on"
    and f: "f \<in> {EVLIST_TIMEOUT, EVLIST_ACTIVE, EVLIST_ACTIVE_LATER, EVLIST_INSERTED}"
    and n: "event_count b' = event_count b + (if on then 1 else -1) * of_bool (\<not> fl b EVLIST_INTERNAL e)"
  shows "counts_ok b'"
proof -
  let ?F = "{EVLIST_TIMEOUT, EVLIST_ACTIVE, EVLIST_ACTIVE_LATER, EVLIST_INSERTED}"
  have fl: "fl b' g x = (if x = e \<and> g = f then on else fl b g x)" if "single_bit g" for g x
    using step that by (auto simp: queue_step_def)
  have fin: "finite {x. fl b g x}" if "g \<in> ?F" for g using ok that by (auto simp: counts_ok_def)
  have single: "single_bit g" if "g \<in> ?F" for g using that by auto
  have other: "flag_count b' g = flag_count b g" if "g \<in> ?F" "g \<noteq> f" for g
    using that f single [OF that(1)] by (auto simp: flag_count_def fl)
  have here: "int (flag_count b' f) = int (flag_count b f) + (if on then 1 else -1) * of_bool (\<not> fl b EVLIST_INTERNAL e)"
  proof -
    let ?S = "{x. fl b f x \<and> \<not> fl b EVLIST_INTERNAL x}"
    have S: "finite ?S" by (rule finite_subset [OF _ fin [OF f]]) auto
    have S': "{x. fl b' f x \<and> \<not> fl b' EVLIST_INTERNAL x} =
        (if fl b EVLIST_INTERNAL e then ?S else if on then insert e ?S else ?S - {e})"
      using now f by (auto simp: fl single split: if_splits)
    show ?thesis
    proof (cases "fl b EVLIST_INTERNAL e")
      case False
      show ?thesis
      proof (cases on)
        case True
        then have "e \<notin> ?S" using now by simp
        then show ?thesis using S S' False True by (simp add: flag_count_def)
      next
        case off: False
        then have e: "e \<in> ?S" using now False by simp
        then have "0 < card ?S" using S by (auto simp: card_gt_0_iff)
        then show ?thesis using S S' False off e by (simp add: flag_count_def card_Diff_singleton)
      qed
    qed (use S' in \<open>simp add: flag_count_def\<close>)
  qed
  have "finite {x. fl b' g x}" if "g \<in> ?F" for g
  proof (rule finite_subset)
    show "{x. fl b' g x} \<subseteq> insert e {x. fl b g x}" using single [OF that] by (auto simp: fl split: if_splits)
  qed (use fin [OF that] in simp)
  moreover have "event_count b' = int (flag_count b' EVLIST_TIMEOUT + flag_count b' EVLIST_ACTIVE +
      flag_count b' EVLIST_ACTIVE_LATER + flag_count b' EVLIST_INSERTED)"
    using ok n here f other [of EVLIST_TIMEOUT] other [of EVLIST_ACTIVE] other [of EVLIST_ACTIVE_LATER]
      other [of EVLIST_INSERTED]
    unfolding counts_ok_def by auto
  ultimately show ?thesis by (auto simp: counts_ok_def)
qed

lemma heap_inv_cong:
  assumes "\<forall>e. ev_timeout (st' e) = ev_timeout (st e) \<and> min_heap_idx (st' e) = min_heap_idx (st e)"
  shows "heap_inv st' s = heap_inv st s"
  using assms by (simp add: heap_inv_def heap_layout_def heap_order_def)

lemma timeouts_ok_cong:
  assumes "timeouts_ok b" and q: "timeheap b' = timeheap b" "common_timeout_queues b' = common_timeout_queues b"
    and st: "\<forall>e. ev_timeout (evs b' e) = ev_timeout (evs b e) \<and> min_heap_idx (evs b' e) = min_heap_idx (evs b e)"
    and fl: "\<forall>e. fl b' EVLIST_TIMEOUT e = fl b EVLIST_TIMEOUT e"
  shows "timeouts_ok b'"
proof -
  have "is_common_timeout tv b' = is_common_timeout tv b" for tv by (simp add: is_common_timeout_def q)
  then show ?thesis
    using assms(1) heap_inv_cong [OF st, of "timeheap b"] by (simp add: timeouts_ok_def q st fl)
qed

lemma actives_ok_cong:
  assumes "actives_ok b" and q: "activequeues b' = activequeues b" "active_later_queue b' = active_later_queue b"
      "event_count_active b' = event_count_active b"
    and st: "\<forall>e. ev_pri (evs b' e) = ev_pri (evs b e)"
    and fl: "\<forall>e. fl b' EVLIST_ACTIVE e = fl b EVLIST_ACTIVE e \<and> fl b' EVLIST_ACTIVE_LATER e = fl b EVLIST_ACTIVE_LATER e"
  shows "actives_ok b'"
  using assms(1) by (simp add: actives_ok_def q st fl)

text \<open>Writing one flag of one event.\<close>

definition put_flag :: "bool \<Rightarrow> short \<Rightarrow> ev_addr \<Rightarrow> ev_heap \<Rightarrow> ev_heap" where
  "put_flag on f e st =
     st(e := (st e)\<lparr>ev_flags := (if on then ev_flags (st e) OR f else ev_flags (st e) AND NOT f)\<rparr>)"

lemma put_flag_fields [simp]:
  "ev_timeout (put_flag on f e st x) = ev_timeout (st x)" "min_heap_idx (put_flag on f e st x) = min_heap_idx (st x)"
  "ev_pri (put_flag on f e st x) = ev_pri (st x)" "ev_core (put_flag on f e st x) = ev_core (st x)"
  "ev_fd (put_flag on f e st x) = ev_fd (st x)" "ev_events (put_flag on f e st x) = ev_events (st x)"
  "ev_closure (put_flag on f e st x) = ev_closure (st x)"
  by (simp_all add: put_flag_def)

lemma put_flag_has:
  "single_bit f \<Longrightarrow> single_bit g \<Longrightarrow>
   has_flag (ev_flags (put_flag on f e st x)) g = (if x = e \<and> g = f then on else has_flag (ev_flags (st x)) g)"
  by (auto simp: put_flag_def single_bit_set)

lemma put_flag_all:
  "f AND NOT EVLIST_ALL = 0 \<Longrightarrow> \<forall>x. ev_flags (st x) AND NOT EVLIST_ALL = 0 \<Longrightarrow>
   ev_flags (put_flag on f e st x) AND NOT EVLIST_ALL = 0"
  by (auto simp: put_flag_def bit.conj_disj_distrib2 and.assoc and.left_commute)

lemma set_clear_put_flag:
  "evs (set_ev_flag f e b) = put_flag True f e (evs b)" "evs (clear_ev_flag f e b) = put_flag False f e (evs b)"
  by (simp_all add: set_ev_flag_def clear_ev_flag_def upd_ev_def put_flag_def)

lemma flag_ops_fields [simp]:
  "timeheap (set_ev_flag f e b) = timeheap b" "timeheap (clear_ev_flag f e b) = timeheap b"
  "common_timeout_queues (set_ev_flag f e b) = common_timeout_queues b"
  "common_timeout_queues (clear_ev_flag f e b) = common_timeout_queues b"
  "activequeues (set_ev_flag f e b) = activequeues b" "activequeues (clear_ev_flag f e b) = activequeues b"
  "active_later_queue (set_ev_flag f e b) = active_later_queue b"
  "active_later_queue (clear_ev_flag f e b) = active_later_queue b"
  "event_count (set_ev_flag f e b) = event_count b" "event_count (clear_ev_flag f e b) = event_count b"
  "event_count_active (set_ev_flag f e b) = event_count_active b"
  "event_count_active (clear_ev_flag f e b) = event_count_active b"
  "io (set_ev_flag f e b) = io b" "io (clear_ev_flag f e b) = io b"
  "sigmap (set_ev_flag f e b) = sigmap b" "sigmap (clear_ev_flag f e b) = sigmap b"
  "evbase (set_ev_flag f e b) = evbase b" "evbase (clear_ev_flag f e b) = evbase b"
  by (simp_all add: set_ev_flag_def clear_ev_flag_def upd_ev_def)

lemma count_ops_fields [simp]:
  "timeheap (INCR_EVENT_COUNT e b) = timeheap b" "timeheap (DECR_EVENT_COUNT e b) = timeheap b"
  "common_timeout_queues (INCR_EVENT_COUNT e b) = common_timeout_queues b"
  "common_timeout_queues (DECR_EVENT_COUNT e b) = common_timeout_queues b"
  "activequeues (INCR_EVENT_COUNT e b) = activequeues b" "activequeues (DECR_EVENT_COUNT e b) = activequeues b"
  "active_later_queue (INCR_EVENT_COUNT e b) = active_later_queue b"
  "active_later_queue (DECR_EVENT_COUNT e b) = active_later_queue b"
  "event_count_active (INCR_EVENT_COUNT e b) = event_count_active b"
  "event_count_active (DECR_EVENT_COUNT e b) = event_count_active b"
  "evs (INCR_EVENT_COUNT e b) = evs b" "evs (DECR_EVENT_COUNT e b) = evs b"
  "io (INCR_EVENT_COUNT e b) = io b" "io (DECR_EVENT_COUNT e b) = io b"
  "sigmap (INCR_EVENT_COUNT e b) = sigmap b" "sigmap (DECR_EVENT_COUNT e b) = sigmap b"
  "evbase (INCR_EVENT_COUNT e b) = evbase b" "evbase (DECR_EVENT_COUNT e b) = evbase b"
  "event_count (INCR_EVENT_COUNT e b) = event_count b + of_bool (\<not> fl b EVLIST_INTERNAL e)"
  "event_count (DECR_EVENT_COUNT e b) = event_count b - of_bool (\<not> fl b EVLIST_INTERNAL e)"
  by (simp_all add: INCR_EVENT_COUNT_def DECR_EVENT_COUNT_def Let_def)

lemma sides_simps [simp]:
  "sides (set_ev_flag f e b) = sides b" "sides (clear_ev_flag f e b) = sides b"
  "sides (INCR_EVENT_COUNT e b) = sides b" "sides (DECR_EVENT_COUNT e b) = sides b"
  "sides (b\<lparr>evs := st\<rparr>) = sides b" "sides (b\<lparr>timeheap := h\<rparr>) = sides b"
  "sides (b\<lparr>event_count := n\<rparr>) = sides b" "sides (b\<lparr>event_count_max := n\<rparr>) = sides b"
  "sides (b\<lparr>event_count_active := n\<rparr>) = sides b" "sides (b\<lparr>event_count_active_max := n\<rparr>) = sides b"
  "sides (b\<lparr>activequeues := qs\<rparr>) = sides b" "sides (b\<lparr>active_later_queue := q\<rparr>) = sides b"
  "sides (b\<lparr>n_deferreds_queued := n\<rparr>) = sides b"
  by (simp_all add: sides_def set_ev_flag_def clear_ev_flag_def upd_ev_def INCR_EVENT_COUNT_def
      DECR_EVENT_COUNT_def Let_def)

lemma sides_set_ctl [simp]: "i < n_common_timeouts b \<Longrightarrow> sides (set_ctl_events i evl b) = sides b"
  by (simp add: sides_def set_ctl_events_def map_update list_update_same_conv)

text \<open>A state that differs from another by one flag and by the queues of that flag.\<close>

lemma queue_step_put_flag:
  assumes "evs b' = put_flag on f e (evs b)" "single_bit f"
    "io b' = io b" "sigmap b' = sigmap b" "evbase b' = evbase b" "sides b' = sides b"
    "length (common_timeout_queues b') = length (common_timeout_queues b)"
    "length (activequeues b') = length (activequeues b)"
  shows "queue_step b b' f e on"
  using assms by (simp add: queue_step_def put_flag_has)

lemma flags_ok_put_flag:
  "evs b' = put_flag on f e (evs b) \<Longrightarrow> f AND NOT EVLIST_ALL = 0 \<Longrightarrow> flags_ok b \<Longrightarrow> flags_ok b'"
  unfolding flags_ok_def by (metis put_flag_all)

section \<open>The queue functions\<close>

lemma queues_invD:
  assumes "queues_inv b"
  shows "timeouts_ok b" "actives_ok b" "counts_ok b" "flags_ok b"
  using assms by (simp_all add: queues_inv_def)

lemma evlist_all [simp]:
  "EVLIST_TIMEOUT AND NOT EVLIST_ALL = 0" "EVLIST_INSERTED AND NOT EVLIST_ALL = 0"
  "EVLIST_ACTIVE AND NOT EVLIST_ALL = 0" "EVLIST_ACTIVE_LATER AND NOT EVLIST_ALL = 0"
  "EVLIST_FINALIZING AND NOT EVLIST_ALL = 0" "EVLIST_INIT AND NOT EVLIST_ALL = 0"
  "EVLIST_INTERNAL AND NOT EVLIST_ALL = 0"
  by (simp_all add: evlist_flag_defs)

lemma insert_inserted_spec:
  assumes inv: "queues_inv b" and e: "\<not> fl b EVLIST_INSERTED e"
  shows "\<exists>b'. event_queue_insert_inserted b e = Some b' \<and> queues_inv b' \<and> queue_step b b' EVLIST_INSERTED e True \<and>
    activequeues b' = activequeues b \<and> active_later_queue b' = active_later_queue b \<and>
    event_count_active b' = event_count_active b"
proof -
  let ?b = "set_ev_flag EVLIST_INSERTED e (INCR_EVENT_COUNT e b)"
  note [simp] = set_clear_put_flag put_flag_has
  have step: "queue_step b ?b EVLIST_INSERTED e True" by (rule queue_step_put_flag) simp_all
  have "timeouts_ok ?b" by (rule timeouts_ok_cong [OF queues_invD(1) [OF inv]]) simp_all
  moreover have "actives_ok ?b" by (rule actives_ok_cong [OF queues_invD(2) [OF inv]]) simp_all
  moreover have "counts_ok ?b" by (rule counts_ok_step [OF queues_invD(3) [OF inv] step]) (use e in simp_all)
  moreover have "flags_ok ?b" by (rule flags_ok_put_flag [where f = EVLIST_INSERTED and e = e and on = True, OF _ _ queues_invD(4) [OF inv]]) simp_all
  ultimately show ?thesis using e step by (simp add: event_queue_insert_inserted_def queues_inv_def)
qed

lemma remove_inserted_spec:
  assumes inv: "queues_inv b" and e: "fl b EVLIST_INSERTED e"
  shows "\<exists>b'. event_queue_remove_inserted b e = Some b' \<and> queues_inv b' \<and> queue_step b b' EVLIST_INSERTED e False \<and>
    activequeues b' = activequeues b \<and> active_later_queue b' = active_later_queue b \<and>
    event_count_active b' = event_count_active b"
proof -
  let ?b = "clear_ev_flag EVLIST_INSERTED e (DECR_EVENT_COUNT e b)"
  note [simp] = set_clear_put_flag put_flag_has
  have step: "queue_step b ?b EVLIST_INSERTED e False" by (rule queue_step_put_flag) simp_all
  have "timeouts_ok ?b" by (rule timeouts_ok_cong [OF queues_invD(1) [OF inv]]) simp_all
  moreover have "actives_ok ?b" by (rule actives_ok_cong [OF queues_invD(2) [OF inv]]) simp_all
  moreover have "counts_ok ?b" by (rule counts_ok_step [OF queues_invD(3) [OF inv] step]) (use e in simp_all)
  moreover have "flags_ok ?b" by (rule flags_ok_put_flag [where f = EVLIST_INSERTED and e = e and on = False, OF _ _ queues_invD(4) [OF inv]]) simp_all
  ultimately show ?thesis using e step by (simp add: event_queue_remove_inserted_def queues_inv_def)
qed

lemma sum_list_update_len:
  "i < length qs \<Longrightarrow> int (sum_list (map length (qs[i := q]))) =
   int (sum_list (map length qs)) - int (length (qs ! i)) + int (length q)"
  by (induction qs arbitrary: i) (auto split: nat.splits)

lemma insert_active_spec:
  assumes inv: "queues_inv b" and e: "\<not> fl b EVLIST_ACTIVE e" "\<not> fl b EVLIST_ACTIVE_LATER e"
    "ev_pri (evs b e) < nactivequeues b"
  shows "\<exists>b'. event_queue_insert_active b e = Some b' \<and> queues_inv b' \<and> queue_step b b' EVLIST_ACTIVE e True \<and>
    activequeues b' = (activequeues b)[ev_pri (evs b e) := activequeues b ! ev_pri (evs b e) @ [e]] \<and>
    active_later_queue b' = active_later_queue b"
proof -
  let ?p = "ev_pri (evs b e)"
  define b' where "b' = (set_ev_flag EVLIST_ACTIVE e (INCR_EVENT_COUNT e b))
    \<lparr>event_count_active := event_count_active b + 1,
     event_count_active_max := max (event_count_active_max b) (event_count_active b + 1),
     activequeues := (activequeues b)[?p := activequeues b ! ?p @ [e]]\<rparr>"
  note [simp] = set_clear_put_flag put_flag_has
  have run: "event_queue_insert_active b e = Some b'"
    using e by (simp add: event_queue_insert_active_def b'_def Let_def)
  have step: "queue_step b b' EVLIST_ACTIVE e True" by (rule queue_step_put_flag) (simp_all add: b'_def)
  have "timeouts_ok b'" by (rule timeouts_ok_cong [OF queues_invD(1) [OF inv]]) (simp_all add: b'_def)
  moreover have "actives_ok b'"
  proof -
    have a: "actives_ok b" by (rule queues_invD(2) [OF inv])
    have "e \<notin> set (activequeues b ! ?p)" using a e by (simp add: actives_ok_def)
    then show ?thesis
      using a e unfolding actives_ok_def b'_def
      by (auto simp: nth_list_update sum_list_update_len)
  qed
  moreover have "counts_ok b'"
    by (rule counts_ok_step [OF queues_invD(3) [OF inv] step]) (use e in \<open>simp_all add: b'_def\<close>)
  moreover have "flags_ok b'"
    by (rule flags_ok_put_flag [where f = EVLIST_ACTIVE and e = e and on = True, OF _ _ queues_invD(4) [OF inv]]) (simp_all add: b'_def)
  ultimately show ?thesis using run step by (simp add: queues_inv_def b'_def)
qed

lemma remove_active_spec:
  assumes inv: "queues_inv b" and e: "fl b EVLIST_ACTIVE e"
  shows "\<exists>b'. event_queue_remove_active b e = Some b' \<and> queues_inv b' \<and> queue_step b b' EVLIST_ACTIVE e False \<and>
    activequeues b' = (activequeues b)[ev_pri (evs b e) := remove1 e (activequeues b ! ev_pri (evs b e))] \<and>
    active_later_queue b' = active_later_queue b \<and> event_count_active b' = event_count_active b - 1"
proof -
  let ?p = "ev_pri (evs b e)"
  have a: "actives_ok b" by (rule queues_invD(2) [OF inv])
  have p: "?p < nactivequeues b" "e \<in> set (activequeues b ! ?p)" "distinct (activequeues b ! ?p)"
    using a e by (auto simp: actives_ok_def)
  define b' where "b' = (clear_ev_flag EVLIST_ACTIVE e (DECR_EVENT_COUNT e b))
    \<lparr>event_count_active := event_count_active b - 1,
     activequeues := (activequeues b)[?p := remove1 e (activequeues b ! ?p)]\<rparr>"
  note [simp] = set_clear_put_flag put_flag_has
  have run: "event_queue_remove_active b e = Some b'"
    using e p by (simp add: event_queue_remove_active_def b'_def Let_def list_remove_def)
  have step: "queue_step b b' EVLIST_ACTIVE e False" by (rule queue_step_put_flag) (simp_all add: b'_def)
  have "timeouts_ok b'" by (rule timeouts_ok_cong [OF queues_invD(1) [OF inv]]) (simp_all add: b'_def)
  moreover have "actives_ok b'"
  proof -
    have "0 < length (activequeues b ! ?p)" using p(2) by (cases "activequeues b ! ?p") auto
    then have "int (sum_list (map length (activequeues b'))) = int (sum_list (map length (activequeues b))) - 1"
      using p by (simp add: b'_def sum_list_update_len length_remove1 of_nat_diff Suc_leI)
    then show ?thesis
      using a e p unfolding actives_ok_def b'_def
      by (auto simp: nth_list_update)
  qed
  moreover have "counts_ok b'"
    by (rule counts_ok_step [OF queues_invD(3) [OF inv] step]) (use e in \<open>simp_all add: b'_def\<close>)
  moreover have "flags_ok b'"
    by (rule flags_ok_put_flag [where f = EVLIST_ACTIVE and e = e and on = False, OF _ _ queues_invD(4) [OF inv]]) (simp_all add: b'_def)
  ultimately show ?thesis using run step by (simp add: queues_inv_def b'_def)
qed

lemma insert_active_later_spec:
  assumes inv: "queues_inv b" and e: "\<not> fl b EVLIST_ACTIVE e" "\<not> fl b EVLIST_ACTIVE_LATER e"
    "ev_pri (evs b e) < nactivequeues b"
  shows "\<exists>b'. event_queue_insert_active_later b e = Some b' \<and> queues_inv b' \<and>
    queue_step b b' EVLIST_ACTIVE_LATER e True \<and>
    activequeues b' = activequeues b \<and> active_later_queue b' = active_later_queue b @ [e]"
proof -
  define b' where "b' = (set_ev_flag EVLIST_ACTIVE_LATER e (INCR_EVENT_COUNT e b))
    \<lparr>event_count_active := event_count_active b + 1,
     event_count_active_max := max (event_count_active_max b) (event_count_active b + 1),
     active_later_queue := active_later_queue b @ [e]\<rparr>"
  note [simp] = set_clear_put_flag put_flag_has
  have run: "event_queue_insert_active_later b e = Some b'"
    using e by (simp add: event_queue_insert_active_later_def b'_def Let_def has_flag_or)
  have step: "queue_step b b' EVLIST_ACTIVE_LATER e True" by (rule queue_step_put_flag) (simp_all add: b'_def)
  have "timeouts_ok b'" by (rule timeouts_ok_cong [OF queues_invD(1) [OF inv]]) (simp_all add: b'_def)
  moreover have "actives_ok b'"
    using queues_invD(2) [OF inv] e unfolding actives_ok_def b'_def by auto
  moreover have "counts_ok b'"
    by (rule counts_ok_step [OF queues_invD(3) [OF inv] step]) (use e in \<open>simp_all add: b'_def\<close>)
  moreover have "flags_ok b'"
    by (rule flags_ok_put_flag [where f = EVLIST_ACTIVE_LATER and e = e and on = True, OF _ _ queues_invD(4) [OF inv]])
      (simp_all add: b'_def)
  ultimately show ?thesis using run step by (simp add: queues_inv_def b'_def)
qed

lemma remove_active_later_spec:
  assumes inv: "queues_inv b" and e: "fl b EVLIST_ACTIVE_LATER e"
  shows "\<exists>b'. event_queue_remove_active_later b e = Some b' \<and> queues_inv b' \<and>
    queue_step b b' EVLIST_ACTIVE_LATER e False \<and> activequeues b' = activequeues b \<and>
    active_later_queue b' = remove1 e (active_later_queue b) \<and> event_count_active b' = event_count_active b - 1"
proof -
  have a: "actives_ok b" by (rule queues_invD(2) [OF inv])
  have p: "e \<in> set (active_later_queue b)" "distinct (active_later_queue b)"
    using a e by (auto simp: actives_ok_def)
  define b' where "b' = (clear_ev_flag EVLIST_ACTIVE_LATER e (DECR_EVENT_COUNT e b))
    \<lparr>event_count_active := event_count_active b - 1, active_later_queue := remove1 e (active_later_queue b)\<rparr>"
  note [simp] = set_clear_put_flag put_flag_has
  have run: "event_queue_remove_active_later b e = Some b'"
    using e p by (simp add: event_queue_remove_active_later_def b'_def Let_def list_remove_def)
  have step: "queue_step b b' EVLIST_ACTIVE_LATER e False" by (rule queue_step_put_flag) (simp_all add: b'_def)
  have "timeouts_ok b'" by (rule timeouts_ok_cong [OF queues_invD(1) [OF inv]]) (simp_all add: b'_def)
  moreover have "actives_ok b'"
  proof -
    have "0 < length (active_later_queue b)" using p(1) by (cases "active_later_queue b") auto
    then have "int (length (remove1 e (active_later_queue b))) = int (length (active_later_queue b)) - 1"
      using p by (simp add: length_remove1 of_nat_diff Suc_leI)
    then show ?thesis using a e p unfolding actives_ok_def b'_def by auto
  qed
  moreover have "counts_ok b'"
    by (rule counts_ok_step [OF queues_invD(3) [OF inv] step]) (use e in \<open>simp_all add: b'_def\<close>)
  moreover have "flags_ok b'"
    by (rule flags_ok_put_flag [where f = EVLIST_ACTIVE_LATER and e = e and on = False, OF _ _ queues_invD(4) [OF inv]])
      (simp_all add: b'_def)
  ultimately show ?thesis using run step by (simp add: queues_inv_def b'_def)
qed

subsection \<open>Timeouts\<close>

text \<open>The insertion into a common list keeps it sorted.\<close>

lemma insert_rev_spec:
  assumes "\<forall>x \<in> set xs. is_same_common_timeout (ev_timeout (st x)) (ev_timeout (st e))"
    and "sorted (map (\<lambda>e. ev_timeout (st e)) (rev xs))"
  shows "\<exists>ys. insert_rev st e xs = Some ys \<and> mset ys = add_mset e (mset xs) \<and>
    sorted (map (\<lambda>e. ev_timeout (st e)) (rev ys))"
  using assms
proof (induction xs)
  case (Cons x xs)
  show ?case
  proof (cases "ev_timeout (st x) \<le> ev_timeout (st e)")
    case True
    have "sorted (map (\<lambda>e. ev_timeout (st e)) (rev (e # x # xs)))"
      using Cons.prems(2) True by (auto simp: sorted_append)
    then show ?thesis using True Cons.prems(1) by simp
  next
    case False
    obtain ys where ys: "insert_rev st e xs = Some ys" "mset ys = add_mset e (mset xs)"
      "sorted (map (\<lambda>e. ev_timeout (st e)) (rev ys))"
      using Cons by (auto simp: sorted_append)
    have "set ys = insert e (set xs)" using ys(2) by (metis set_mset_add_mset_insert set_mset_mset)
    then have "sorted (map (\<lambda>e. ev_timeout (st e)) (rev (x # ys)))"
      using ys(3) Cons.prems(2) False by (auto simp: sorted_append)
    then show ?thesis using False Cons.prems(1) ys by simp
  qed
qed simp

lemma insert_common_spec:
  assumes "\<forall>x \<in> set evl. is_same_common_timeout (ev_timeout (st x)) (ev_timeout (st e))"
    and "sorted (map (\<lambda>e. ev_timeout (st e)) evl)" "distinct evl" "e \<notin> set evl"
  shows "\<exists>evl'. insert_common_timeout_inorder st evl e = Some evl' \<and> set evl' = insert e (set evl) \<and>
    distinct evl' \<and> sorted (map (\<lambda>e. ev_timeout (st e)) evl')"
proof -
  obtain ys where ys: "insert_rev st e (rev evl) = Some ys" "mset ys = add_mset e (mset (rev evl))"
    "sorted (map (\<lambda>e. ev_timeout (st e)) (rev ys))"
    using insert_rev_spec [of "rev evl" st e] assms by auto
  have "mset ys = mset (e # evl)" using ys(2) by simp
  then have "set ys = insert e (set evl)" "distinct ys"
    using assms(3,4) by (metis list.simps(15) mset_eq_setD) (metis \<open>mset ys = mset (e # evl)\<close> assms(3,4) distinct.simps(2) mset_eq_imp_distinct_iff)
  then show ?thesis using ys by (simp add: insert_common_timeout_inorder_def)
qed

text \<open>
  A common timeout whose microseconds fit 32 bits is the magic number, the index of its list
  and 20 bits of microseconds; two of the same list carry the same magic value.
\<close>

lemma common_timeout_high:
  assumes "is_common_timeout tv b" "0 \<le> tv_usec tv" "tv_usec tv < 2 ^ 32"
  shows "drop_bit 20 (tv_usec tv) = 0x500 + int (COMMON_TIMEOUT_IDX tv)"
proof -
  let ?x = "tv_usec tv"
  have "drop_bit 28 (?x AND COMMON_TIMEOUT_MASK) = drop_bit 28 ?x AND mask 4"
    unfolding drop_bit_and by (simp add: COMMON_TIMEOUT_MASK_def mask_eq_exp_minus_1 drop_bit_eq_div)
  moreover have "drop_bit 28 ?x AND mask 4 = drop_bit 28 ?x"
    using assms(2,3) unfolding take_bit_eq_mask [symmetric] drop_bit_eq_div
    by (intro take_bit_int_eq_self) auto
  moreover have "?x AND COMMON_TIMEOUT_MASK = COMMON_TIMEOUT_MAGIC"
    using assms(1) by (simp add: is_common_timeout_def split: if_splits)
  ultimately have hi: "?x div 2 ^ 28 = 5" by (simp add: COMMON_TIMEOUT_MAGIC_def drop_bit_eq_div)
  have "drop_bit 20 (?x AND COMMON_TIMEOUT_IDX_MASK) = take_bit 8 (drop_bit 20 ?x)"
    unfolding drop_bit_and take_bit_eq_mask
    by (simp add: COMMON_TIMEOUT_IDX_MASK_def mask_eq_exp_minus_1 drop_bit_eq_div)
  then have "int (COMMON_TIMEOUT_IDX tv) = (?x div 2 ^ 20) mod 256"
    by (simp add: COMMON_TIMEOUT_IDX_def COMMON_TIMEOUT_IDX_SHIFT_def take_bit_eq_mod drop_bit_eq_div)
  moreover have "(?x div 2 ^ 20) div 256 = 5" using hi by (simp flip: zdiv_zmult2_eq)
  ultimately show ?thesis unfolding drop_bit_eq_div using div_mult_mod_eq [of "?x div 2 ^ 20" 256] by linarith
qed

lemma same_common_iff:
  "is_same_common_timeout tv tv' \<longleftrightarrow> drop_bit 20 (tv_usec tv) = drop_bit 20 (tv_usec tv')"
proof -
  have m: "x AND NOT MICROSECONDS_MASK = push_bit 20 (drop_bit 20 x)" for x :: int
  proof -
    have "MICROSECONDS_MASK = mask 20" by (simp add: MICROSECONDS_MASK_def mask_eq_exp_minus_1)
    show ?thesis unfolding \<open>MICROSECONDS_MASK = mask 20\<close> by (rule bit_eqI) (auto simp: bit_simps)
  qed
  show ?thesis unfolding is_same_common_timeout_def m by (simp add: push_bit_eq_mult)
qed

lemma same_common:
  assumes "is_common_timeout tv b" "usec_32 tv" "is_common_timeout tv' b" "usec_32 tv'"
    "COMMON_TIMEOUT_IDX tv = COMMON_TIMEOUT_IDX tv'"
  shows "is_same_common_timeout tv tv'"
  using common_timeout_high [OF assms(1)] common_timeout_high [OF assms(3)] assms(2,4,5)
  by (simp add: same_common_iff usec_32_def)

lemma idx_frame_timeout: "idx_frame st st' \<Longrightarrow> ev_timeout (st' e) = ev_timeout (st e)"
  for st :: ev_heap
  using idx_frame_core [of st st' e] ev_core_eqD by blast

lemma queue_step_heap:
  assumes "idx_frame (put_flag on f e (evs b)) (evs b')" "single_bit f"
    "io b' = io b" "sigmap b' = sigmap b" "evbase b' = evbase b" "sides b' = sides b"
    "length (common_timeout_queues b') = length (common_timeout_queues b)"
    "length (activequeues b') = length (activequeues b)"
  shows "queue_step b b' f e on" "flags_ok b \<Longrightarrow> f AND NOT EVLIST_ALL = 0 \<Longrightarrow> flags_ok b'"
  using assms idx_frame_core [OF assms(1)]
  by (simp_all add: queue_step_def put_flag_has flags_ok_def put_flag_all)

lemma queue_step_actives:
  assumes "actives_ok b" "queue_step b b' f e on" "f \<noteq> EVLIST_ACTIVE" "f \<noteq> EVLIST_ACTIVE_LATER"
    "activequeues b' = activequeues b" "active_later_queue b' = active_later_queue b"
    "event_count_active b' = event_count_active b"
  shows "actives_ok b'"
proof (rule actives_ok_cong [OF assms(1,5-7)])
  show "\<forall>e. ev_pri (evs b' e) = ev_pri (evs b e)"
    using assms(2) ev_core_eqD unfolding queue_step_def by metis
  show "\<forall>e. fl b' EVLIST_ACTIVE e = fl b EVLIST_ACTIVE e \<and> fl b' EVLIST_ACTIVE_LATER e = fl b EVLIST_ACTIVE_LATER e"
    using assms(2-4) unfolding queue_step_def by simp
qed

lemma remove_timeout_spec:
  assumes inv: "queues_inv b" and e: "fl b EVLIST_TIMEOUT e"
  shows "\<exists>b'. event_queue_remove_timeout b e = Some b' \<and> queues_inv b' \<and> queue_step b b' EVLIST_TIMEOUT e False \<and>
    activequeues b' = activequeues b \<and> active_later_queue b' = active_later_queue b \<and>
    event_count_active b' = event_count_active b \<and>
    heap_elems (timeheap b') = heap_elems (timeheap b) - {e} \<and> heap_a (timeheap b') = heap_a (timeheap b)"
proof -
  let ?b1 = "clear_ev_flag EVLIST_TIMEOUT e (DECR_EVENT_COUNT e b)"
  let ?tv = "ev_timeout (evs b e)"
  let ?i = "COMMON_TIMEOUT_IDX ?tv"
  note [simp] = set_clear_put_flag put_flag_has
  have t: "timeouts_ok b" by (rule queues_invD(1) [OF inv])
  have fin: ?thesis if run: "event_queue_remove_timeout b e = Some b'" and t': "timeouts_ok b'"
    and fr: "idx_frame (put_flag False EVLIST_TIMEOUT e (evs b)) (evs b')"
    and cnt: "event_count b' = event_count ?b1"
    and q: "io b' = io b" "sigmap b' = sigmap b" "evbase b' = evbase b" "sides b' = sides b"
      "length (common_timeout_queues b') = length (common_timeout_queues b)"
      "activequeues b' = activequeues b" "active_later_queue b' = active_later_queue b"
      "event_count_active b' = event_count_active b"
      "heap_elems (timeheap b') = heap_elems (timeheap b) - {e}" "heap_a (timeheap b') = heap_a (timeheap b)" for b'
  proof -
    have step: "queue_step b b' EVLIST_TIMEOUT e False"
      by (rule queue_step_heap(1) [OF fr]) (simp_all add: q)
    have "flags_ok b'" by (rule queue_step_heap(2) [OF fr]) (simp_all add: q queues_invD(4) [OF inv])
    moreover have "actives_ok b'" by (rule queue_step_actives [OF queues_invD(2) [OF inv] step]) (simp_all add: q)
    moreover have "counts_ok b'"
      by (rule counts_ok_step [OF queues_invD(3) [OF inv] step]) (use e cnt in simp_all)
    ultimately show ?thesis using run t' step q by (simp add: queues_inv_def)
  qed
  show ?thesis
  proof (cases "is_common_timeout ?tv b")
    case True
    then have i: "?i < n_common_timeouts b" by (simp add: is_common_timeout_def split: if_splits)
    have nh: "e \<notin> heap_elems (timeheap b)" using t True small_not_common by (auto simp: timeouts_ok_def)
    obtain j where j: "j < n_common_timeouts b" "e \<in> set (ctl_events (common_timeout_queues b ! j))"
      using t e nh by (auto simp: timeouts_ok_def)
    then have "j = ?i" using t by (auto simp: timeouts_ok_def)
    then have mem: "e \<in> set (ctl_events (common_timeout_queues b ! ?i))" using j by simp
    define b' where "b' = set_ctl_events ?i (remove1 e (ctl_events (common_timeout_queues b ! ?i))) ?b1"
    have run: "event_queue_remove_timeout b e = Some b'"
      using e True mem by (simp add: event_queue_remove_timeout_def b'_def list_remove_def Let_def)
    have sd: "sides b' = sides b" using i by (simp add: b'_def)
    have q: "io b' = io b" "sigmap b' = sigmap b" "evbase b' = evbase b" "timeheap b' = timeheap b"
      "evs b' = put_flag False EVLIST_TIMEOUT e (evs b)" "event_count b' = event_count ?b1"
      "common_timeout_queues b' = (common_timeout_queues b)[?i := (common_timeout_queues b ! ?i)
         \<lparr>ctl_events := remove1 e (ctl_events (common_timeout_queues b ! ?i))\<rparr>]"
      "activequeues b' = activequeues b" "active_later_queue b' = active_later_queue b"
      "event_count_active b' = event_count_active b"
      by (simp_all add: b'_def set_ctl_events_def)
    have com: "is_common_timeout tv b' = is_common_timeout tv b" for tv by (simp add: is_common_timeout_def q)
    have heap: "heap_inv (evs b') (timeheap b')"
      using t heap_inv_cong [of "evs b'" "evs b" "timeheap b"] by (simp add: timeouts_ok_def q)
    have here: "k = ?i" if "k < n_common_timeouts b" "e \<in> set (ctl_events (common_timeout_queues b ! k))" for k
      using t that by (auto simp: timeouts_ok_def)
    have "timeouts_ok b'"
      using t heap nh i here unfolding timeouts_ok_def com
      by (auto simp: q nth_list_update sorted_map_remove1 split: if_splits)
    then show ?thesis using nh sd by (intro fin [OF run]) (simp_all add: q)
  next
    case False
    have inh: "e \<in> heap_elems (timeheap b)"
      using t e False by (auto simp: timeouts_ok_def)
    have hi: "heap_inv (evs ?b1) (timeheap b)"
      using t heap_inv_cong [of "evs ?b1" "evs b" "timeheap b"] by (simp add: timeouts_ok_def)
    obtain st h where er: "min_heap_erase (evs ?b1) (timeheap b) e = Some (st, h, 0)" "heap_inv st h"
      "heap_elems h = heap_elems (timeheap b) - {e}"
      using erase_spec(2) [OF hi inh] by blast
    note fr = erase_frame [OF er(1)]
    define b' where "b' = ?b1\<lparr>evs := st, timeheap := h\<rparr>"
    have run: "event_queue_remove_timeout b e = Some b'"
      using e False er(1) by (simp add: event_queue_remove_timeout_def b'_def Let_def)
    have sd: "sides b' = sides b" by (simp add: b'_def)
    have q: "io b' = io b" "sigmap b' = sigmap b" "evbase b' = evbase b" "timeheap b' = h"
      "evs b' = st" "event_count b' = event_count ?b1" "common_timeout_queues b' = common_timeout_queues b"
      "activequeues b' = activequeues b" "active_later_queue b' = active_later_queue b"
      "event_count_active b' = event_count_active b"
      by (simp_all add: b'_def)
    have com: "is_common_timeout tv b' = is_common_timeout tv b" for tv by (simp add: is_common_timeout_def q)
    have st: "ev_timeout (st x) = ev_timeout (evs b x)" "ev_flags (st x) = ev_flags (evs ?b1 x)" for x
      using idx_frame_timeout [OF fr, of x] idx_frame_core [OF fr, of x] by simp_all
    have "e \<notin> set (ctl_events (common_timeout_queues b ! k))" if "k < n_common_timeouts b" for k
      using t that False by (auto simp: timeouts_ok_def)
    then have "timeouts_ok b'"
      using t er(2,3) inh unfolding timeouts_ok_def com by (auto simp: q st)
    then show ?thesis using fr er(3) sd erase_capacity [OF er(1)] by (intro fin [OF run]) (simp_all add: q)
  qed
qed

text \<open>
  An insertion needs, for a common timeout, 32-bit microseconds, and for the heap the cell
  that \<open>event_add_nolock_\<close> has reserved.
\<close>

definition timeout_room :: "('b, 'x) event_env \<Rightarrow> ('b, 'x) event_base \<Rightarrow> ev_addr \<Rightarrow> bool" where
  "timeout_room E b e \<longleftrightarrow>
     (if is_common_timeout (ev_timeout (evs b e)) b then usec_32 (ev_timeout (evs b e))
      else tv_small (ev_timeout (evs b e)) \<and>
        (heap_n (timeheap b) < heap_a (timeheap b) \<or> (\<forall>n. m_realloc E n)) \<and> heap_n (timeheap b) + 1 < 2 ^ 31)"

lemma push_room:
  assumes "min_heap_push realloc_ok st s e = (st', s', r)" "heap_n s < heap_a s \<or> (\<forall>n. realloc_ok n)" "heap_n s + 1 < 2 ^ 31"
  shows "r = 0"
  using assms by (auto simp: min_heap_push_def min_heap_reserve_def UINT32_MAX_def Let_def split: if_splits prod.splits)

lemma insert_timeout_spec:
  assumes inv: "queues_inv b" and e: "\<not> fl b EVLIST_TIMEOUT e" and room: "timeout_room E b e"
  shows "\<exists>b'. event_queue_insert_timeout E b e = Some b' \<and> queues_inv b' \<and> queue_step b b' EVLIST_TIMEOUT e True \<and>
    activequeues b' = activequeues b \<and> active_later_queue b' = active_later_queue b \<and>
    event_count_active b' = event_count_active b \<and>
    heap_elems (timeheap b') = (if is_common_timeout (ev_timeout (evs b e)) b then heap_elems (timeheap b)
      else insert e (heap_elems (timeheap b)))"
proof -
  let ?b1 = "set_ev_flag EVLIST_TIMEOUT e (INCR_EVENT_COUNT e b)"
  let ?tv = "ev_timeout (evs b e)"
  let ?i = "COMMON_TIMEOUT_IDX ?tv"
  note [simp] = set_clear_put_flag put_flag_has
  have t: "timeouts_ok b" by (rule queues_invD(1) [OF inv])
  have nh: "e \<notin> heap_elems (timeheap b)" using t e by (auto simp: timeouts_ok_def)
  have nc: "e \<notin> set (ctl_events (common_timeout_queues b ! k))" if "k < n_common_timeouts b" for k
    using t e that by (auto simp: timeouts_ok_def)
  have fin: ?thesis if run: "event_queue_insert_timeout E b e = Some b'" and t': "timeouts_ok b'"
    and fr: "idx_frame (put_flag True EVLIST_TIMEOUT e (evs b)) (evs b')"
    and cnt: "event_count b' = event_count ?b1"
    and q: "io b' = io b" "sigmap b' = sigmap b" "evbase b' = evbase b" "sides b' = sides b"
      "length (common_timeout_queues b') = length (common_timeout_queues b)"
      "activequeues b' = activequeues b" "active_later_queue b' = active_later_queue b"
      "event_count_active b' = event_count_active b"
      "heap_elems (timeheap b') = (if is_common_timeout ?tv b then heap_elems (timeheap b)
         else insert e (heap_elems (timeheap b)))" for b'
  proof -
    have step: "queue_step b b' EVLIST_TIMEOUT e True"
      by (rule queue_step_heap(1) [OF fr]) (simp_all add: q)
    have "flags_ok b'" by (rule queue_step_heap(2) [OF fr]) (simp_all add: q queues_invD(4) [OF inv])
    moreover have "actives_ok b'" by (rule queue_step_actives [OF queues_invD(2) [OF inv] step]) (simp_all add: q)
    moreover have "counts_ok b'"
      by (rule counts_ok_step [OF queues_invD(3) [OF inv] step]) (use e cnt in simp_all)
    ultimately show ?thesis using run t' step q by (simp add: queues_inv_def)
  qed
  show ?thesis
  proof (cases "is_common_timeout ?tv b")
    case True
    then have i: "?i < n_common_timeouts b" by (simp add: is_common_timeout_def split: if_splits)
    let ?evl = "ctl_events (common_timeout_queues b ! ?i)"
    have usec: "usec_32 ?tv" using room True by (simp add: timeout_room_def)
    have old: "is_common_timeout (ev_timeout (evs b x)) b \<and> COMMON_TIMEOUT_IDX (ev_timeout (evs b x)) = ?i \<and>
        usec_32 (ev_timeout (evs b x))" if "x \<in> set ?evl" for x
      using t i that by (auto simp: timeouts_ok_def)
    have same: "\<forall>x \<in> set ?evl. is_same_common_timeout (ev_timeout (evs ?b1 x)) (ev_timeout (evs ?b1 e))"
    proof
      fix x
      assume "x \<in> set ?evl"
      from same_common [of "ev_timeout (evs b x)" b ?tv] old [OF this] usec True
      show "is_same_common_timeout (ev_timeout (evs ?b1 x)) (ev_timeout (evs ?b1 e))" by simp
    qed
    have srt: "sorted (map (\<lambda>e. ev_timeout (evs ?b1 e)) ?evl)" "distinct ?evl"
      using t i by (simp_all add: timeouts_ok_def)
    obtain evl' where ins: "insert_common_timeout_inorder (evs ?b1) ?evl e = Some evl'"
      "set evl' = insert e (set ?evl)" "distinct evl'" "sorted (map (\<lambda>e. ev_timeout (evs ?b1 e)) evl')"
      using insert_common_spec [OF same srt nc [OF i]] by blast
    define b' where "b' = set_ctl_events ?i evl' ?b1"
    have run: "event_queue_insert_timeout E b e = Some b'"
      using e True ins(1) by (simp add: event_queue_insert_timeout_def b'_def Let_def)
    have sd: "sides b' = sides b" using i by (simp add: b'_def)
    have q: "io b' = io b" "sigmap b' = sigmap b" "evbase b' = evbase b" "timeheap b' = timeheap b"
      "evs b' = put_flag True EVLIST_TIMEOUT e (evs b)" "event_count b' = event_count ?b1"
      "common_timeout_queues b' = (common_timeout_queues b)[?i := (common_timeout_queues b ! ?i)\<lparr>ctl_events := evl'\<rparr>]"
      "activequeues b' = activequeues b" "active_later_queue b' = active_later_queue b"
      "event_count_active b' = event_count_active b"
      by (simp_all add: b'_def set_ctl_events_def)
    have com: "is_common_timeout tv b' = is_common_timeout tv b" for tv by (simp add: is_common_timeout_def q)
    have heap: "heap_inv (evs b') (timeheap b')"
      using t heap_inv_cong [of "evs b'" "evs b" "timeheap b"] by (simp add: timeouts_ok_def q)
    have srt': "sorted (map (\<lambda>e. ev_timeout (evs b e)) evl')" using ins(4) by simp
    have "timeouts_ok b'"
      using t heap i ins(2,3) srt' usec True nh unfolding timeouts_ok_def com
      by (auto simp: q nth_list_update split: if_splits)
    then show ?thesis using True sd by (intro fin [OF run]) (simp_all add: q)
  next
    case False
    have hi: "heap_inv (evs ?b1) (timeheap b)"
      using t heap_inv_cong [of "evs ?b1" "evs b" "timeheap b"] by (simp add: timeouts_ok_def)
    have r: "heap_n (timeheap b) < heap_a (timeheap b) \<or> (\<forall>n. m_realloc E n)" "heap_n (timeheap b) + 1 < 2 ^ 31" "tv_small ?tv"
      using room False by (simp_all add: timeout_room_def)
    obtain st h r where pu: "min_heap_push (m_realloc E) (evs ?b1) (timeheap b) e = (st, h, r)"
      by (metis prod_cases3)
    then have pu2: "heap_inv st h" "heap_elems h = insert e (heap_elems (timeheap b))"
      using push_spec [OF hi nh r(2) pu] push_room [OF pu] r(1,2) by auto
    note fr = push_frame [OF pu]
    define b' where "b' = ?b1\<lparr>evs := st, timeheap := h\<rparr>"
    have run: "event_queue_insert_timeout E b e = Some b'"
      using e False pu by (simp add: event_queue_insert_timeout_def b'_def Let_def)
    have sd: "sides b' = sides b" by (simp add: b'_def)
    have q: "io b' = io b" "sigmap b' = sigmap b" "evbase b' = evbase b" "timeheap b' = h"
      "evs b' = st" "event_count b' = event_count ?b1" "common_timeout_queues b' = common_timeout_queues b"
      "activequeues b' = activequeues b" "active_later_queue b' = active_later_queue b"
      "event_count_active b' = event_count_active b"
      by (simp_all add: b'_def)
    have com: "is_common_timeout tv b' = is_common_timeout tv b" for tv by (simp add: is_common_timeout_def q)
    have st: "ev_timeout (st x) = ev_timeout (evs b x)" "ev_flags (st x) = ev_flags (evs ?b1 x)" for x
      using idx_frame_timeout [OF fr, of x] idx_frame_core [OF fr, of x] by simp_all
    have "timeouts_ok b'"
      using t pu2 nh False nc r(3) unfolding timeouts_ok_def com by (auto simp: q st)
    then show ?thesis using False fr pu2(2) sd by (intro fin [OF run]) (simp_all add: q)
  qed
qed

subsection \<open>Making later events active\<close>

text \<open>The invariant does not look at the other fields of the base.\<close>

lemma queues_inv_cong:
  assumes "queues_inv b" "evs b' = evs b" "timeheap b' = timeheap b"
    "common_timeout_queues b' = common_timeout_queues b" "activequeues b' = activequeues b"
    "active_later_queue b' = active_later_queue b" "event_count b' = event_count b"
    "event_count_active b' = event_count_active b"
  shows "queues_inv b'"
proof -
  have "timeouts_ok b'" by (rule timeouts_ok_cong [OF queues_invD(1) [OF assms(1)]]) (simp_all add: assms(2-))
  moreover have "actives_ok b'" by (rule actives_ok_cong [OF queues_invD(2) [OF assms(1)]]) (simp_all add: assms(2-))
  moreover have "counts_ok b'" "flags_ok b'"
    using queues_invD(3,4) [OF assms(1)] assms by (simp_all add: counts_ok_def flag_count_def flags_ok_def)
  ultimately show ?thesis by (simp add: queues_inv_def)
qed

text \<open>One round is a removal from the later queue and an insertion into the active one.\<close>

definition later_round :: "ev_addr \<Rightarrow> ev_addr list \<Rightarrow> ('b, 'x) event_base \<Rightarrow> ('b, 'x) event_base" where
  "later_round e es b =
     (upd_ev e (\<lambda>ev. ev\<lparr>ev_flags := (ev_flags ev AND NOT EVLIST_ACTIVE_LATER) OR EVLIST_ACTIVE\<rparr>)
        (b\<lparr>active_later_queue := es\<rparr>))
     \<lparr>activequeues := (activequeues b)[ev_pri (evs b e) := activequeues b ! ev_pri (evs b e) @ [e]],
      n_deferreds_queued := n_deferreds_queued b + of_bool (ev_closure (evs b e) = EV_CLOSURE_CB_SELF)\<rparr>"

lemma make_later_active_Cons:
  "make_later_active (e # es) b =
     (if \<not> ev_pri (evs b e) < nactivequeues b then None else make_later_active es (later_round e es b))"
  by (simp add: later_round_def Let_def)

lemma later_round_spec:
  assumes inv: "queues_inv b" and q: "active_later_queue b = e # es"
  shows "ev_pri (evs b e) < nactivequeues b" "queues_inv (later_round e es b)"
    "active_later_queue (later_round e es b) = es"
    "activequeues (later_round e es b) = (activequeues b)[ev_pri (evs b e) := activequeues b ! ev_pri (evs b e) @ [e]]"
    "\<forall>x. ev_core (evs (later_round e es b) x) = ev_core (evs b x)"
    "event_count (later_round e es b) = event_count b" "event_count_active (later_round e es b) = event_count_active b"
proof -
  have a: "actives_ok b" by (rule queues_invD(2) [OF inv])
  have fl: "fl b EVLIST_ACTIVE_LATER e" "\<not> fl b EVLIST_ACTIVE e"
    using a q by (auto simp: actives_ok_def)
  show p: "ev_pri (evs b e) < nactivequeues b" using a fl(1) by (simp add: actives_ok_def)
  obtain b1 where b1: "event_queue_remove_active_later b e = Some b1" "queues_inv b1"
    "queue_step b b1 EVLIST_ACTIVE_LATER e False" "activequeues b1 = activequeues b"
    using remove_active_later_spec [OF inv fl(1)] by blast
  have e1: "\<not> fl b1 EVLIST_ACTIVE e" "\<not> fl b1 EVLIST_ACTIVE_LATER e" "ev_pri (evs b1 e) = ev_pri (evs b e)"
    using fl queue_step_fl [OF b1(3)] queue_step_core(3) [OF b1(3)] by simp_all
  have "ev_pri (evs b1 e) < nactivequeues b1" using p e1(3) b1(4) by simp
  from insert_active_spec [OF b1(2) e1(1,2) this] obtain b2 where
    b2: "event_queue_insert_active b1 e = Some b2" "queues_inv b2" by blast
  let ?r = "later_round e es b"
  have b1': "b1 = (clear_ev_flag EVLIST_ACTIVE_LATER e (DECR_EVENT_COUNT e b))
      \<lparr>event_count_active := event_count_active b - 1, active_later_queue := es\<rparr>"
    using b1(1) fl q by (simp add: event_queue_remove_active_later_def list_remove_def Let_def)
  have b2': "b2 = (set_ev_flag EVLIST_ACTIVE e (INCR_EVENT_COUNT e b1))
    \<lparr>event_count_active := event_count_active b1 + 1,
     event_count_active_max := max (event_count_active_max b1) (event_count_active b1 + 1),
     activequeues := (activequeues b1)[ev_pri (evs b1 e) := activequeues b1 ! ev_pri (evs b1 e) @ [e]]\<rparr>"
    using b2(1) e1 p b1(4) by (simp add: event_queue_insert_active_def Let_def split: if_splits)
  have int: "fl b1 EVLIST_INTERNAL e = fl b EVLIST_INTERNAL e"
    using b1(3) by (simp add: queue_step_def)
  show "queues_inv ?r"
  proof (rule queues_inv_cong [OF b2(2)])
    show "evs ?r = evs b2"
      by (simp add: b2' b1' later_round_def upd_ev_def set_ev_flag_def clear_ev_flag_def)
    show "event_count ?r = event_count b2"
      using int by (simp add: b2' later_round_def upd_ev_def) (simp add: b1')
  qed (simp_all add: b2' b1' later_round_def upd_ev_def set_clear_put_flag)
  show "active_later_queue ?r = es"
    "activequeues ?r = (activequeues b)[ev_pri (evs b e) := activequeues b ! ev_pri (evs b e) @ [e]]"
    "\<forall>x. ev_core (evs ?r x) = ev_core (evs b x)"
    "event_count ?r = event_count b" "event_count_active ?r = event_count_active b"
    by (simp_all add: later_round_def upd_ev_def)
qed

lemma make_later_active_spec:
  assumes "queues_inv b" "active_later_queue b = es"
  shows "\<exists>b'. make_later_active es b = Some b' \<and> queues_inv b' \<and> active_later_queue b' = [] \<and>
    (\<forall>x. ev_core (evs b' x) = ev_core (evs b x)) \<and> length (activequeues b') = length (activequeues b) \<and>
    (\<forall>i < length (activequeues b). activequeues b' ! i = activequeues b ! i @ filter (\<lambda>e. ev_pri (evs b e) = i) es) \<and>
    event_count b' = event_count b \<and> event_count_active b' = event_count_active b \<and>
    io b' = io b \<and> sigmap b' = sigmap b \<and> evbase b' = evbase b \<and> timeheap b' = timeheap b \<and> sides b' = sides b"
  using assms
proof (induction es arbitrary: b)
  case Nil
  have "queues_inv (b\<lparr>active_later_queue := []\<rparr>)" by (rule queues_inv_cong [OF Nil(1)]) (simp_all add: Nil(2))
  then show ?case by simp
next
  case (Cons e es)
  let ?r = "later_round e es b"
  note r = later_round_spec [OF Cons.prems]
  have pri: "ev_pri (evs ?r x) = ev_pri (evs b x)" for x
    using ev_core_eqD [of "evs ?r x" "evs b x"] r(5) by simp
  have same: "io ?r = io b" "sigmap ?r = sigmap b" "evbase ?r = evbase b" "timeheap ?r = timeheap b"
    "sides ?r = sides b"
    by (simp_all add: later_round_def upd_ev_def)
  from Cons.IH [OF r(2,3)] obtain b' where b': "make_later_active es ?r = Some b'" "queues_inv b'"
    "active_later_queue b' = []" "\<forall>x. ev_core (evs b' x) = ev_core (evs ?r x)"
    "length (activequeues b') = length (activequeues ?r)"
    "\<forall>i < length (activequeues ?r). activequeues b' ! i = activequeues ?r ! i @ filter (\<lambda>e. ev_pri (evs ?r e) = i) es"
    "event_count b' = event_count ?r" "event_count_active b' = event_count_active ?r"
    "io b' = io ?r" "sigmap b' = sigmap ?r" "evbase b' = evbase ?r" "timeheap b' = timeheap ?r"
    "sides b' = sides ?r" by blast
  have "activequeues b' ! i = activequeues b ! i @ filter (\<lambda>e. ev_pri (evs b e) = i) (e # es)"
    if "i < length (activequeues b)" for i
    using b'(6) that r(1) by (simp add: r(4) pri nth_list_update)
  then show ?case
    unfolding make_later_active_Cons using b' r same by simp
qed

end
