(* ===== verification/Ev_Event.thy ===== *)
theory Ev_Event
  imports Ev_Queues
begin

text \<open>
  The operations of \<open>event.c\<close> on one event: assigning, adding, deleting, activating and
  querying it, and the timeouts of the base. The modelled configuration is the default one:
  \<open>USE_REINSERT_TIMEOUT\<close> undefined, the locks held by the one thread that uses the base
  (waiting for another thread that runs the event's callback does not happen), and every event
  assigned to the base. An event's result of \<open>None\<close> is a failed assertion or the use of a
  variable the code left unset.
\<close>

section \<open>Assignment and queries\<close>

definition event_assign ::
  "('b, 'x) event_base \<Rightarrow> ev_addr \<Rightarrow> int \<Rightarrow> short \<Rightarrow> ('b, 'x) event_base \<times> int"
where
  "event_assign b e fd events =
     (let b1 = upd_ev e (\<lambda>ev. ev\<lparr>ev_fd := fd, ev_events := events, ev_res := 0, ev_flags := EVLIST_INIT,
                 ev_ncalls := 0, ev_pncalls := False\<rparr>) b
      in if has_flag events EV_SIGNAL \<and> events AND (EV_READ OR EV_WRITE OR EV_CLOSED) \<noteq> 0 then (b1, -1)
         else
           (let closure = (if has_flag events EV_SIGNAL then EV_CLOSURE_EVENT_SIGNAL
                           else if has_flag events EV_PERSIST then EV_CLOSURE_EVENT_PERSIST
                           else EV_CLOSURE_EVENT);
                clear = \<not> has_flag events EV_SIGNAL \<and> has_flag events EV_PERSIST
            in (upd_ev e (\<lambda>ev. ev\<lparr>ev_closure := closure,
                  ev_io_timeout := (if clear then evutil_timerclear else ev_io_timeout ev),
                  min_heap_idx := -1, ev_pri := nactivequeues b1 div 2\<rparr>) b1, 0)))"

definition event_priority_set :: "('b, 'x) event_base \<Rightarrow> ev_addr \<Rightarrow> int \<Rightarrow> ('b, 'x) event_base \<times> int" where
  "event_priority_set b e pri =
     (if has_flag (ev_flags (evs b e)) EVLIST_ACTIVE then (b, -1)
      else if pri < 0 \<or> pri \<ge> int (nactivequeues b) then (b, -1)
      else (upd_ev e (\<lambda>ev. ev\<lparr>ev_pri := nat pri\<rparr>) b, 0))"

text \<open>The flags, and the time of the timeout (translated to the wall clock) when it is asked for.\<close>

definition event_pending :: "('b, 'x) event_base \<Rightarrow> ev_addr \<Rightarrow> short \<Rightarrow> bool \<Rightarrow> short \<times> timeval option" where
  "event_pending b e event want_tv =
     (let ev = evs b e;
          flags =
            flag_if (has_flag (ev_flags ev) EVLIST_INSERTED)
              (ev_events ev AND (EV_READ OR EV_WRITE OR EV_CLOSED OR EV_SIGNAL)) OR
            flag_if (has_flag (ev_flags ev) (EVLIST_ACTIVE OR EVLIST_ACTIVE_LATER)) (ev_res ev) OR
            flag_if (has_flag (ev_flags ev) EVLIST_TIMEOUT) EV_TIMEOUT;
          event' = event AND (EV_TIMEOUT OR EV_READ OR EV_WRITE OR EV_CLOSED OR EV_SIGNAL)
      in (flags AND event',
          if want_tv \<and> has_flag (flags AND event') EV_TIMEOUT
          then Some (evutil_timeradd (tv_clock_diff b) (real_timeout (ev_timeout ev))) else None))"

definition event_initialized :: "('b, 'x) event_base \<Rightarrow> ev_addr \<Rightarrow> bool" where
  "event_initialized b e = has_flag (ev_flags (evs b e)) EVLIST_INIT"

definition event_haveevents :: "('b, 'x) event_base \<Rightarrow> bool" where
  "event_haveevents b \<longleftrightarrow> virtual_event_count b > 0 \<or> event_count b > 0"

abbreviation N_ACTIVE_CALLBACKS :: "('b, 'x) event_base \<Rightarrow> int" where
  "N_ACTIVE_CALLBACKS b \<equiv> event_count_active b"

section \<open>Adding\<close>

text \<open>
  \<open>*ev->ev_pncalls = 0\<close> when the event's callback is running in a loop. A pointer left
  behind by an \<open>event_signal_closure\<close> that has returned is not told apart from one into the
  running one: the write then goes to the same cell here, to dead stack space there.
\<close>

definition abort_signal_loop :: "ev_addr \<Rightarrow> ('b, 'x) event_base \<Rightarrow> ('b, 'x) event_base" where
  "abort_signal_loop e b =
     (if has_flag (ev_events (evs b e)) EV_SIGNAL \<and> ev_ncalls (evs b e) \<noteq> 0 \<and> ev_pncalls (evs b e)
      then b\<lparr>signal_ncalls := 0\<rparr> else b)"

text \<open>
  The part of \<open>event_add_nolock_\<close> that registers the event with the maps: the new base, the
  result and whether the main thread has to be notified.
\<close>

definition event_add_maps ::
  "('b, 'x) event_env \<Rightarrow> ('b, 'x) event_base \<Rightarrow> ev_addr \<Rightarrow> (('b, 'x) event_base \<times> int \<times> bool) option"
where
  "event_add_maps E b e =
     (let ev = evs b e
      in if has_flag (ev_events ev) (EV_READ OR EV_WRITE OR EV_CLOSED OR EV_SIGNAL) \<and>
            \<not> has_flag (ev_flags ev) (EVLIST_INSERTED OR EVLIST_ACTIVE OR EVLIST_ACTIVE_LATER)
         then
           (case (if has_flag (ev_events ev) (EV_READ OR EV_WRITE OR EV_CLOSED)
                  then evmap_io_add E (evs b) b (ev_fd ev) e
                  else evmap_signal_add E (evs b) b (ev_fd ev) e) of
              None \<Rightarrow> None
            | Some (b1, res) \<Rightarrow>
                (case (if res \<noteq> -1 then event_queue_insert_inserted b1 e else Some b1) of
                   None \<Rightarrow> None
                 | Some b2 \<Rightarrow> Some (b2, if res = 1 then 0 else res, res = 1)))
         else Some (b, 0, False))"

text \<open>The absolute time an event will time out at.\<close>

definition timeout_at :: "bool \<Rightarrow> bool \<Rightarrow> timeval \<Rightarrow> timeval \<Rightarrow> timeval" where
  "timeout_at tv_is_absolute common now tv =
     (if tv_is_absolute then tv
      else if common then
        (let t = evutil_timeradd now (real_timeout tv)
         in Timeval (tv_sec t) (tv_usec t OR (tv_usec tv AND NOT MICROSECONDS_MASK)))
      else evutil_timeradd now tv)"

text \<open>
  The part that (re)schedules the timeout. \<open>schedule\<close> is \<open>common_timeout_schedule\<close>, which adds
  the internal timer of a common timeout list; the result holds \<open>notify\<close>.
\<close>

definition event_add_timeout ::
  "(('b, 'x) event_base \<Rightarrow> nat \<Rightarrow> ev_addr \<Rightarrow> ('b, 'x) event_base option) \<Rightarrow> ('b, 'x) event_env
   \<Rightarrow> ('b, 'x) event_base \<Rightarrow> ev_addr \<Rightarrow> timeval \<Rightarrow> bool \<Rightarrow> (('b, 'x) event_base \<times> bool) option"
where
  "event_add_timeout schedule E b e tv tv_is_absolute =
     (let b1 = (if ev_closure (evs b e) = EV_CLOSURE_EVENT_PERSIST \<and> \<not> tv_is_absolute
                then upd_ev e (\<lambda>ev. ev\<lparr>ev_io_timeout := tv\<rparr>) b else b)
      in Option.bind (if has_flag (ev_flags (evs b1 e)) EVLIST_TIMEOUT
                      then event_queue_remove_timeout b1 e else Some b1) (\<lambda>b2.
         Option.bind (if has_flag (ev_flags (evs b2 e)) EVLIST_ACTIVE \<and> has_flag (ev_res (evs b2 e)) EV_TIMEOUT
                      then event_queue_remove_active (abort_signal_loop e b2) e else Some b2) (\<lambda>b3.
         case gettime E b3 of
           (b4, None) \<Rightarrow> None
         | (b4, Some now) \<Rightarrow>
             (let common = is_common_timeout tv b4;
                  b5 = upd_ev e (\<lambda>ev. ev\<lparr>ev_timeout := timeout_at tv_is_absolute common now tv\<rparr>) b4
              in Option.bind (event_queue_insert_timeout E b5 e) (\<lambda>b6.
                   if common then
                     (let i = COMMON_TIMEOUT_IDX (ev_timeout (evs b6 e));
                          evl = ctl_events (common_timeout_queues b6 ! i)
                      in if evl \<noteq> [] \<and> hd evl = e
                         then map_option (\<lambda>b7. (b7, False)) (schedule b6 i e)
                         else Some (b6, False))
                   else
                     Some (b6, min_heap_elt_is_top (evs b6) e \<or>
                       (case min_heap_top (timeheap b6) of
                          None \<Rightarrow> False
                        | Some x \<Rightarrow> evutil_timercmp (ev_timeout (evs b6 x)) now (<))))))))"

definition event_add_core ::
  "(('b, 'x) event_base \<Rightarrow> nat \<Rightarrow> ev_addr \<Rightarrow> ('b, 'x) event_base option) \<Rightarrow> ('b, 'x) event_env
   \<Rightarrow> ('b, 'x) event_base \<Rightarrow> ev_addr \<Rightarrow> timeval option \<Rightarrow> bool \<Rightarrow> (('b, 'x) event_base \<times> int) option"
where
  "event_add_core schedule E b e tv tv_is_absolute =
     (if ev_flags (evs b e) AND NOT EVLIST_ALL \<noteq> 0 then None
      else if has_flag (ev_flags (evs b e)) EVLIST_FINALIZING then Some (b, -1)
      else
        (let (h, r) = (if tv \<noteq> None \<and> \<not> has_flag (ev_flags (evs b e)) EVLIST_TIMEOUT
                       then min_heap_reserve (m_realloc E) (timeheap b) (1 + min_heap_size (timeheap b))
                       else (timeheap b, 0));
             b0 = b\<lparr>timeheap := h\<rparr>
         in if r = -1 then Some (b0, -1)
            else
              Option.bind (event_add_maps E b0 e) (\<lambda>(b1, res, notify).
                if res = -1 \<or> tv = None then Some (notify_if (res \<noteq> -1 \<and> notify) E b1, res)
                else map_option (\<lambda>(b2, notify'). (notify_if (notify \<or> notify') E b2, res))
                       (event_add_timeout schedule E b1 e (the tv) tv_is_absolute))))"

text \<open>
  \<open>common_timeout_schedule\<close> adds the list's internal timer with the head's timeout, cleared of
  its magic value. That timeout is not a common one, so the inner call does not schedule
  again: its \<open>schedule\<close> is never used.
\<close>

definition common_timeout_schedule ::
  "('b, 'x) event_env \<Rightarrow> ('b, 'x) event_base \<Rightarrow> nat \<Rightarrow> ev_addr \<Rightarrow> ('b, 'x) event_base option"
where
  "common_timeout_schedule E b i head =
     map_option fst
       (event_add_core (\<lambda>_ _ _. None) E b (ctl_timeout_event (common_timeout_queues b ! i))
          (Some (real_timeout (ev_timeout (evs b head)))) True)"

definition event_add_nolock ::
  "('b, 'x) event_env \<Rightarrow> ('b, 'x) event_base \<Rightarrow> ev_addr \<Rightarrow> timeval option \<Rightarrow> bool \<Rightarrow> (('b, 'x) event_base \<times> int) option"
where
  "event_add_nolock E = event_add_core (common_timeout_schedule E) E"

definition event_add ::
  "('b, 'x) event_env \<Rightarrow> ('b, 'x) event_base \<Rightarrow> ev_addr \<Rightarrow> timeval option \<Rightarrow> (('b, 'x) event_base \<times> int) option"
where
  "event_add E b e tv = event_add_nolock E b e tv False"

section \<open>Deleting\<close>

text \<open>\<open>even_if_finalizing\<close> is \<open>blocking == EVENT_DEL_EVEN_IF_FINALIZING\<close>.\<close>

definition event_del_nolock ::
  "('b, 'x) event_env \<Rightarrow> ('b, 'x) event_base \<Rightarrow> ev_addr \<Rightarrow> bool \<Rightarrow> (('b, 'x) event_base \<times> int) option"
where
  "event_del_nolock E b e even_if_finalizing =
     (if \<not> even_if_finalizing \<and> has_flag (ev_flags (evs b e)) EVLIST_FINALIZING then Some (b, 0)
      else if ev_flags (evs b e) AND NOT EVLIST_ALL \<noteq> 0 then None
      else
        Option.bind (let b1 = abort_signal_loop e b
                     in if has_flag (ev_flags (evs b1 e)) EVLIST_TIMEOUT
                        then event_queue_remove_timeout b1 e else Some b1) (\<lambda>b2.
        Option.bind (if has_flag (ev_flags (evs b2 e)) EVLIST_ACTIVE then event_queue_remove_active b2 e
                     else if has_flag (ev_flags (evs b2 e)) EVLIST_ACTIVE_LATER
                     then event_queue_remove_active_later b2 e else Some b2) (\<lambda>b3.
        if has_flag (ev_flags (evs b3 e)) EVLIST_INSERTED then
          Option.bind (event_queue_remove_inserted b3 e) (\<lambda>b4.
          Option.bind (if has_flag (ev_events (evs b4 e)) (EV_READ OR EV_WRITE OR EV_CLOSED)
                       then evmap_io_del E (evs b4) b4 (ev_fd (evs b4 e)) e
                       else evmap_signal_del E (evs b4) b4 (ev_fd (evs b4 e)) e) (\<lambda>(b5, res).
          let notify = (res = 1 \<or> (\<not> event_haveevents b5 \<and> N_ACTIVE_CALLBACKS b5 = 0));
              res' = (if res = 1 then 0 else res)
          in Some (notify_if (res' \<noteq> -1 \<and> notify) E b5, res')))
        else Some (b3, 0))))"

definition event_del :: "('b, 'x) event_env \<Rightarrow> ('b, 'x) event_base \<Rightarrow> ev_addr \<Rightarrow> (('b, 'x) event_base \<times> int) option" where
  "event_del E b e = event_del_nolock E b e False"

definition event_remove_timer_nolock :: "('b, 'x) event_base \<Rightarrow> ev_addr \<Rightarrow> (('b, 'x) event_base \<times> int) option" where
  "event_remove_timer_nolock b e =
     (if has_flag (ev_flags (evs b e)) EVLIST_TIMEOUT then
        map_option (\<lambda>b1. (upd_ev e (\<lambda>ev. ev\<lparr>ev_io_timeout := evutil_timerclear\<rparr>) b1, 0))
          (event_queue_remove_timeout b e)
      else Some (b, 0))"

section \<open>Activating\<close>

definition event_callback_activate_nolock ::
  "('b, 'x) event_env \<Rightarrow> ('b, 'x) event_base \<Rightarrow> ev_addr \<Rightarrow> (('b, 'x) event_base \<times> int) option"
where
  "event_callback_activate_nolock E b e =
     (if has_flag (ev_flags (evs b e)) EVLIST_FINALIZING then Some (b, 0)
      else
        (case (has_flag (ev_flags (evs b e)) EVLIST_ACTIVE, has_flag (ev_flags (evs b e)) EVLIST_ACTIVE_LATER) of
           (True, True) \<Rightarrow> None
         | (True, False) \<Rightarrow> Some (b, 0)
         | (False, True) \<Rightarrow>
             Option.bind (event_queue_remove_active_later b e) (\<lambda>b1.
               map_option (\<lambda>b2. (notify_if True E b2, 0)) (event_queue_insert_active b1 e))
         | (False, False) \<Rightarrow> map_option (\<lambda>b2. (notify_if True E b2, 1)) (event_queue_insert_active b e)))"

definition event_active_nolock ::
  "('b, 'x) event_env \<Rightarrow> ('b, 'x) event_base \<Rightarrow> ev_addr \<Rightarrow> short \<Rightarrow> short \<Rightarrow> ('b, 'x) event_base option"
where
  "event_active_nolock E b e res ncalls =
     (let ev = evs b e
      in if has_flag (ev_flags ev) EVLIST_FINALIZING then Some b
         else
           (case (has_flag (ev_flags ev) EVLIST_ACTIVE, has_flag (ev_flags ev) EVLIST_ACTIVE_LATER) of
              (True, True) \<Rightarrow> None
            | (True, False) \<Rightarrow> Some (upd_ev e (\<lambda>ev. ev\<lparr>ev_res := ev_res ev OR res\<rparr>) b)
            | (False, later) \<Rightarrow>
                (let b1 = upd_ev e (\<lambda>ev. ev\<lparr>ev_res := (if later then ev_res ev OR res else res)\<rparr>) b;
                     b2 = (if int (ev_pri ev) < event_running_priority b1 then b1\<lparr>event_continue := True\<rparr> else b1);
                     b3 = (if has_flag (ev_events ev) EV_SIGNAL
                           then upd_ev e (\<lambda>ev. ev\<lparr>ev_ncalls := ncalls, ev_pncalls := False\<rparr>) b2 else b2)
                 in map_option fst (event_callback_activate_nolock E b3 e))))"

definition event_callback_activate_later_nolock ::
  "('b, 'x) event_env \<Rightarrow> ('b, 'x) event_base \<Rightarrow> ev_addr \<Rightarrow> (('b, 'x) event_base \<times> int) option"
where
  "event_callback_activate_later_nolock E b e =
     (if has_flag (ev_flags (evs b e)) (EVLIST_ACTIVE OR EVLIST_ACTIVE_LATER) then Some (b, 0)
      else map_option (\<lambda>b1. (notify_if True E b1, 1)) (event_queue_insert_active_later b e))"

definition event_active_later_nolock ::
  "('b, 'x) event_env \<Rightarrow> ('b, 'x) event_base \<Rightarrow> ev_addr \<Rightarrow> short \<Rightarrow> ('b, 'x) event_base option"
where
  "event_active_later_nolock E b e res =
     (if has_flag (ev_flags (evs b e)) (EVLIST_ACTIVE OR EVLIST_ACTIVE_LATER)
      then Some (upd_ev e (\<lambda>ev. ev\<lparr>ev_res := ev_res ev OR res\<rparr>) b)
      else map_option fst (event_callback_activate_later_nolock E (upd_ev e (\<lambda>ev. ev\<lparr>ev_res := res\<rparr>) b) e))"

definition event_callback_cancel_nolock ::
  "('b, 'x) event_env \<Rightarrow> ('b, 'x) event_base \<Rightarrow> ev_addr \<Rightarrow> bool \<Rightarrow> (('b, 'x) event_base \<times> int) option"
where
  "event_callback_cancel_nolock E b e even_if_finalizing =
     (if has_flag (ev_flags (evs b e)) EVLIST_FINALIZING \<and> \<not> even_if_finalizing then Some (b, 0)
      else if has_flag (ev_flags (evs b e)) EVLIST_INIT then event_del_nolock E b e even_if_finalizing
      else
        (case (has_flag (ev_flags (evs b e)) EVLIST_ACTIVE, has_flag (ev_flags (evs b e)) EVLIST_ACTIVE_LATER) of
           (True, True) \<Rightarrow> None
         | (True, False) \<Rightarrow> map_option (\<lambda>b1. (b1, 0)) (event_queue_remove_active b e)
         | (False, True) \<Rightarrow> map_option (\<lambda>b1. (b1, 0)) (event_queue_remove_active_later b e)
         | (False, False) \<Rightarrow> Some (b, 0)))"

definition MAX_DEFERREDS_QUEUED :: int where "MAX_DEFERREDS_QUEUED = 32"

definition event_deferred_cb_schedule ::
  "('b, 'x) event_env \<Rightarrow> ('b, 'x) event_base \<Rightarrow> ev_addr \<Rightarrow> (('b, 'x) event_base \<times> int) option"
where
  "event_deferred_cb_schedule E b e =
     (if n_deferreds_queued b > MAX_DEFERREDS_QUEUED then event_callback_activate_later_nolock E b e
      else map_option (\<lambda>(b1, r). (if r \<noteq> 0 then b1\<lparr>n_deferreds_queued := n_deferreds_queued b1 + 1\<rparr> else b1, r))
             (event_callback_activate_nolock E b e))"

section \<open>Finalizing\<close>

definition event_finalize_nolock ::
  "('b, 'x) event_env \<Rightarrow> ('b, 'x) event_base \<Rightarrow> bool \<Rightarrow> ev_addr \<Rightarrow> ('b, 'x) event_base option"
where
  "event_finalize_nolock E b free_it e =
     Option.bind (event_del_nolock E b e False) (\<lambda>(b1, _).
       let b2 = upd_ev e (\<lambda>ev. ev\<lparr>ev_closure := (if free_it then EV_CLOSURE_EVENT_FINALIZE_FREE
                                                 else EV_CLOSURE_EVENT_FINALIZE)\<rparr>) b1
       in map_option (set_ev_flag EVLIST_FINALIZING e) (event_active_nolock E b2 e EV_FINALIZE 1))"

definition event_callback_finalize_nolock ::
  "('b, 'x) event_env \<Rightarrow> ('b, 'x) event_base \<Rightarrow> ev_addr \<Rightarrow> ('b, 'x) event_base option"
where
  "event_callback_finalize_nolock E b e =
     Option.bind (if has_flag (ev_flags (evs b e)) EVLIST_INIT then event_del_nolock E b e False
                  else event_callback_cancel_nolock E b e False) (\<lambda>(b1, _).
       let b2 = upd_ev e (\<lambda>ev. ev\<lparr>ev_closure := EV_CLOSURE_CB_FINALIZE\<rparr>) b1
       in map_option (\<lambda>(b3, _). set_ev_flag EVLIST_FINALIZING e b3) (event_callback_activate_nolock E b2 e))"

end
