(* ===== verification/Ev_Event_Inv.thy ===== *)
theory Ev_Event_Inv
  imports Ev_Event
begin

text \<open>
  The invariant of a whole base, event maps included, and its preservation by adding,
  deleting and activating events, over any backend that meets the contract of the event
  maps. The contract is instantiated with the changelist backend at the end.
\<close>

section \<open>Signals\<close>

definition sig_event :: "event \<Rightarrow> bool" where
  "sig_event ev \<longleftrightarrow> has_flag (ev_events ev) EV_SIGNAL \<and> \<not> has_flag (ev_events ev) (EV_READ OR EV_WRITE OR EV_CLOSED)"

definition sig_maps_inv :: "ev_heap \<Rightarrow> ('b, 'x, 'z) evmap_base_scheme \<Rightarrow> bool" where
  "sig_maps_inv st b \<longleftrightarrow> map_ok (sigmap b) \<and>
     (\<forall>sig ctx. map_slot (sigmap b) sig = Some ctx \<longrightarrow> distinct (sig_events ctx) \<and>
        (\<forall>e \<in> set (sig_events ctx). ev_fd (st e) = sig \<and> sig_event (st e)))"

text \<open>
  An event backend: a backend for descriptors, and a signal backend that leaves the
  descriptors' part of the state alone.
\<close>

locale event_backend = io_backend "be_add E" "be_del E" "fdinfo_zero E" binv view
  for E :: "('b, 'x) event_env" and binv :: "'b \<Rightarrow> (int \<Rightarrow> 'x option) \<Rightarrow> bool" and view :: "'b \<Rightarrow> int \<Rightarrow> 'x \<Rightarrow> short" +
  assumes sig_add_ok: "binv b m \<Longrightarrow> \<exists>b' r. sig_add E b s = Some (b', r) \<and> (r = 0 \<or> r = -1) \<and> binv b' m \<and> view b' = view b"
    and sig_del_ok: "binv b m \<Longrightarrow> \<exists>b' r. sig_del E b s = Some (b', r) \<and> (r = 0 \<or> r = -1) \<and> binv b' m \<and> view b' = view b"

lemma io_maps_inv_cong:
  assumes "io_maps_inv binv view st b" "io b' = io b" "binv (evbase b') (fdinfos (io b))" "view (evbase b') = view (evbase b)"
    "\<forall>e. ev_fd (st' e) = ev_fd (st e) \<and> ev_events (st' e) = ev_events (st e)"
  shows "io_maps_inv binv view st' b'"
  using assms
  by (simp add: io_maps_inv_def io_map_inv_def backend_agrees_def io_entry_ok_def io_event_def count_flag_def want_mask_def)

lemma sig_maps_inv_cong:
  assumes "sig_maps_inv st b" "sigmap b' = sigmap b" "\<forall>e. ev_fd (st' e) = ev_fd (st e) \<and> ev_events (st' e) = ev_events (st e)"
  shows "sig_maps_inv st' b'"
  using assms by (simp add: sig_maps_inv_def sig_event_def)

lemma lists_cong: "io b' = io b \<Longrightarrow> io_list b' = io_list b" "sigmap b' = sigmap b \<Longrightarrow> sig_list b' = sig_list b"
  by (simp_all add: io_list_def sig_list_def fun_eq_iff)

lemma sig_list_ok:
  assumes "sig_maps_inv st b"
  shows "distinct (sig_list b sig) \<and> (\<forall>e \<in> set (sig_list b sig). ev_fd (st e) = sig \<and> sig_event (st e))"
  using assms by (cases "map_slot (sigmap b) sig") (simp_all add: sig_list_def sig_maps_inv_def)

lemma sig_set:
  assumes inv: "sig_maps_inv st b" and m: "map_ok m" "map_slot m = map_slot (sigmap b) \<or>
      map_slot m = (map_slot (sigmap b))(sig \<mapsto> evmap_signal_init) \<and> map_slot (sigmap b) sig = None"
    and sig: "0 \<le> sig" "sig < int (nentries m)"
    and evl: "distinct evl" "\<forall>e \<in> set evl. ev_fd (st e) = sig \<and> sig_event (st e)"
    and b': "sigmap b' = set_slot m (nat sig) (ctx\<lparr>sig_events := evl\<rparr>)"
  shows "sig_maps_inv st b'" "sig_list b' = (sig_list b)(sig := evl)"
  using map_slot_set_slot [OF m(1) sig, of "ctx\<lparr>sig_events := evl\<rparr>"] assms
  by (auto simp: sig_maps_inv_def sig_list_def fun_eq_iff)

context event_backend
begin

lemma evmap_signal_add_spec:
  assumes inv: "io_maps_inv binv view st b" "sig_maps_inv st b"
    and e: "ev_fd (st e) = sig" "sig_event (st e)" "e \<notin> set (sig_list b sig)"
  shows "\<exists>b' r. evmap_signal_add E st b sig e = Some (b', r) \<and> io_maps_inv binv view st b' \<and> sig_maps_inv st b' \<and>
    io b' = io b \<and> (r = -1 \<or> r = 1) \<and>
    sig_list b' = (if r = -1 then sig_list b else (sig_list b)(sig := e # sig_list b sig))"
proof -
  have mok: "map_ok (sigmap b)" using inv(2) by (simp add: sig_maps_inv_def)
  have bi: "binv (evbase b) (fdinfos (io b))" using inv(1) by (simp add: io_maps_inv_def backend_agrees_def)
  have keep: "io_maps_inv binv view st (b\<lparr>sigmap := m\<rparr>)" for m
    by (rule io_maps_inv_cong [OF inv(1)]) (use bi in simp_all)
  show ?thesis
  proof (cases "sig < 0 \<or> sig \<ge> NSIG")
    case True
    then show ?thesis using inv by (auto simp: evmap_signal_add_def)
  next
    case False
    obtain m1 r1 where space: "(if sig \<ge> int (nentries (sigmap b)) then evmap_make_space (m_realloc E) (sigmap b) (nat sig) 8
        else (sigmap b, 0)) = (m1, r1)" by fastforce
    have ms: "map_ok m1" "map_slot m1 = map_slot (sigmap b)" "r1 = 0 \<or> r1 = -1"
      "r1 = 0 \<Longrightarrow> sig < int (nentries m1)"
      using space make_space_spec [OF mok, of "m_realloc E" "nat sig" 8 m1 r1] mok False
      by (auto split: if_splits)
    have keep2: "sig_maps_inv st (b\<lparr>sigmap := m\<rparr>)" "sig_list (b\<lparr>sigmap := m\<rparr>) = sig_list b"
      if "map_ok m" "map_slot m = map_slot (sigmap b)" for m
      using inv(2) that by (simp_all add: sig_maps_inv_def sig_list_def fun_eq_iff)
    show ?thesis
    proof (cases "r1 = -1")
      case True
      then show ?thesis
        using space keep keep2 [OF ms(1,2)] False by (auto simp: evmap_signal_add_def)
    next
      case r1: False
      then have in1: "sig < int (nentries m1)" using ms(3,4) by blast
      have sig0: "0 \<le> sig" using False by simp
      obtain m2 c where get: "GET_SLOT_AND_CTOR (m_calloc E 8) evmap_signal_init m1 (nat sig) = (m2, c)" by fastforce
      note g = get_slot_spec [OF ms(1) sig0 in1 get, unfolded ms(2)]
      show ?thesis
      proof (cases c)
        case None
        then have "map_slot m2 = map_slot (sigmap b)"
          using g(3) ms(2) by (auto split: option.splits if_splits)
        then show ?thesis
          using space r1 get None keep keep2 [OF g(1)] False by (auto simp: evmap_signal_add_def)
      next
        case (Some ctx)
        have m2: "map_slot m2 = map_slot (sigmap b) \<or>
            map_slot m2 = (map_slot (sigmap b))(sig \<mapsto> evmap_signal_init) \<and> map_slot (sigmap b) sig = None"
          using g(3) Some ms(2) by (auto split: option.splits if_splits)
        have slot2: "map_slot m2 sig = Some ctx"
          using g(3) Some ms(2) by (auto split: option.splits if_splits)
        have l: "sig_events ctx = sig_list b sig"
          using m2 slot2 by (auto simp: sig_list_def evmap_signal_init_def)
        have in2: "sig < int (nentries m2)" using in1 g(2) by simp
        have old: "distinct (sig_list b sig)" "\<forall>e \<in> set (sig_list b sig). ev_fd (st e) = sig \<and> sig_event (st e)"
          using sig_list_ok [OF inv(2)] by blast+
        define ins where "ins bs = b\<lparr>sigmap := set_slot m2 (nat sig) (ctx\<lparr>sig_events := e # sig_events ctx\<rparr>), evbase := bs\<rparr>" for bs
        have "sig_maps_inv st (ins bs)" "sig_list (ins bs) = (sig_list b)(sig := e # sig_list b sig)" for bs
          using sig_set [OF inv(2) g(1) m2 sig0 in2, of "e # sig_events ctx" "ins bs" ctx] old e
          unfolding l by (simp_all add: ins_def l)
        note ins = this
        have ins_io: "io_maps_inv binv view st (ins bs)" if "binv bs (fdinfos (io b))" "view bs = view (evbase b)" for bs
          by (rule io_maps_inv_cong [OF inv(1)]) (use that in \<open>simp_all add: ins_def\<close>)
        have run: "evmap_signal_add E st b sig e =
          (if sig_events ctx = [] then
             (case sig_add E (evbase b) (ev_fd (st e)) of
                None \<Rightarrow> None
              | Some (bs, r) \<Rightarrow> (if r = -1 then Some (b\<lparr>sigmap := m2, evbase := bs\<rparr>, -1) else Some (ins bs, 1)))
           else Some (ins (evbase b), 1))"
          using False space r1 get Some unfolding ins_def by (simp add: evmap_signal_add_def Let_def)
        have iio: "io (ins bs) = io b" for bs by (simp add: ins_def)
        obtain bs r where sa: "sig_add E (evbase b) (ev_fd (st e)) = Some (bs, r)" "r = 0 \<or> r = -1"
          "binv bs (fdinfos (io b))" "view bs = view (evbase b)" using sig_add_ok [OF bi] by blast
        have fail: "io_maps_inv binv view st (b\<lparr>sigmap := m2, evbase := bs\<rparr>)"
          by (rule io_maps_inv_cong [OF inv(1)]) (use sa in simp_all)
        have fail2: "sig_maps_inv st (b\<lparr>sigmap := m2, evbase := bs\<rparr>)"
          using inv(2) g(1) m2 by (auto simp: sig_maps_inv_def evmap_signal_init_def split: if_splits)
        have fail3: "sig_list (b\<lparr>sigmap := m2, evbase := bs\<rparr>) = sig_list b"
        proof
          fix s
          show "sig_list (b\<lparr>sigmap := m2, evbase := bs\<rparr>) s = sig_list b s"
            using m2 by (auto simp: sig_list_def evmap_signal_init_def)
        qed
        show ?thesis
        proof (cases "sig_events ctx = []")
          case True
          then show ?thesis using run sa ins ins_io [OF sa(3,4)] fail fail2 fail3 iio by auto
        next
          case ne: False
          then show ?thesis using run ins ins_io [OF bi] iio by auto
        qed
      qed
    qed
  qed
qed

lemma evmap_signal_del_spec:
  assumes inv: "io_maps_inv binv view st b" "sig_maps_inv st b"
    and e: "e \<in> set (sig_list b sig)"
  shows "\<exists>b' r. evmap_signal_del E st b sig e = Some (b', r) \<and> io_maps_inv binv view st b' \<and> sig_maps_inv st b' \<and>
    io b' = io b \<and> (r = -1 \<or> r = 1) \<and> sig_list b' = (sig_list b)(sig := remove1 e (sig_list b sig))"
proof -
  have mok: "map_ok (sigmap b)" using inv(2) by (simp add: sig_maps_inv_def)
  have bi: "binv (evbase b) (fdinfos (io b))" using inv(1) by (simp add: io_maps_inv_def backend_agrees_def)
  obtain ctx where slot: "map_slot (sigmap b) sig = Some ctx" and mem: "e \<in> set (sig_events ctx)"
    using e by (cases "map_slot (sigmap b) sig") (auto simp: sig_list_def)
  have sig: "0 \<le> sig" "sig < int (nentries (sigmap b))" "entries (sigmap b) ! nat sig = Some ctx"
    using slot by (auto simp: map_slot_def split: if_splits)
  have l: "sig_events ctx = sig_list b sig" using slot by (simp add: sig_list_def)
  have old: "distinct (sig_list b sig)" "\<forall>e \<in> set (sig_list b sig). ev_fd (st e) = sig \<and> sig_event (st e)"
    using sig_list_ok [OF inv(2)] by blast+
  define del' where "del' bs = b\<lparr>sigmap := set_slot (sigmap b) (nat sig) (ctx\<lparr>sig_events := remove1 e (sig_events ctx)\<rparr>), evbase := bs\<rparr>" for bs
  have del': "sig_maps_inv st (del' bs)" "sig_list (del' bs) = (sig_list b)(sig := remove1 e (sig_list b sig))" for bs
    using sig_set [OF inv(2) mok _ sig(1,2), of "remove1 e (sig_events ctx)" "del' bs" ctx] old
    unfolding l by (simp_all add: del'_def l set_remove1_eq)
  have del_io: "io_maps_inv binv view st (del' bs)" if "binv bs (fdinfos (io b))" "view bs = view (evbase b)" for bs
    by (rule io_maps_inv_cong [OF inv(1)]) (use that in \<open>simp_all add: del'_def\<close>)
  have dio: "io (del' bs) = io b" for bs by (simp add: del'_def)
  obtain bs r where sd: "sig_del E (evbase b) (ev_fd (st e)) = Some (bs, r)" "r = 0 \<or> r = -1"
    "binv bs (fdinfos (io b))" "view bs = view (evbase b)" using sig_del_ok [OF bi] by blast
  have run: "evmap_signal_del E st b sig e =
    (if remove1 e (sig_events ctx) = [] then Some (del' bs, if r = -1 then -1 else 1) else Some (del' (evbase b), 1))"
    using sig mem sd(1) by (simp add: evmap_signal_del_def list_remove_def Let_def del'_def)
  show ?thesis
  proof (cases "remove1 e (sig_events ctx) = []")
    case True
    then show ?thesis using run del' del_io [OF sd(3,4)] dio by auto
  next
    case False
    then show ?thesis using run del' del_io [OF bi] dio by auto
  qed
qed

end

section \<open>The invariant of a base\<close>

definition ev_wf :: "event \<Rightarrow> bool" where
  "ev_wf ev \<longleftrightarrow> \<not> (has_flag (ev_events ev) EV_SIGNAL \<and> has_flag (ev_events ev) (EV_READ OR EV_WRITE OR EV_CLOSED))"

text \<open>An inserted event is on the list it belongs to (one for a negative descriptor is on none).\<close>

definition inserted_ok :: "('b, 'x) event_base \<Rightarrow> bool" where
  "inserted_ok b \<longleftrightarrow>
     (\<forall>e. fl b EVLIST_INSERTED e \<longrightarrow>
        (if has_flag (ev_events (evs b e)) (EV_READ OR EV_WRITE OR EV_CLOSED)
         then 0 \<le> ev_fd (evs b e) \<longrightarrow> e \<in> set (io_list b (ev_fd (evs b e)))
         else e \<in> set (sig_list b (ev_fd (evs b e))))) \<and>
     (\<forall>e fd. e \<in> set (io_list b fd) \<longrightarrow> fl b EVLIST_INSERTED e) \<and>
     (\<forall>e sig. e \<in> set (sig_list b sig) \<longrightarrow> fl b EVLIST_INSERTED e)"

definition maps_inv :: "('b \<Rightarrow> (int \<Rightarrow> 'x option) \<Rightarrow> bool) \<Rightarrow> ('b \<Rightarrow> int \<Rightarrow> 'x \<Rightarrow> short) \<Rightarrow> ('b, 'x) event_base \<Rightarrow> bool" where
  "maps_inv binv view b \<longleftrightarrow> io_maps_inv binv view (evs b) b \<and> sig_maps_inv (evs b) b \<and> inserted_ok b"

text \<open>The clock's own state holds normal times.\<close>

definition clock_inv :: "('b, 'x) event_base \<Rightarrow> bool" where
  "clock_inv b \<longleftrightarrow> tv_normal (tv_cache b) \<and> tv_normal (adjust_monotonic_clock (monotonic_timer b)) \<and>
     tv_normal (last_time (monotonic_timer b))"

text \<open>
  The internal timers of the common timeouts: events without a descriptor, whose own timeouts
  are not common ones.
\<close>

definition timers :: "('b, 'x) event_base \<Rightarrow> ev_addr set" where
  "timers b = set (map ctl_timeout_event (common_timeout_queues b))"

definition ctls_ok :: "('b, 'x) event_base \<Rightarrow> bool" where
  "ctls_ok b \<longleftrightarrow> (\<forall>t \<in> timers b. ev_events (evs b t) = 0 \<and> tv_small (ev_timeout (evs b t)))"

definition base_inv :: "('b \<Rightarrow> (int \<Rightarrow> 'x option) \<Rightarrow> bool) \<Rightarrow> ('b \<Rightarrow> int \<Rightarrow> 'x \<Rightarrow> short) \<Rightarrow> ('b, 'x) event_base \<Rightarrow> bool" where
  "base_inv binv view b \<longleftrightarrow> queues_inv b \<and> maps_inv binv view b \<and> clock_inv b \<and> ctls_ok b"

lemma base_invD:
  assumes "base_inv binv view b"
  shows "queues_inv b" "maps_inv binv view b" "clock_inv b" "ctls_ok b"
  using assms by (simp_all add: base_inv_def)

lemma maps_inv_cong:
  assumes inv: "maps_inv binv view b" and q: "io b' = io b" "sigmap b' = sigmap b" "evbase b' = evbase b"
    and st: "\<And>e. ev_fd (evs b' e) = ev_fd (evs b e)" "\<And>e. ev_events (evs b' e) = ev_events (evs b e)"
    and fl: "\<And>e. fl b' EVLIST_INSERTED e = fl b EVLIST_INSERTED e"
  shows "maps_inv binv view b'"
proof -
  have io: "io_maps_inv binv view (evs b) b" and sg: "sig_maps_inv (evs b) b" and ins: "inserted_ok b"
    using inv by (simp_all add: maps_inv_def)
  have bi: "binv (evbase b') (fdinfos (io b))"
    using io q by (simp add: io_maps_inv_def backend_agrees_def)
  have stA: "\<forall>e. ev_fd (evs b' e) = ev_fd (evs b e) \<and> ev_events (evs b' e) = ev_events (evs b e)"
    using st by simp
  have vw: "view (evbase b') = view (evbase b)" by (simp add: q)
  have "io_maps_inv binv view (evs b') b'" by (rule io_maps_inv_cong) (fact io q(1) bi vw stA)+
  moreover have "sig_maps_inv (evs b') b'" by (rule sig_maps_inv_cong) (fact sg q(2) stA)+
  moreover have "inserted_ok b'"
    using ins lists_cong(1) [OF q(1)] lists_cong(2) [OF q(2)] by (simp add: inserted_ok_def st fl)
  ultimately show ?thesis by (simp add: maps_inv_def)
qed

lemma maps_inv_step:
  assumes "maps_inv binv view b" "queue_step b b' f e on" "f \<noteq> EVLIST_INSERTED"
  shows "maps_inv binv view b'"
proof (rule maps_inv_cong [OF assms(1)])
  show "io b' = io b" "sigmap b' = sigmap b" "evbase b' = evbase b" using assms(2) by (simp_all add: queue_step_def)
  show "ev_fd (evs b' x) = ev_fd (evs b x)" "ev_events (evs b' x) = ev_events (evs b x)" for x
    using queue_step_core [OF assms(2), of x] by simp_all
  show "fl b' EVLIST_INSERTED x = fl b EVLIST_INSERTED x" for x
    using queue_step_fl [OF assms(2) single_bit_evlist(2), of x] assms(3) by auto
qed

lemma sides_timers: "sides b' = sides b \<Longrightarrow> timers b' = timers b \<and> n_common_timeouts b' = n_common_timeouts b"
proof -
  assume "sides b' = sides b"
  then have m: "map ctl_timeout_event (common_timeout_queues b') = map ctl_timeout_event (common_timeout_queues b)"
    by (simp add: sides_def)
  then have "n_common_timeouts b' = n_common_timeouts b" using map_eq_imp_length_eq by blast
  with m show ?thesis unfolding timers_def by simp
qed

lemma common_cong: "n_common_timeouts b' = n_common_timeouts b \<Longrightarrow> is_common_timeout tv b' = is_common_timeout tv b"
  by (simp add: is_common_timeout_def)

lemma side_invs:
  assumes "sides b' = sides b" "\<And>e. ev_events (evs b' e) = ev_events (evs b e)"
    "\<And>e. ev_timeout (evs b' e) = ev_timeout (evs b e)"
  shows "clock_inv b' = clock_inv b" "ctls_ok b' = ctls_ok b"
proof -
  note t = sides_timers [OF assms(1)]
  show "clock_inv b' = clock_inv b" using assms(1) by (simp add: clock_inv_def sides_def)
  show "ctls_ok b' = ctls_ok b"
    using t common_cong [of b' b] by (simp add: ctls_ok_def assms(2,3))
qed

lemma base_inv_step:
  assumes "base_inv binv view b" "queues_inv b'" "queue_step b b' f e on" "f \<noteq> EVLIST_INSERTED"
  shows "base_inv binv view b'"
proof -
  have "sides b' = sides b" using assms(3) by (simp add: queue_step_def)
  from side_invs [OF this] queue_step_core(2,5) [OF assms(3)] have "clock_inv b' = clock_inv b" "ctls_ok b' = ctls_ok b"
    by simp_all
  then show ?thesis
    using maps_inv_step [OF _ assms(3,4)] assms(1,2) by (simp add: base_inv_def)
qed

text \<open>Writing fields the invariant does not read.\<close>

definition soft_field :: "(event \<Rightarrow> event) \<Rightarrow> bool" where
  "soft_field F \<longleftrightarrow> (\<forall>ev. ev_flags (F ev) = ev_flags ev \<and> min_heap_idx (F ev) = min_heap_idx ev \<and>
     ev_timeout (F ev) = ev_timeout ev \<and> ev_pri (F ev) = ev_pri ev \<and> ev_fd (F ev) = ev_fd ev \<and>
     ev_events (F ev) = ev_events ev)"

lemma upd_ev_fields [simp]:
  "timeheap (upd_ev e F b) = timeheap b" "common_timeout_queues (upd_ev e F b) = common_timeout_queues b"
  "activequeues (upd_ev e F b) = activequeues b" "active_later_queue (upd_ev e F b) = active_later_queue b"
  "event_count (upd_ev e F b) = event_count b" "event_count_active (upd_ev e F b) = event_count_active b"
  "io (upd_ev e F b) = io b" "sigmap (upd_ev e F b) = sigmap b" "evbase (upd_ev e F b) = evbase b"
  "sides (upd_ev e F b) = sides b" "virtual_event_count (upd_ev e F b) = virtual_event_count b"
  "event_running_priority (upd_ev e F b) = event_running_priority b"
  by (simp_all add: upd_ev_def)

lemma upd_ev_soft:
  assumes "soft_field F"
  shows "ev_flags (evs (upd_ev e F b) x) = ev_flags (evs b x)"
    "min_heap_idx (evs (upd_ev e F b) x) = min_heap_idx (evs b x)"
    "ev_timeout (evs (upd_ev e F b) x) = ev_timeout (evs b x)"
    "ev_pri (evs (upd_ev e F b) x) = ev_pri (evs b x)"
    "ev_fd (evs (upd_ev e F b) x) = ev_fd (evs b x)"
    "ev_events (evs (upd_ev e F b) x) = ev_events (evs b x)"
  using assms by (simp_all add: upd_ev_def soft_field_def)

lemma base_inv_soft:
  assumes inv: "base_inv binv view b" and F: "soft_field F"
  shows "base_inv binv view (upd_ev e F b)"
proof -
  let ?b = "upd_ev e F b"
  note s = upd_ev_soft [OF F, of e b]
  have "timeouts_ok ?b" by (rule timeouts_ok_cong [OF queues_invD(1) [OF base_invD(1) [OF inv]]]) (simp_all add: s)
  moreover have "actives_ok ?b"
    by (rule actives_ok_cong [OF queues_invD(2) [OF base_invD(1) [OF inv]]]) (simp_all add: s)
  moreover have "counts_ok ?b" "flags_ok ?b"
    using queues_invD(3,4) [OF base_invD(1) [OF inv]] by (simp_all add: counts_ok_def flag_count_def flags_ok_def s)
  moreover have "maps_inv binv view ?b" by (rule maps_inv_cong [OF base_invD(2) [OF inv]]) (simp_all add: s)
  ultimately show ?thesis
    using side_invs [of ?b b] base_invD(3,4) [OF inv] by (simp add: base_inv_def queues_inv_def s)
qed

text \<open>Writing fields of the base the invariant does not read.\<close>

lemma base_inv_cong:
  assumes "base_inv binv view b" "evs b' = evs b" "timeheap b' = timeheap b"
    "common_timeout_queues b' = common_timeout_queues b" "activequeues b' = activequeues b"
    "active_later_queue b' = active_later_queue b" "event_count b' = event_count b"
    "event_count_active b' = event_count_active b" "io b' = io b" "sigmap b' = sigmap b" "evbase b' = evbase b"
    "clock_inv b'"
  shows "base_inv binv view b'"
proof -
  have "queues_inv b'" by (rule queues_inv_cong [OF base_invD(1) [OF assms(1)]]) (simp_all add: assms(2-))
  moreover have "maps_inv binv view b'" by (rule maps_inv_cong [OF base_invD(2) [OF assms(1)]]) (simp_all add: assms(2-))
  ultimately show ?thesis using assms(12) base_invD(4) [OF assms(1)]
    common_cong [of b' b] by (simp add: base_inv_def ctls_ok_def timers_def assms(2-4))
qed

lemma base_inv_notify: "base_inv binv view b \<Longrightarrow> base_inv binv view (notify_if c E b)"
proof -
  assume inv: "base_inv binv view b"
  have "base_inv binv view (b\<lparr>is_notify_pending := True\<rparr>)"
    by (rule base_inv_cong [OF inv]) (use base_invD(3) [OF inv] in \<open>simp_all add: clock_inv_def\<close>)
  with inv show ?thesis by (simp add: notify_if_def evthread_notify_base_def)
qed

lemma notify_if_fields [simp]:
  "evs (notify_if c E b) = evs b" "activequeues (notify_if c E b) = activequeues b"
  "active_later_queue (notify_if c E b) = active_later_queue b" "timeheap (notify_if c E b) = timeheap b"
  "event_count_active (notify_if c E b) = event_count_active b" "sides (notify_if c E b) = sides b"
  "event_count (notify_if c E b) = event_count b" "io (notify_if c E b) = io b" "sigmap (notify_if c E b) = sigmap b"
  "common_timeout_queues (notify_if c E b) = common_timeout_queues b" "evbase (notify_if c E b) = evbase b"
  by (simp_all add: notify_if_def evthread_notify_base_def sides_def)

section \<open>The maps and the base\<close>

text \<open>The map operations write the maps and the backend only.\<close>

lemma evmap_io_add_frame:
  "evmap_io_add E st b fd e = Some (b', r) \<Longrightarrow>
   evmap_base.more b' = evmap_base.more b \<and> sigmap b' = sigmap b"
  by (auto simp: evmap_io_add_def evmap_io_add_ctx_def Let_def split: if_splits option.splits prod.splits)

lemma evmap_io_del_frame:
  "evmap_io_del E st b fd e = Some (b', r) \<Longrightarrow>
   evmap_base.more b' = evmap_base.more b \<and> sigmap b' = sigmap b"
  by (auto simp: evmap_io_del_def Let_def split: if_splits option.splits prod.splits)

lemma evmap_signal_add_frame:
  "evmap_signal_add E st b fd e = Some (b', r) \<Longrightarrow> evmap_base.more b' = evmap_base.more b"
  by (auto simp: evmap_signal_add_def Let_def split: if_splits option.splits prod.splits)

lemma evmap_signal_del_frame:
  "evmap_signal_del E st b fd e = Some (b', r) \<Longrightarrow> evmap_base.more b' = evmap_base.more b"
  by (auto simp: evmap_signal_del_def Let_def split: if_splits option.splits prod.splits)

lemma same_more:
  assumes "evmap_base.more b' = evmap_base.more (b :: ('b, 'x) event_base)"
  shows "evs b' = evs b" "timeheap b' = timeheap b" "common_timeout_queues b' = common_timeout_queues b"
    "activequeues b' = activequeues b" "active_later_queue b' = active_later_queue b"
    "event_count b' = event_count b" "event_count_active b' = event_count_active b"
    "virtual_event_count b' = virtual_event_count b" "sides b' = sides b"
  using assms by (cases b; cases b'; simp add: sides_def)+

end
