(* ===== verification/Ev_Event_Spec.thy ===== *)
theory Ev_Event_Spec
  imports Ev_Event_Inv
begin

text \<open>
  What deleting, activating and adding an event do to a base that meets its invariant, over
  any backend with the contract of \<open>event_backend\<close>.
\<close>

section \<open>What an operation on an event leaves alone\<close>

text \<open>
  Only the events of \<open>X\<close> change, no event changes its descriptor, events, priority, closure
  or its flags other than the list flags, and the timers of the common timeouts stay.
\<close>

definition event_step :: "ev_addr set \<Rightarrow> ('b, 'x) event_base \<Rightarrow> ('b, 'x) event_base \<Rightarrow> bool" where
  "event_step X b b' \<longleftrightarrow>
     (\<forall>x. x \<notin> X \<longrightarrow> ev_core (evs b' x) = ev_core (evs b x) \<and> (\<forall>g. single_bit g \<longrightarrow> fl b' g x = fl b g x)) \<and>
     (\<forall>x. ev_fd (evs b' x) = ev_fd (evs b x) \<and> ev_events (evs b' x) = ev_events (evs b x) \<and>
        ev_pri (evs b' x) = ev_pri (evs b x) \<and> ev_closure (evs b' x) = ev_closure (evs b x) \<and>
        fl b' EVLIST_INTERNAL x = fl b EVLIST_INTERNAL x \<and> fl b' EVLIST_INIT x = fl b EVLIST_INIT x \<and>
        fl b' EVLIST_FINALIZING x = fl b EVLIST_FINALIZING x) \<and>
     map ctl_timeout_event (common_timeout_queues b') = map ctl_timeout_event (common_timeout_queues b) \<and>
     event_running_priority b' = event_running_priority b \<and> length (activequeues b') = length (activequeues b)"

lemma event_step_refl [simp]: "event_step X b b"
  by (simp add: event_step_def)

lemma event_step_trans: "event_step X b b1 \<Longrightarrow> event_step X b1 b2 \<Longrightarrow> event_step X b b2"
  by (simp add: event_step_def)

lemma event_step_mono: "event_step X b b' \<Longrightarrow> X \<subseteq> Y \<Longrightarrow> event_step Y b b'"
  unfolding event_step_def by blast

lemma event_stepD:
  assumes "event_step X b b'"
  shows "ev_fd (evs b' x) = ev_fd (evs b x)" "ev_events (evs b' x) = ev_events (evs b x)"
    "ev_pri (evs b' x) = ev_pri (evs b x)" "ev_closure (evs b' x) = ev_closure (evs b x)"
    "x \<notin> X \<Longrightarrow> single_bit g \<Longrightarrow> fl b' g x = fl b g x" "x \<notin> X \<Longrightarrow> ev_core (evs b' x) = ev_core (evs b x)"
    "fl b' EVLIST_FINALIZING x = fl b EVLIST_FINALIZING x"
  using assms by (simp_all add: event_step_def)

lemma event_step_queue:
  assumes "queue_step b b' f e on" "f \<notin> {EVLIST_INTERNAL, EVLIST_INIT, EVLIST_FINALIZING}"
  shows "event_step {e} b b'"
proof -
  have "sides b' = sides b" using assms(1) by (simp add: queue_step_def)
  then have "map ctl_timeout_event (common_timeout_queues b') = map ctl_timeout_event (common_timeout_queues b)"
    "event_running_priority b' = event_running_priority b" by (simp_all add: sides_def)
  moreover have "length (activequeues b') = length (activequeues b)" using assms(1) by (simp add: queue_step_def)
  ultimately show ?thesis
    using queue_step_core(1,3,4,5,6) [OF assms(1)] queue_step_fl [OF assms(1)] assms(2)
    by (auto simp: event_step_def)
qed

lemma event_step_soft:
  assumes F: "soft_field F" and c: "ev_closure (F (evs b e)) = ev_closure (evs b e)"
  shows "event_step {e} b (upd_ev e F b)"
proof -
  note s = upd_ev_soft [OF F, of e b]
  have x: "x \<noteq> e \<Longrightarrow> evs (upd_ev e F b) x = evs b x" for x by (simp add: upd_ev_def)
  have "ev_closure (evs (upd_ev e F b) x) = ev_closure (evs b x)" for x using c by (simp add: upd_ev_def)
  then show ?thesis using s x by (simp add: event_step_def upd_ev_def)
qed

lemma event_step_notify: "event_step X b b' \<Longrightarrow> event_step X b (notify_if c E b')"
  by (simp add: event_step_def notify_if_def evthread_notify_base_def)

lemma event_step_more: "evmap_base.more b2 = evmap_base.more b1 \<Longrightarrow> event_step X b b1 \<Longrightarrow> event_step X b b2"
  for b1 :: "('b, 'x) event_base"
  using same_more [of b2 b1] by (simp add: event_step_def sides_def)

section \<open>Deleting\<close>

lemma soft_pncalls [simp]: "soft_field (ev_pncalls_update f)" "soft_field (ev_res_update f')"
  "soft_field (ev_closure_update f'')" "soft_field (ev_io_timeout_update f3)" "soft_field (ev_ncalls_update f4)"
  by (simp_all add: soft_field_def)

lemma abort_signal_loop_spec:
  assumes "base_inv binv view b"
  shows "base_inv binv view (abort_signal_loop e b)" "event_step {e} b (abort_signal_loop e b)"
    "ev_flags (evs (abort_signal_loop e b) x) = ev_flags (evs b x)"
    "ev_timeout (evs (abort_signal_loop e b) x) = ev_timeout (evs b x)"
    "timeheap (abort_signal_loop e b) = timeheap b" "common_timeout_queues (abort_signal_loop e b) = common_timeout_queues b"
    "ev_res (evs (abort_signal_loop e b) x) = ev_res (evs b x)"
    "sides (abort_signal_loop e b) = sides b"
proof -
  have "base_inv binv view (b\<lparr>signal_ncalls := 0\<rparr>)"
    by (rule base_inv_cong [OF assms]) (use base_invD(3) [OF assms] in \<open>simp_all add: clock_inv_def\<close>)
  with assms show "base_inv binv view (abort_signal_loop e b)" by (simp add: abort_signal_loop_def)
  show "event_step {e} b (abort_signal_loop e b)" by (simp add: abort_signal_loop_def event_step_def)
  show "ev_flags (evs (abort_signal_loop e b) x) = ev_flags (evs b x)"
    "ev_timeout (evs (abort_signal_loop e b) x) = ev_timeout (evs b x)"
    "timeheap (abort_signal_loop e b) = timeheap b" "common_timeout_queues (abort_signal_loop e b) = common_timeout_queues b"
    "ev_res (evs (abort_signal_loop e b) x) = ev_res (evs b x)"
    "sides (abort_signal_loop e b) = sides b"
    by (simp_all add: abort_signal_loop_def sides_def)
qed

text \<open>An event is on one list at most, the one of its own descriptor or signal.\<close>

lemma listed_once:
  assumes "maps_inv binv view b"
  shows "e \<in> set (io_list b fd) \<Longrightarrow> ev_fd (evs b e) = fd \<and> 0 \<le> fd \<and> io_event (evs b e) \<and> distinct (io_list b fd)"
    and "e \<in> set (sig_list b sig) \<Longrightarrow> ev_fd (evs b e) = sig \<and> sig_event (evs b e) \<and> distinct (sig_list b sig)"
proof -
  have "io_map_inv (evs b) b" and sg: "sig_maps_inv (evs b) b"
    using assms by (simp_all add: maps_inv_def io_maps_inv_def)
  then show "e \<in> set (io_list b fd) \<Longrightarrow> ev_fd (evs b e) = fd \<and> 0 \<le> fd \<and> io_event (evs b e) \<and> distinct (io_list b fd)"
    by (auto simp: io_list_def io_map_inv_def io_entry_ok_def map_slot_def split: option.splits if_splits)
  show "e \<in> set (sig_list b sig) \<Longrightarrow> ev_fd (evs b e) = sig \<and> sig_event (evs b e) \<and> distinct (sig_list b sig)"
    using sig_list_ok [OF sg] by blast
qed

lemma not_listed:
  assumes "maps_inv binv view b" "\<not> fl b EVLIST_INSERTED e"
  shows "e \<notin> set (io_list b fd)" "e \<notin> set (sig_list b sig)"
  using assms unfolding maps_inv_def inserted_ok_def by blast+

definition is_io :: "event \<Rightarrow> bool" where
  "is_io ev \<longleftrightarrow> has_flag (ev_events ev) (EV_READ OR EV_WRITE OR EV_CLOSED)"

text \<open>What is left of the list invariant once an event's flag is cleared and its list entry removed.\<close>

lemma inserted_ok_del:
  assumes inv: "maps_inv binv view b" and st: "\<And>x. ev_fd (evs b' x) = ev_fd (evs b x)" "\<And>x. ev_events (evs b' x) = ev_events (evs b x)"
    and fl: "\<And>x. fl b' EVLIST_INSERTED x \<longleftrightarrow> x \<noteq> e \<and> fl b EVLIST_INSERTED x"
    and io: "is_io (evs b e) \<Longrightarrow> io_list b' = (if ev_fd (evs b e) < 0 then io_list b
          else (io_list b)(ev_fd (evs b e) := remove1 e (io_list b (ev_fd (evs b e))))) \<and> sig_list b' = sig_list b"
    and sig: "\<not> is_io (evs b e) \<Longrightarrow> io_list b' = io_list b \<and>
          sig_list b' = (sig_list b)(ev_fd (evs b e) := remove1 e (sig_list b (ev_fd (evs b e))))"
  shows "inserted_ok b'"
proof -
  have ins: "inserted_ok b" using inv by (simp add: maps_inv_def)
  have a: "e \<in> set (io_list b fd) \<Longrightarrow> ev_fd (evs b e) = fd \<and> 0 \<le> fd \<and> is_io (evs b e) \<and> distinct (io_list b fd)" for fd
    using listed_once(1) [OF inv, of e fd] by (simp add: io_event_def is_io_def)
  have s: "e \<in> set (sig_list b g) \<Longrightarrow> ev_fd (evs b e) = g \<and> \<not> is_io (evs b e) \<and> distinct (sig_list b g)" for g
    using listed_once(2) [OF inv, of e g] by (simp add: sig_event_def is_io_def)
  have iol: "x \<in> set (io_list b' fd) \<longleftrightarrow> x \<noteq> e \<and> x \<in> set (io_list b fd)" for x fd
  proof (cases "is_io (evs b e)")
    case True
    show ?thesis
    proof (cases "fd = ev_fd (evs b e) \<and> 0 \<le> fd \<and> e \<in> set (io_list b fd)")
      case True
      then have "io_list b' fd = remove1 e (io_list b fd)"
        using fun_cong [OF conjunct1 [OF io [OF \<open>is_io (evs b e)\<close>]], of fd] by simp
      moreover have "distinct (io_list b fd)" using True a [of fd] by blast
      ultimately show ?thesis by (simp add: set_remove1_eq conj_commute)
    next
      case False
      then have e_not: "e \<notin> set (io_list b fd)" using a by blast
      have "io_list b' fd = io_list b fd"
        using fun_cong [OF conjunct1 [OF io [OF \<open>is_io (evs b e)\<close>]], of fd] remove1_idem [OF e_not]
        by (simp split: if_splits)
      then show ?thesis using e_not by auto
    qed
  next
    case False
    then show ?thesis using conjunct1 [OF sig [OF False]] a [of fd] by auto
  qed
  have sgl: "x \<in> set (sig_list b' g) \<longleftrightarrow> x \<noteq> e \<and> x \<in> set (sig_list b g)" for x g
  proof (cases "is_io (evs b e)")
    case False
    show ?thesis
    proof (cases "g = ev_fd (evs b e) \<and> e \<in> set (sig_list b g)")
      case True
      then have "sig_list b' g = remove1 e (sig_list b g)"
        using fun_cong [OF conjunct2 [OF sig [OF False]], of g] by simp
      moreover have "distinct (sig_list b g)" using True s [of g] by blast
      ultimately show ?thesis by (simp add: set_remove1_eq conj_commute)
    next
      case no: False
      then have e_not: "e \<notin> set (sig_list b g)" using s by blast
      have "sig_list b' g = sig_list b g"
        using fun_cong [OF conjunct2 [OF sig [OF False]], of g] remove1_idem [OF e_not] by (simp split: if_splits)
      then show ?thesis using e_not by auto
    qed
  next
    case True
    then show ?thesis using conjunct2 [OF io [OF True]] s [of g] by auto
  qed
  show ?thesis
    using ins unfolding inserted_ok_def st fl iol sgl by auto
qed

text \<open>A backend whose deletions do not fail: it has the memory to record them.\<close>

definition deletions_work :: "('b, 'x) event_env \<Rightarrow> bool" where
  "deletions_work E \<longleftrightarrow>
     (\<forall>s fd old events x. \<not> has_flag old EV_SIGNAL \<longrightarrow>
        (case be_del E s fd old events x of None \<Rightarrow> True | Some (_, _, r) \<Rightarrow> r \<noteq> -1)) \<and>
     (\<forall>s sig. case sig_del E s sig of None \<Rightarrow> True | Some (_, r) \<Rightarrow> r \<noteq> -1)"

lemma deletions_workD:
  assumes "deletions_work E"
  shows "be_del E s fd old events x = Some (s', x', r) \<Longrightarrow> \<not> has_flag old EV_SIGNAL \<Longrightarrow> r \<noteq> -1" "sig_del E s sig = Some (s'', r') \<Longrightarrow> r' \<noteq> -1"
  using assms [unfolded deletions_work_def, THEN conjunct1, rule_format, of old s fd events x]
    assms [unfolded deletions_work_def, THEN conjunct2, rule_format, of s sig] by simp_all

lemma evmap_io_del_works:
  fixes E :: "('b, 'x) event_env" and b :: "('b, 'x, 'z) evmap_base_scheme"
  assumes "evmap_io_del E st b fd e = Some (b', r)" "deletions_work E" "e \<in> set (io_list b fd)"
  shows "r \<noteq> -1"
proof -
  have "fd < int (nentries (io b))" using assms(3) by (auto simp: io_list_def map_slot_def split: if_splits)
  moreover have "be_del E s fd' (io_old ctx) events x = Some (s', x', q) \<Longrightarrow> q \<noteq> -1" for s fd' events x s' x' q and ctx :: "'x evmap_io"
    by (erule deletions_workD(1) [OF assms(2)]) (rule io_flags_signal, simp add: io_old_def)
  ultimately show ?thesis
    using assms(1) by (auto simp: evmap_io_del_def Let_def split: if_splits option.splits prod.splits)
qed

lemma evmap_signal_del_works:
  assumes "evmap_signal_del E st b sig e = Some (b', r)" "deletions_work E" "e \<in> set (sig_list b sig)"
  shows "r \<noteq> -1"
proof -
  have "0 \<le> sig \<and> sig < int (nentries (sigmap b))" using assms(3) by (auto simp: sig_list_def map_slot_def split: if_splits)
  then show ?thesis
    using assms(1) deletions_workD(2) [OF assms(2)] by (auto simp: evmap_signal_del_def Let_def split: if_splits option.splits prod.splits)
qed

context event_backend
begin

lemma del_inserted_spec:
  assumes inv: "base_inv binv view b" and e: "fl b EVLIST_INSERTED e"
    and rm: "event_queue_remove_inserted b e = Some b1"
  shows "\<exists>b2 r. (if has_flag (ev_events (evs b1 e)) (EV_READ OR EV_WRITE OR EV_CLOSED)
      then evmap_io_del E (evs b1) b1 (ev_fd (evs b1 e)) e
      else evmap_signal_del E (evs b1) b1 (ev_fd (evs b1 e)) e) = Some (b2, r) \<and>
    evmap_base.more b2 = evmap_base.more b1 \<and> (r = -1 \<or> r = 0 \<or> r = 1) \<and> queues_inv b2 \<and>
    (r \<noteq> -1 \<longrightarrow> base_inv binv view b2) \<and> queue_step b b1 EVLIST_INSERTED e False \<and> (deletions_work E \<longrightarrow> r \<noteq> -1)"
proof -
  obtain b1' where b1': "event_queue_remove_inserted b e = Some b1'" "queues_inv b1'"
    "queue_step b b1' EVLIST_INSERTED e False"
    using remove_inserted_spec [OF base_invD(1) [OF inv] e] by blast
  with rm have q: "queues_inv b1" and step: "queue_step b b1 EVLIST_INSERTED e False" by simp_all
  note st = queue_step_core(4,5) [OF step] and fl = queue_step_fl [OF step single_bit_evlist(2)]
  have maps: "maps_inv binv view b" by (rule base_invD(2) [OF inv])
  have same: "io b1 = io b" "sigmap b1 = sigmap b" "evbase b1 = evbase b" using step by (simp_all add: queue_step_def)
  note lists = lists_cong(1) [OF same(1)] lists_cong(2) [OF same(2)]
  have iinv: "io_maps_inv binv view (evs b) b" and sinv: "sig_maps_inv (evs b) b" and ins: "inserted_ok b"
    using maps by (simp_all add: maps_inv_def)
  have bi: "binv (evbase b1) (fdinfos (io b))" using iinv same by (simp add: io_maps_inv_def backend_agrees_def)
  have io1: "io_maps_inv binv view (evs b1) b1"
    by (rule io_maps_inv_cong [OF iinv same(1) bi]) (simp_all add: same st)
  have sig1: "sig_maps_inv (evs b1) b1" by (rule sig_maps_inv_cong [OF sinv same(2)]) (simp add: st)
  have fin: ?thesis
    if run: "(if has_flag (ev_events (evs b1 e)) (EV_READ OR EV_WRITE OR EV_CLOSED)
      then evmap_io_del E (evs b1) b1 (ev_fd (evs b1 e)) e
      else evmap_signal_del E (evs b1) b1 (ev_fd (evs b1 e)) e) = Some (b2, r)"
      and more: "evmap_base.more b2 = evmap_base.more b1" and r: "r = -1 \<or> r = 0 \<or> r = 1"
      and io2: "r \<noteq> -1 \<Longrightarrow> io_maps_inv binv view (evs b1) b2" and sig2: "sig_maps_inv (evs b1) b2"
      and li: "is_io (evs b e) \<Longrightarrow> io_list b2 = (if ev_fd (evs b e) < 0 then io_list b
          else (io_list b)(ev_fd (evs b e) := remove1 e (io_list b (ev_fd (evs b e))))) \<and> sig_list b2 = sig_list b"
      and ls: "\<not> is_io (evs b e) \<Longrightarrow> io_list b2 = io_list b \<and>
          sig_list b2 = (sig_list b)(ev_fd (evs b e) := remove1 e (sig_list b (ev_fd (evs b e))))"
      and w: "deletions_work E \<Longrightarrow> r \<noteq> -1" for b2 r
  proof -
    note sm = same_more [OF more]
    have q2: "queues_inv b2" by (rule queues_inv_cong [OF q]) (simp_all add: sm)
    have "inserted_ok b2"
      by (rule inserted_ok_del [OF maps, where e = e]) (use st fl li ls in \<open>simp_all add: sm(1)\<close>)
    moreover have "sides b2 = sides b" using sm(9) step by (simp add: queue_step_def)
    then have "clock_inv b2" "ctls_ok b2"
      using side_invs [of b2 b] base_invD(3,4) [OF inv] st queue_step_core(2) [OF step] by (simp_all add: sm(1))
    ultimately have "r \<noteq> -1 \<longrightarrow> base_inv binv view b2"
      using io2 sig2 q2 by (simp add: base_inv_def maps_inv_def sm(1))
    then show ?thesis using run more r q2 step w by blast
  qed
  show ?thesis
  proof (cases "is_io (evs b e)")
    case io: True
    show ?thesis
    proof (cases "ev_fd (evs b e) < 0")
      case True
      then show ?thesis
        using io io1 sig1 lists by (intro fin [of b1 0]) (simp_all add: is_io_def st evmap_io_del_def)
    next
      case False
      then have mem: "e \<in> set (io_list b1 (ev_fd (evs b1 e)))"
        using ins e io by (simp add: inserted_ok_def is_io_def lists st)
      obtain b2 r where d: "evmap_io_del E (evs b1) b1 (ev_fd (evs b1 e)) e = Some (b2, r)"
        "io_map_inv (evs b1) b2" "r \<noteq> -1 \<longrightarrow> backend_agrees binv view (evs b1) b2" "sigmap b2 = sigmap b1"
        "r = -1 \<or> r = 0 \<or> r = 1"
        "io_list b2 = (io_list b1)(ev_fd (evs b1 e) := remove1 e (io_list b1 (ev_fd (evs b1 e))))"
        using evmap_io_del_spec [OF refl io1 refl _ mem] False by (auto simp: st)
      have "sig_maps_inv (evs b1) b2" by (rule sig_maps_inv_cong [OF sig1 d(4)]) simp
      then show ?thesis
        using io False d lists lists_cong(2) [OF d(4)] evmap_io_del_frame [OF d(1)] evmap_io_del_works [OF d(1) _ mem]
        by (intro fin [of b2 r]) (simp_all add: is_io_def st io_maps_inv_def)
    qed
  next
    case False
    then have mem: "e \<in> set (sig_list b1 (ev_fd (evs b1 e)))"
      using ins e by (simp add: inserted_ok_def is_io_def lists st)
    obtain b2 r where d: "evmap_signal_del E (evs b1) b1 (ev_fd (evs b1 e)) e = Some (b2, r)"
      "io_maps_inv binv view (evs b1) b2" "sig_maps_inv (evs b1) b2" "io b2 = io b1" "r = -1 \<or> r = 1"
      "sig_list b2 = (sig_list b1)(ev_fd (evs b1 e) := remove1 e (sig_list b1 (ev_fd (evs b1 e))))"
      using evmap_signal_del_spec [OF io1 sig1 mem] by blast
    show ?thesis
      using False d lists lists_cong(1) [OF d(4)] evmap_signal_del_frame [OF d(1)] evmap_signal_del_works [OF d(1) _ mem]
      by (intro fin [of b2 r]) (simp_all add: is_io_def st, blast)
  qed
qed


end

text \<open>
  The first three steps of a deletion: the timeout, and the queue of active or of later
  events.
\<close>

lemma drop_timeout_spec:
  assumes "base_inv binv view b"
  shows "\<exists>b'. (if fl b EVLIST_TIMEOUT e then event_queue_remove_timeout b e else Some b) = Some b' \<and>
    base_inv binv view b' \<and> event_step {e} b b' \<and> \<not> fl b' EVLIST_TIMEOUT e \<and>
    (\<forall>g. single_bit g \<longrightarrow> g \<noteq> EVLIST_TIMEOUT \<longrightarrow> fl b' g e = fl b g e) \<and>
    ev_res (evs b' e) = ev_res (evs b e) \<and> ev_timeout (evs b' e) = ev_timeout (evs b e) \<and>
    heap_elems (timeheap b') \<subseteq> heap_elems (timeheap b) \<and> heap_a (timeheap b') = heap_a (timeheap b) \<and>
    sides b' = sides b \<and> (e \<in> heap_elems (timeheap b) \<longrightarrow> heap_elems (timeheap b') = heap_elems (timeheap b) - {e})"
proof (cases "fl b EVLIST_TIMEOUT e")
  case True
  obtain b' where b': "event_queue_remove_timeout b e = Some b'" "queues_inv b'"
    "queue_step b b' EVLIST_TIMEOUT e False" "heap_elems (timeheap b') = heap_elems (timeheap b) - {e}"
    "heap_a (timeheap b') = heap_a (timeheap b)"
    using remove_timeout_spec [OF base_invD(1) [OF assms] True] by blast
  have "base_inv binv view b'" by (rule base_inv_step [OF assms b'(2,3)]) simp
  moreover have "event_step {e} b b'" by (rule event_step_queue [OF b'(3)]) simp
  moreover have "sides b' = sides b" using b'(3) by (simp add: queue_step_def)
  ultimately show ?thesis
    using True b'(1,4,5) queue_step_fl [OF b'(3), of _ e] queue_step_core(2,7) [OF b'(3), of e] by auto
next
  case False
  have "e \<notin> heap_elems (timeheap b)"
    using queues_invD(1) [OF base_invD(1) [OF assms]] False by (auto simp: timeouts_ok_def)
  with False assms show ?thesis by simp
qed

lemma drop_active_spec:
  assumes "base_inv binv view b"
  shows "\<exists>b'. (if fl b EVLIST_ACTIVE e then event_queue_remove_active b e
               else if fl b EVLIST_ACTIVE_LATER e then event_queue_remove_active_later b e else Some b) = Some b' \<and>
    base_inv binv view b' \<and> event_step {e} b b' \<and> \<not> fl b' EVLIST_ACTIVE e \<and> \<not> fl b' EVLIST_ACTIVE_LATER e \<and>
    (\<forall>g. single_bit g \<longrightarrow> g \<noteq> EVLIST_ACTIVE \<longrightarrow> g \<noteq> EVLIST_ACTIVE_LATER \<longrightarrow> fl b' g e = fl b g e)"
proof -
  have q: "queues_inv b" by (rule base_invD(1) [OF assms])
  have one: "\<not> (fl b EVLIST_ACTIVE e \<and> fl b EVLIST_ACTIVE_LATER e)"
    using queues_invD(2) [OF q] by (simp add: actives_ok_def)
  show ?thesis
  proof (cases "fl b EVLIST_ACTIVE e")
    case True
    obtain b' where b': "event_queue_remove_active b e = Some b'" "queues_inv b'" "queue_step b b' EVLIST_ACTIVE e False"
      using remove_active_spec [OF q True] by blast
    have "base_inv binv view b'" by (rule base_inv_step [OF assms b'(2,3)]) simp
    moreover have "event_step {e} b b'" by (rule event_step_queue [OF b'(3)]) simp
    ultimately show ?thesis
      using True one b'(1) queue_step_fl [OF b'(3), of _ e] by auto
  next
    case na: False
    show ?thesis
    proof (cases "fl b EVLIST_ACTIVE_LATER e")
      case True
      obtain b' where b': "event_queue_remove_active_later b e = Some b'" "queues_inv b'"
        "queue_step b b' EVLIST_ACTIVE_LATER e False"
        using remove_active_later_spec [OF q True] by blast
      have "base_inv binv view b'" by (rule base_inv_step [OF assms b'(2,3)]) simp
      moreover have "event_step {e} b b'" by (rule event_step_queue [OF b'(3)]) simp
      ultimately show ?thesis
        using True na b'(1) queue_step_fl [OF b'(3), of _ e] by auto
    qed (use assms na in simp)
  qed
qed

context event_backend
begin

lemma event_del_spec:
  assumes inv: "base_inv binv view b" and go: "even_if \<or> \<not> fl b EVLIST_FINALIZING e"
  shows "\<exists>b' r. event_del_nolock E b e even_if = Some (b', r) \<and> (r = 0 \<or> r = -1) \<and> queues_inv b' \<and>
    (r = 0 \<longrightarrow> base_inv binv view b') \<and> event_step {e} b b' \<and>
    \<not> fl b' EVLIST_TIMEOUT e \<and> \<not> fl b' EVLIST_ACTIVE e \<and> \<not> fl b' EVLIST_ACTIVE_LATER e \<and> \<not> fl b' EVLIST_INSERTED e \<and>
    (deletions_work E \<longrightarrow> r = 0)"
proof -
  have all: "ev_flags (evs b e) AND NOT EVLIST_ALL = 0"
    using queues_invD(4) [OF base_invD(1) [OF inv]] by (simp add: flags_ok_def)
  note a = abort_signal_loop_spec [OF inv, of e]
  obtain b2 where b2: "(if fl (abort_signal_loop e b) EVLIST_TIMEOUT e
        then event_queue_remove_timeout (abort_signal_loop e b) e else Some (abort_signal_loop e b)) = Some b2"
    "base_inv binv view b2" "event_step {e} (abort_signal_loop e b) b2" "\<not> fl b2 EVLIST_TIMEOUT e"
    using drop_timeout_spec [OF a(1), of e] by blast
  obtain b3 where b3: "(if fl b2 EVLIST_ACTIVE e then event_queue_remove_active b2 e
        else if fl b2 EVLIST_ACTIVE_LATER e then event_queue_remove_active_later b2 e else Some b2) = Some b3"
    "base_inv binv view b3" "event_step {e} b2 b3" "\<not> fl b3 EVLIST_ACTIVE e" "\<not> fl b3 EVLIST_ACTIVE_LATER e"
    "\<forall>g. single_bit g \<longrightarrow> g \<noteq> EVLIST_ACTIVE \<longrightarrow> g \<noteq> EVLIST_ACTIVE_LATER \<longrightarrow> fl b3 g e = fl b2 g e"
    using drop_active_spec [OF b2(2), of e] by blast
  have t3: "\<not> fl b3 EVLIST_TIMEOUT e" using b3(6) b2(4) by simp
  have step3: "event_step {e} b b3"
    by (rule event_step_trans [OF event_step_trans [OF a(2) b2(3)] b3(3)])
  have run: "event_del_nolock E b e even_if =
    (if fl b3 EVLIST_INSERTED e then
          Option.bind (event_queue_remove_inserted b3 e) (\<lambda>b4.
          Option.bind (if has_flag (ev_events (evs b4 e)) (EV_READ OR EV_WRITE OR EV_CLOSED)
                       then evmap_io_del E (evs b4) b4 (ev_fd (evs b4 e)) e
                       else evmap_signal_del E (evs b4) b4 (ev_fd (evs b4 e)) e) (\<lambda>(b5, res).
          let notify = (res = 1 \<or> (\<not> event_haveevents b5 \<and> N_ACTIVE_CALLBACKS b5 = 0));
              res' = (if res = 1 then 0 else res)
          in Some (notify_if (res' \<noteq> -1 \<and> notify) E b5, res')))
        else Some (b3, 0))"
  proof -
    have "(\<not> even_if \<and> fl b EVLIST_FINALIZING e) = False" using go by blast
    then show ?thesis by (simp only: event_del_nolock_def all b2(1) b3(1) Let_def if_False bind.bind_lunit) simp
  qed
  show ?thesis
  proof (cases "fl b3 EVLIST_INSERTED e")
    case False
    then show ?thesis using run b3 step3 t3 base_invD(1) [OF b3(2)] by auto
  next
    case True
    obtain b4 where b4: "event_queue_remove_inserted b3 e = Some b4"
      using remove_inserted_spec [OF base_invD(1) [OF b3(2)] True] by blast
    obtain b5 r where b5: "(if has_flag (ev_events (evs b4 e)) (EV_READ OR EV_WRITE OR EV_CLOSED)
      then evmap_io_del E (evs b4) b4 (ev_fd (evs b4 e)) e
      else evmap_signal_del E (evs b4) b4 (ev_fd (evs b4 e)) e) = Some (b5, r)"
      "evmap_base.more b5 = evmap_base.more b4" "r = -1 \<or> r = 0 \<or> r = 1" "queues_inv b5"
      "r \<noteq> -1 \<longrightarrow> base_inv binv view b5" "queue_step b3 b4 EVLIST_INSERTED e False" "deletions_work E \<longrightarrow> r \<noteq> -1"
      using del_inserted_spec [OF b3(2) True b4] by blast
    define c where "c = ((if r = 1 then 0 else r) \<noteq> -1 \<and> (r = 1 \<or> (\<not> event_haveevents b5 \<and> N_ACTIVE_CALLBACKS b5 = 0)))"
    have run': "event_del_nolock E b e even_if = Some (notify_if c E b5, if r = 1 then 0 else r)"
      unfolding run using True by (simp add: b4 b5(1) Let_def c_def)
    have "event_step {e} b3 b4" by (rule event_step_queue [OF b5(6)]) simp
    then have "event_step {e} b b5" by (rule event_step_more [OF b5(2) event_step_trans [OF step3]])
    then have step: "event_step {e} b (notify_if c E b5)" by (rule event_step_notify)
    have evs5: "evs b5 = evs b4" by (rule same_more(1) [OF b5(2)])
    have fl5: "fl b5 g e = (if g = EVLIST_INSERTED then False else fl b3 g e)" if "single_bit g" for g
      using queue_step_fl [OF b5(6) that, of e] by (simp add: evs5)
    have q: "queues_inv (notify_if c E b5)" by (rule queues_inv_cong [OF b5(4)]) simp_all
    have "base_inv binv view (notify_if c E b5)" if "r \<noteq> -1" using b5(5) that by (simp add: base_inv_notify)
    then show ?thesis
      using run' q step b5(3,7) fl5 [of EVLIST_TIMEOUT] fl5 [of EVLIST_ACTIVE] fl5 [of EVLIST_ACTIVE_LATER]
        fl5 [of EVLIST_INSERTED] b3(4,5) t3 by auto
  qed
qed

end

section \<open>Activating\<close>

lemma callback_activate_spec:
  assumes inv: "base_inv binv view b" and pri: "ev_pri (evs b e) < nactivequeues b"
  shows "\<exists>b' r. event_callback_activate_nolock E b e = Some (b', r) \<and> base_inv binv view b' \<and> event_step {e} b b' \<and>
    (\<forall>g. single_bit g \<longrightarrow> g \<noteq> EVLIST_ACTIVE \<longrightarrow> g \<noteq> EVLIST_ACTIVE_LATER \<longrightarrow> fl b' g e = fl b g e) \<and>
    ev_core (evs b' e) = ev_core (evs b e) \<and>
    (if fl b EVLIST_FINALIZING e \<or> fl b EVLIST_ACTIVE e then b' = b \<and> r = 0
     else r = of_bool (\<not> fl b EVLIST_ACTIVE_LATER e) \<and> fl b' EVLIST_ACTIVE e \<and> \<not> fl b' EVLIST_ACTIVE_LATER e \<and>
       activequeues b' = (activequeues b)[ev_pri (evs b e) := activequeues b ! ev_pri (evs b e) @ [e]] \<and>
       active_later_queue b' = remove1 e (active_later_queue b))"
proof -
  have q: "queues_inv b" by (rule base_invD(1) [OF inv])
  have one: "\<not> (fl b EVLIST_ACTIVE e \<and> fl b EVLIST_ACTIVE_LATER e)"
    and later: "e \<in> set (active_later_queue b) \<longleftrightarrow> fl b EVLIST_ACTIVE_LATER e"
    using queues_invD(2) [OF q] by (simp_all add: actives_ok_def)
  consider "fl b EVLIST_FINALIZING e \<or> fl b EVLIST_ACTIVE e"
    | (later) "\<not> fl b EVLIST_FINALIZING e" "\<not> fl b EVLIST_ACTIVE e" "fl b EVLIST_ACTIVE_LATER e"
    | (new) "\<not> fl b EVLIST_FINALIZING e" "\<not> fl b EVLIST_ACTIVE e" "\<not> fl b EVLIST_ACTIVE_LATER e" by blast
  then show ?thesis
  proof cases
    case 1
    then show ?thesis using inv one by (auto simp: event_callback_activate_nolock_def)
  next
    case later
    obtain b1 where b1: "event_queue_remove_active_later b e = Some b1" "queues_inv b1"
      "queue_step b b1 EVLIST_ACTIVE_LATER e False" "activequeues b1 = activequeues b"
      "active_later_queue b1 = remove1 e (active_later_queue b)"
      using remove_active_later_spec [OF q later(3)] by blast
    have inv1: "base_inv binv view b1" by (rule base_inv_step [OF inv b1(2,3)]) simp
    have fl1: "\<not> fl b1 EVLIST_ACTIVE e" "\<not> fl b1 EVLIST_ACTIVE_LATER e" "ev_pri (evs b1 e) < nactivequeues b1"
      using queue_step_fl [OF b1(3), of _ e] queue_step_core(3) [OF b1(3), of e] later pri b1(4) by simp_all
    obtain b2 where b2: "event_queue_insert_active b1 e = Some b2" "queues_inv b2"
      "queue_step b1 b2 EVLIST_ACTIVE e True"
      "activequeues b2 = (activequeues b1)[ev_pri (evs b1 e) := activequeues b1 ! ev_pri (evs b1 e) @ [e]]"
      "active_later_queue b2 = active_later_queue b1"
      using insert_active_spec [OF b1(2) fl1] by blast
    have inv2: "base_inv binv view (notify_if True E b2)"
      by (rule base_inv_notify [OF base_inv_step [OF inv1 b2(2,3)]]) simp
    have s1: "event_step {e} b b1" by (rule event_step_queue [OF b1(3)]) simp
    have s2: "event_step {e} b1 b2" by (rule event_step_queue [OF b2(3)]) simp
    have "event_step {e} b (notify_if True E b2)"
      by (rule event_step_notify [OF event_step_trans [OF s1 s2]])
    then show ?thesis
      using later inv2 b1(1,4,5) b2(1,4,5) queue_step_fl [OF b1(3), of _ e] queue_step_fl [OF b2(3), of _ e]
        queue_step_core(1,3) [OF b1(3), of e] queue_step_core(1) [OF b2(3), of e]
      by (simp add: event_callback_activate_nolock_def)
  next
    case new
    obtain b2 where b2: "event_queue_insert_active b e = Some b2" "queues_inv b2"
      "queue_step b b2 EVLIST_ACTIVE e True"
      "activequeues b2 = (activequeues b)[ev_pri (evs b e) := activequeues b ! ev_pri (evs b e) @ [e]]"
      "active_later_queue b2 = active_later_queue b"
      using insert_active_spec [OF q new(2,3) pri] by blast
    have inv2: "base_inv binv view (notify_if True E b2)"
      by (rule base_inv_notify [OF base_inv_step [OF inv b2(2,3)]]) simp
    have "event_step {e} b b2" by (rule event_step_queue [OF b2(3)]) simp
    then have "event_step {e} b (notify_if True E b2)" by (rule event_step_notify)
    then show ?thesis
      using new later inv2 b2(1,4,5) queue_step_fl [OF b2(3), of _ e] queue_step_core(1) [OF b2(3), of e]
      by (simp add: event_callback_activate_nolock_def remove1_idem)
  qed
qed

lemma event_active_spec:
  assumes inv: "base_inv binv view b" and pri: "ev_pri (evs b e) < nactivequeues b" and fin: "\<not> fl b EVLIST_FINALIZING e"
  shows "\<exists>b'. event_active_nolock E b e res ncalls = Some b' \<and> base_inv binv view b' \<and> event_step {e} b b' \<and>
    (\<forall>g. single_bit g \<longrightarrow> g \<noteq> EVLIST_ACTIVE \<longrightarrow> g \<noteq> EVLIST_ACTIVE_LATER \<longrightarrow> fl b' g e = fl b g e) \<and>
    fl b' EVLIST_ACTIVE e \<and>
    ev_res (evs b' e) = (if fl b EVLIST_ACTIVE e \<or> fl b EVLIST_ACTIVE_LATER e then ev_res (evs b e) OR res else res) \<and>
    activequeues b' = (if fl b EVLIST_ACTIVE e then activequeues b
      else (activequeues b)[ev_pri (evs b e) := activequeues b ! ev_pri (evs b e) @ [e]]) \<and>
    active_later_queue b' = remove1 e (active_later_queue b)"
proof (cases "fl b EVLIST_ACTIVE e")
  case True
  have one: "\<not> fl b EVLIST_ACTIVE_LATER e" "e \<notin> set (active_later_queue b)"
    using queues_invD(2) [OF base_invD(1) [OF inv]] True by (auto simp: actives_ok_def)
  let ?F = "\<lambda>ev. ev\<lparr>ev_res := ev_res ev OR res\<rparr>"
  have F: "soft_field ?F" by (simp add: soft_field_def)
  have run: "event_active_nolock E b e res ncalls = Some (upd_ev e ?F b)"
    using fin True one by (simp add: event_active_nolock_def)
  have "ev_res (evs (upd_ev e ?F b) e) = ev_res (evs b e) OR res" by (simp add: upd_ev_def)
  then show ?thesis
    using run True one base_inv_soft [OF inv F, of e] event_step_soft [OF F, of b e] upd_ev_soft(1) [OF F, of e b]
    by (simp add: remove1_idem)
next
  case False
  let ?F1 = "\<lambda>ev. ev\<lparr>ev_res := (if fl b EVLIST_ACTIVE_LATER e then ev_res ev OR res else res)\<rparr>"
  let ?F2 = "\<lambda>ev. ev\<lparr>ev_ncalls := ncalls, ev_pncalls := False\<rparr>"
  have F1: "soft_field ?F1" and F2: "soft_field ?F2" by (simp_all add: soft_field_def)
  define b1 where "b1 = upd_ev e ?F1 b"
  define b2 where "b2 = (if int (ev_pri (evs b e)) < event_running_priority b1 then b1\<lparr>event_continue := True\<rparr> else b1)"
  define b3 where "b3 = (if has_flag (ev_events (evs b e)) EV_SIGNAL then upd_ev e ?F2 b2 else b2)"
  have i1: "base_inv binv view b1" unfolding b1_def by (rule base_inv_soft [OF inv F1])
  have i1c: "base_inv binv view (b1\<lparr>event_continue := True\<rparr>)"
    by (rule base_inv_cong [OF i1]) (use base_invD(3) [OF i1] in \<open>simp_all add: clock_inv_def\<close>)
  have i2: "base_inv binv view b2" unfolding b2_def using i1 i1c by simp
  have i3: "base_inv binv view b3" unfolding b3_def using base_inv_soft [OF i2 F2] i2 by simp
  have s1: "event_step {e} b b1" unfolding b1_def by (rule event_step_soft [OF F1]) simp
  have s2: "event_step {e} b b2" unfolding b2_def using s1 by (simp add: event_step_def)
  have s3: "event_step {e} b b3" unfolding b3_def
    using event_step_trans [OF s2 event_step_soft [OF F2, of b2 e]] s2 by simp
  have f3: "ev_flags (evs b3 x) = ev_flags (evs b x)" "ev_res (evs b3 e) = (if fl b EVLIST_ACTIVE_LATER e then ev_res (evs b e) OR res else res)"
    "activequeues b3 = activequeues b" "active_later_queue b3 = active_later_queue b" for x
    by (simp_all add: b3_def b2_def b1_def upd_ev_def)
  have run: "event_active_nolock E b e res ncalls = map_option fst (event_callback_activate_nolock E b3 e)"
    using fin False by (simp add: event_active_nolock_def b3_def b2_def b1_def)
  have p3: "ev_pri (evs b3 e) = ev_pri (evs b e)" by (rule event_stepD(3) [OF s3])
  then have pri3: "ev_pri (evs b3 e) < nactivequeues b3" using pri f3(3) by simp
  obtain b4 r where b4: "event_callback_activate_nolock E b3 e = Some (b4, r)" "base_inv binv view b4"
    "event_step {e} b3 b4"
    "\<forall>g. single_bit g \<longrightarrow> g \<noteq> EVLIST_ACTIVE \<longrightarrow> g \<noteq> EVLIST_ACTIVE_LATER \<longrightarrow> fl b4 g e = fl b3 g e"
    "ev_core (evs b4 e) = ev_core (evs b3 e)" "fl b4 EVLIST_ACTIVE e"
    "activequeues b4 = (activequeues b)[ev_pri (evs b e) := activequeues b ! ev_pri (evs b e) @ [e]]"
    "active_later_queue b4 = remove1 e (active_later_queue b)"
    using callback_activate_spec [OF i3 pri3, of E] fin False f3 p3 by auto
  have "ev_res (evs b4 e) = ev_res (evs b3 e)" using ev_core_eqD [OF b4(5)] by blast
  then show ?thesis
    using run b4(1,2,4,6,7,8) event_step_trans [OF s3 b4(3)] False f3 by simp
qed

end
