(* ===== verification/Ev_Event_Add.thy ===== *)
theory Ev_Event_Add
  imports Ev_Event_Spec
begin

text \<open>
  Adding an event: the stages of \<open>event_add_nolock_\<close> (room in the heap, the maps, the
  timeout) and the whole, with the internal timers of the common timeouts.
\<close>

section \<open>The clock\<close>

text \<open>
  The documented clocks: a call of \<open>clock_gettime\<close> with a supported clock succeeds, and
  every reading is normal.
\<close>

definition clocks_documented :: "('b, 'x) event_env \<Rightarrow> bool" where
  "clocks_documented E \<longleftrightarrow>
     (\<forall>n. tv_normal (wall_clock E n)) \<and>
     (posix_clock E \<longrightarrow> (\<forall>n. case clock_gettime E n of None \<Rightarrow> False | Some tv \<Rightarrow> tv_normal tv))"

text \<open>The state but for the clock's part.\<close>

definition clock_step :: "('b, 'x) event_base \<Rightarrow> ('b, 'x) event_base \<Rightarrow> bool" where
  "clock_step b b' \<longleftrightarrow> evs b' = evs b \<and> timeheap b' = timeheap b \<and> common_timeout_queues b' = common_timeout_queues b \<and>
     activequeues b' = activequeues b \<and> active_later_queue b' = active_later_queue b \<and>
     event_count b' = event_count b \<and> event_count_active b' = event_count_active b \<and> io b' = io b \<and>
     sigmap b' = sigmap b \<and> evbase b' = evbase b \<and> event_running_priority b' = event_running_priority b \<and>
     tv_cache b' = tv_cache b \<and> virtual_event_count b' = virtual_event_count b"

lemma gettime_spec:
  assumes "clock_inv b" "clocks_documented E"
  shows "\<exists>b' now. gettime E b = (b', Some now) \<and> tv_normal now \<and> clock_inv b' \<and> clock_step b b' \<and>
    (tv_sec (tv_cache b) \<noteq> 0 \<longrightarrow> b' = b \<and> now = tv_cache b)"
proof (cases "tv_sec (tv_cache b) = 0")
  case True
  have "\<exists>t tp. evutil_gettime_monotonic E (clock_reads b) (monotonic_timer b) = Some (t, tp) \<and> tv_normal tp \<and>
      tv_normal (adjust_monotonic_clock t) \<and> tv_normal (last_time t)"
  proof (cases "posix_clock E")
    case True
    then have "case clock_gettime E (clock_reads b) of None \<Rightarrow> False | Some tv \<Rightarrow> tv_normal tv"
      using assms(2) by (simp add: clocks_documented_def)
    then obtain tp where "clock_gettime E (clock_reads b) = Some tp" "tv_normal tp"
      by (auto split: option.splits)
    then show ?thesis using True assms(1) by (simp add: evutil_gettime_monotonic_def clock_inv_def)
  next
    case False
    obtain t tp where a: "adjust_monotonic_time (monotonic_timer b) (wall_clock E (clock_reads b)) = (t, tp)"
      by fastforce
    have "tv_normal (wall_clock E (clock_reads b))" using assms(2) by (simp add: clocks_documented_def)
    then show ?thesis
      using False a adjust_monotonic_time_normal [OF a] assms(1) by (simp add: evutil_gettime_monotonic_def clock_inv_def)
  qed
  then show ?thesis
    using True assms(1) by (auto simp: gettime_def clock_inv_def clock_step_def Let_def)
qed (use assms in \<open>simp add: gettime_def clock_step_def clock_inv_def\<close>)

text \<open>
  The time of a base, told without \<open>gettime\<close>: the cached time, or else the next reading of the
  monotonic clock, or of the wall clock made monotonic.
\<close>

definition time_now :: "('b, 'x) event_env \<Rightarrow> ('b, 'x) event_base \<Rightarrow> timeval \<Rightarrow> bool" where
  "time_now E b now \<longleftrightarrow>
     (if tv_sec (tv_cache b) \<noteq> 0 then now = tv_cache b
      else if posix_clock E then clock_gettime E (clock_reads b) = Some now
      else now = snd (adjust_monotonic_time (monotonic_timer b) (wall_clock E (clock_reads b))))"

lemma gettime_time_now: "gettime E b = (b', Some now) \<Longrightarrow> time_now E b now"
  by (auto simp: gettime_def time_now_def evutil_gettime_monotonic_def Let_def split: if_splits option.splits prod.splits)

lemma time_now_sides: "sides b' = sides b \<Longrightarrow> time_now E b' now = time_now E b now"
  by (simp add: sides_def time_now_def)

lemma base_inv_clock: "base_inv binv view b \<Longrightarrow> clock_step b b' \<Longrightarrow> clock_inv b' \<Longrightarrow> base_inv binv view b'"
  by (rule base_inv_cong) (simp_all add: clock_step_def)

lemma event_step_clock: "clock_step b b' \<Longrightarrow> event_step X b b'"
  by (simp add: clock_step_def event_step_def)

section \<open>The maps\<close>

lemma inserted_ok_add:
  assumes inv: "inserted_ok b" and st: "\<And>x. ev_fd (evs b' x) = ev_fd (evs b x)" "\<And>x. ev_events (evs b' x) = ev_events (evs b x)"
    and fl: "\<And>x. fl b' EVLIST_INSERTED x \<longleftrightarrow> x = e \<or> fl b EVLIST_INSERTED x"
    and io: "is_io (evs b e) \<Longrightarrow> io_list b' = (if ev_fd (evs b e) < 0 then io_list b
          else (io_list b)(ev_fd (evs b e) := e # io_list b (ev_fd (evs b e)))) \<and> sig_list b' = sig_list b"
    and sig: "\<not> is_io (evs b e) \<Longrightarrow> io_list b' = io_list b \<and>
          sig_list b' = (sig_list b)(ev_fd (evs b e) := e # sig_list b (ev_fd (evs b e)))"
  shows "inserted_ok b'"
proof -
  have iol: "x \<in> set (io_list b' fd) \<longleftrightarrow> x = e \<and> is_io (evs b e) \<and> 0 \<le> fd \<and> fd = ev_fd (evs b e) \<or> x \<in> set (io_list b fd)" for x fd
  proof (cases "is_io (evs b e)")
    case True
    then show ?thesis using fun_cong [OF conjunct1 [OF io [OF True]], of fd] by (auto split: if_splits)
  next
    case False
    then show ?thesis using conjunct1 [OF sig [OF False]] by simp
  qed
  have sgl: "x \<in> set (sig_list b' g) \<longleftrightarrow> x = e \<and> \<not> is_io (evs b e) \<and> g = ev_fd (evs b e) \<or> x \<in> set (sig_list b g)" for x g
  proof (cases "is_io (evs b e)")
    case False
    then show ?thesis using fun_cong [OF conjunct2 [OF sig [OF False]], of g] by (auto split: if_splits)
  next
    case True
    then show ?thesis using conjunct2 [OF io [OF True]] by simp
  qed
  have "(if is_io (evs b x) then 0 \<le> ev_fd (evs b x) \<longrightarrow> x \<in> set (io_list b' (ev_fd (evs b x)))
      else x \<in> set (sig_list b' (ev_fd (evs b x))))" if "x = e \<or> fl b EVLIST_INSERTED x" for x
    using that inv unfolding inserted_ok_def iol sgl is_io_def by auto
  then show ?thesis
    using inv unfolding inserted_ok_def st fl is_io_def [symmetric] iol sgl by blast
qed

context event_backend
begin

lemma event_add_maps_spec:
  assumes inv: "base_inv binv view b" and wf: "ev_wf (evs b e)"
  shows "\<exists>b' r notify. event_add_maps E b e = Some (b', r, notify) \<and> base_inv binv view b' \<and> (r = 0 \<or> r = -1) \<and>
    event_step (if r = -1 then {} else {e}) b b' \<and> ev_core (evs b' e) = ev_core (evs b e) \<and>
    (\<forall>g. single_bit g \<longrightarrow> g \<noteq> EVLIST_INSERTED \<longrightarrow> fl b' g e = fl b g e) \<and>
    (r = 0 \<longrightarrow> fl b' EVLIST_INSERTED e = (fl b EVLIST_INSERTED e \<or>
       has_flag (ev_events (evs b e)) (EV_READ OR EV_WRITE OR EV_CLOSED OR EV_SIGNAL) \<and>
       \<not> fl b EVLIST_ACTIVE e \<and> \<not> fl b EVLIST_ACTIVE_LATER e)) \<and>
    timeheap b' = timeheap b \<and> common_timeout_queues b' = common_timeout_queues b \<and>
    activequeues b' = activequeues b \<and> sides b' = sides b"
proof -
  let ?ev = "evs b e"
  define go where "go \<longleftrightarrow> has_flag (ev_events ?ev) (EV_READ OR EV_WRITE OR EV_CLOSED OR EV_SIGNAL) \<and>
      \<not> fl b EVLIST_INSERTED e \<and> \<not> fl b EVLIST_ACTIVE e \<and> \<not> fl b EVLIST_ACTIVE_LATER e"
  have cond: "(has_flag (ev_events ?ev) (EV_READ OR EV_WRITE OR EV_CLOSED OR EV_SIGNAL) \<and>
      \<not> has_flag (ev_flags ?ev) (EVLIST_INSERTED OR EVLIST_ACTIVE OR EVLIST_ACTIVE_LATER)) = go"
    by (simp add: go_def has_flag_or)
  show ?thesis
  proof (cases go)
    case False
    have "event_add_maps E b e = Some (b, 0, False)"
      using False by (simp add: event_add_maps_def Let_def cond)
    then show ?thesis using inv False by (auto simp: go_def)
  next
    case True
    then have nins: "\<not> fl b EVLIST_INSERTED e" by (simp add: go_def)
    have maps: "maps_inv binv view b" and q: "queues_inv b" using base_invD [OF inv] by simp_all
    have iinv: "io_maps_inv binv view (evs b) b" and sinv: "sig_maps_inv (evs b) b" and ins: "inserted_ok b"
      using maps by (simp_all add: maps_inv_def)
    note nl = not_listed [OF maps nins]
    have run: "event_add_maps E b e =
      (case (if is_io ?ev then evmap_io_add E (evs b) b (ev_fd ?ev) e else evmap_signal_add E (evs b) b (ev_fd ?ev) e) of
              None \<Rightarrow> None
            | Some (b1, res) \<Rightarrow>
                (case (if res \<noteq> -1 then event_queue_insert_inserted b1 e else Some b1) of
                   None \<Rightarrow> None
                 | Some b2 \<Rightarrow> Some (b2, if res = 1 then 0 else res, res = 1)))"
      using True by (simp add: event_add_maps_def Let_def cond is_io_def)
    have fin: ?thesis
      if add: "(if is_io ?ev then evmap_io_add E (evs b) b (ev_fd ?ev) e else evmap_signal_add E (evs b) b (ev_fd ?ev) e) = Some (b1, res)"
        and more: "evmap_base.more b1 = evmap_base.more b" and res: "res = -1 \<or> res = 0 \<or> res = 1"
        and io1: "io_maps_inv binv view (evs b) b1" and sig1: "sig_maps_inv (evs b) b1"
        and fail: "res = -1 \<Longrightarrow> io_list b1 = io_list b \<and> sig_list b1 = sig_list b"
        and li: "res \<noteq> -1 \<Longrightarrow> is_io ?ev \<Longrightarrow> io_list b1 = (if ev_fd ?ev < 0 then io_list b
          else (io_list b)(ev_fd ?ev := e # io_list b (ev_fd ?ev))) \<and> sig_list b1 = sig_list b"
        and ls: "res \<noteq> -1 \<Longrightarrow> \<not> is_io ?ev \<Longrightarrow> io_list b1 = io_list b \<and>
          sig_list b1 = (sig_list b)(ev_fd ?ev := e # sig_list b (ev_fd ?ev))" for b1 res
    proof -
      note sm = same_more [OF more]
      have q1: "queues_inv b1" by (rule queues_inv_cong [OF q]) (simp_all add: sm)
      have sd: "clock_inv b1" "ctls_ok b1"
        using side_invs [OF sm(9)] base_invD(3,4) [OF inv] by (simp_all add: sm(1))
      have step1: "event_step X b b1" for X by (rule event_step_more [OF more]) simp
      show ?thesis
      proof (cases "res = -1")
        case True
        have "inserted_ok b1" using ins fail [OF True] by (simp add: inserted_ok_def sm(1))
        then have "base_inv binv view b1" using q1 sd io1 sig1 by (simp add: base_inv_def maps_inv_def sm(1))
        then show ?thesis using run add True step1 sm by (intro exI [of _ b1] exI [of _ "-1"] exI [of _ False]) simp
      next
        case ok: False
        obtain b2 where b2: "event_queue_insert_inserted b1 e = Some b2" "queues_inv b2"
          "queue_step b1 b2 EVLIST_INSERTED e True" "activequeues b2 = activequeues b1"
          using insert_inserted_spec [OF q1, of e] nins by (auto simp: sm(1))
        have fr: "timeheap b2 = timeheap b1" "common_timeout_queues b2 = common_timeout_queues b1"
          using b2(1) by (auto simp: event_queue_insert_inserted_def split: if_splits)
        note st = queue_step_core(4,5) [OF b2(3)]
        have same: "io b2 = io b1" "sigmap b2 = sigmap b1" "evbase b2 = evbase b1" "sides b2 = sides b"
          using b2(3) sm(9) by (simp_all add: queue_step_def)
        note lists = lists_cong(1) [OF same(1)] lists_cong(2) [OF same(2)]
        have bi: "binv (evbase b2) (fdinfos (io b1))" using io1 same by (simp add: io_maps_inv_def backend_agrees_def)
        have io2: "io_maps_inv binv view (evs b2) b2"
          by (rule io_maps_inv_cong [OF io1 same(1) bi]) (simp_all add: same st sm(1))
        have sig2: "sig_maps_inv (evs b2) b2" by (rule sig_maps_inv_cong [OF sig1 same(2)]) (simp add: st sm(1))
        have "inserted_ok b2"
          by (rule inserted_ok_add [OF ins, where e = e])
            (use st queue_step_fl [OF b2(3)] li [OF ok] ls [OF ok] in \<open>simp_all add: sm(1) lists\<close>)
        moreover have "clock_inv b2" "ctls_ok b2"
          using side_invs [OF same(4)] base_invD(3,4) [OF inv] st queue_step_core(2) [OF b2(3)] by (simp_all add: sm(1))
        ultimately have inv2: "base_inv binv view b2" using b2(2) io2 sig2 by (simp add: base_inv_def maps_inv_def)
        have "event_step {e} b1 b2" by (rule event_step_queue [OF b2(3)]) simp
        then have step: "event_step {e} b b2" by (rule event_step_trans [OF step1])
        have run2: "event_add_maps E b e = Some (b2, 0, res = 1)" using run add ok b2(1) res by auto
        show ?thesis
          using run2 inv2 step queue_step_fl [OF b2(3), of _ e] queue_step_core(1) [OF b2(3), of e] True b2(4) fr same(4)
          by (simp add: sm(1,2,3,4) go_def)
      qed
    qed
    show ?thesis
    proof (cases "is_io ?ev")
      case io: True
      have ioe: "io_event ?ev" using wf io by (auto simp: io_event_def is_io_def ev_wf_def)
      show ?thesis
      proof (cases "ev_fd ?ev < 0")
        case True
        show ?thesis
          by (rule fin [of b 0]) (use io True iinv sinv in \<open>simp_all add: evmap_io_add_def\<close>)
      next
        case False
        obtain b1 r where d: "evmap_io_add E (evs b) b (ev_fd ?ev) e = Some (b1, r)" "io_maps_inv binv view (evs b) b1"
          "sigmap b1 = sigmap b" "r = -1 \<or> r = 0 \<or> r = 1"
          "io_list b1 = (if r = -1 then io_list b else (io_list b)(ev_fd ?ev := e # io_list b (ev_fd ?ev)))"
          using evmap_io_add_spec [OF refl refl iinv refl _ ioe nl(1)] False by auto
        have "sig_maps_inv (evs b) b1" by (rule sig_maps_inv_cong [OF sinv d(3)]) simp
        then show ?thesis
          using io False d lists_cong(2) [OF d(3)] evmap_io_add_frame [OF d(1)] by (intro fin [of b1 r]) simp_all
      qed
    next
      case False
      then have sig: "sig_event ?ev" using True by (simp add: go_def sig_event_def is_io_def has_flag_or)
      obtain b1 r where d: "evmap_signal_add E (evs b) b (ev_fd ?ev) e = Some (b1, r)"
        "io_maps_inv binv view (evs b) b1" "sig_maps_inv (evs b) b1" "io b1 = io b" "r = -1 \<or> r = 1"
        "sig_list b1 = (if r = -1 then sig_list b else (sig_list b)(ev_fd ?ev := e # sig_list b (ev_fd ?ev)))"
        using evmap_signal_add_spec [OF iinv sinv refl sig nl(2)] by blast
      show ?thesis
        by (rule fin [of b1 r]) (use False d lists_cong(1) [OF d(4)] evmap_signal_add_frame [OF d(1)] in auto)
    qed
  qed
qed

end

section \<open>The timeout\<close>

lemma real_timeout_normal_bits: "0 \<le> tv_usec (real_timeout tv)" "tv_usec (real_timeout tv) < 2 ^ 20"
proof -
  have "tv_usec (real_timeout tv) = take_bit 20 (tv_usec tv)"
    by (simp add: real_timeout_def MICROSECONDS_MASK_def take_bit_eq_mask mask_eq_exp_minus_1)
  then show "0 \<le> tv_usec (real_timeout tv)" "tv_usec (real_timeout tv) < 2 ^ 20"
    using take_bit_int_less_exp [of 20 "tv_usec tv"] by simp_all
qed

lemma or_high_and:
  fixes u v :: int
  assumes "0 \<le> u" "u < 2 ^ 20"
  shows "(u OR (v AND NOT MICROSECONDS_MASK)) AND push_bit 20 m = v AND push_bit 20 m"
proof -
  have u: "take_bit 20 u = u" using assms by (simp add: take_bit_int_eq_self)
  have m: "MICROSECONDS_MASK = mask 20" by (simp add: MICROSECONDS_MASK_def mask_eq_exp_minus_1)
  show ?thesis
    unfolding m by (subst u [symmetric], rule bit_eqI) (auto simp: bit_simps)
qed

lemma or_high_mask:
  fixes u v :: int
  assumes "0 \<le> u" "u < 2 ^ 20"
  shows "(u OR (v AND NOT MICROSECONDS_MASK)) AND MICROSECONDS_MASK = u"
    "(u OR (v AND NOT MICROSECONDS_MASK)) AND NOT MICROSECONDS_MASK = v AND NOT MICROSECONDS_MASK"
proof -
  have u: "take_bit 20 u = u" using assms by (simp add: take_bit_int_eq_self)
  have m: "MICROSECONDS_MASK = mask 20" by (simp add: MICROSECONDS_MASK_def mask_eq_exp_minus_1)
  show "(u OR (v AND NOT MICROSECONDS_MASK)) AND MICROSECONDS_MASK = u"
    unfolding m by (subst (2) u [symmetric], rule bit_eqI) (auto simp: bit_simps)
  show "(u OR (v AND NOT MICROSECONDS_MASK)) AND NOT MICROSECONDS_MASK = v AND NOT MICROSECONDS_MASK"
    unfolding m by (subst u [symmetric], rule bit_eqI) (auto simp: bit_simps)
qed

lemma real_timeout_small: "tv_small tv \<Longrightarrow> real_timeout tv = tv"
  using or_high_mask(1) [of "tv_usec tv" 0] by (cases tv) (simp add: real_timeout_def tv_small_def)

lemma usec_32_or:
  assumes "0 \<le> u" "u < 2 ^ 20" "usec_32 tv"
  shows "usec_32 (Timeval s (u OR (tv_usec tv AND NOT MICROSECONDS_MASK)))"
proof -
  let ?v = "tv_usec tv"
  have v: "0 \<le> ?v" "?v < 2 ^ 32" using assms(3) by (simp_all add: usec_32_def)
  have "0 \<le> ?v AND NOT MICROSECONDS_MASK" using v by simp
  moreover have "?v AND NOT MICROSECONDS_MASK \<le> ?v" using v by (intro AND_upper1) simp
  then have "?v AND NOT MICROSECONDS_MASK < 2 ^ 32" using v by linarith
  ultimately show ?thesis
    using assms(1,2) OR_upper [of u 32 "?v AND NOT MICROSECONDS_MASK"] unfolding usec_32_def by simp
qed

lemma timeout_at_common:
  assumes "tv_normal now" "usec_32 tv" "is_common_timeout tv b"
  shows "is_common_timeout (timeout_at False True now tv) b" "usec_32 (timeout_at False True now tv)"
    "COMMON_TIMEOUT_IDX (timeout_at False True now tv) = COMMON_TIMEOUT_IDX tv"
proof -
  define u where "u = tv_usec (evutil_timeradd now (real_timeout tv))"
  let ?v = "tv_usec tv"
  have u: "0 \<le> u" "u < 2 ^ 20"
    using assms(1) real_timeout_normal_bits [of tv]
    by (auto simp: u_def evutil_timeradd_def Let_def tv_normal_def)
  have t: "tv_usec (timeout_at False True now tv) = u OR (?v AND NOT MICROSECONDS_MASK)"
    by (simp add: timeout_at_def Let_def u_def)
  have m: "COMMON_TIMEOUT_MASK = push_bit 20 0xf00" "COMMON_TIMEOUT_IDX_MASK = push_bit 20 0xff"
    by (simp_all add: COMMON_TIMEOUT_MASK_def COMMON_TIMEOUT_IDX_MASK_def push_bit_eq_mult)
  note eq = or_high_and [OF u, of ?v]
  show idx: "COMMON_TIMEOUT_IDX (timeout_at False True now tv) = COMMON_TIMEOUT_IDX tv"
    by (simp only: COMMON_TIMEOUT_IDX_def t m eq)
  show "is_common_timeout (timeout_at False True now tv) b"
    using assms(3) unfolding is_common_timeout_def idx by (simp only: t m eq)
  have v: "0 \<le> ?v" "?v < 2 ^ 32" using assms(2) by (simp_all add: usec_32_def)
  have "0 \<le> ?v AND NOT MICROSECONDS_MASK" using v by simp
  moreover have "?v AND NOT MICROSECONDS_MASK \<le> ?v" using v by (intro AND_upper1) simp
  then have "?v AND NOT MICROSECONDS_MASK < 2 ^ 32" using v by linarith
  ultimately show "usec_32 (timeout_at False True now tv)"
    using u OR_upper [of u 32 "?v AND NOT MICROSECONDS_MASK"] unfolding usec_32_def t by simp
qed

text \<open>The argument of an addition: a common timeout of the base, an absolute time or a normal interval.\<close>

definition tv_ok :: "bool \<Rightarrow> timeval \<Rightarrow> ('b, 'x) event_base \<Rightarrow> bool" where
  "tv_ok is_absolute tv b \<longleftrightarrow>
     (if is_common_timeout tv b then usec_32 tv else if is_absolute then tv_small tv else tv_normal tv)"

lemma timeout_at_kind:
  assumes "tv_normal now" "tv_ok is_absolute tv b"
  shows "is_common_timeout (timeout_at is_absolute (is_common_timeout tv b) now tv) b = is_common_timeout tv b"
    "is_common_timeout tv b \<Longrightarrow> usec_32 (timeout_at is_absolute True now tv) \<and>
       COMMON_TIMEOUT_IDX (timeout_at is_absolute True now tv) = COMMON_TIMEOUT_IDX tv"
    "\<not> is_common_timeout tv b \<Longrightarrow> tv_small (timeout_at is_absolute False now tv)"
proof -
  show "is_common_timeout (timeout_at is_absolute (is_common_timeout tv b) now tv) b = is_common_timeout tv b"
  proof (cases "is_absolute \<or> is_common_timeout tv b")
    case True
    then show ?thesis
      using timeout_at_common(1) [OF assms(1), of tv b] assms(2) by (auto simp: timeout_at_def tv_ok_def)
  next
    case False
    then have "tv_normal (evutil_timeradd now tv)" using assms by (simp add: tv_ok_def timeradd_normal)
    then show ?thesis using False small_not_common [OF normal_small, of _ b] by (simp add: timeout_at_def)
  qed
  show "\<not> is_common_timeout tv b \<Longrightarrow> tv_small (timeout_at is_absolute False now tv)"
    using assms by (cases is_absolute) (simp_all add: timeout_at_def tv_ok_def timeradd_normal normal_small)
  show "is_common_timeout tv b \<Longrightarrow> usec_32 (timeout_at is_absolute True now tv) \<and>
       COMMON_TIMEOUT_IDX (timeout_at is_absolute True now tv) = COMMON_TIMEOUT_IDX tv"
    using timeout_at_common(2,3) [OF assms(1), of tv b] assms(2)
    by (cases is_absolute) (simp_all add: timeout_at_def [of True] tv_ok_def)
qed

text \<open>
  When an event added with a timeout is due, told without the code's own computation: at the
  absolute time given, or the interval after \<open>now\<close>, to the microsecond; a common timeout
  keeps its magic number and list index beside the time.
\<close>

definition due_time :: "bool \<Rightarrow> bool \<Rightarrow> timeval \<Rightarrow> timeval \<Rightarrow> timeval \<Rightarrow> bool" where
  "due_time is_absolute common now tv d \<longleftrightarrow>
     (if is_absolute then d = tv
      else if common then
        is_same_common_timeout d tv \<and> usec_32 d \<and> tv_usecs (real_timeout d) = tv_usecs now + tv_usecs (real_timeout tv) \<and>
        (tv_normal (real_timeout tv) \<longrightarrow> tv_normal (real_timeout d))
      else tv_usecs d = tv_usecs now + tv_usecs tv \<and> tv_normal d)"

lemma timeout_at_due:
  assumes now: "tv_normal now" and tv: "tv_ok is_absolute tv b"
  shows "due_time is_absolute (is_common_timeout tv b) now tv (timeout_at is_absolute (is_common_timeout tv b) now tv)"
proof (cases "is_absolute \<or> \<not> is_common_timeout tv b")
  case True
  then show ?thesis using tv now by (auto simp: due_time_def timeout_at_def tv_ok_def timeradd_normal)
next
  case False
  let ?x = "evutil_timeradd now (real_timeout tv)"
  have u: "0 \<le> tv_usec ?x" "tv_usec ?x < 2 ^ 20"
    using now real_timeout_normal_bits [of tv] by (auto simp: evutil_timeradd_def Let_def tv_normal_def)
  have t: "timeout_at False True now tv = Timeval (tv_sec ?x) (tv_usec ?x OR (tv_usec tv AND NOT MICROSECONDS_MASK))"
    by (simp add: timeout_at_def Let_def)
  have "real_timeout (timeout_at False True now tv) = ?x"
    using or_high_mask(1) [OF u] unfolding t by (simp add: real_timeout_def)
  moreover have "is_same_common_timeout (timeout_at False True now tv) tv"
    using or_high_mask(2) [OF u] unfolding t by (simp add: is_same_common_timeout_def)
  moreover have "usec_32 (timeout_at False True now tv)" by (rule timeout_at_common(2) [OF now, of tv b]) (use tv False in \<open>simp_all add: tv_ok_def\<close>)
  ultimately show ?thesis using False timeradd_normal [OF now, of "real_timeout tv"] by (simp add: due_time_def)
qed

lemma heap_inv_other:
  assumes "heap_inv st s" "e \<notin> heap_elems s" "\<forall>x. min_heap_idx (st' x) = min_heap_idx (st x)"
    "\<forall>x. x \<noteq> e \<longrightarrow> timeout_of st' x = timeout_of st x"
  shows "heap_inv st' s"
proof -
  have len: "heap_n s \<le> length (heap_p s)" using assms(1) by (simp add: heap_inv_def)
  have "heap_p s ! i \<noteq> e" if "i < heap_n s" for i
    using assms(2) that len by (auto simp: heap_elems_def set_take_conv_nth)
  then have "heap_order (timeout_of st') (heap_n s) (heap_p s)"
    using assms(1,4) by (auto simp: heap_inv_def heap_order_def)
  then show ?thesis using assms(1,3) by (simp add: heap_inv_def heap_layout_def)
qed

text \<open>Setting the timeout of an event that is on no timeout queue.\<close>

lemma base_inv_timeout:
  assumes inv: "base_inv binv view b" and e: "\<not> fl b EVLIST_TIMEOUT e" "e \<in> timers b \<Longrightarrow> tv_small tv"
  shows "base_inv binv view (upd_ev e (\<lambda>ev. ev\<lparr>ev_timeout := tv\<rparr>) b)" (is "base_inv _ _ ?b")
proof -
  have f: "evs ?b x = (if x = e then (evs b e)\<lparr>ev_timeout := tv\<rparr> else evs b x)" for x by (simp add: upd_ev_def)
  note t = queues_invD(1) [OF base_invD(1) [OF inv]]
  have out: "e \<notin> heap_elems (timeheap b)" "i < n_common_timeouts b \<Longrightarrow> e \<notin> set (ctl_events (common_timeout_queues b ! i))" for i
    using t e(1) by (auto simp: timeouts_ok_def)
  have com: "is_common_timeout x ?b = is_common_timeout x b" for x by (simp add: is_common_timeout_def)
  have "heap_inv (evs ?b) (timeheap b)"
    by (rule heap_inv_other [where st = "evs b", OF _ out(1)]) (use t in \<open>simp_all add: timeouts_ok_def f\<close>)
  moreover have m: "map (\<lambda>x. ev_timeout (evs ?b x)) (ctl_events (common_timeout_queues b ! i)) =
      map (\<lambda>x. ev_timeout (evs b x)) (ctl_events (common_timeout_queues b ! i))" if "i < n_common_timeouts b" for i
    using out(2) [OF that] by (auto simp: f)
  ultimately have heap: "heap_inv (evs ?b) (timeheap ?b)" and
    srt: "i < n_common_timeouts b \<Longrightarrow> sorted (map (\<lambda>x. ev_timeout (evs ?b x)) (ctl_events (common_timeout_queues b ! i)))" for i
    using t by (simp_all only: upd_ev_fields timeouts_ok_def)
  have old: "ev_timeout (evs ?b x) = ev_timeout (evs b x)" if "x \<noteq> e" for x using that by (simp add: f)
  have flag: "fl ?b g x = fl b g x" for g x by (simp add: f)
  have "timeouts_ok ?b"
    unfolding timeouts_ok_def upd_ev_fields flag com
  proof (intro conjI allI impI ballI)
    show "heap_inv (evs ?b) (timeheap b)" using heap by simp
    show "fl b EVLIST_TIMEOUT x = (x \<in> heap_elems (timeheap b) \<or>
        (\<exists>i<n_common_timeouts b. x \<in> set (ctl_events (common_timeout_queues b ! i))))" for x
      using t by (simp add: timeouts_ok_def)
    show "tv_small (ev_timeout (evs ?b x))" if "x \<in> heap_elems (timeheap b)" for x
      using t that old [of x] out(1) by (cases "x = e") (simp_all add: timeouts_ok_def)
    show "sorted (map (\<lambda>x. ev_timeout (evs ?b x)) (ctl_events (common_timeout_queues b ! i)))"
      if "i < n_common_timeouts b" for i by (rule srt [OF that])
    fix i
    assume i: "i < n_common_timeouts b"
    then show "distinct (ctl_events (common_timeout_queues b ! i))" using t by (simp add: timeouts_ok_def)
    fix x
    assume x: "x \<in> set (ctl_events (common_timeout_queues b ! i))"
    then have "x \<noteq> e" using out(2) [OF i] by blast
    then show "is_common_timeout (ev_timeout (evs ?b x)) b" "COMMON_TIMEOUT_IDX (ev_timeout (evs ?b x)) = i"
      "usec_32 (ev_timeout (evs ?b x))"
      using t i x old [of x] by (simp_all add: timeouts_ok_def)
  qed
  moreover have "actives_ok ?b"
    by (rule actives_ok_cong [OF queues_invD(2) [OF base_invD(1) [OF inv]]]) (simp_all add: f)
  moreover have "counts_ok ?b" "flags_ok ?b"
  proof -
    have "ev_flags (evs ?b x) = ev_flags (evs b x)" for x by (simp add: f)
    then show "counts_ok ?b" "flags_ok ?b"
      using queues_invD(3,4) [OF base_invD(1) [OF inv]] by (simp_all add: counts_ok_def flag_count_def flags_ok_def)
  qed
  moreover have "maps_inv binv view ?b" by (rule maps_inv_cong [OF base_invD(2) [OF inv]]) (simp_all add: f)
  moreover have "timers ?b = timers b" by (simp add: timers_def)
  then have "ctls_ok ?b" using base_invD(4) [OF inv] e(2) by (simp add: ctls_ok_def com f)
  moreover have "clock_inv ?b" using base_invD(3) [OF inv] by (simp add: clock_inv_def upd_ev_def)
  ultimately show ?thesis by (simp add: base_inv_def queues_inv_def)
qed

lemma event_step_timeout: "event_step {e} b (upd_ev e (\<lambda>ev. ev\<lparr>ev_timeout := tv\<rparr>) b)"
  by (simp add: event_step_def upd_ev_def)

lemma event_step_timers: "event_step X b b' \<Longrightarrow> timers b' = timers b \<and> n_common_timeouts b' = n_common_timeouts b"
proof -
  assume "event_step X b b'"
  then have m: "map ctl_timeout_event (common_timeout_queues b') = map ctl_timeout_event (common_timeout_queues b)"
    by (simp add: event_step_def)
  then have "n_common_timeouts b' = n_common_timeouts b" by (rule map_eq_imp_length_eq)
  with m show ?thesis unfolding timers_def by simp
qed

lemma remove_active_frame:
  "event_queue_remove_active b e = Some b' \<Longrightarrow>
   timeheap b' = timeheap b \<and> common_timeout_queues b' = common_timeout_queues b"
  by (auto simp: event_queue_remove_active_def Let_def split: if_splits option.splits)

lemma base_heap_card: "base_inv binv view b \<Longrightarrow> heap_n (timeheap b) = card (heap_elems (timeheap b)) \<and>
    heap_n (timeheap b) \<le> heap_a (timeheap b)"
proof -
  assume "base_inv binv view b"
  then have h: "heap_inv (evs b) (timeheap b)" by (simp add: base_inv_def queues_inv_def timeouts_ok_def)
  then have "heap_n (timeheap b) \<le> heap_a (timeheap b)" unfolding heap_inv_def by blast
  with heap_n_card [OF h] show ?thesis by blast
qed

text \<open>The event is taken off the active queue when it is there for its old timeout.\<close>

lemma drop_expired_spec:
  assumes "base_inv binv view b"
  shows "\<exists>b'. (if fl b EVLIST_ACTIVE e \<and> has_flag (ev_res (evs b e)) EV_TIMEOUT
               then event_queue_remove_active (abort_signal_loop e b) e else Some b) = Some b' \<and>
    base_inv binv view b' \<and> event_step {e} b b' \<and>
    (fl b' EVLIST_ACTIVE e \<longleftrightarrow> fl b EVLIST_ACTIVE e \<and> \<not> has_flag (ev_res (evs b e)) EV_TIMEOUT) \<and>
    (\<forall>g. single_bit g \<longrightarrow> g \<noteq> EVLIST_ACTIVE \<longrightarrow> fl b' g e = fl b g e) \<and>
    timeheap b' = timeheap b \<and> common_timeout_queues b' = common_timeout_queues b \<and> sides b' = sides b"
proof (cases "fl b EVLIST_ACTIVE e \<and> has_flag (ev_res (evs b e)) EV_TIMEOUT")
  case True
  note a = abort_signal_loop_spec [OF assms, of e]
  obtain b' where b': "event_queue_remove_active (abort_signal_loop e b) e = Some b'" "queues_inv b'"
    "queue_step (abort_signal_loop e b) b' EVLIST_ACTIVE e False"
    using remove_active_spec [OF base_invD(1) [OF a(1)], of e] a(3) True by auto
  have "base_inv binv view b'" by (rule base_inv_step [OF a(1) b'(2,3)]) simp
  moreover have "event_step {e} (abort_signal_loop e b) b'" by (rule event_step_queue [OF b'(3)]) simp
  then have "event_step {e} b b'" by (rule event_step_trans [OF a(2)])
  moreover have "sides b' = sides b" using b'(3) a(8) by (simp add: queue_step_def)
  ultimately show ?thesis
    using True b'(1) queue_step_fl [OF b'(3), of _ e] remove_active_frame [OF b'(1)] a(3,5,6) by simp
qed (use assms in auto)

lemma event_add_timeout_spec:
  assumes inv: "base_inv binv view b" and clk: "clocks_documented E" and tv: "tv_ok is_absolute tv b"
    and room: "is_common_timeout tv b \<or> e \<in> heap_elems (timeheap b) \<or> heap_n (timeheap b) < heap_a (timeheap b) \<or> (\<forall>n. m_realloc E n)"
      "heap_n (timeheap b) + 1 < 2 ^ 31"
    and tm: "e \<in> timers b \<Longrightarrow> \<not> is_common_timeout tv b"
    and sched: "\<And>b' i. is_common_timeout tv b \<Longrightarrow> base_inv binv view b' \<Longrightarrow> i < n_common_timeouts b' \<Longrightarrow>
        heap_n (timeheap b') \<le> heap_n (timeheap b) \<Longrightarrow>
        \<exists>b''. schedule b' i e = Some b'' \<and> base_inv binv view b'' \<and>
          event_step {ctl_timeout_event (common_timeout_queues b' ! i)} b' b''"
  shows "\<exists>b' notify now. event_add_timeout schedule E b e tv is_absolute = Some (b', notify) \<and> base_inv binv view b' \<and>
    event_step (if is_common_timeout tv b then insert e (timers b) else {e}) b b' \<and>
    fl b' EVLIST_TIMEOUT e \<and> tv_normal now \<and>
    ev_timeout (evs b' e) = timeout_at is_absolute (is_common_timeout tv b) now tv \<and>
    (\<forall>g. single_bit g \<longrightarrow> g \<noteq> EVLIST_TIMEOUT \<longrightarrow> g \<noteq> EVLIST_ACTIVE \<longrightarrow> fl b' g e = fl b g e) \<and>
    (fl b' EVLIST_ACTIVE e \<longleftrightarrow> fl b EVLIST_ACTIVE e \<and> \<not> has_flag (ev_res (evs b e)) EV_TIMEOUT) \<and>
    time_now E b now"
proof -
  let ?F = "\<lambda>ev. ev\<lparr>ev_io_timeout := tv\<rparr>"
  have F: "soft_field ?F" by simp
  define b1 where "b1 = (if ev_closure (evs b e) = EV_CLOSURE_EVENT_PERSIST \<and> \<not> is_absolute then upd_ev e ?F b else b)"
  have i1: "base_inv binv view b1" using inv base_inv_soft [OF inv F] by (simp add: b1_def)
  have s1: "event_step {e} b b1" using event_step_soft [OF F, of b e] by (simp add: b1_def)
  have f1: "timeheap b1 = timeheap b" "ev_flags (evs b1 x) = ev_flags (evs b x)" "ev_res (evs b1 e) = ev_res (evs b e)"
    "sides b1 = sides b" for x
    by (simp_all add: b1_def upd_ev_def sides_def)
  obtain b2 where b2: "(if fl b1 EVLIST_TIMEOUT e then event_queue_remove_timeout b1 e else Some b1) = Some b2"
    "base_inv binv view b2" "event_step {e} b1 b2" "\<not> fl b2 EVLIST_TIMEOUT e"
    "\<forall>g. single_bit g \<longrightarrow> g \<noteq> EVLIST_TIMEOUT \<longrightarrow> fl b2 g e = fl b1 g e" "ev_res (evs b2 e) = ev_res (evs b1 e)"
    "heap_elems (timeheap b2) \<subseteq> heap_elems (timeheap b1)" "heap_a (timeheap b2) = heap_a (timeheap b1)"
    "sides b2 = sides b1"
    "e \<in> heap_elems (timeheap b1) \<longrightarrow> heap_elems (timeheap b2) = heap_elems (timeheap b1) - {e}"
    using drop_timeout_spec [OF i1, of e] by blast
  have fin: "finite (heap_elems (timeheap b))" by (simp add: heap_elems_def)
  have le: "heap_n (timeheap b2) \<le> heap_n (timeheap b)"
    using base_heap_card [OF inv] base_heap_card [OF b2(2)] card_mono [OF fin] b2(7) f1(1) by simp
  have room2: "is_common_timeout tv b \<or> heap_n (timeheap b2) < heap_a (timeheap b2) \<or> (\<forall>n. m_realloc E n)"
  proof (cases "e \<in> heap_elems (timeheap b)")
    case True
    then have eq: "heap_elems (timeheap b2) = heap_elems (timeheap b) - {e}" using b2(10) f1(1) by simp
    have "card (heap_elems (timeheap b2)) < card (heap_elems (timeheap b))"
      unfolding eq by (rule card_Diff1_less [OF fin True])
    then show ?thesis using base_heap_card [OF inv] base_heap_card [OF b2(2)] b2(8) f1(1) by simp
  next
    case False
    then show ?thesis using room(1) le b2(8) f1(1) by auto
  qed
  obtain b3 where b3: "(if fl b2 EVLIST_ACTIVE e \<and> has_flag (ev_res (evs b2 e)) EV_TIMEOUT
               then event_queue_remove_active (abort_signal_loop e b2) e else Some b2) = Some b3"
    "base_inv binv view b3" "event_step {e} b2 b3"
    "fl b3 EVLIST_ACTIVE e \<longleftrightarrow> fl b2 EVLIST_ACTIVE e \<and> \<not> has_flag (ev_res (evs b2 e)) EV_TIMEOUT"
    "\<forall>g. single_bit g \<longrightarrow> g \<noteq> EVLIST_ACTIVE \<longrightarrow> fl b3 g e = fl b2 g e"
    "timeheap b3 = timeheap b2" "common_timeout_queues b3 = common_timeout_queues b2" "sides b3 = sides b2"
    using drop_expired_spec [OF b2(2), of e] by blast
  obtain b4 now where b4: "gettime E b3 = (b4, Some now)" "tv_normal now" "clock_inv b4" "clock_step b3 b4"
    "tv_sec (tv_cache b3) \<noteq> 0 \<longrightarrow> b4 = b3 \<and> now = tv_cache b3"
    using gettime_spec [OF base_invD(3) [OF b3(2)] clk] by blast
  have i4: "base_inv binv view b4" by (rule base_inv_clock [OF b3(2) b4(4,3)])
  have s4: "event_step {e} b b4"
    by (rule event_step_trans [OF s1 event_step_trans [OF b2(3) event_step_trans [OF b3(3) event_step_clock [OF b4(4)]]]])
  have tv4: "time_now E b now" using gettime_time_now [OF b4(1)] time_now_sides [of b3 b E now] b3(8) b2(9) f1(4) by simp
  have com: "is_common_timeout x b' = is_common_timeout x b" if "event_step X b b'" for x X b'
    by (rule common_cong) (use event_step_timers [OF that] in simp)
  let ?tv = "timeout_at is_absolute (is_common_timeout tv b) now tv"
  note kind = timeout_at_kind [OF b4(2) tv]
  define b5 where "b5 = upd_ev e (\<lambda>ev. ev\<lparr>ev_timeout := ?tv\<rparr>) b4"
  have fl4: "fl b4 g x = fl b3 g x" for g x using b4(4) by (simp add: clock_step_def)
  have t4: "\<not> fl b4 EVLIST_TIMEOUT e" using b3(5) b2(4) by (simp add: fl4)
  have s5: "event_step {e} b b5" unfolding b5_def by (rule event_step_trans [OF s4 event_step_timeout])
  have i5: "base_inv binv view b5"
    unfolding b5_def by (rule base_inv_timeout [OF i4 t4]) (use event_step_timers [OF s4] tm kind(3) in simp)
  have h5: "timeheap b5 = timeheap b2" using b4(4) b3(6) by (simp add: b5_def clock_step_def)
  have e5: "ev_timeout (evs b5 e) = ?tv" "fl b5 g x = fl b4 g x" for g x by (simp_all add: b5_def upd_ev_def)
  have "timeout_room E b5 e"
    unfolding timeout_room_def e5(1) com [OF s5] kind(1)
    using kind(2,3) room2 room(2) le by (auto simp: h5)
  then obtain b6 where b6: "event_queue_insert_timeout E b5 e = Some b6" "queues_inv b6" "queue_step b5 b6 EVLIST_TIMEOUT e True"
    "heap_elems (timeheap b6) = (if is_common_timeout (ev_timeout (evs b5 e)) b5 then heap_elems (timeheap b5)
      else insert e (heap_elems (timeheap b5)))"
    using insert_timeout_spec [OF base_invD(1) [OF i5], of e E] t4 by (auto simp: e5(2))
  have i6: "base_inv binv view b6" by (rule base_inv_step [OF i5 b6(2,3)]) simp
  have "event_step {e} b5 b6" by (rule event_step_queue [OF b6(3)]) simp
  then have s6: "event_step {e} b b6" by (rule event_step_trans [OF s5])
  have e6: "ev_timeout (evs b6 e) = ?tv" using queue_step_core(2) [OF b6(3), of e] e5(1) by simp
  have fl6: "fl b6 g e = (if g = EVLIST_TIMEOUT then True else fl b3 g e)" if "single_bit g" for g
    using queue_step_fl [OF b6(3) that, of e] by (simp add: e5(2) fl4)
  have flags: "fl b6 EVLIST_TIMEOUT e" "\<forall>g. single_bit g \<longrightarrow> g \<noteq> EVLIST_TIMEOUT \<longrightarrow> g \<noteq> EVLIST_ACTIVE \<longrightarrow> fl b6 g e = fl b g e"
    "fl b6 EVLIST_ACTIVE e \<longleftrightarrow> fl b EVLIST_ACTIVE e \<and> \<not> has_flag (ev_res (evs b e)) EV_TIMEOUT"
    using fl6 b3(4,5) b2(5,6) f1(2,3) by simp_all
  let ?rest = "if is_common_timeout tv b then
                     (let i = COMMON_TIMEOUT_IDX (ev_timeout (evs b6 e));
                          evl = ctl_events (common_timeout_queues b6 ! i)
                      in if evl \<noteq> [] \<and> hd evl = e
                         then map_option (\<lambda>b7. (b7, False)) (schedule b6 i e)
                         else Some (b6, False))
                   else
                     Some (b6, min_heap_elt_is_top (evs b6) e \<or>
                       (case min_heap_top (timeheap b6) of
                          None \<Rightarrow> False
                        | Some x \<Rightarrow> evutil_timercmp (ev_timeout (evs b6 x)) now (<)))"
  have run: "event_add_timeout schedule E b e tv is_absolute = ?rest"
    unfolding event_add_timeout_def Let_def b1_def [symmetric] b2(1) bind.bind_lunit b3(1) b4(1)
    by (simp add: com [OF s4] b5_def [symmetric] b6(1))
  let ?goal = "\<lambda>b'. base_inv binv view b' \<and>
    event_step (if is_common_timeout tv b then insert e (timers b) else {e}) b b' \<and>
    fl b' EVLIST_TIMEOUT e \<and> ev_timeout (evs b' e) = ?tv \<and>
    (\<forall>g. single_bit g \<longrightarrow> g \<noteq> EVLIST_TIMEOUT \<longrightarrow> g \<noteq> EVLIST_ACTIVE \<longrightarrow> fl b' g e = fl b g e) \<and>
    (fl b' EVLIST_ACTIVE e \<longleftrightarrow> fl b EVLIST_ACTIVE e \<and> \<not> has_flag (ev_res (evs b e)) EV_TIMEOUT)"
  have g6: "?goal b6" using i6 flags e6 event_step_mono [OF s6, of "insert e (timers b)"] s6 by simp
  have "\<exists>b' n. ?rest = Some (b', n) \<and> ?goal b'"
  proof (cases "is_common_timeout tv b \<and> ctl_events (common_timeout_queues b6 ! COMMON_TIMEOUT_IDX ?tv) \<noteq> [] \<and>
      hd (ctl_events (common_timeout_queues b6 ! COMMON_TIMEOUT_IDX ?tv)) = e")
    case False
    then show ?thesis using g6 e6 by (auto simp: Let_def)
  next
    case True
    let ?i = "COMMON_TIMEOUT_IDX ?tv"
    have c: "is_common_timeout ?tv b6" using True kind(1) com [OF s6] by simp
    then have i: "?i < n_common_timeouts b6" by (simp add: is_common_timeout_def split: if_splits)
    have "heap_n (timeheap b6) \<le> heap_n (timeheap b)"
      using base_heap_card [OF i6] base_heap_card [OF b2(2)] b6(4) True kind(1) com [OF s5] e5(1) h5 le by simp
    then obtain b7 where b7: "schedule b6 ?i e = Some b7" "base_inv binv view b7"
      "event_step {ctl_timeout_event (common_timeout_queues b6 ! ?i)} b6 b7"
      using sched [OF _ i6 i] True by blast
    have t6: "ctl_timeout_event (common_timeout_queues b6 ! ?i) \<in> timers b"
      using i event_step_timers [OF s6] by (auto simp: timers_def)
    have e: "e \<notin> {ctl_timeout_event (common_timeout_queues b6 ! ?i)}" using tm True t6 by auto
    have s7: "event_step (insert e (timers b)) b b7"
      by (rule event_step_trans [OF event_step_mono [OF s6] event_step_mono [OF b7(3)]]) (use t6 in auto)
    have fl7: "fl b7 g e = fl b6 g e" if "single_bit g" for g using event_stepD(5) [OF b7(3) e that] .
    have "ev_timeout (evs b7 e) = ?tv" using ev_core_eqD [OF event_stepD(6) [OF b7(3) e]] e6 by simp
    then have "?goal b7" using b7(2) s7 True fl7 flags by simp
    moreover have "is_common_timeout tv b" "ctl_events (common_timeout_queues b6 ! ?i) \<noteq> []"
      "hd (ctl_events (common_timeout_queues b6 ! ?i)) = e" using True by blast+
    ultimately show ?thesis using b7(1) e6
      by (intro exI [of _ b7] exI [of _ False]) (simp add: Let_def)
  qed
  then obtain b' n where "?rest = Some (b', n)" "?goal b'" by blast
  then show ?thesis using run b4(2,5) tv4 by auto
qed

section \<open>The whole addition\<close>

lemma base_inv_reserve:
  assumes inv: "base_inv binv view b" and n: "m < 2 ^ 31" and res: "min_heap_reserve realloc_ok (timeheap b) m = (h, r)"
  shows "base_inv binv view (b\<lparr>timeheap := h\<rparr>)" "heap_n h = heap_n (timeheap b)" "heap_elems h = heap_elems (timeheap b)"
    "r \<noteq> -1 \<Longrightarrow> m \<le> heap_a h"
proof -
  have t: "timeouts_ok b" by (rule queues_invD(1) [OF base_invD(1) [OF inv]])
  then have hi: "heap_inv (evs b) (timeheap b)" by (simp add: timeouts_ok_def)
  have same: "h = timeheap b" if "r = -1"
    using res that by (auto simp: min_heap_reserve_def Let_def split: if_splits)
  have h: "heap_inv (evs b) h" "heap_n h = heap_n (timeheap b)" "heap_elems h = heap_elems (timeheap b)"
    using reserve_inv [OF hi n res] same hi by (cases "r = -1"; simp)+
  show "heap_n h = heap_n (timeheap b)" "heap_elems h = heap_elems (timeheap b)" by (fact h(2) h(3))+
  show "r \<noteq> -1 \<Longrightarrow> m \<le> heap_a h" by (rule reserve_inv(3) [OF hi n res])
  let ?b = "b\<lparr>timeheap := h\<rparr>"
  have com: "is_common_timeout x ?b = is_common_timeout x b" for x by (rule common_cong) simp
  have "timeouts_ok ?b" using t h(1,3) by (simp add: timeouts_ok_def com)
  moreover have "actives_ok ?b" by (rule actives_ok_cong [OF queues_invD(2) [OF base_invD(1) [OF inv]]]) simp_all
  moreover have "counts_ok ?b" "flags_ok ?b"
    using queues_invD(3,4) [OF base_invD(1) [OF inv]] by (simp_all add: counts_ok_def flag_count_def flags_ok_def)
  moreover have "maps_inv binv view ?b" by (rule maps_inv_cong [OF base_invD(2) [OF inv]]) simp_all
  moreover have "timers ?b = timers b" by (simp add: timers_def)
  then have "ctls_ok ?b" using base_invD(4) [OF inv] by (simp add: ctls_ok_def com)
  moreover have "clock_inv ?b" using base_invD(3) [OF inv] by (simp add: clock_inv_def)
  ultimately show "base_inv binv view ?b" by (simp add: base_inv_def queues_inv_def)
qed

text \<open>What an addition needs: room in the heap, and a timeout the code can order.\<close>

definition add_ok :: "('b, 'x) event_env \<Rightarrow> ('b, 'x) event_base \<Rightarrow> ev_addr \<Rightarrow> timeval option \<Rightarrow> bool \<Rightarrow> bool" where
  "add_ok E b e tv is_absolute \<longleftrightarrow> ev_wf (evs b e) \<and> heap_n (timeheap b) + 1 < 2 ^ 31 \<and>
     (case tv of None \<Rightarrow> True
      | Some t \<Rightarrow> tv_ok is_absolute t b \<and> (e \<in> timers b \<longrightarrow> \<not> is_common_timeout t b) \<and>
          (fl b EVLIST_TIMEOUT e \<longrightarrow> is_common_timeout t b \<or> e \<in> heap_elems (timeheap b) \<or>
             heap_n (timeheap b) < heap_a (timeheap b) \<or> (\<forall>n. m_realloc E n)))"

text \<open>What an addition that succeeds has done.\<close>

definition added :: "('b, 'x) event_env \<Rightarrow> ('b, 'x) event_base \<Rightarrow> ('b, 'x) event_base \<Rightarrow> ev_addr \<Rightarrow> timeval option \<Rightarrow> bool \<Rightarrow> bool" where
  "added E b b' e tv is_absolute \<longleftrightarrow>
     fl b' EVLIST_INSERTED e = (fl b EVLIST_INSERTED e \<or>
       has_flag (ev_events (evs b e)) (EV_READ OR EV_WRITE OR EV_CLOSED OR EV_SIGNAL) \<and>
       \<not> fl b EVLIST_ACTIVE e \<and> \<not> fl b EVLIST_ACTIVE_LATER e) \<and>
     fl b' EVLIST_ACTIVE e = (fl b EVLIST_ACTIVE e \<and> \<not> (tv \<noteq> None \<and> has_flag (ev_res (evs b e)) EV_TIMEOUT)) \<and>
     fl b' EVLIST_ACTIVE_LATER e = fl b EVLIST_ACTIVE_LATER e \<and>
     (case tv of None \<Rightarrow> fl b' EVLIST_TIMEOUT e = fl b EVLIST_TIMEOUT e
      | Some t \<Rightarrow> fl b' EVLIST_TIMEOUT e \<and>
          (\<exists>now. tv_normal now \<and> time_now E b now \<and>
             due_time is_absolute (is_common_timeout t b) now t (ev_timeout (evs b' e))))"

definition add_touches :: "('b, 'x) event_base \<Rightarrow> ev_addr \<Rightarrow> timeval option \<Rightarrow> int \<Rightarrow> ev_addr set" where
  "add_touches b e tv r =
     (if r = -1 then {}
      else case tv of None \<Rightarrow> {e} | Some t \<Rightarrow> if is_common_timeout t b then insert e (timers b) else {e})"

context event_backend
begin

lemma event_add_core_spec:
  assumes inv: "base_inv binv view b" and clk: "clocks_documented E" and ok: "add_ok E b e tv is_absolute"
    and sched: "\<And>t b' i. tv = Some t \<Longrightarrow> is_common_timeout t b \<Longrightarrow> base_inv binv view b' \<Longrightarrow>
        i < n_common_timeouts b' \<Longrightarrow> heap_n (timeheap b') \<le> heap_n (timeheap b) \<Longrightarrow>
        \<exists>b''. schedule b' i e = Some b'' \<and> base_inv binv view b'' \<and>
          event_step {ctl_timeout_event (common_timeout_queues b' ! i)} b' b''"
  shows "\<exists>b' r. event_add_core schedule E b e tv is_absolute = Some (b', r) \<and> base_inv binv view b' \<and>
    (r = 0 \<or> r = -1) \<and> event_step (add_touches b e tv r) b b' \<and> (fl b EVLIST_FINALIZING e \<longrightarrow> r = -1) \<and>
    (r = 0 \<longrightarrow> added E b b' e tv is_absolute)"
proof -
  have all: "ev_flags (evs b e) AND NOT EVLIST_ALL = 0"
    using queues_invD(4) [OF base_invD(1) [OF inv]] by (simp add: flags_ok_def)
  show ?thesis
  proof (cases "fl b EVLIST_FINALIZING e")
    case True
    then show ?thesis using inv all by (simp add: event_add_core_def add_touches_def)
  next
    case False
    obtain h rr where res: "(if tv \<noteq> None \<and> \<not> has_flag (ev_flags (evs b e)) EVLIST_TIMEOUT
                       then min_heap_reserve (m_realloc E) (timeheap b) (1 + min_heap_size (timeheap b))
                       else (timeheap b, 0)) = (h, rr)" by fastforce
    let ?b0 = "b\<lparr>timeheap := h\<rparr>"
    have n31: "1 + min_heap_size (timeheap b) < 2 ^ 31" using ok by (simp add: add_ok_def min_heap_size_def)
    have h: "base_inv binv view ?b0" "heap_n h = heap_n (timeheap b)" "heap_elems h = heap_elems (timeheap b)"
      "rr \<noteq> -1 \<Longrightarrow> tv \<noteq> None \<Longrightarrow> \<not> fl b EVLIST_TIMEOUT e \<Longrightarrow> heap_n h < heap_a h"
      using res inv base_inv_reserve [OF inv n31, of "m_realloc E" h rr] by (auto simp: min_heap_size_def split: if_splits)
    have hsame: "fl b EVLIST_TIMEOUT e \<Longrightarrow> h = timeheap b" using res by (auto split: if_splits)
    have s0: "event_step X b ?b0" for X by (simp add: event_step_def)
    have t0: "timers ?b0 = timers b" "is_common_timeout t ?b0 = is_common_timeout t b" for t
      by (simp_all add: timers_def is_common_timeout_def)
    show ?thesis
    proof (cases "rr = -1")
      case True
      then show ?thesis using False all res h(1) s0 by (simp add: event_add_core_def add_touches_def)
    next
      case rr: False
      have wf0: "ev_wf (evs ?b0 e)" using ok by (simp add: add_ok_def)
      obtain b1 r n where b1: "event_add_maps E ?b0 e = Some (b1, r, n)" "base_inv binv view b1" "r = 0 \<or> r = -1"
        "event_step (if r = -1 then {} else {e}) ?b0 b1" "ev_core (evs b1 e) = ev_core (evs ?b0 e)"
        "\<forall>g. single_bit g \<longrightarrow> g \<noteq> EVLIST_INSERTED \<longrightarrow> fl b1 g e = fl ?b0 g e"
        "r = 0 \<longrightarrow> fl b1 EVLIST_INSERTED e = (fl ?b0 EVLIST_INSERTED e \<or>
       has_flag (ev_events (evs ?b0 e)) (EV_READ OR EV_WRITE OR EV_CLOSED OR EV_SIGNAL) \<and>
       \<not> fl ?b0 EVLIST_ACTIVE e \<and> \<not> fl ?b0 EVLIST_ACTIVE_LATER e)"
        "timeheap b1 = h" "common_timeout_queues b1 = common_timeout_queues b" "sides b1 = sides b"
        using event_add_maps_spec [OF h(1) wf0] by auto
      have s1: "event_step (if r = -1 then {} else {e}) b b1" by (rule event_step_trans [OF s0 b1(4)])
      have run: "event_add_core schedule E b e tv is_absolute =
          (if r = -1 \<or> tv = None then Some (notify_if (r \<noteq> -1 \<and> n) E b1, r)
                else map_option (\<lambda>(b2, notify'). (notify_if (n \<or> notify') E b2, r))
                       (event_add_timeout schedule E b1 e (the tv) is_absolute))"
        unfolding event_add_core_def all Let_def res prod.case using False rr by (simp add: b1(1))
      show ?thesis
      proof (cases "r = -1 \<or> tv = None")
        case True
        have tch: "(if r = -1 then {} else {e}) = add_touches b e tv r" using True by (auto simp: add_touches_def)
        have "added E b (notify_if (r \<noteq> -1 \<and> n) E b1) e tv is_absolute" if "r = 0"
          using True that b1(6,7) by (simp add: added_def)
        then show ?thesis
          using run True b1(3) base_inv_notify [OF b1(2)] event_step_notify [OF s1, unfolded tch] False by simp
      next
        case nt: False
        then obtain t where t: "tv = Some t" and r: "r = 0" using b1(3) by auto
        have com: "is_common_timeout x b1 = is_common_timeout x b" for x by (rule common_cong) (simp add: b1(9))
        have tm1: "timers b1 = timers b" by (simp add: timers_def b1(9))
        have tvok: "tv_ok is_absolute t b1" using ok t com by (simp add: add_ok_def tv_ok_def)
        have room: "is_common_timeout t b1 \<or> e \<in> heap_elems (timeheap b1) \<or> heap_n (timeheap b1) < heap_a (timeheap b1) \<or> (\<forall>n. m_realloc E n)"
        proof (cases "fl b EVLIST_TIMEOUT e")
          case True
          then have "timeheap b1 = timeheap b" using hsame b1(8) by simp
          then show ?thesis using ok t com True by (auto simp: add_ok_def)
        next
          case False
          then show ?thesis using h(4) [OF rr] t b1(8) by simp
        qed
        have room': "heap_n (timeheap b1) + 1 < 2 ^ 31" using ok h(2) b1(8) by (simp add: add_ok_def)
        have tmr: "e \<in> timers b1 \<Longrightarrow> \<not> is_common_timeout t b1" using ok t com tm1 by (simp add: add_ok_def)
        have sch: "\<exists>b''. schedule b' i e = Some b'' \<and> base_inv binv view b'' \<and>
          event_step {ctl_timeout_event (common_timeout_queues b' ! i)} b' b''"
          if "is_common_timeout t b1" "base_inv binv view b'" "i < n_common_timeouts b'"
            "heap_n (timeheap b') \<le> heap_n (timeheap b1)" for b' i
          by (rule sched [OF t]) (use that com h(2) b1(8) in simp_all)
        obtain b2 n2 now where b2: "event_add_timeout schedule E b1 e t is_absolute = Some (b2, n2)"
          "base_inv binv view b2" "event_step (if is_common_timeout t b1 then insert e (timers b1) else {e}) b1 b2"
          "fl b2 EVLIST_TIMEOUT e" "tv_normal now"
          "ev_timeout (evs b2 e) = timeout_at is_absolute (is_common_timeout t b1) now t"
          "\<forall>g. single_bit g \<longrightarrow> g \<noteq> EVLIST_TIMEOUT \<longrightarrow> g \<noteq> EVLIST_ACTIVE \<longrightarrow> fl b2 g e = fl b1 g e"
          "fl b2 EVLIST_ACTIVE e \<longleftrightarrow> fl b1 EVLIST_ACTIVE e \<and> \<not> has_flag (ev_res (evs b1 e)) EV_TIMEOUT"
          "time_now E b1 now"
          using event_add_timeout_spec [where schedule = schedule, OF b1(2) clk tvok room room' tmr sch] by blast
        have tch: "(if is_common_timeout t b1 then insert e (timers b1) else {e}) = add_touches b e tv r"
          by (simp add: add_touches_def t r com tm1)
        have "{e} \<subseteq> add_touches b e tv r" by (simp add: add_touches_def t r)
        then have "event_step (add_touches b e tv r) b b1" using s1 r event_step_mono by fastforce
        then have s2: "event_step (add_touches b e tv r) b (notify_if (n \<or> n2) E b2)"
          using event_step_notify [OF event_step_trans] b2(3) unfolding tch by blast
        have res1: "ev_res (evs b1 e) = ev_res (evs b e)" using ev_core_eqD [OF b1(5)] by simp
        have "time_now E b now" using b2(9) time_now_sides [OF b1(10)] by simp
        moreover have "due_time is_absolute (is_common_timeout t b) now t (ev_timeout (evs b2 e))"
          unfolding b2(6) com using timeout_at_due [OF b2(5) tvok] by (simp add: com)
        ultimately have "added E b (notify_if (n \<or> n2) E b2) e tv is_absolute"
          unfolding added_def t option.case notify_if_fields
          using b1(6,7) r b2(4,5,6,7,8,9) res1 com by auto
        then show ?thesis
          using run nt t r b2(1) base_inv_notify [OF b2(2)] s2 False by simp
      qed
    qed
  qed
qed

end

section \<open>An addition with enough resources\<close>

text \<open>A backend whose additions do not fail.\<close>

definition additions_work :: "('b, 'x) event_env \<Rightarrow> bool" where
  "additions_work E \<longleftrightarrow>
     (\<forall>s fd old events x. \<not> has_flag old EV_SIGNAL \<longrightarrow>
        (case be_add E s fd old events x of None \<Rightarrow> True | Some (_, _, r) \<Rightarrow> r \<noteq> -1)) \<and>
     (\<forall>s sig. case sig_add E s sig of None \<Rightarrow> True | Some (_, r) \<Rightarrow> r \<noteq> -1)"

lemma additions_workD:
  assumes "additions_work E"
  shows "be_add E s fd old events x = Some (s', x', r) \<Longrightarrow> \<not> has_flag old EV_SIGNAL \<Longrightarrow> r \<noteq> -1" "sig_add E s sig = Some (s'', r') \<Longrightarrow> r' \<noteq> -1"
  using assms [unfolded additions_work_def, THEN conjunct1, rule_format, of old s fd events x]
    assms [unfolded additions_work_def, THEN conjunct2, rule_format, of s sig] by simp_all

text \<open>
  What the operating system and the tables have to give: memory, a descriptor the map can
  index and whose counts do not overflow, or a signal number in range. (The debug mode also
  refuses to mix edge-triggered and level-triggered events.)
\<close>

definition add_resources :: "('b, 'x) event_env \<Rightarrow> ('b, 'x) event_base \<Rightarrow> ev_addr \<Rightarrow> bool" where
  "add_resources E b e \<longleftrightarrow> (\<forall>n. m_realloc E n) \<and> (\<forall>n. m_calloc E n) \<and> \<not> debug_mode E \<and>
     (if is_io (evs b e) then ev_fd (evs b e) < 2 ^ 27 \<and> length (io_list b (ev_fd (evs b e))) < 0xffff
      else has_flag (ev_events (evs b e)) EV_SIGNAL \<longrightarrow> 0 \<le> ev_fd (evs b e) \<and> ev_fd (evs b e) < NSIG)"

lemma double_above_le: "0 < n \<Longrightarrow> double_above n slot \<le> max n (2 * slot)"
proof (induction n slot rule: double_above.induct)
  case (1 n slot)
  then show ?case by (subst double_above.simps) force
qed

lemma make_space_works:
  assumes "slot < 2 ^ 27" "\<forall>n. realloc_ok n" "nentries m \<le> slot"
  shows "snd (evmap_make_space realloc_ok m slot 8) = 0"
proof -
  let ?n = "if nentries m \<noteq> 0 then nentries m else 32"
  have "double_above ?n slot \<le> max ?n (2 * slot)" by (rule double_above_le) simp
  then have "double_above ?n slot \<le> INT_MAX div 8" "slot \<le> INT_MAX div 2" using assms(1,3) by (auto simp: INT_MAX_def split: if_splits)
  then show ?thesis using assms(2) by (simp add: evmap_make_space_def Let_def)
qed

lemma io_entry_counts:
  assumes "io_entry_ok st fd ctx" "length (io_events ctx) < 0xffff"
  shows "uint (nread ctx) < 0xffff" "uint (nwrite ctx) < 0xffff" "uint (nclose ctx) < 0xffff"
proof -
  have "count_flag st f evl \<le> length evl" for f evl by (simp add: count_flag_def)
  note c = le_less_trans [OF this assms(2)]
  show "uint (nread ctx) < 0xffff" "uint (nwrite ctx) < 0xffff" "uint (nclose ctx) < 0xffff"
    using assms(1) c [of EV_READ] c [of EV_WRITE] c [of EV_CLOSED] unfolding io_entry_ok_def by linarith+
qed

lemma evmap_io_add_works:
  fixes E :: "('b, 'x) event_env" and b :: "('b, 'x, 'z) evmap_base_scheme"
  assumes run: "evmap_io_add E st b fd e = Some (b', r)" and w: "additions_work E" and inv: "io_map_inv st b"
    and res: "\<forall>n. m_realloc E n" "\<forall>n. m_calloc E n" "\<not> debug_mode E" "fd < 2 ^ 27" "length (io_list b fd) < 0xffff"
  shows "r \<noteq> -1"
proof (cases "fd < 0")
  case True
  then show ?thesis using run by (auto simp: evmap_io_add_def split: if_splits)
next
  case False
  have mok: "map_ok (io b)" using inv by (simp add: io_map_inv_def)
  obtain io1 r1 where space: "(if fd \<ge> int (nentries (io b)) then evmap_make_space (m_realloc E) (io b) (nat fd) 8
      else (io b, 0)) = (io1, r1)" by fastforce
  have ms: "map_ok io1" "map_slot io1 = map_slot (io b)" "r1 = 0" "fd < int (nentries io1)"
    using space make_space_spec [OF mok, of "m_realloc E" "nat fd" 8 io1 r1] mok False
      make_space_works [of "nat fd" "m_realloc E" "io b"] res(1,4)
    by (auto split: if_splits)
  obtain io2 c where get: "GET_SLOT_AND_CTOR (m_calloc E (sizeof_evmap_io + fdinfo_len E))
      (evmap_io_init (fdinfo_zero E)) io1 (nat fd) = (io2, c)" by fastforce
  have fd0: "0 \<le> fd" using False by simp
  obtain ctx where c: "c = Some ctx" "uint (nread ctx) < 0xffff \<and> uint (nwrite ctx) < 0xffff \<and> uint (nclose ctx) < 0xffff"
  proof (cases "map_slot (io b) fd")
    case None
    then have "c = Some (evmap_io_init (fdinfo_zero E))"
      using get_slot_spec(3) [OF ms(1) fd0 ms(4) get] ms(2) res(2) by simp
    then show thesis by (rule that) (simp add: evmap_io_init_def)
  next
    case (Some ctx)
    then have "c = Some ctx" using get_slot_spec(3) [OF ms(1) fd0 ms(4) get] ms(2) by simp
    moreover have "io_entry_ok st fd ctx" using inv Some by (simp add: io_map_inv_def)
    moreover have "length (io_events ctx) < 0xffff" using res(5) io_list_slot [OF Some] by simp
    ultimately show thesis using io_entry_counts that by blast
  qed
  have "evmap_io_add_ctx E st (b\<lparr>io := io2\<rparr>) fd e ctx = Some (b', r)"
    using run space ms(3) get c(1) False by (simp add: evmap_io_add_def split: if_splits)
  moreover have "\<not> has_flag (io_old ctx) EV_SIGNAL" by (rule io_flags_signal) (simp add: io_old_def)
  moreover have "of_bool q \<le> (1::int)" for q by simp
  then have "\<not> 65535 < n + of_bool q" if "n < 65535" for n :: int and q using that by (smt (verit))
  ultimately show ?thesis
    using c(2) res(3) additions_workD(1) [OF w, where old = "io_old ctx"]
    by (auto simp: evmap_io_add_ctx_def Let_def split: if_splits option.splits prod.splits)
qed

lemma evmap_signal_add_works:
  fixes E :: "('b, 'x) event_env" and b :: "('b, 'x, 'z) evmap_base_scheme"
  assumes run: "evmap_signal_add E st b sig e = Some (b', r)" and w: "additions_work E" and mok: "map_ok (sigmap b)"
    and res: "\<forall>n. m_realloc E n" "\<forall>n. m_calloc E n" "0 \<le> sig" "sig < NSIG"
  shows "r \<noteq> -1"
proof -
  obtain m1 r1 where space: "(if sig \<ge> int (nentries (sigmap b)) then evmap_make_space (m_realloc E) (sigmap b) (nat sig) 8
      else (sigmap b, 0)) = (m1, r1)" by fastforce
  have r1: "r1 = 0"
    using space make_space_works [of "nat sig" "m_realloc E" "sigmap b"] res by (auto simp: NSIG_def split: if_splits)
  have "\<exists>m2 ctx. GET_SLOT_AND_CTOR (m_calloc E 8) evmap_signal_init m1 (nat sig) = (m2, Some ctx)"
    using res(2) by (auto simp: GET_SLOT_AND_CTOR_def split: option.splits)
  then obtain m2 ctx where get: "GET_SLOT_AND_CTOR (m_calloc E 8) evmap_signal_init m1 (nat sig) = (m2, Some ctx)" by blast
  have ok: "\<not> (sig < 0 \<or> sig \<ge> NSIG)" using res(3,4) by simp
  note run = run [unfolded evmap_signal_add_def Let_def if_not_P [OF ok] space prod.case r1 get option.case]
  show ?thesis
  proof (cases "sig_events ctx = []")
    case True
    then show ?thesis using run additions_workD(2) [OF w] by (auto split: option.splits prod.splits if_splits)
  next
    case False
    then show ?thesis using run by simp
  qed
qed

text \<open>An event that waits for no descriptor and no signal needs the cell of the heap alone.\<close>

lemma event_add_quiet_works:
  assumes run: "event_add_core schedule E b e tv is_absolute = Some (b', r)" and e: "ev_events (evs b e) = 0"
    and mem: "\<forall>n. m_realloc E n" and nf: "\<not> fl b EVLIST_FINALIZING e"
  shows "r \<noteq> -1"
proof -
  obtain h rr where h: "(if tv \<noteq> None \<and> \<not> has_flag (ev_flags (evs b e)) EVLIST_TIMEOUT
                   then min_heap_reserve (m_realloc E) (timeheap b) (1 + min_heap_size (timeheap b))
                   else (timeheap b, 0)) = (h, rr)" by fastforce
  have "rr \<noteq> -1" using h mem by (auto simp: min_heap_reserve_def Let_def split: if_splits)
  moreover have m: "event_add_maps E (b\<lparr>timeheap := h\<rparr>) e = Some (b\<lparr>timeheap := h\<rparr>, 0, False)"
    using e by (simp add: event_add_maps_def)
  moreover have "ev_flags (evs b e) AND NOT EVLIST_ALL = 0" using run by (simp add: event_add_core_def split: if_split_asm)
  ultimately have go: "(if tv = None then Some (notify_if (0 \<noteq> (-1 :: int) \<and> False) E (b\<lparr>timeheap := h\<rparr>), 0)
      else map_option (\<lambda>(b2, notify'). (notify_if (False \<or> notify') E b2, 0))
        (event_add_timeout schedule E (b\<lparr>timeheap := h\<rparr>) e (the tv) is_absolute)) = Some (b', r)"
    using run [unfolded event_add_core_def Let_def h prod.case m bind.bind_lunit] nf by simp
  show ?thesis
  proof (cases "tv = None")
    case True
    then show ?thesis using go by simp
  next
    case False
    then show ?thesis using go by auto
  qed
qed

context event_backend
begin

text \<open>Then only an event that is being finalized is refused.\<close>

lemma event_add_works:
  assumes run: "event_add_core schedule E b e tv is_absolute = Some (b', r)" and inv: "base_inv binv view b"
    and w: "additions_work E" and res: "add_resources E b e" and nf: "\<not> fl b EVLIST_FINALIZING e"
  shows "r \<noteq> -1"
proof -
  obtain h rr where h: "(if tv \<noteq> None \<and> \<not> has_flag (ev_flags (evs b e)) EVLIST_TIMEOUT
                   then min_heap_reserve (m_realloc E) (timeheap b) (1 + min_heap_size (timeheap b))
                   else (timeheap b, 0)) = (h, rr)" by fastforce
  have rr: "rr \<noteq> -1"
    using h res by (auto simp: add_resources_def min_heap_reserve_def Let_def split: if_splits)
  let ?b0 = "b\<lparr>timeheap := h\<rparr>"
  have maps: "maps_inv binv view b" using base_invD [OF inv] by simp
  then have mok: "io_map_inv (evs b) ?b0" "map_ok (sigmap ?b0)" "io_list ?b0 = io_list b"
    by (auto simp: maps_inv_def io_maps_inv_def sig_maps_inv_def io_map_inv_def io_list_def fun_eq_iff)
  have q: "q \<noteq> -1" if q: "event_add_maps E ?b0 e = Some (b1, q, n)" for b1 q n
  proof (cases "is_io (evs b e)")
    case True
    have "x \<noteq> -1" if "evmap_io_add E (evs b) ?b0 (ev_fd (evs b e)) e = Some (b2, x)" for b2 x
      by (rule evmap_io_add_works [OF that w mok(1)]) (use res True mok(3) in \<open>simp_all add: add_resources_def\<close>)
    then show ?thesis
      using q True by (fastforce simp: event_add_maps_def Let_def is_io_def split: if_splits option.splits prod.splits)
  next
    case False
    have "x \<noteq> -1" if "evmap_signal_add E (evs b) ?b0 (ev_fd (evs b e)) e = Some (b2, x)" "has_flag (ev_events (evs b e)) EV_SIGNAL" for b2 x
      by (rule evmap_signal_add_works [OF that(1) w mok(2)]) (use res False that(2) in \<open>simp_all add: add_resources_def\<close>)
    moreover have "\<not> has_flag (ev_events (evs b e)) (EV_READ OR EV_WRITE OR EV_CLOSED)" using False by (simp add: is_io_def)
    ultimately show ?thesis
      using q by (fastforce simp: event_add_maps_def Let_def has_flag_or split: if_splits option.splits prod.splits)
  qed
  show ?thesis
    using run [unfolded event_add_core_def Let_def h prod.case] rr nf q
    by (auto simp: bind_eq_Some_conv split: if_split_asm)
qed

end

text \<open>The internal timer of list \<open>i\<close> is pending, and due at \<open>tv\<close>.\<close>

definition rescheduled :: "('b, 'x) event_base \<Rightarrow> nat \<Rightarrow> timeval \<Rightarrow> bool" where
  "rescheduled b i tv \<longleftrightarrow> (let t = ctl_timeout_event (common_timeout_queues b ! i)
     in fl b EVLIST_TIMEOUT t \<and> t \<in> heap_elems (timeheap b) \<and> ev_timeout (evs b t) = tv)"

context event_backend
begin

text \<open>The internal timer of a common timeout list is added with the list head's time.\<close>

lemma common_timeout_schedule_spec:
  assumes inv: "base_inv binv view b" and clk: "clocks_documented E" and i: "i < n_common_timeouts b"
    and room: "heap_n (timeheap b) + 1 < 2 ^ 31"
  shows "\<exists>b'. common_timeout_schedule E b i head = Some b' \<and> base_inv binv view b' \<and>
    event_step {ctl_timeout_event (common_timeout_queues b ! i)} b b' \<and> (\<forall>x. fl b' EVLIST_ACTIVE x \<longrightarrow> fl b EVLIST_ACTIVE x) \<and>
    ((\<forall>n. m_realloc E n) \<and> \<not> fl b EVLIST_FINALIZING (ctl_timeout_event (common_timeout_queues b ! i)) \<longrightarrow>
       rescheduled b' i (real_timeout (ev_timeout (evs b head))))"
proof -
  let ?t = "ctl_timeout_event (common_timeout_queues b ! i)"
  let ?tv = "real_timeout (ev_timeout (evs b head))"
  have tm: "?t \<in> timers b" using i by (simp add: timers_def)
  have quiet: "ev_events (evs b ?t) = 0" "tv_small (ev_timeout (evs b ?t))"
    using base_invD(4) [OF inv] tm by (simp_all add: ctls_ok_def)
  have sm: "tv_small ?tv" using real_timeout_normal_bits by (simp add: tv_small_def)
  then have nc: "\<not> is_common_timeout ?tv b" by (rule small_not_common)
  have heap: "?t \<in> heap_elems (timeheap b)" if "fl b EVLIST_TIMEOUT ?t"
    using queues_invD(1) [OF base_invD(1) [OF inv]] that small_not_common [OF quiet(2), of b] by (auto simp: timeouts_ok_def)
  have "add_ok E b ?t (Some ?tv) True"
    using quiet nc sm room heap by (simp add: add_ok_def ev_wf_def tv_ok_def)
  then obtain b' r where b': "event_add_core (\<lambda>_ _ _. None) E b ?t (Some ?tv) True = Some (b', r)"
    "base_inv binv view b'" "event_step (add_touches b ?t (Some ?tv) r) b b'" "r = 0 \<or> r = -1" "r = 0 \<longrightarrow> added E b b' ?t (Some ?tv) True"
    using event_add_core_spec [OF inv clk, of ?t "Some ?tv" True "\<lambda>_ _ _. None"] nc by auto
  have "event_step {?t} b b'"
    by (rule event_step_mono [OF b'(3)]) (simp add: add_touches_def nc)
  moreover have "fl b EVLIST_ACTIVE x" if a: "fl b' EVLIST_ACTIVE x" for x
  proof (cases "x = ?t \<and> r = 0")
    case True
    then show ?thesis using b'(5) a by (simp add: added_def)
  next
    case False
    then have "x \<notin> add_touches b ?t (Some ?tv) r" using nc b'(4) by (auto simp: add_touches_def)
    then show ?thesis using event_stepD(5) [OF b'(3), of x EVLIST_ACTIVE] a by simp
  qed
  moreover have "rescheduled b' i ?tv" if mem: "\<forall>n. m_realloc E n" and nf: "\<not> fl b EVLIST_FINALIZING ?t"
  proof -
    have "r \<noteq> -1" by (rule event_add_quiet_works [OF b'(1) quiet(1) mem nf])
    then have a: "fl b' EVLIST_TIMEOUT ?t" "ev_timeout (evs b' ?t) = ?tv"
      using b'(4,5) by (auto simp: added_def due_time_def)
    have n: "map ctl_timeout_event (common_timeout_queues b') = map ctl_timeout_event (common_timeout_queues b)" "timers b' = timers b"
      using event_step_timers [OF b'(3)] b'(3) by (simp_all add: event_step_def)
    have same: "ctl_timeout_event (common_timeout_queues b' ! i) = ?t"
      using arg_cong [OF n(1), of "\<lambda>l. l ! i"] i event_step_timers [OF b'(3)] by simp
    have "\<not> is_common_timeout (ev_timeout (evs b' ?t)) b'" unfolding a(2) using sm by (rule small_not_common)
    then have "?t \<in> heap_elems (timeheap b')"
      using queues_invD(1) [OF base_invD(1) [OF b'(2)]] a(1) by (auto simp: timeouts_ok_def)
    then show ?thesis using a same by (simp add: rescheduled_def)
  qed
  ultimately show ?thesis using b'(1,2) by (auto simp: common_timeout_schedule_def)
qed

lemma event_add_spec:
  assumes inv: "base_inv binv view b" and clk: "clocks_documented E" and ok: "add_ok E b e tv is_absolute"
  shows "\<exists>b' r. event_add_nolock E b e tv is_absolute = Some (b', r) \<and> base_inv binv view b' \<and>
    (r = 0 \<or> r = -1) \<and> event_step (add_touches b e tv r) b b' \<and> (fl b EVLIST_FINALIZING e \<longrightarrow> r = -1) \<and>
    (r = 0 \<longrightarrow> added E b b' e tv is_absolute)"
  unfolding event_add_nolock_def
proof (rule event_add_core_spec [OF inv clk ok])
  fix t b' i
  assume b': "base_inv binv view b'" "i < n_common_timeouts b'" "heap_n (timeheap b') \<le> heap_n (timeheap b)"
  have "heap_n (timeheap b') + 1 < 2 ^ 31" using b'(3) ok by (simp add: add_ok_def)
  from common_timeout_schedule_spec [OF b'(1) clk b'(2) this, of e]
  show "\<exists>b''. common_timeout_schedule E b' i e = Some b'' \<and> base_inv binv view b'' \<and>
      event_step {ctl_timeout_event (common_timeout_queues b' ! i)} b' b''"
    by blast
qed

end

end
