(* ===== verification/Ev_Config.thy ===== *)
theory Ev_Config
  imports Ev_Event_Add
begin

text \<open>
  Making a base: \<open>struct event_config\<close> and its setters, the choice of the backend, and the
  fields \<open>event_base_new_with_config\<close> sets up (\<open>event.c\<close>). The lock, the notification pipe
  and the signal socket pair are not part of the state; the store of events is the caller's
  memory, so it is an argument.
\<close>

section \<open>Configuration\<close>

record event_config =
  cfg_entries :: "string list"
  cfg_n_cpus_hint :: int
  cfg_max_dispatch_interval :: timeval
  cfg_max_dispatch_callbacks :: int
  cfg_limit_callbacks_after_prio :: int
  cfg_require_features :: int
  cfg_flags :: int

abbreviation C_INT_MAX :: int where "C_INT_MAX \<equiv> 2147483647"

definition EVENT_BASE_FLAG_IGNORE_ENV :: int where "EVENT_BASE_FLAG_IGNORE_ENV = 0x02"
definition EVENT_BASE_FLAG_NO_CACHE_TIME :: int where "EVENT_BASE_FLAG_NO_CACHE_TIME = 0x08"
definition EVENT_BASE_FLAG_PRECISE_TIMER :: int where "EVENT_BASE_FLAG_PRECISE_TIMER = 0x20"

definition event_config_new :: event_config where
  "event_config_new = \<lparr>cfg_entries = [], cfg_n_cpus_hint = 0, cfg_max_dispatch_interval = Timeval (-1) 0,
     cfg_max_dispatch_callbacks = C_INT_MAX, cfg_limit_callbacks_after_prio = 1,
     cfg_require_features = 0, cfg_flags = 0\<rparr>"

definition event_config_set_flag :: "event_config \<Rightarrow> int \<Rightarrow> event_config \<times> int" where
  "event_config_set_flag cfg flag = (cfg\<lparr>cfg_flags := cfg_flags cfg OR flag\<rparr>, 0)"

text \<open>\<open>alloc_ok\<close>: both allocations succeed; otherwise nothing is queued.\<close>

definition event_config_avoid_method :: "bool \<Rightarrow> event_config \<Rightarrow> string \<Rightarrow> event_config \<times> int" where
  "event_config_avoid_method alloc_ok cfg m =
     (if \<not> alloc_ok then (cfg, -1) else (cfg\<lparr>cfg_entries := cfg_entries cfg @ [m]\<rparr>, 0))"

definition event_config_require_features :: "event_config \<Rightarrow> int \<Rightarrow> event_config \<times> int" where
  "event_config_require_features cfg features = (cfg\<lparr>cfg_require_features := features\<rparr>, 0)"

definition event_config_set_num_cpus_hint :: "event_config \<Rightarrow> int \<Rightarrow> event_config \<times> int" where
  "event_config_set_num_cpus_hint cfg cpus = (cfg\<lparr>cfg_n_cpus_hint := cpus\<rparr>, 0)"

definition event_config_set_max_dispatch_interval ::
  "event_config \<Rightarrow> timeval option \<Rightarrow> int \<Rightarrow> int \<Rightarrow> event_config \<times> int"
where
  "event_config_set_max_dispatch_interval cfg max_interval max_callbacks min_priority =
     (cfg\<lparr>cfg_max_dispatch_interval :=
            (case max_interval of Some tv \<Rightarrow> tv
             | None \<Rightarrow> Timeval (-1) (tv_usec (cfg_max_dispatch_interval cfg))),
          cfg_max_dispatch_callbacks := (if max_callbacks \<ge> 0 then max_callbacks else C_INT_MAX),
          cfg_limit_callbacks_after_prio := (if min_priority < 0 then 0 else min_priority)\<rparr>, 0)"

section \<open>The choice of the backend\<close>

text \<open>An entry of \<open>eventops\<close>: \<open>init\<close> gets the flags of the base and gives the backend's state or fails.\<close>

record 'b eventop =
  op_name :: string
  op_features :: int
  op_init :: "int \<Rightarrow> 'b option"

definition event_config_is_avoided_method :: "event_config \<Rightarrow> string \<Rightarrow> bool" where
  "event_config_is_avoided_method cfg m \<longleftrightarrow> m \<in> set (cfg_entries cfg)"

definition EVUTIL_TOUPPER :: "char \<Rightarrow> char" where
  "EVUTIL_TOUPPER c = (let n = of_char c :: nat in if 97 \<le> n \<and> n \<le> 122 then char_of (n - 32) else c)"

text \<open>The environment: \<open>getenv\<close> says whether a variable is set; a setuid program sees none.\<close>

definition evutil_getenv :: "bool \<Rightarrow> (string \<Rightarrow> bool) \<Rightarrow> string \<Rightarrow> bool" where
  "evutil_getenv issetugid getenv varname = (if issetugid then False else getenv varname)"

definition event_is_method_disabled :: "bool \<Rightarrow> (string \<Rightarrow> bool) \<Rightarrow> string \<Rightarrow> bool" where
  "event_is_method_disabled issetugid getenv name =
     (let environment = take 63 (''EVENT_NO'' @ name);
          upper = take 8 environment @ map EVUTIL_TOUPPER (drop 8 environment)
      in evutil_getenv issetugid getenv upper)"

fun select_backend ::
  "event_config option \<Rightarrow> bool \<Rightarrow> (string \<Rightarrow> bool) \<Rightarrow> int \<Rightarrow> 'b eventop list \<Rightarrow> ('b eventop \<times> 'b) option"
where
  "select_backend cfg check_env disabled flags [] = None"
| "select_backend cfg check_env disabled flags (op # ops) =
     (if (case cfg of None \<Rightarrow> False | Some c \<Rightarrow>
            event_config_is_avoided_method c (op_name op) \<or>
            op_features op AND cfg_require_features c \<noteq> cfg_require_features c)
      then select_backend cfg check_env disabled flags ops
      else if check_env \<and> disabled (op_name op) then select_backend cfg check_env disabled flags ops
      else (case op_init op flags of
              Some bs \<Rightarrow> Some (op, bs)
            | None \<Rightarrow> select_backend cfg check_env disabled flags ops))"

section \<open>The base\<close>

definition EVENT_MAX_PRIORITIES :: int where "EVENT_MAX_PRIORITIES = 256"

definition event_base_priority_init :: "bool \<Rightarrow> ('b, 'x) event_base \<Rightarrow> int \<Rightarrow> ('b, 'x) event_base \<times> int" where
  "event_base_priority_init calloc_ok b npriorities =
     (if N_ACTIVE_CALLBACKS b \<noteq> 0 \<or> npriorities < 1 \<or> npriorities \<ge> EVENT_MAX_PRIORITIES then (b, -1)
      else if npriorities = int (nactivequeues b) then (b, 0)
      else if \<not> calloc_ok then (b\<lparr>activequeues := []\<rparr>, -1)
      else (b\<lparr>activequeues := replicate (nat npriorities) []\<rparr>, 0))"

definition event_base_get_npriorities :: "('b, 'x) event_base \<Rightarrow> nat" where
  "event_base_get_npriorities b = nactivequeues b"

text \<open>The structure after \<open>mm_calloc\<close> and the initializers of its parts.\<close>

definition zeroed_base :: "ev_heap \<Rightarrow> 'b \<Rightarrow> ('b, 'x) event_base" where
  "zeroed_base st bs =
     \<lparr>io = evmap_io_initmap, sigmap = evmap_signal_initmap, evbase = bs, evs = st, timeheap = min_heap_ctor,
      virtual_event_count = 0, virtual_event_count_max = 0, event_count = 0, event_count_max = 0,
      event_count_active = 0, event_count_active_max = 0, event_gotterm = False, event_break = False,
      event_continue = False, event_running_priority = 0, running_loop = False, n_deferreds_queued = 0,
      activequeues = [], active_later_queue = [], common_timeout_queues = [], tv_cache = Timeval 0 0,
      monotonic_timer = \<lparr>adjust_monotonic_clock = Timeval 0 0, last_time = Timeval 0 0\<rparr>, tv_clock_diff = Timeval 0 0, last_updated_clock_diff = 0,
      current_event = None, no_cache_time = False, max_dispatch_time = Timeval 0 0,
      max_dispatch_callbacks = 0, limit_callbacks_after_prio = 0, is_notify_pending = False,
      clock_reads = 0, signal_ncalls = 0\<rparr>"

text \<open>How long \<open>event_base_loop\<close> may run callbacks before it looks for new events.\<close>

definition set_dispatch_limits :: "event_config option \<Rightarrow> ('b, 'x) event_base \<Rightarrow> ('b, 'x) event_base" where
  "set_dispatch_limits cfg b =
     (let b1 = (case cfg of
                  Some c \<Rightarrow> b\<lparr>max_dispatch_time := cfg_max_dispatch_interval c,
                            limit_callbacks_after_prio := cfg_limit_callbacks_after_prio c\<rparr>
                | None \<Rightarrow> b\<lparr>max_dispatch_time := Timeval (-1) 0, limit_callbacks_after_prio := 1\<rparr>);
          b2 = (case cfg of
                  Some c \<Rightarrow> if cfg_max_dispatch_callbacks c \<ge> 0
                            then b1\<lparr>max_dispatch_callbacks := cfg_max_dispatch_callbacks c\<rparr>
                            else b1\<lparr>max_dispatch_callbacks := C_INT_MAX\<rparr>
                | None \<Rightarrow> b1\<lparr>max_dispatch_callbacks := C_INT_MAX\<rparr>)
      in if max_dispatch_callbacks b2 = C_INT_MAX \<and> tv_sec (max_dispatch_time b2) = -1
         then b2\<lparr>limit_callbacks_after_prio := C_INT_MAX\<rparr> else b2)"

definition should_check_environment :: "event_config option \<Rightarrow> bool" where
  "should_check_environment cfg =
     (\<not> (case cfg of None \<Rightarrow> False | Some c \<Rightarrow> cfg_flags c AND EVENT_BASE_FLAG_IGNORE_ENV \<noteq> 0))"

definition base_flags :: "bool \<Rightarrow> (string \<Rightarrow> bool) \<Rightarrow> event_config option \<Rightarrow> int" where
  "base_flags issetugid getenv cfg =
     (let flags = (case cfg of None \<Rightarrow> 0 | Some c \<Rightarrow> cfg_flags c);
          precise_time = (case cfg of None \<Rightarrow> False | Some c \<Rightarrow> cfg_flags c AND EVENT_BASE_FLAG_PRECISE_TIMER \<noteq> 0)
      in if should_check_environment cfg \<and> \<not> precise_time \<and> evutil_getenv issetugid getenv ''EVENT_PRECISE_TIMER''
         then flags OR EVENT_BASE_FLAG_PRECISE_TIMER else flags)"

definition event_base_new_with_config ::
  "('b, 'x) event_env \<Rightarrow> bool \<Rightarrow> (string \<Rightarrow> bool) \<Rightarrow> bool \<Rightarrow> 'b eventop list \<Rightarrow> ev_heap
   \<Rightarrow> event_config option \<Rightarrow> ('b eventop \<times> ('b, 'x) event_base) option"
where
  "event_base_new_with_config E issetugid getenv calloc_ok eventops st cfg =
     (let flags = base_flags issetugid getenv cfg;
          check_env = should_check_environment cfg
      in case select_backend cfg check_env (event_is_method_disabled issetugid getenv) flags eventops of
           None \<Rightarrow> None
         | Some (op, bs) \<Rightarrow>
             (let b0 = (zeroed_base st bs)\<lparr>no_cache_time := (flags AND EVENT_BASE_FLAG_NO_CACHE_TIME \<noteq> 0)\<rparr>;
                  b1 = set_dispatch_limits cfg (fst (gettime E b0));
                  (b2, r) = event_base_priority_init calloc_ok b1 1
              in if r < 0 then None else Some (op, b2)))"

text \<open>\<open>event_base_new\<close>: the default configuration, which makes the base as no configuration does.\<close>

definition event_base_new ::
  "('b, 'x) event_env \<Rightarrow> bool \<Rightarrow> (string \<Rightarrow> bool) \<Rightarrow> bool \<Rightarrow> 'b eventop list \<Rightarrow> ev_heap
   \<Rightarrow> bool \<Rightarrow> ('b eventop \<times> ('b, 'x) event_base) option"
where
  "event_base_new E issetugid getenv calloc_ok eventops st cfg_ok =
     (if cfg_ok then event_base_new_with_config E issetugid getenv calloc_ok eventops st (Some event_config_new)
      else None)"

section \<open>The first backend that fits\<close>

definition backend_fits :: "event_config option \<Rightarrow> bool \<Rightarrow> (string \<Rightarrow> bool) \<Rightarrow> int \<Rightarrow> 'b eventop \<Rightarrow> bool" where
  "backend_fits cfg check_env disabled flags op \<longleftrightarrow>
     (\<forall>c. cfg = Some c \<longrightarrow> op_name op \<notin> set (cfg_entries c) \<and>
        op_features op AND cfg_require_features c = cfg_require_features c) \<and>
     \<not> (check_env \<and> disabled (op_name op)) \<and> op_init op flags \<noteq> None"

lemma select_backend_find:
  "select_backend cfg check_env disabled flags ops =
     (case find (backend_fits cfg check_env disabled flags) ops of
        None \<Rightarrow> None | Some op \<Rightarrow> Some (op, the (op_init op flags)))"
  by (induction ops) (auto simp: backend_fits_def event_config_is_avoided_method_def split: option.splits)

section \<open>A new base is consistent\<close>

text \<open>Memory of events none of which is on a queue.\<close>

definition idle_store :: "ev_heap \<Rightarrow> bool" where
  "idle_store st \<longleftrightarrow> (\<forall>e. min_heap_idx (st e) = -1 \<and> ev_flags (st e) AND NOT EVLIST_ALL = 0 \<and>
     \<not> has_flag (ev_flags (st e)) EVLIST_TIMEOUT \<and> \<not> has_flag (ev_flags (st e)) EVLIST_INSERTED \<and>
     \<not> has_flag (ev_flags (st e)) EVLIST_ACTIVE \<and> \<not> has_flag (ev_flags (st e)) EVLIST_ACTIVE_LATER)"

lemma zeroed_inv:
  assumes "idle_store st" "binv bs (\<lambda>_. None)"
  shows "base_inv binv view (zeroed_base st bs)" (is "base_inv _ _ ?b")
proof -
  have f: "evs ?b = st" "timeheap ?b = min_heap_ctor" "common_timeout_queues ?b = []" "activequeues ?b = []"
    "active_later_queue ?b = []" "event_count ?b = 0" "event_count_active ?b = 0" "evbase ?b = bs"
    "io ?b = evmap_io_initmap" "sigmap ?b = evmap_signal_initmap"
    by (simp_all add: zeroed_base_def)
  have "timeouts_ok ?b"
    using assms by (simp add: timeouts_ok_def f idle_store_def heap_inv_def min_heap_ctor_def heap_layout_def
        heap_order_def heap_elems_def)
  moreover have "actives_ok ?b" using assms by (simp add: actives_ok_def f idle_store_def)
  moreover have "counts_ok ?b" using assms by (simp add: counts_ok_def flag_count_def f idle_store_def)
  moreover have "flags_ok ?b" using assms by (simp add: flags_ok_def f idle_store_def)
  moreover have "maps_inv binv view ?b"
  proof -
    have s: "map_slot evmap_io_initmap = (\<lambda>_. None)" "map_slot evmap_signal_initmap = (\<lambda>_. None)"
      "fdinfos evmap_io_initmap = (\<lambda>_. None)"
      by (auto simp: fun_eq_iff map_slot_def evmap_io_initmap_def evmap_signal_initmap_def fdinfos_def)
    have "map_ok evmap_io_initmap" "map_ok evmap_signal_initmap"
      by (simp_all add: map_ok_def evmap_io_initmap_def evmap_signal_initmap_def)
    then show ?thesis
      using assms by (simp add: maps_inv_def io_maps_inv_def io_map_inv_def backend_agrees_def sig_maps_inv_def
          inserted_ok_def io_list_def sig_list_def f s idle_store_def)
  qed
  moreover have "clock_inv ?b" by (simp add: clock_inv_def zeroed_base_def tv_normal_def)
  moreover have "ctls_ok ?b" by (simp add: ctls_ok_def timers_def f)
  ultimately show ?thesis by (simp add: base_inv_def queues_inv_def)
qed

lemma priority_init_inv:
  assumes inv: "base_inv binv view b" and p: "event_base_priority_init True b n = (b', r)"
  shows "base_inv binv view b'" "r = 0 \<Longrightarrow> 1 \<le> n \<and> n < EVENT_MAX_PRIORITIES \<and> event_base_get_npriorities b' = nat n"
    "r = 0 \<or> r = -1 \<and> b' = b"
proof -
  show "r = 0 \<or> r = -1 \<and> b' = b" "r = 0 \<Longrightarrow> 1 \<le> n \<and> n < EVENT_MAX_PRIORITIES \<and> event_base_get_npriorities b' = nat n"
    using p by (auto simp: event_base_priority_init_def event_base_get_npriorities_def split: if_splits)
  show "base_inv binv view b'"
  proof (cases "b' = b")
    case False
    then have b': "b' = b\<lparr>activequeues := replicate (nat n) []\<rparr>" and none: "event_count_active b = 0"
      using p by (auto simp: event_base_priority_init_def split: if_splits)
    note a = queues_invD(2) [OF base_invD(1) [OF inv]]
    have "int (sum_list (map length (activequeues b))) + int (length (active_later_queue b)) = 0"
      using a none by (simp add: actives_ok_def)
    then have sum: "sum_list (map length (activequeues b)) = 0" "length (active_later_queue b) = 0" by linarith+
    then have "\<forall>q \<in> set (activequeues b). q = []" by (simp add: sum_list_eq_0_iff)
    then have empty: "\<forall>i < nactivequeues b. activequeues b ! i = []" "active_later_queue b = []"
      using sum by auto
    have noact: "\<not> fl b EVLIST_ACTIVE e \<and> \<not> fl b EVLIST_ACTIVE_LATER e" for e
    proof -
      have "e \<in> set (activequeues b ! ev_pri (evs b e))" "ev_pri (evs b e) < nactivequeues b" if "fl b EVLIST_ACTIVE e"
        using a that by (auto simp: actives_ok_def)
      moreover have "e \<in> set (active_later_queue b)" if "fl b EVLIST_ACTIVE_LATER e" using a that by (simp add: actives_ok_def)
      ultimately show ?thesis using empty by auto
    qed
    have "timeouts_ok b'" by (rule timeouts_ok_cong [OF queues_invD(1) [OF base_invD(1) [OF inv]]]) (simp_all add: b')
    moreover have "actives_ok b'" using noact none empty by (simp add: actives_ok_def b' sum_list_replicate)
    moreover have "counts_ok b'" "flags_ok b'"
      using queues_invD(3,4) [OF base_invD(1) [OF inv]] by (simp_all add: counts_ok_def flag_count_def flags_ok_def b')
    moreover have "maps_inv binv view b'" by (rule maps_inv_cong [OF base_invD(2) [OF inv]]) (simp_all add: b')
    moreover have "clock_inv b'" "ctls_ok b'"
      using side_invs [of b' b] base_invD(3,4) [OF inv] by (simp_all add: b' sides_def)
    ultimately show ?thesis by (simp add: base_inv_def queues_inv_def)
  qed (use inv in simp)
qed

lemma set_dispatch_limits_frame:
  obtains t m p where "set_dispatch_limits cfg b = b\<lparr>max_dispatch_time := t, max_dispatch_callbacks := m, limit_callbacks_after_prio := p\<rparr>"
proof -
  have "set_dispatch_limits cfg b = b\<lparr>max_dispatch_time := max_dispatch_time (set_dispatch_limits cfg b),
      max_dispatch_callbacks := max_dispatch_callbacks (set_dispatch_limits cfg b),
      limit_callbacks_after_prio := limit_callbacks_after_prio (set_dispatch_limits cfg b)\<rparr>"
    by (cases cfg) (simp_all add: set_dispatch_limits_def Let_def)
  then show thesis by (rule that)
qed

lemma new_base_inv:
  assumes st: "idle_store st" and clk: "clocks_documented E"
    and be: "\<And>op bs. op \<in> set eventops \<Longrightarrow> op_init op (base_flags issetugid getenv cfg) = Some bs \<Longrightarrow> binv bs (\<lambda>_. None)"
    and new: "event_base_new_with_config E issetugid getenv True eventops st cfg = Some (op, b)"
  shows "base_inv binv view b" "event_base_get_npriorities b = 1" "evs b = st" "common_timeout_queues b = []"
    "timeheap b = min_heap_ctor" "tv_cache b = Timeval 0 0" "event_count b = 0"
proof -
  let ?flags = "base_flags issetugid getenv cfg"
  let ?check = "should_check_environment cfg"
  obtain bs where sel: "select_backend cfg ?check (event_is_method_disabled issetugid getenv) ?flags eventops = Some (op, bs)"
    using new by (auto simp: event_base_new_with_config_def Let_def split: option.splits prod.splits if_splits)
  then have "op \<in> set eventops \<and> op_init op ?flags = Some bs"
    by (auto simp: select_backend_find find_Some_iff backend_fits_def split: option.splits)
  then have bs: "binv bs (\<lambda>_. None)" using be by blast
  define b0 where "b0 = (zeroed_base st bs :: ('a, 'b) event_base)\<lparr>no_cache_time := (?flags AND EVENT_BASE_FLAG_NO_CACHE_TIME \<noteq> 0)\<rparr>"
  have z: "base_inv binv view (zeroed_base st bs)" by (rule zeroed_inv [OF st, of binv, OF bs])
  have i0: "base_inv binv view b0"
    by (rule base_inv_cong [OF z]) (use base_invD(3) [OF z] in \<open>simp_all add: b0_def clock_inv_def\<close>)
  obtain b1 now where g: "gettime E b0 = (b1, Some now)" "clock_inv b1" "clock_step b0 b1"
    using gettime_spec [OF base_invD(3) [OF i0] clk] by blast
  have i1: "base_inv binv view b1" by (rule base_inv_clock [OF i0 g(3,2)])
  define b4 where "b4 = set_dispatch_limits cfg b1"
  have b4: "event_base_priority_init True b4 1 = (b, 0)"
  proof -
    obtain b5 r where p: "event_base_priority_init True b4 1 = (b5, r)" by fastforce
    have "(if r < 0 then None else Some (op, b5)) = Some (op, b)"
      using new p unfolding event_base_new_with_config_def Let_def sel option.case prod.case b0_def [symmetric] g(1) fst_conv
        b4_def by simp
    then have "event_base_priority_init True b4 1 = (b, r)" "\<not> r < 0" using p by (auto split: if_splits)
    then show ?thesis by (auto simp: event_base_priority_init_def split: if_splits)
  qed
  obtain t m p where lim: "b4 = b1\<lparr>max_dispatch_time := t, max_dispatch_callbacks := m, limit_callbacks_after_prio := p\<rparr>"
    unfolding b4_def by (rule set_dispatch_limits_frame)
  have b41: "base_inv binv view b4"
    by (rule base_inv_cong [OF i1]) (use base_invD(3) [OF i1] lim in \<open>simp_all add: clock_inv_def\<close>)
  have f4: "evs b4 = evs b1" "common_timeout_queues b4 = common_timeout_queues b1" "timeheap b4 = timeheap b1"
    "tv_cache b4 = tv_cache b1" "event_count b4 = event_count b1"
    by (simp_all add: lim)
  note p = priority_init_inv [OF b41 b4]
  have f5: "evs b = evs b4" "common_timeout_queues b = common_timeout_queues b4" "timeheap b = timeheap b4"
    "tv_cache b = tv_cache b4" "event_count b = event_count b4"
    using b4 by (auto simp: event_base_priority_init_def split: if_splits)
  show "base_inv binv view b" by (rule p(1))
  show "event_base_get_npriorities b = 1" using p(2) by simp
  show "evs b = st" "common_timeout_queues b = []" "timeheap b = min_heap_ctor" "tv_cache b = Timeval 0 0" "event_count b = 0"
    using f5 f4 g(3) by (simp_all add: clock_step_def b0_def zeroed_base_def)
qed

end
