(* ===== verification/Ev_Api.thy ===== *)
theory Ev_Api
  imports Ev_Config
begin

text \<open>
  The other operations on a base: assigning an event, its priority, removing its timer,
  activating it later, cancelling and finalizing callbacks, making a common timeout, and the
  self-check \<open>event_base_assert_ok_nolock_\<close>. Each keeps the invariant of the base, and the
  invariant implies the self-check.
\<close>

section \<open>Events on no queue\<close>

definition unlisted :: "('b, 'x) event_base \<Rightarrow> ev_addr \<Rightarrow> bool" where
  "unlisted b e \<longleftrightarrow> \<not> fl b EVLIST_TIMEOUT e \<and> \<not> fl b EVLIST_INSERTED e \<and> \<not> fl b EVLIST_ACTIVE e \<and>
     \<not> fl b EVLIST_ACTIVE_LATER e"

text \<open>The record of an event that is on no queue can be replaced.\<close>

lemma timeouts_ok_replace:
  assumes t: "timeouts_ok b" and e: "\<not> fl b EVLIST_TIMEOUT e" and v: "\<not> has_flag (ev_flags v) EVLIST_TIMEOUT" "min_heap_idx v = -1"
  shows "timeouts_ok (upd_ev e (\<lambda>_. v) b)" (is "timeouts_ok ?b")
proof -
  have f: "evs ?b x = (if x = e then v else evs b x)" for x by (simp add: upd_ev_def)
  have out: "e \<notin> heap_elems (timeheap b)" "i < n_common_timeouts b \<Longrightarrow> e \<notin> set (ctl_events (common_timeout_queues b ! i))" for i
    using t e by (auto simp: timeouts_ok_def)
  have "min_heap_idx (evs b e) = -1" using t out(1) by (simp add: timeouts_ok_def heap_inv_def)
  then have heap: "heap_inv (evs ?b) (timeheap b)"
    using heap_inv_other [where st = "evs b", OF _ out(1), of "evs ?b"] t v(2) by (simp add: timeouts_ok_def f)
  have m: "map (\<lambda>x. ev_timeout (evs ?b x)) (ctl_events (common_timeout_queues b ! i)) =
      map (\<lambda>x. ev_timeout (evs b x)) (ctl_events (common_timeout_queues b ! i))" if "i < n_common_timeouts b" for i
    using out(2) [OF that] by (auto simp: f)
  have com: "is_common_timeout x ?b = is_common_timeout x b" for x by (simp add: is_common_timeout_def)
  have flag: "fl ?b EVLIST_TIMEOUT x = fl b EVLIST_TIMEOUT x" for x using e v(1) by (simp add: f)
  show ?thesis
    unfolding timeouts_ok_def upd_ev_fields flag com
  proof (intro conjI allI impI ballI)
    show "fl b EVLIST_TIMEOUT x = (x \<in> heap_elems (timeheap b) \<or>
        (\<exists>i<n_common_timeouts b. x \<in> set (ctl_events (common_timeout_queues b ! i))))" for x
      using t by (simp add: timeouts_ok_def)
    show "tv_small (ev_timeout (evs ?b x))" if "x \<in> heap_elems (timeheap b)" for x
      using t that out(1) by (cases "x = e") (simp_all add: timeouts_ok_def f)
    fix i
    assume i: "i < n_common_timeouts b"
    then show "distinct (ctl_events (common_timeout_queues b ! i))" using t by (simp add: timeouts_ok_def)
    show "sorted (map (\<lambda>x. ev_timeout (evs ?b x)) (ctl_events (common_timeout_queues b ! i)))"
      using t i unfolding m [OF i] by (simp add: timeouts_ok_def)
    fix x
    assume x: "x \<in> set (ctl_events (common_timeout_queues b ! i))"
    then have "evs ?b x = evs b x" using out(2) [OF i] f [of x] by auto
    then show "is_common_timeout (ev_timeout (evs ?b x)) b" "COMMON_TIMEOUT_IDX (ev_timeout (evs ?b x)) = i"
      "usec_32 (ev_timeout (evs ?b x))"
      using t i x by (simp_all add: timeouts_ok_def)
  qed (use heap in simp)
qed

lemma actives_ok_replace:
  assumes a: "actives_ok b" and e: "\<not> fl b EVLIST_ACTIVE e" "\<not> fl b EVLIST_ACTIVE_LATER e"
    and v: "\<not> has_flag (ev_flags v) EVLIST_ACTIVE" "\<not> has_flag (ev_flags v) EVLIST_ACTIVE_LATER"
  shows "actives_ok (upd_ev e (\<lambda>_. v) b)" (is "actives_ok ?b")
proof -
  have f: "evs ?b x = (if x = e then v else evs b x)" for x by (simp add: upd_ev_def)
  have flag: "fl ?b EVLIST_ACTIVE x = fl b EVLIST_ACTIVE x" "fl ?b EVLIST_ACTIVE_LATER x = fl b EVLIST_ACTIVE_LATER x" for x
    using e v by (simp_all add: f)
  have pri: "fl b EVLIST_ACTIVE x \<or> fl b EVLIST_ACTIVE_LATER x \<Longrightarrow> ev_pri (evs ?b x) = ev_pri (evs b x)" for x
    using e by (auto simp: f)
  have "(fl b EVLIST_ACTIVE x \<and> ev_pri (evs ?b x) = i) = (fl b EVLIST_ACTIVE x \<and> ev_pri (evs b x) = i)" for x i
    using pri by auto
  moreover have "(fl b EVLIST_ACTIVE x \<or> fl b EVLIST_ACTIVE_LATER x \<longrightarrow> ev_pri (evs ?b x) < n) =
      (fl b EVLIST_ACTIVE x \<or> fl b EVLIST_ACTIVE_LATER x \<longrightarrow> ev_pri (evs b x) < n)" for x n
    using pri by auto
  ultimately show ?thesis using a unfolding actives_ok_def upd_ev_fields flag by presburger
qed

lemma maps_inv_replace:
  assumes m: "maps_inv binv view b" and e: "\<not> fl b EVLIST_INSERTED e" and v: "\<not> has_flag (ev_flags v) EVLIST_INSERTED"
  shows "maps_inv binv view (upd_ev e (\<lambda>_. v) b)" (is "maps_inv _ _ ?b")
proof -
  have f: "evs ?b x = (if x = e then v else evs b x)" for x by (simp add: upd_ev_def)
  note nl = not_listed [OF m e]
  have l: "io_list ?b = io_list b" "sig_list ?b = sig_list b" by (rule lists_cong; simp)+
  have io: "io_entry_ok (evs ?b) fd ctx = io_entry_ok (evs b) fd ctx" "want_mask (evs ?b) (io_events ctx) = want_mask (evs b) (io_events ctx)"
    if "map_slot (io b) fd = Some ctx" for fd ctx
  proof -
    have "e \<notin> set (io_events ctx)" using nl(1) [of fd] io_list_slot [OF that] by simp
    then have s: "\<forall>x \<in> set (io_events ctx). evs ?b x = evs b x" using f by auto
    then have "count_flag (evs ?b) g (io_events ctx) = count_flag (evs b) g (io_events ctx)" for g
      unfolding count_flag_def by (intro arg_cong [where f = length] filter_cong) auto
    with s show "io_entry_ok (evs ?b) fd ctx = io_entry_ok (evs b) fd ctx" by (simp add: io_entry_ok_def)
    show "want_mask (evs ?b) (io_events ctx) = want_mask (evs b) (io_events ctx)"
      using s unfolding want_mask_def by (intro arg_cong3 [where f = io_mask] bex_cong) auto
  qed
  have "io_maps_inv binv view (evs ?b) ?b"
    using m io by (auto simp: maps_inv_def io_maps_inv_def io_map_inv_def backend_agrees_def)
  moreover have "sig_maps_inv (evs ?b) ?b"
  proof -
    have "evs ?b x = evs b x" if "map_slot (sigmap b) sig = Some ctx" "x \<in> set (sig_events ctx)" for sig ctx x
    proof -
      have "e \<notin> set (sig_events ctx)" using nl(2) [of sig] that(1) by (simp add: sig_list_def)
      then show ?thesis using that(2) f by auto
    qed
    then show ?thesis using m by (simp add: maps_inv_def sig_maps_inv_def)
  qed
  moreover have "inserted_ok ?b"
    unfolding inserted_ok_def l
  proof (intro conjI allI impI)
    fix x
    have i: "inserted_ok b" using m by (simp add: maps_inv_def)
    show "fl ?b EVLIST_INSERTED x" if "x \<in> set (io_list b fd)" for fd
      using i nl(1) [of fd] that f [of x] unfolding inserted_ok_def by auto
    show "fl ?b EVLIST_INSERTED x" if "x \<in> set (sig_list b sig)" for sig
      using i nl(2) [of sig] that f [of x] unfolding inserted_ok_def by auto
    assume x: "fl ?b EVLIST_INSERTED x"
    then have "x \<noteq> e" using v f by auto
    then show "if has_flag (ev_events (evs ?b x)) (EV_READ OR EV_WRITE OR EV_CLOSED)
         then 0 \<le> ev_fd (evs ?b x) \<longrightarrow> x \<in> set (io_list b (ev_fd (evs ?b x)))
         else x \<in> set (sig_list b (ev_fd (evs ?b x)))"
      using i x f [of x] unfolding inserted_ok_def by simp
  qed
  ultimately show ?thesis by (simp add: maps_inv_def)
qed

lemma base_inv_replace:
  assumes inv: "base_inv binv view b" and e: "unlisted b e" "e \<notin> timers b"
    and v: "min_heap_idx v = -1" "ev_flags v AND NOT EVLIST_ALL = 0" "\<not> has_flag (ev_flags v) EVLIST_TIMEOUT"
      "\<not> has_flag (ev_flags v) EVLIST_INSERTED" "\<not> has_flag (ev_flags v) EVLIST_ACTIVE"
      "\<not> has_flag (ev_flags v) EVLIST_ACTIVE_LATER"
  shows "base_inv binv view (upd_ev e (\<lambda>_. v) b)" (is "base_inv _ _ ?b")
proof -
  note q = queues_invD [OF base_invD(1) [OF inv]]
  have f: "evs ?b x = (if x = e then v else evs b x)" for x by (simp add: upd_ev_def)
  have "timeouts_ok ?b" "actives_ok ?b" "maps_inv binv view ?b"
    using timeouts_ok_replace [OF q(1)] actives_ok_replace [OF q(2)] maps_inv_replace [OF base_invD(2) [OF inv]] e(1) v
    by (simp_all add: unlisted_def)
  moreover have "flags_ok ?b" using q(4) v(2) by (simp add: flags_ok_def f)
  moreover have "counts_ok ?b"
  proof -
    have "fl ?b g x \<and> \<not> fl ?b EVLIST_INTERNAL x \<longleftrightarrow> fl b g x \<and> \<not> fl b EVLIST_INTERNAL x" "fl ?b g x = fl b g x"
      if "g \<in> {EVLIST_TIMEOUT, EVLIST_ACTIVE, EVLIST_ACTIVE_LATER, EVLIST_INSERTED}" for g x
      using e(1) v that by (auto simp: f unlisted_def)
    then show ?thesis using q(3) by (simp add: counts_ok_def flag_count_def)
  qed
  moreover have "clock_inv ?b" using base_invD(3) [OF inv] by (simp add: clock_inv_def upd_ev_def)
  moreover have "timers ?b = timers b" by (simp add: timers_def)
  then have "ctls_ok ?b" using base_invD(4) [OF inv] e(2) f by (auto simp: ctls_ok_def)
  ultimately show ?thesis by (simp add: base_inv_def queues_inv_def)
qed

section \<open>Assigning and configuring\<close>

text \<open>An assignment that fails has still written the first fields.\<close>

lemma event_assign_spec:
  assumes inv: "base_inv binv view b" and e: "unlisted b e" "e \<notin> timers b"
    and run: "event_assign b e fd events = (b', r)"
  shows "base_inv binv view b'" "unlisted b' e" "\<forall>x. x \<noteq> e \<longrightarrow> evs b' x = evs b x" "timers b' = timers b"
    "ev_fd (evs b' e) = fd" "ev_events (evs b' e) = events" "ev_flags (evs b' e) = EVLIST_INIT"
    "r = (if has_flag events EV_SIGNAL \<and> has_flag events (EV_READ OR EV_WRITE OR EV_CLOSED) then -1 else 0)"
    "r = 0 \<longrightarrow> ev_wf (evs b' e) \<and> ev_pri (evs b' e) = nactivequeues b div 2"
proof -
  have idx: "min_heap_idx (evs b e) = -1"
  proof -
    have "e \<notin> heap_elems (timeheap b)"
      using queues_invD(1) [OF base_invD(1) [OF inv]] e(1) by (auto simp: timeouts_ok_def unlisted_def)
    then show ?thesis using queues_invD(1) [OF base_invD(1) [OF inv]] by (simp add: timeouts_ok_def heap_inv_def)
  qed
  obtain v where v: "b' = upd_ev e (\<lambda>_. v) b" "min_heap_idx v = -1" "ev_flags v = EVLIST_INIT" "ev_fd v = fd" "ev_events v = events"
    "r = 0 \<longrightarrow> ev_pri v = nactivequeues b div 2"
  proof -
    have "b' = upd_ev e (\<lambda>_. evs b' e) b" "min_heap_idx (evs b' e) = -1" "ev_flags (evs b' e) = EVLIST_INIT"
      "ev_fd (evs b' e) = fd" "ev_events (evs b' e) = events" "r = 0 \<longrightarrow> ev_pri (evs b' e) = nactivequeues b div 2"
      using run idx by (auto simp: event_assign_def upd_ev_def Let_def split: if_splits)
    then show thesis by (rule that)
  qed
  show "base_inv binv view b'"
    unfolding v(1)
    by (rule base_inv_replace [OF inv e v(2)]) (simp_all add: v(3) evlist_flag_defs has_flag_def)
  show "unlisted b' e" using v(3) by (simp add: v(1) unlisted_def upd_ev_def evlist_flag_defs has_flag_def)
  show "\<forall>x. x \<noteq> e \<longrightarrow> evs b' x = evs b x" "timers b' = timers b" by (simp_all add: v(1) upd_ev_def timers_def)
  show "ev_fd (evs b' e) = fd" "ev_events (evs b' e) = events" "ev_flags (evs b' e) = EVLIST_INIT"
    using v(3-5) by (simp_all add: v(1) upd_ev_def)
  show r: "r = (if has_flag events EV_SIGNAL \<and> has_flag events (EV_READ OR EV_WRITE OR EV_CLOSED) then -1 else 0)"
    using run by (auto simp: event_assign_def Let_def has_flag_def split: if_splits)
  show "r = 0 \<longrightarrow> ev_wf (evs b' e) \<and> ev_pri (evs b' e) = nactivequeues b div 2"
    using r v(5,6) by (auto simp: ev_wf_def v(1) upd_ev_def)
qed

lemma event_priority_set_spec:
  assumes inv: "base_inv binv view b" and run: "event_priority_set b e pri = (b', r)"
  shows "base_inv binv view b'" "r = 0 \<longrightarrow> \<not> fl b EVLIST_ACTIVE e \<and> 0 \<le> pri \<and> pri < int (nactivequeues b) \<and>
      ev_pri (evs b' e) = nat pri" "r \<noteq> 0 \<longrightarrow> r = -1 \<and> b' = b"
    "\<forall>x. ev_flags (evs b' x) = ev_flags (evs b x)" "timers b' = timers b"
    "\<forall>x. ev_fd (evs b' x) = ev_fd (evs b x) \<and> ev_events (evs b' x) = ev_events (evs b x) \<and> ev_timeout (evs b' x) = ev_timeout (evs b x)"
proof -
  show "r = 0 \<longrightarrow> \<not> fl b EVLIST_ACTIVE e \<and> 0 \<le> pri \<and> pri < int (nactivequeues b) \<and> ev_pri (evs b' e) = nat pri"
    "r \<noteq> 0 \<longrightarrow> r = -1 \<and> b' = b" "\<forall>x. ev_flags (evs b' x) = ev_flags (evs b x)" "timers b' = timers b"
    "\<forall>x. ev_fd (evs b' x) = ev_fd (evs b x) \<and> ev_events (evs b' x) = ev_events (evs b x) \<and> ev_timeout (evs b' x) = ev_timeout (evs b x)"
    using run by (auto simp: event_priority_set_def upd_ev_def timers_def split: if_splits)
  show "base_inv binv view b'"
  proof (cases "b' = b")
    case False
    define F where "F = (\<lambda>ev :: event. ev\<lparr>ev_pri := nat pri\<rparr>)"
    have b': "b' = upd_ev e F b" and p: "\<not> fl b EVLIST_ACTIVE e" "nat pri < nactivequeues b"
      using run False by (auto simp: event_priority_set_def F_def split: if_splits)
    note q = queues_invD [OF base_invD(1) [OF inv]]
    have f: "ev_flags (evs b' x) = ev_flags (evs b x)" "min_heap_idx (evs b' x) = min_heap_idx (evs b x)"
      "ev_timeout (evs b' x) = ev_timeout (evs b x)" "ev_fd (evs b' x) = ev_fd (evs b x)"
      "ev_events (evs b' x) = ev_events (evs b x)" for x by (simp_all add: b' F_def upd_ev_def)
    have pri: "ev_pri (evs b' x) = (if x = e then nat pri else ev_pri (evs b x))" for x by (simp add: b' F_def upd_ev_def)
    have "timeouts_ok b'" by (rule timeouts_ok_cong [OF q(1)]) (simp_all add: f, simp_all add: b')
    moreover have "actives_ok b'"
    proof -
      have *: "(fl b EVLIST_ACTIVE x \<and> ev_pri (evs b' x) = i) = (fl b EVLIST_ACTIVE x \<and> ev_pri (evs b x) = i)" for x i
        using p(1) pri by auto
      have "(fl b EVLIST_ACTIVE x \<or> fl b EVLIST_ACTIVE_LATER x \<longrightarrow> ev_pri (evs b' x) < nactivequeues b)" for x
        using q(2) p(2) by (simp add: actives_ok_def pri)
      then show ?thesis using q(2) * by (simp add: actives_ok_def f) (simp add: b')
    qed
    moreover have "counts_ok b'" "flags_ok b'" using q(3,4) by (simp_all add: counts_ok_def flag_count_def flags_ok_def f) (simp add: b')
    moreover have "maps_inv binv view b'" by (rule maps_inv_cong [OF base_invD(2) [OF inv]]) (simp_all add: f, simp_all add: b')
    moreover have "sides b' = sides b" by (simp add: b')
    ultimately show ?thesis using side_invs [of b' b] base_invD(3,4) [OF inv] by (simp add: base_inv_def queues_inv_def f)
  qed (use inv in simp)
qed

lemma event_remove_timer_spec:
  assumes inv: "base_inv binv view b"
  shows "\<exists>b'. event_remove_timer_nolock b e = Some (b', 0) \<and> base_inv binv view b' \<and> event_step {e} b b' \<and>
    \<not> fl b' EVLIST_TIMEOUT e \<and> (fl b EVLIST_TIMEOUT e \<longrightarrow> ev_io_timeout (evs b' e) = evutil_timerclear)"
proof (cases "fl b EVLIST_TIMEOUT e")
  case True
  obtain b1 where b1: "event_queue_remove_timeout b e = Some b1" "base_inv binv view b1" "event_step {e} b b1"
    "\<not> fl b1 EVLIST_TIMEOUT e" using drop_timeout_spec [OF inv, of e] True by auto
  let ?F = "\<lambda>ev :: event. ev\<lparr>ev_io_timeout := evutil_timerclear\<rparr>"
  have F: "soft_field ?F" by (simp add: soft_field_def)
  have "event_step {e} b1 (upd_ev e ?F b1)" by (rule event_step_soft [OF F]) simp
  then have "event_step {e} b (upd_ev e ?F b1)" by (rule event_step_trans [OF b1(3)])
  moreover have "ev_io_timeout (evs (upd_ev e ?F b1) e) = evutil_timerclear" by (simp add: upd_ev_def)
  ultimately show ?thesis
    using True b1 base_inv_soft [OF b1(2) F, of e] upd_ev_soft(1) [OF F, of e b1 e]
    by (simp add: event_remove_timer_nolock_def)
qed (use inv in \<open>simp add: event_remove_timer_nolock_def\<close>)

section \<open>Activating later\<close>

lemma callback_activate_later_spec:
  assumes inv: "base_inv binv view b" and pri: "ev_pri (evs b e) < nactivequeues b"
  shows "\<exists>b' r. event_callback_activate_later_nolock E b e = Some (b', r) \<and> base_inv binv view b' \<and> event_step {e} b b' \<and>
    (if fl b EVLIST_ACTIVE e \<or> fl b EVLIST_ACTIVE_LATER e then b' = b \<and> r = 0
     else r = 1 \<and> fl b' EVLIST_ACTIVE_LATER e \<and> active_later_queue b' = active_later_queue b @ [e])"
proof (cases "fl b EVLIST_ACTIVE e \<or> fl b EVLIST_ACTIVE_LATER e")
  case True
  then have "has_flag (ev_flags (evs b e)) (EVLIST_ACTIVE OR EVLIST_ACTIVE_LATER)" by (simp add: has_flag_or)
  then show ?thesis using inv True by (simp add: event_callback_activate_later_nolock_def)
next
  case False
  obtain b1 where b1: "event_queue_insert_active_later b e = Some b1" "queues_inv b1"
    "queue_step b b1 EVLIST_ACTIVE_LATER e True" "active_later_queue b1 = active_later_queue b @ [e]"
    using insert_active_later_spec [OF base_invD(1) [OF inv], of e] False pri by blast
  have i: "base_inv binv view b1" by (rule base_inv_step [OF inv b1(2,3)]) simp
  have s: "event_step {e} b b1" by (rule event_step_queue [OF b1(3)]) simp
  have "\<not> has_flag (ev_flags (evs b e)) (EVLIST_ACTIVE OR EVLIST_ACTIVE_LATER)" using False by (simp add: has_flag_or)
  then show ?thesis
    using False b1 base_inv_notify [OF i, of True E] event_step_notify [OF s] queue_step_fl [OF b1(3), of _ e]
    by (simp add: event_callback_activate_later_nolock_def)
qed

lemma event_active_later_spec:
  assumes inv: "base_inv binv view b" and pri: "ev_pri (evs b e) < nactivequeues b"
  shows "\<exists>b'. event_active_later_nolock E b e res = Some b' \<and> base_inv binv view b' \<and> event_step {e} b b'"
proof -
  let ?F = "\<lambda>ev :: event. ev\<lparr>ev_res := ev_res ev OR res\<rparr>" and ?G = "\<lambda>ev :: event. ev\<lparr>ev_res := res\<rparr>"
  have F: "soft_field ?F" "soft_field ?G" by (simp_all add: soft_field_def)
  have s: "event_step {e} b (upd_ev e ?F b)" "event_step {e} b (upd_ev e ?G b)"
    by (rule event_step_soft [OF F(1)], simp, rule event_step_soft [OF F(2)], simp)
  note i = base_inv_soft [OF inv F(1), of e] base_inv_soft [OF inv F(2), of e]
  have p: "ev_pri (evs (upd_ev e ?G b) e) < nactivequeues (upd_ev e ?G b)" using pri upd_ev_soft(4) [OF F(2), of e b e] by simp
  obtain b' r where b': "event_callback_activate_later_nolock E (upd_ev e ?G b) e = Some (b', r)" "base_inv binv view b'"
    "event_step {e} (upd_ev e ?G b) b'" using callback_activate_later_spec [OF i(2) p, of E] by blast
  show ?thesis
    using i(1) s b'(1,2) event_step_trans [OF s(2) b'(3)] by (simp add: event_active_later_nolock_def)
qed

lemma make_later_flags:
  "make_later_active es b = Some b' \<Longrightarrow> single_bit g \<Longrightarrow> g \<noteq> EVLIST_ACTIVE \<Longrightarrow> g \<noteq> EVLIST_ACTIVE_LATER \<Longrightarrow> fl b' g x = fl b g x"
proof (induction es arbitrary: b)
  case (Cons e es)
  have "fl (later_round e es b) g x = fl b g x"
    using Cons.prems(2-4) by (auto simp: later_round_def upd_ev_def single_bit_set)
  moreover have "make_later_active es (later_round e es b) = Some b'"
    using Cons.prems(1) unfolding make_later_active_Cons by (simp split: if_splits)
  ultimately show ?case using Cons.IH Cons.prems(2-4) by blast
qed auto

lemma make_later_base_inv:
  assumes inv: "base_inv binv view b"
  shows "\<exists>b'. event_queue_make_later_events_active b = Some b' \<and> base_inv binv view b' \<and> active_later_queue b' = [] \<and>
    event_count_active b' = event_count_active b \<and> length (activequeues b') = length (activequeues b) \<and>
    (\<forall>i < nactivequeues b. activequeues b' ! i = activequeues b ! i @ filter (\<lambda>e. ev_pri (evs b e) = i) (active_later_queue b)) \<and>
    (\<forall>x. ev_core (evs b' x) = ev_core (evs b x)) \<and> sides b' = sides b \<and>
    (\<forall>g x. single_bit g \<longrightarrow> g \<noteq> EVLIST_ACTIVE \<longrightarrow> g \<noteq> EVLIST_ACTIVE_LATER \<longrightarrow> fl b' g x = fl b g x)"
proof -
  obtain b' where b': "event_queue_make_later_events_active b = Some b'" "queues_inv b'" "active_later_queue b' = []"
    "\<forall>x. ev_core (evs b' x) = ev_core (evs b x)" "length (activequeues b') = length (activequeues b)"
    "\<forall>i < nactivequeues b. activequeues b' ! i = activequeues b ! i @ filter (\<lambda>e. ev_pri (evs b e) = i) (active_later_queue b)"
    "event_count_active b' = event_count_active b" "io b' = io b" "sigmap b' = sigmap b" "evbase b' = evbase b" "sides b' = sides b"
    "timeheap b' = timeheap b"
    using make_later_active_spec [OF base_invD(1) [OF inv] refl] by (auto simp: event_queue_make_later_events_active_def)
  have c: "ev_fd (evs b' x) = ev_fd (evs b x)" "ev_events (evs b' x) = ev_events (evs b x)"
    "ev_timeout (evs b' x) = ev_timeout (evs b x)" for x
    using ev_core_eqD [of "evs b' x" "evs b x"] b'(4) by simp_all
  note flags = make_later_flags [OF b'(1) [unfolded event_queue_make_later_events_active_def]]
  have ins: "fl b' EVLIST_INSERTED x = fl b EVLIST_INSERTED x" for x using flags [of EVLIST_INSERTED x] by simp
  have "maps_inv binv view b'" by (rule maps_inv_cong [OF base_invD(2) [OF inv]]) (simp_all add: b'(8-10) c ins)
  then have "base_inv binv view b'"
    using b'(2) side_invs [OF b'(11)] c base_invD(3,4) [OF inv] by (simp add: base_inv_def)
  then show ?thesis using b'(1,3-7,11) flags by blast
qed

section \<open>Cancelling and finalizing\<close>

lemma base_inv_finalizing: "base_inv binv view b \<Longrightarrow> base_inv binv view (set_ev_flag EVLIST_FINALIZING e b)"
proof -
  assume inv: "base_inv binv view b"
  let ?b = "set_ev_flag EVLIST_FINALIZING e b"
  note q = queues_invD [OF base_invD(1) [OF inv]]
  have st: "evs ?b = put_flag True EVLIST_FINALIZING e (evs b)" by (simp add: set_clear_put_flag)
  have fl: "fl ?b g x = fl b g x" if "single_bit g" "g \<noteq> EVLIST_FINALIZING" for g x
    using that by (auto simp: st put_flag_has)
  have "timeouts_ok ?b" by (rule timeouts_ok_cong [OF q(1)]) (simp_all add: st put_flag_has)
  moreover have "actives_ok ?b" by (rule actives_ok_cong [OF q(2)]) (simp_all add: st put_flag_has)
  moreover have "counts_ok ?b" using q(3) fl by (simp add: counts_ok_def flag_count_def)
  moreover have "flags_ok ?b" by (rule flags_ok_put_flag [OF st _ q(4)]) simp
  moreover have "maps_inv binv view ?b" by (rule maps_inv_cong [OF base_invD(2) [OF inv]]) (simp_all add: st put_flag_has)
  moreover have "sides ?b = sides b" by simp
  ultimately show ?thesis
    using side_invs [of ?b b] base_invD(3,4) [OF inv] by (simp add: base_inv_def queues_inv_def st)
qed

context event_backend
begin

lemma event_del_works:
  assumes "base_inv binv view b" "even_if \<or> \<not> fl b EVLIST_FINALIZING e" "deletions_work E"
  obtains b' where "event_del_nolock E b e even_if = Some (b', 0)" "base_inv binv view b'" "event_step {e} b b'" "unlisted b' e"
  using event_del_spec [OF assms(1,2)] assms(3) unfolding unlisted_def by auto

lemma callback_cancel_spec:
  assumes inv: "base_inv binv view b"
  shows "\<exists>b' r. event_callback_cancel_nolock E b e even_if = Some (b', r) \<and> (r = 0 \<or> r = -1) \<and> queues_inv b' \<and>
    (r = 0 \<longrightarrow> base_inv binv view b') \<and> event_step {e} b b' \<and>
    (even_if \<or> \<not> fl b EVLIST_FINALIZING e \<longrightarrow> \<not> fl b' EVLIST_ACTIVE e \<and> \<not> fl b' EVLIST_ACTIVE_LATER e) \<and>
    (deletions_work E \<longrightarrow> r = 0)"
proof (cases "even_if \<or> \<not> fl b EVLIST_FINALIZING e")
  case go: True
  show ?thesis
  proof (cases "fl b EVLIST_INIT e")
    case True
    then show ?thesis using event_del_spec [OF inv go] go by (simp add: event_callback_cancel_nolock_def) blast
  next
    case False
    obtain b' where b': "(if fl b EVLIST_ACTIVE e then event_queue_remove_active b e
               else if fl b EVLIST_ACTIVE_LATER e then event_queue_remove_active_later b e else Some b) = Some b'"
      "base_inv binv view b'" "event_step {e} b b'" "\<not> fl b' EVLIST_ACTIVE e" "\<not> fl b' EVLIST_ACTIVE_LATER e"
      using drop_active_spec [OF inv, of e] by blast
    have one: "\<not> (fl b EVLIST_ACTIVE e \<and> fl b EVLIST_ACTIVE_LATER e)"
      using queues_invD(2) [OF base_invD(1) [OF inv]] by (simp add: actives_ok_def)
    have "event_callback_cancel_nolock E b e even_if = Some (b', 0)"
      using b'(1) one go False by (auto simp: event_callback_cancel_nolock_def split: if_splits)
    then show ?thesis using b' base_invD(1) [OF b'(2)] by simp
  qed
qed (use inv base_invD(1) [OF inv] in \<open>simp add: event_callback_cancel_nolock_def\<close>)

text \<open>
  Finalizing: the event leaves every queue but the active one, where it waits for its
  finalizer, and no later addition, deletion or activation can change that.
\<close>

lemma event_finalize_spec:
  assumes inv: "base_inv binv view b" and w: "deletions_work E" and pri: "ev_pri (evs b e) < nactivequeues b"
    and new: "\<not> fl b EVLIST_FINALIZING e"
  shows "\<exists>b'. event_finalize_nolock E b free_it e = Some b' \<and> base_inv binv view b' \<and>
    fl b' EVLIST_FINALIZING e \<and> fl b' EVLIST_ACTIVE e \<and> \<not> fl b' EVLIST_TIMEOUT e \<and> \<not> fl b' EVLIST_INSERTED e \<and>
    ev_closure (evs b' e) = (if free_it then EV_CLOSURE_EVENT_FINALIZE_FREE else EV_CLOSURE_EVENT_FINALIZE) \<and>
    nactivequeues b' = nactivequeues b \<and> timers b' = timers b \<and> n_common_timeouts b' = n_common_timeouts b \<and>
    (\<forall>x. ev_pri (evs b' x) = ev_pri (evs b x) \<and> (x \<noteq> e \<longrightarrow> unlisted b' x = unlisted b x))"
proof -
  obtain b1 where b1: "event_del_nolock E b e False = Some (b1, 0)" "base_inv binv view b1" "event_step {e} b b1"
    "\<not> fl b1 EVLIST_TIMEOUT e" "\<not> fl b1 EVLIST_INSERTED e"
    using event_del_works [OF inv _ w, of False e] new unfolding unlisted_def by blast
  define c where "c = (if free_it then EV_CLOSURE_EVENT_FINALIZE_FREE else EV_CLOSURE_EVENT_FINALIZE)"
  define b2 where "b2 = upd_ev e (\<lambda>ev. ev\<lparr>ev_closure := c\<rparr>) b1"
  have F: "soft_field (ev_closure_update (\<lambda>_. c))" by (simp add: soft_field_def)
  have i2: "base_inv binv view b2" unfolding b2_def by (rule base_inv_soft [OF b1(2) F])
  have f2: "ev_flags (evs b2 e) = ev_flags (evs b1 e)" "ev_pri (evs b2 e) = ev_pri (evs b e)" "ev_closure (evs b2 e) = c"
    "nactivequeues b2 = nactivequeues b1"
    using event_stepD(3) [OF b1(3), of e] by (simp_all add: b2_def upd_ev_def)
  have n: "nactivequeues b1 = nactivequeues b" using b1(3) by (simp add: event_step_def)
  have p2: "ev_pri (evs b2 e) < nactivequeues b2" using pri f2 n by simp
  have nf: "\<not> fl b2 EVLIST_FINALIZING e" using f2(1) event_stepD(7) [OF b1(3), of e] new by simp
  obtain b3 where b3: "event_active_nolock E b2 e EV_FINALIZE 1 = Some b3" "base_inv binv view b3" "event_step {e} b2 b3"
    "\<forall>g. single_bit g \<longrightarrow> g \<noteq> EVLIST_ACTIVE \<longrightarrow> g \<noteq> EVLIST_ACTIVE_LATER \<longrightarrow> fl b3 g e = fl b2 g e" "fl b3 EVLIST_ACTIVE e"
    using event_active_spec [OF i2 p2 nf, of E EV_FINALIZE 1] by blast
  let ?b = "set_ev_flag EVLIST_FINALIZING e b3"
  have run: "event_finalize_nolock E b free_it e = Some ?b"
    using b1(1) b3(1) by (simp add: event_finalize_nolock_def b2_def c_def)
  have "fl ?b g e = (g = EVLIST_FINALIZING \<or> fl b3 g e)" if "single_bit g" for g
    using that by (auto simp: set_clear_put_flag put_flag_has)
  moreover have "ev_closure (evs ?b e) = c"
    using event_stepD(4) [OF b3(3), of e] f2(3) by (simp add: set_clear_put_flag)
  moreover have "nactivequeues ?b = nactivequeues b"
    using n f2(4) b3(3) by (simp add: event_step_def)
  moreover have "timers ?b = timers b" "n_common_timeouts ?b = n_common_timeouts b"
    using event_step_timers [OF b1(3)] event_step_timers [OF b3(3)] by (simp_all add: timers_def b2_def)
  moreover have "ev_pri (evs ?b x) = ev_pri (evs b x)" for x
    using event_stepD(3) [OF b1(3), of x] event_stepD(3) [OF b3(3), of x] by (cases "x = e") (simp_all add: set_clear_put_flag b2_def upd_ev_def)
  moreover have "unlisted ?b x = unlisted b x" if "x \<noteq> e" for x
  proof -
    have x: "x \<notin> {e}" using that by simp
    have "fl ?b g x = fl b g x" if "single_bit g" for g
      using event_stepD(5) [OF b1(3) x that] event_stepD(5) [OF b3(3) x that] that \<open>x \<noteq> e\<close>
      by (simp add: set_clear_put_flag put_flag_has b2_def upd_ev_def)
    then show ?thesis by (simp add: unlisted_def)
  qed
  ultimately show ?thesis
    using run base_inv_finalizing [OF b3(2), of e] b3(4,5) b1(4,5) f2(1) by (simp add: c_def)
qed

end

section \<open>Common timeouts\<close>

text \<open>
  \<open>event_base_init_common_timeout\<close>: the list for a duration, a new one when there is none.
  \<open>t\<close> is the address of the new list's \<open>timeout_event\<close> (zeroed memory), \<open>alloc_ok\<close> says
  whether the allocations succeed. The inner option is the pointer returned.
\<close>

definition zeroed_event :: event where
  "zeroed_event = \<lparr>min_heap_idx = 0, ev_timeout = Timeval 0 0, ev_flags = 0, ev_pri = 0, ev_closure = EV_CLOSURE_EVENT,
     ev_fd = 0, ev_events = 0, ev_res = 0, ev_io_timeout = Timeval 0 0, ev_ncalls = 0, ev_pncalls = False\<rparr>"

definition common_duration :: "('b, 'x) event_base \<Rightarrow> timeval \<Rightarrow> timeval" where
  "common_duration b duration =
     (if tv_usec duration > 1000000 then
        (let usec = (if is_common_timeout duration b then tv_usec duration AND MICROSECONDS_MASK else tv_usec duration)
         in Timeval (tv_sec duration + usec div 1000000) (usec mod 1000000))
      else duration)"

definition event_base_init_common_timeout ::
  "bool \<Rightarrow> ('b, 'x) event_base \<Rightarrow> ev_addr \<Rightarrow> timeval \<Rightarrow> (('b, 'x) event_base \<times> timeval option) option"
where
  "event_base_init_common_timeout alloc_ok b t duration0 =
     (let duration = common_duration b duration0
      in case find (\<lambda>ctl. tv_sec duration = tv_sec (ctl_duration ctl) \<and>
                        tv_usec duration = tv_usec (ctl_duration ctl) AND MICROSECONDS_MASK) (common_timeout_queues b) of
           Some ctl \<Rightarrow> if is_common_timeout (ctl_duration ctl) b then Some (b, Some (ctl_duration ctl)) else None
         | None \<Rightarrow>
             if n_common_timeouts b = MAX_COMMON_TIMEOUTS \<or> \<not> alloc_ok then Some (b, None)
             else
               (let d = Timeval (tv_sec duration)
                          (tv_usec duration OR COMMON_TIMEOUT_MAGIC OR push_bit COMMON_TIMEOUT_IDX_SHIFT (int (n_common_timeouts b)));
                    b1 = fst (event_assign (upd_ev t (\<lambda>_. zeroed_event) b) t (-1) 0);
                    b2 = fst (event_priority_set (set_ev_flag EVLIST_INTERNAL t b1) t 0);
                    b3 = b2\<lparr>common_timeout_queues := common_timeout_queues b2 @
                              [\<lparr>ctl_events = [], ctl_duration = d, ctl_timeout_event = t\<rparr>]\<rparr>
                in if is_common_timeout d b3 then Some (b3, Some d) else None))"

text \<open>The duration of the \<open>n\<close>-th list carries its index above the microseconds.\<close>

lemma common_duration_bits:
  fixes u :: int and n :: nat
  assumes u: "0 \<le> u" "u < 2 ^ 20" and n: "n < 256"
  defines "v \<equiv> u OR COMMON_TIMEOUT_MAGIC OR push_bit COMMON_TIMEOUT_IDX_SHIFT (int n)"
  shows "v AND COMMON_TIMEOUT_MASK = COMMON_TIMEOUT_MAGIC" "COMMON_TIMEOUT_IDX (Timeval s v) = n"
    "v AND MICROSECONDS_MASK = u" "usec_32 (Timeval s v)"
proof -
  define w where "w = COMMON_TIMEOUT_MAGIC OR push_bit 20 (int n)"
  have m: "COMMON_TIMEOUT_MASK = push_bit 20 0xf00" "COMMON_TIMEOUT_IDX_MASK = push_bit 20 0xff"
    "COMMON_TIMEOUT_MAGIC = push_bit 20 0x500" "MICROSECONDS_MASK = mask 20"
    by (simp_all add: COMMON_TIMEOUT_MASK_def COMMON_TIMEOUT_IDX_MASK_def COMMON_TIMEOUT_MAGIC_def MICROSECONDS_MASK_def
        push_bit_eq_mult mask_eq_exp_minus_1)
  have w: "w = push_bit 20 (0x500 OR int n)" unfolding w_def m(3) by (simp only: push_bit_or)
  have v: "v = u OR w" by (simp add: v_def w_def COMMON_TIMEOUT_IDX_SHIFT_def or.assoc)
  have "push_bit 20 x AND NOT (mask 20) = push_bit 20 x" for x :: int
    by (rule bit_eqI) (auto simp: bit_simps)
  then have "w AND NOT MICROSECONDS_MASK = w" unfolding w m(4) by blast
  then have and_v: "v AND push_bit 20 k = w AND push_bit 20 k" for k
    using or_high_and [OF u, of w k] by (simp add: v)
  have n8: "take_bit 8 (int n) = int n" using n by (simp add: take_bit_int_eq_self)
  have "int n AND 0xf00 = 0"
  proof -
    have "(0xf00 :: int) = push_bit 8 0xf" by (simp add: push_bit_eq_mult)
    then have "int n AND 0xf00 = take_bit 8 (int n) AND push_bit 8 0xf" using n8 by simp
    moreover have "take_bit 8 x AND push_bit 8 y = 0" for x y :: int
      by (rule bit_eqI) (simp add: bit_and_iff bit_take_bit_iff bit_push_bit_iff)
    ultimately show ?thesis by metis
  qed
  then have hi: "(0x500 OR int n) AND 0xf00 = 0x500" by (simp add: bit.conj_disj_distrib2)
  have "int n AND 0xff = int n" using n8 by (simp add: take_bit_eq_mask mask_eq_exp_minus_1)
  then have lo: "(0x500 OR int n) AND 0xff = int n" by (simp add: bit.conj_disj_distrib2)
  have "v AND push_bit 20 k = push_bit 20 ((0x500 OR int n) AND k)" for k
    unfolding and_v w by (simp only: push_bit_and)
  from this [of "0xf00"] this [of "0xff"]
  have k: "v AND COMMON_TIMEOUT_MASK = COMMON_TIMEOUT_MAGIC" "v AND COMMON_TIMEOUT_IDX_MASK = push_bit 20 (int n)"
    unfolding m(1-3) hi lo by blast+
  show "v AND COMMON_TIMEOUT_MASK = COMMON_TIMEOUT_MAGIC" by (rule k(1))
  show "COMMON_TIMEOUT_IDX (Timeval s v) = n"
    by (simp add: COMMON_TIMEOUT_IDX_def k(2) COMMON_TIMEOUT_IDX_SHIFT_def push_bit_eq_mult drop_bit_eq_div)
  have "take_bit 20 (push_bit 20 x) = 0" for x :: int by (simp add: take_bit_push_bit)
  then have "take_bit 20 w = 0" unfolding w by blast
  then show "v AND MICROSECONDS_MASK = u"
    using u by (simp add: v m(4) flip: take_bit_eq_mask) (simp add: take_bit_int_eq_self)
  have "0x500 OR int n < 2 ^ 12" "0 \<le> 0x500 OR int n" using OR_upper [of "0x500" 12 "int n"] n by simp_all
  then have "0 \<le> w \<and> w < 2 ^ 32" by (simp add: w push_bit_eq_mult)
  then show "usec_32 (Timeval s v)"
    using u OR_upper [of u 32 w] by (simp add: usec_32_def v)
qed

text \<open>A base with one more list: the lists it had keep their numbers.\<close>

lemma timeouts_ok_new_list:
  assumes t: "timeouts_ok b" and c: "ctl_events c = []"
  shows "timeouts_ok (b\<lparr>common_timeout_queues := common_timeout_queues b @ [c]\<rparr>)" (is "timeouts_ok ?b")
proof -
  have com: "is_common_timeout tv b \<Longrightarrow> is_common_timeout tv ?b" for tv
    by (auto simp: is_common_timeout_def split: if_splits)
  have ev: "ctl_events (common_timeout_queues ?b ! i) = (if i < n_common_timeouts b then ctl_events (common_timeout_queues b ! i) else [])"
    if "i < n_common_timeouts ?b" for i
    using that c by (auto simp: nth_append)
  have ex: "(\<exists>i < n_common_timeouts ?b. e \<in> set (ctl_events (common_timeout_queues ?b ! i))) \<longleftrightarrow>
      (\<exists>i < n_common_timeouts b. e \<in> set (ctl_events (common_timeout_queues b ! i)))" for e
  proof
    assume "\<exists>i < n_common_timeouts ?b. e \<in> set (ctl_events (common_timeout_queues ?b ! i))"
    then obtain i where "i < n_common_timeouts ?b" "e \<in> set (ctl_events (common_timeout_queues ?b ! i))" by blast
    then show "\<exists>i < n_common_timeouts b. e \<in> set (ctl_events (common_timeout_queues b ! i))"
      using ev [of i] by (auto split: if_splits)
  next
    assume "\<exists>i < n_common_timeouts b. e \<in> set (ctl_events (common_timeout_queues b ! i))"
    then obtain i where "i < n_common_timeouts b" "e \<in> set (ctl_events (common_timeout_queues b ! i))" by blast
    then show "\<exists>i < n_common_timeouts ?b. e \<in> set (ctl_events (common_timeout_queues ?b ! i))"
      using ev [of i] by (intro exI [of _ i]) simp
  qed
  show ?thesis
    unfolding timeouts_ok_def ex
  proof (intro conjI allI impI ballI)
    fix i
    assume i: "i < n_common_timeouts ?b"
    show "distinct (ctl_events (common_timeout_queues ?b ! i))"
      "sorted (map (\<lambda>e. ev_timeout (evs ?b e)) (ctl_events (common_timeout_queues ?b ! i)))"
      using t unfolding ev [OF i] by (simp_all add: timeouts_ok_def)
    fix e
    assume "e \<in> set (ctl_events (common_timeout_queues ?b ! i))"
    then have "i < n_common_timeouts b" "e \<in> set (ctl_events (common_timeout_queues b ! i))"
      unfolding ev [OF i] by (auto split: if_splits)
    then show "is_common_timeout (ev_timeout (evs ?b e)) ?b" "COMMON_TIMEOUT_IDX (ev_timeout (evs ?b e)) = i"
      "usec_32 (ev_timeout (evs ?b e))"
      using t com by (simp_all add: timeouts_ok_def)
  qed (use t in \<open>simp_all add: timeouts_ok_def\<close>)
qed

lemma base_inv_new_list:
  assumes inv: "base_inv binv view b" and c: "ctl_events c = []"
    and t: "ev_events (evs b (ctl_timeout_event c)) = 0" "tv_small (ev_timeout (evs b (ctl_timeout_event c)))"
  shows "base_inv binv view (b\<lparr>common_timeout_queues := common_timeout_queues b @ [c]\<rparr>)" (is "base_inv _ _ ?b")
proof -
  note q = queues_invD [OF base_invD(1) [OF inv]]
  have "timeouts_ok ?b" by (rule timeouts_ok_new_list [OF q(1) c])
  moreover have "actives_ok ?b" by (rule actives_ok_cong [OF q(2)]) simp_all
  moreover have "counts_ok ?b" "flags_ok ?b" using q(3,4) by (simp_all add: counts_ok_def flag_count_def flags_ok_def)
  moreover have "maps_inv binv view ?b" by (rule maps_inv_cong [OF base_invD(2) [OF inv]]) simp_all
  moreover have "ctls_ok ?b" using base_invD(4) [OF inv] t by (auto simp: ctls_ok_def timers_def)
  moreover have "clock_inv ?b" using base_invD(3) [OF inv] by (simp add: clock_inv_def)
  ultimately show ?thesis by (simp add: base_inv_def queues_inv_def)
qed

text \<open>Marking an event internal while it is on no queue.\<close>

lemma base_inv_internal:
  assumes inv: "base_inv binv view b" and e: "unlisted b e" "e \<notin> timers b"
  shows "base_inv binv view (set_ev_flag EVLIST_INTERNAL e b)"
proof -
  let ?v = "(evs b e)\<lparr>ev_flags := ev_flags (evs b e) OR EVLIST_INTERNAL\<rparr>"
  have "e \<notin> heap_elems (timeheap b)"
    using queues_invD(1) [OF base_invD(1) [OF inv]] e(1) by (auto simp: timeouts_ok_def unlisted_def)
  then have idx: "min_heap_idx ?v = -1"
    using queues_invD(1) [OF base_invD(1) [OF inv]] by (simp add: timeouts_ok_def heap_inv_def)
  have all: "ev_flags ?v AND NOT EVLIST_ALL = 0"
    using queues_invD(4) [OF base_invD(1) [OF inv]] by (simp add: flags_ok_def bit.conj_disj_distrib2)
  have "base_inv binv view (upd_ev e (\<lambda>_. ?v) b)"
    by (rule base_inv_replace [OF inv e idx all]) (use e(1) in \<open>simp_all add: single_bit_set unlisted_def\<close>)
  then show ?thesis by (simp add: set_ev_flag_def upd_ev_def)
qed

lemma init_common_timeout_spec:
  assumes inv: "base_inv binv view b" and t: "unlisted b t" "t \<notin> timers b" and pri: "0 < nactivequeues b"
    and dur: "0 \<le> tv_usec (common_duration b d0)" "tv_usec (common_duration b d0) < 2 ^ 20"
    and old: "find (\<lambda>ctl. tv_sec (common_duration b d0) = tv_sec (ctl_duration ctl) \<and>
       tv_usec (common_duration b d0) = tv_usec (ctl_duration ctl) AND MICROSECONDS_MASK) (common_timeout_queues b) = None"
    and room: "n_common_timeouts b < MAX_COMMON_TIMEOUTS"
  shows "\<exists>b' d. event_base_init_common_timeout True b t d0 = Some (b', Some d) \<and> base_inv binv view b' \<and>
    is_common_timeout d b' \<and> usec_32 d \<and> COMMON_TIMEOUT_IDX d = n_common_timeouts b \<and>
    real_timeout d = common_duration b d0 \<and> n_common_timeouts b' = n_common_timeouts b + 1 \<and>
    timers b' = insert t (timers b) \<and> unlisted b' t"
proof -
  define du where "du = common_duration b d0"
  define d where "d = Timeval (tv_sec du)
    (tv_usec du OR COMMON_TIMEOUT_MAGIC OR push_bit COMMON_TIMEOUT_IDX_SHIFT (int (n_common_timeouts b)))"
  have "n_common_timeouts b < 256" using room by (simp add: MAX_COMMON_TIMEOUTS_def)
  note bt = dur [folded du_def] this
  have bits: "tv_usec d AND COMMON_TIMEOUT_MASK = COMMON_TIMEOUT_MAGIC" "COMMON_TIMEOUT_IDX d = n_common_timeouts b"
    "tv_usec d AND MICROSECONDS_MASK = tv_usec du" "usec_32 d"
    using common_duration_bits [OF bt] by (simp_all add: d_def)
  define z where "z = zeroed_event\<lparr>min_heap_idx := -1\<rparr>"
  define b1 where "b1 = fst (event_assign (upd_ev t (\<lambda>_. zeroed_event) b) t (-1) 0)"
  have "b1 = fst (event_assign (upd_ev t (\<lambda>_. z) b) t (-1) 0)"
    by (simp add: b1_def event_assign_def upd_ev_def z_def Let_def)
  moreover have iz: "base_inv binv view (upd_ev t (\<lambda>_. z) b)"
    by (rule base_inv_replace [OF inv t]) (simp_all add: z_def zeroed_event_def)
  moreover have uz: "unlisted (upd_ev t (\<lambda>_. z) b) t" by (simp add: unlisted_def upd_ev_def z_def zeroed_event_def)
  moreover have tz: "t \<notin> timers (upd_ev t (\<lambda>_. z) b)" using t(2) by (simp add: timers_def)
  ultimately have b1: "base_inv binv view b1" "unlisted b1 t" "ev_events (evs b1 t) = 0" "timers b1 = timers b"
    using event_assign_spec(1,2,4,6) [OF iz uz tz, of "-1" 0 b1 "snd (event_assign (upd_ev t (\<lambda>_. z) b) t (-1) 0)"]
    by (simp_all add: timers_def)
  have small: "tv_small (ev_timeout (evs b1 t))"
    by (simp add: b1_def event_assign_def upd_ev_def zeroed_event_def tv_small_def Let_def)
  have q1: "common_timeout_queues b1 = common_timeout_queues b" "nactivequeues b1 = nactivequeues b"
    by (simp_all add: b1_def event_assign_def Let_def)
  define b2 where "b2 = set_ev_flag EVLIST_INTERNAL t b1"
  have i2: "base_inv binv view b2" unfolding b2_def by (rule base_inv_internal [OF b1(1,2)]) (use t(2) b1(4) in simp)
  have f2: "ev_events (evs b2 t) = 0" "tv_small (ev_timeout (evs b2 t))" "common_timeout_queues b2 = common_timeout_queues b"
    "unlisted b2 t"
    using b1(2,3) small q1 by (simp_all add: b2_def set_clear_put_flag put_flag_has unlisted_def)
  define b3 where "b3 = fst (event_priority_set b2 t 0)"
  note p = event_priority_set_spec [OF i2, of t 0 b3 "snd (event_priority_set b2 t 0)", unfolded b3_def prod.collapse, OF refl, folded b3_def]
  have f3: "ev_events (evs b3 t) = 0" "tv_small (ev_timeout (evs b3 t))" "common_timeout_queues b3 = common_timeout_queues b"
    "unlisted b3 t"
    using f2 p(4,6) by (simp_all add: unlisted_def b3_def event_priority_set_def)
  define b4 where "b4 = b3\<lparr>common_timeout_queues := common_timeout_queues b3 @
      [\<lparr>ctl_events = [], ctl_duration = d, ctl_timeout_event = t\<rparr>]\<rparr>"
  have i4: "base_inv binv view b4"
    unfolding b4_def by (rule base_inv_new_list [OF p(1)]) (use f3 in simp_all)
  have n4: "n_common_timeouts b4 = n_common_timeouts b + 1" "timers b4 = insert t (timers b)" "unlisted b4 t"
    using f3(3,4) by (simp_all add: b4_def timers_def unlisted_def)
  have common: "is_common_timeout d b4"
    using bits(1,2) by (simp add: is_common_timeout_def n4 d_def)
  have run: "event_base_init_common_timeout True b t d0 = Some (b4, Some d)"
    using room old common unfolding event_base_init_common_timeout_def Let_def du_def [symmetric] d_def [symmetric]
    by (simp add: b4_def b3_def b2_def b1_def)
  have "real_timeout d = du" using bits(3) by (cases du) (simp add: real_timeout_def d_def)
  then show ?thesis using run i4 common bits n4 by (auto simp: du_def)
qed

section \<open>The self-check\<close>

text \<open>
  \<open>event_base_assert_ok_nolock_\<close> as a predicate: what it asserts.
  (\<open>EVUTIL_ASSERT_TAILQ_OK\<close> checks that the links of a list close no cycle: \<open>distinct\<close>.)
  \<open>changelist\<close> and \<open>idx_of\<close> are those of \<open>evmap_check_integrity\<close>.
\<close>

definition event_base_assert_ok_nolock :: "('b \<Rightarrow> event_changelist option) \<Rightarrow> ('x \<Rightarrow> nat) \<Rightarrow> ('b, 'x) event_base \<Rightarrow> bool" where
  "event_base_assert_ok_nolock changelist idx_of b \<longleftrightarrow>
     evmap_check_integrity changelist idx_of (evs b) b \<and>
     (\<forall>i \<in> {1..<heap_n (timeheap b)}.
        (let ev = heap_p (timeheap b) ! i; p_ev = heap_p (timeheap b) ! ((i - 1) div 2)
         in has_flag (ev_flags (evs b ev)) EVLIST_TIMEOUT \<and>
            evutil_timercmp (ev_timeout (evs b p_ev)) (ev_timeout (evs b ev)) (\<le>) \<and>
            min_heap_idx (evs b ev) = int i)) \<and>
     (\<forall>i < n_common_timeouts b.
        (let evl = ctl_events (common_timeout_queues b ! i)
         in distinct evl \<and>
            successively (\<lambda>last ev. evutil_timercmp (ev_timeout (evs b last)) (ev_timeout (evs b ev)) (\<le>)) evl \<and>
            list_all (\<lambda>ev. has_flag (ev_flags (evs b ev)) EVLIST_TIMEOUT \<and> is_common_timeout (ev_timeout (evs b ev)) b \<and>
              COMMON_TIMEOUT_IDX (ev_timeout (evs b ev)) = i) evl)) \<and>
     (\<forall>i < nactivequeues b. distinct (activequeues b ! i) \<and>
        list_all (\<lambda>ev. ev_flags (evs b ev) AND (EVLIST_ACTIVE OR EVLIST_ACTIVE_LATER) = EVLIST_ACTIVE \<and>
          ev_pri (evs b ev) = i) (activequeues b ! i)) \<and>
     list_all (\<lambda>ev. ev_flags (evs b ev) AND (EVLIST_ACTIVE OR EVLIST_ACTIVE_LATER) = EVLIST_ACTIVE_LATER)
       (active_later_queue b) \<and>
     int (sum_list (map length (activequeues b)) + length (active_later_queue b)) = event_count_active b"

lemma active_bits:
  "x AND (EVLIST_ACTIVE OR EVLIST_ACTIVE_LATER) = EVLIST_ACTIVE \<longleftrightarrow> has_flag x EVLIST_ACTIVE \<and> \<not> has_flag x EVLIST_ACTIVE_LATER"
  "x AND (EVLIST_ACTIVE OR EVLIST_ACTIVE_LATER) = EVLIST_ACTIVE_LATER \<longleftrightarrow> has_flag x EVLIST_ACTIVE_LATER \<and> \<not> has_flag x EVLIST_ACTIVE"
proof -
  have f: "x AND 8 = flag_if (bit x 3) 8" "x AND 32 = flag_if (bit x 5) 32"
    using and_push_bit_1 [of x 3] and_push_bit_1 [of x 5] by (simp_all add: push_bit_eq_mult)
  have x: "x AND (EVLIST_ACTIVE OR EVLIST_ACTIVE_LATER) = flag_if (bit x 3) 8 OR flag_if (bit x 5) 32"
    unfolding evlist_flag_defs bit.conj_disj_distrib f by (rule refl)
  show "x AND (EVLIST_ACTIVE OR EVLIST_ACTIVE_LATER) = EVLIST_ACTIVE \<longleftrightarrow> has_flag x EVLIST_ACTIVE \<and> \<not> has_flag x EVLIST_ACTIVE_LATER"
    "x AND (EVLIST_ACTIVE OR EVLIST_ACTIVE_LATER) = EVLIST_ACTIVE_LATER \<longleftrightarrow> has_flag x EVLIST_ACTIVE_LATER \<and> \<not> has_flag x EVLIST_ACTIVE"
    unfolding x by (cases "bit x 3"; cases "bit x 5"; simp add: evlist_flag_defs has_flag_bits)+
qed

lemma maps_inv_integrity:
  assumes "maps_inv binv view b"
    and changelist: "\<And>cl m. binv (evbase b) m \<Longrightarrow> changelist (evbase b) = Some cl \<Longrightarrow>
      event_changelist_assert_ok cl (nentries (io b)) (\<lambda>fd. map_option idx_of (m fd)) (\<lambda>_. None)"
  shows "evmap_check_integrity changelist idx_of (evs b) b"
proof -
  have io: "io_map_inv (evs b) b" and sg: "sig_maps_inv (evs b) b" and ins: "inserted_ok b"
    and bi: "binv (evbase b) (fdinfos (io b))"
    using assms(1) by (simp_all add: maps_inv_def io_maps_inv_def backend_agrees_def)
  have "evmap_io_check_integrity (evs b) (int fd) ctx" if "fd < nentries (io b)" "entries (io b) ! fd = Some ctx" for fd ctx
  proof -
    have slot: "map_slot (io b) (int fd) = Some ctx" using that by (simp add: map_slot_def)
    have "io_entry_ok (evs b) (int fd) ctx" using io slot by (simp add: io_map_inv_def)
    moreover have "fl b EVLIST_INSERTED e" if "e \<in> set (io_events ctx)" for e
      using ins that io_list_slot [OF slot] unfolding inserted_ok_def by metis
    ultimately show ?thesis by (simp add: evmap_io_check_integrity_iff)
  qed
  moreover have "evmap_signal_check_integrity (evs b) (int sig) ctx"
    if "sig < nentries (sigmap b)" "entries (sigmap b) ! sig = Some ctx" for sig ctx
  proof -
    have slot: "map_slot (sigmap b) (int sig) = Some ctx" using that by (simp add: map_slot_def)
    then have l: "sig_list b (int sig) = sig_events ctx" by (simp add: sig_list_def)
    have "fl b EVLIST_INSERTED e" if "e \<in> set (sig_events ctx)" for e
      using ins that l unfolding inserted_ok_def by metis
    moreover have "distinct (sig_events ctx) \<and> (\<forall>e \<in> set (sig_events ctx). ev_fd (evs b e) = int sig \<and> sig_event (evs b e))"
      using sg slot by (simp add: sig_maps_inv_def)
    ultimately show ?thesis by (simp add: evmap_signal_check_integrity_def list_all_iff sig_event_def)
  qed
  ultimately show ?thesis using changelist [OF bi] by (simp add: evmap_check_integrity_def split: option.splits)
qed

lemma base_inv_assert_ok:
  assumes inv: "base_inv binv view b"
    and changelist: "\<And>cl m. binv (evbase b) m \<Longrightarrow> changelist (evbase b) = Some cl \<Longrightarrow>
      event_changelist_assert_ok cl (nentries (io b)) (\<lambda>fd. map_option idx_of (m fd)) (\<lambda>_. None)"
  shows "event_base_assert_ok_nolock changelist idx_of b"
proof -
  note t = queues_invD(1) [OF base_invD(1) [OF inv]] and a = queues_invD(2) [OF base_invD(1) [OF inv]]
  have hp: "heap_p (timeheap b) ! i \<in> heap_elems (timeheap b)" if "i < heap_n (timeheap b)" for i
    using that t by (auto simp: heap_elems_def timeouts_ok_def heap_inv_def set_take_conv_nth)
  have "has_flag (ev_flags (evs b (heap_p (timeheap b) ! i))) EVLIST_TIMEOUT \<and>
      ev_timeout (evs b (heap_p (timeheap b) ! ((i - 1) div 2))) \<le> ev_timeout (evs b (heap_p (timeheap b) ! i)) \<and>
      min_heap_idx (evs b (heap_p (timeheap b) ! i)) = int i" if "i \<in> {1..<heap_n (timeheap b)}" for i
    using t that hp [of i] by (auto simp: timeouts_ok_def heap_inv_def heap_order_def heap_layout_def)
  moreover have "distinct evl \<and> successively (\<lambda>x y. ev_timeout (evs b x) \<le> ev_timeout (evs b y)) evl \<and>
      list_all (\<lambda>ev. has_flag (ev_flags (evs b ev)) EVLIST_TIMEOUT \<and> is_common_timeout (ev_timeout (evs b ev)) b \<and>
        COMMON_TIMEOUT_IDX (ev_timeout (evs b ev)) = i) evl"
    if "i < n_common_timeouts b" "evl = ctl_events (common_timeout_queues b ! i)" for i evl
  proof -
    have "sorted (map (\<lambda>e. ev_timeout (evs b e)) evl)" using t that by (simp add: timeouts_ok_def)
    then have "successively (\<lambda>x y. ev_timeout (evs b x) \<le> ev_timeout (evs b y)) evl"
      by (simp add: sorted_map successively_if_sorted_wrt)
    then show ?thesis using t that by (auto simp: timeouts_ok_def list_all_iff)
  qed
  moreover have "\<forall>ev \<in> set (active_later_queue b). \<not> fl b EVLIST_ACTIVE ev" using a by (auto simp: actives_ok_def)
  ultimately show ?thesis
    using a maps_inv_integrity [where changelist = changelist and idx_of = idx_of, OF base_invD(2) [OF inv] changelist]
    by (simp add: event_base_assert_ok_nolock_def Let_def active_bits actives_ok_def list_all_iff timercmp_le)
qed

end
