(* ===== verification/Ev_Epoll_Table.thy ===== *)
theory Ev_Epoll_Table
  imports Ev_Prelude
begin

text \<open>
  The operation table of \<open>epolltable-internal.h\<close>, entry by entry: what to ask of
  \<open>epoll_ctl\<close> (the event mask and the operation) for each combination of the three changes
  and the three old events. Part \<open>k\<close> holds the 64 entries whose old events are \<open>k\<close> (bit 0
  \<open>EV_READ\<close>, bit 1 \<open>EV_WRITE\<close>, bit 2 \<open>EV_CLOSED\<close>). The constants are those of
  \<open>sys/epoll.h\<close> on Linux.
\<close>

section \<open>Constants\<close>

definition EPOLLIN :: u32 where "EPOLLIN = 0x001"
definition EPOLLOUT :: u32 where "EPOLLOUT = 0x004"
definition EPOLLERR :: u32 where "EPOLLERR = 0x008"
definition EPOLLHUP :: u32 where "EPOLLHUP = 0x010"
definition EPOLLRDHUP :: u32 where "EPOLLRDHUP = 0x2000"
definition EPOLLET :: u32 where "EPOLLET = 0x80000000"

definition EPOLL_CTL_ADD :: int where "EPOLL_CTL_ADD = 1"
definition EPOLL_CTL_DEL :: int where "EPOLL_CTL_DEL = 2"
definition EPOLL_CTL_MOD :: int where "EPOLL_CTL_MOD = 3"

lemmas epoll_defs = EPOLLIN_def EPOLLOUT_def EPOLLERR_def EPOLLHUP_def EPOLLRDHUP_def EPOLLET_def
  EPOLL_CTL_ADD_def EPOLL_CTL_DEL_def EPOLL_CTL_MOD_def

section \<open>The table\<close>

text \<open>\<open>struct operation\<close>: the events and the operation.\<close>

type_synonym operation = "u32 \<times> int"

definition epoll_op_table_0 :: "operation list" where
  "epoll_op_table_0 =
    [(0, 0), (EPOLLRDHUP, EPOLL_CTL_ADD), (EPOLLRDHUP, EPOLL_CTL_DEL), (0, 255),
     (EPOLLIN, EPOLL_CTL_ADD), (EPOLLIN OR EPOLLRDHUP, EPOLL_CTL_ADD), (EPOLLIN, EPOLL_CTL_ADD),
     (0, 255), (EPOLLIN, EPOLL_CTL_DEL), (EPOLLRDHUP, EPOLL_CTL_ADD),
     (EPOLLIN OR EPOLLRDHUP, EPOLL_CTL_DEL), (0, 255), (0, 255), (0, 255), (0, 255), (0, 255),
     (EPOLLOUT, EPOLL_CTL_ADD), (EPOLLOUT OR EPOLLRDHUP, EPOLL_CTL_ADD),
     (EPOLLOUT, EPOLL_CTL_ADD), (0, 255), (EPOLLIN OR EPOLLOUT, EPOLL_CTL_ADD),
     (EPOLLIN OR EPOLLOUT OR EPOLLRDHUP, EPOLL_CTL_ADD), (EPOLLIN OR EPOLLOUT, EPOLL_CTL_ADD),
     (0, 255), (EPOLLOUT, EPOLL_CTL_ADD), (EPOLLOUT OR EPOLLRDHUP, EPOLL_CTL_ADD),
     (EPOLLOUT, EPOLL_CTL_ADD), (0, 255), (0, 255), (0, 255), (0, 255), (0, 255),
     (EPOLLOUT, EPOLL_CTL_DEL), (EPOLLRDHUP, EPOLL_CTL_ADD),
     (EPOLLOUT OR EPOLLRDHUP, EPOLL_CTL_DEL), (0, 255), (EPOLLIN, EPOLL_CTL_ADD),
     (EPOLLIN OR EPOLLRDHUP, EPOLL_CTL_ADD), (EPOLLIN, EPOLL_CTL_ADD), (0, 255),
     (EPOLLIN OR EPOLLOUT, EPOLL_CTL_DEL), (EPOLLRDHUP, EPOLL_CTL_ADD),
     (EPOLLIN OR EPOLLOUT OR EPOLLRDHUP, EPOLL_CTL_DEL), (0, 255), (0, 255), (0, 255), (0, 255),
     (0, 255), (0, 255), (0, 255), (0, 255), (0, 255), (0, 255), (0, 255), (0, 255), (0, 255),
     (0, 255), (0, 255), (0, 255), (0, 255), (0, 255), (0, 255), (0, 255), (0, 255)]"

definition epoll_op_table_1 :: "operation list" where
  "epoll_op_table_1 =
    [(0, 0), (EPOLLIN OR EPOLLRDHUP, EPOLL_CTL_MOD), (EPOLLIN, EPOLL_CTL_MOD), (0, 255),
     (EPOLLIN, EPOLL_CTL_MOD), (EPOLLIN OR EPOLLRDHUP, EPOLL_CTL_MOD), (EPOLLIN, EPOLL_CTL_MOD),
     (0, 255), (EPOLLIN, EPOLL_CTL_DEL), (EPOLLRDHUP, EPOLL_CTL_MOD),
     (EPOLLIN OR EPOLLRDHUP, EPOLL_CTL_DEL), (0, 255), (0, 255), (0, 255), (0, 255), (0, 255),
     (EPOLLIN OR EPOLLOUT, EPOLL_CTL_MOD), (EPOLLIN OR EPOLLOUT OR EPOLLRDHUP, EPOLL_CTL_MOD),
     (EPOLLIN OR EPOLLOUT, EPOLL_CTL_MOD), (0, 255), (EPOLLIN OR EPOLLOUT, EPOLL_CTL_MOD),
     (EPOLLIN OR EPOLLOUT OR EPOLLRDHUP, EPOLL_CTL_MOD), (EPOLLIN OR EPOLLOUT, EPOLL_CTL_MOD),
     (0, 255), (EPOLLOUT, EPOLL_CTL_MOD), (EPOLLOUT OR EPOLLRDHUP, EPOLL_CTL_MOD),
     (EPOLLOUT, EPOLL_CTL_MOD), (0, 255), (0, 255), (0, 255), (0, 255), (0, 255),
     (EPOLLIN, EPOLL_CTL_MOD), (EPOLLIN OR EPOLLRDHUP, EPOLL_CTL_MOD), (EPOLLIN, EPOLL_CTL_MOD),
     (0, 255), (EPOLLIN, EPOLL_CTL_MOD), (EPOLLIN OR EPOLLRDHUP, EPOLL_CTL_MOD),
     (EPOLLIN, EPOLL_CTL_MOD), (0, 255), (EPOLLIN OR EPOLLOUT, EPOLL_CTL_DEL),
     (EPOLLRDHUP, EPOLL_CTL_MOD), (EPOLLIN OR EPOLLOUT OR EPOLLRDHUP, EPOLL_CTL_DEL), (0, 255),
     (0, 255), (0, 255), (0, 255), (0, 255), (0, 255), (0, 255), (0, 255), (0, 255), (0, 255),
     (0, 255), (0, 255), (0, 255), (0, 255), (0, 255), (0, 255), (0, 255), (0, 255), (0, 255),
     (0, 255), (0, 255)]"

definition epoll_op_table_2 :: "operation list" where
  "epoll_op_table_2 =
    [(0, 0), (EPOLLOUT OR EPOLLRDHUP, EPOLL_CTL_MOD), (EPOLLOUT, EPOLL_CTL_MOD), (0, 255),
     (EPOLLIN OR EPOLLOUT, EPOLL_CTL_MOD), (EPOLLIN OR EPOLLOUT OR EPOLLRDHUP, EPOLL_CTL_MOD),
     (EPOLLIN OR EPOLLOUT, EPOLL_CTL_MOD), (0, 255), (EPOLLOUT, EPOLL_CTL_MOD),
     (EPOLLOUT OR EPOLLRDHUP, EPOLL_CTL_MOD), (EPOLLOUT, EPOLL_CTL_MOD), (0, 255), (0, 255),
     (0, 255), (0, 255), (0, 255), (EPOLLOUT, EPOLL_CTL_MOD),
     (EPOLLOUT OR EPOLLRDHUP, EPOLL_CTL_MOD), (EPOLLOUT, EPOLL_CTL_MOD), (0, 255),
     (EPOLLIN OR EPOLLOUT, EPOLL_CTL_MOD), (EPOLLIN OR EPOLLOUT OR EPOLLRDHUP, EPOLL_CTL_MOD),
     (EPOLLIN OR EPOLLOUT, EPOLL_CTL_MOD), (0, 255), (EPOLLOUT, EPOLL_CTL_MOD),
     (EPOLLOUT OR EPOLLRDHUP, EPOLL_CTL_MOD), (EPOLLOUT, EPOLL_CTL_MOD), (0, 255), (0, 255),
     (0, 255), (0, 255), (0, 255), (EPOLLOUT, EPOLL_CTL_DEL), (EPOLLRDHUP, EPOLL_CTL_MOD),
     (EPOLLOUT OR EPOLLRDHUP, EPOLL_CTL_DEL), (0, 255), (EPOLLIN, EPOLL_CTL_MOD),
     (EPOLLIN OR EPOLLRDHUP, EPOLL_CTL_MOD), (EPOLLIN, EPOLL_CTL_MOD), (0, 255),
     (EPOLLIN OR EPOLLOUT, EPOLL_CTL_DEL), (EPOLLRDHUP, EPOLL_CTL_MOD),
     (EPOLLIN OR EPOLLOUT OR EPOLLRDHUP, EPOLL_CTL_DEL), (0, 255), (0, 255), (0, 255), (0, 255),
     (0, 255), (0, 255), (0, 255), (0, 255), (0, 255), (0, 255), (0, 255), (0, 255), (0, 255),
     (0, 255), (0, 255), (0, 255), (0, 255), (0, 255), (0, 255), (0, 255), (0, 255)]"

definition epoll_op_table_3 :: "operation list" where
  "epoll_op_table_3 =
    [(0, 0), (EPOLLIN OR EPOLLOUT OR EPOLLRDHUP, EPOLL_CTL_MOD),
     (EPOLLIN OR EPOLLOUT, EPOLL_CTL_MOD), (0, 255), (EPOLLIN OR EPOLLOUT, EPOLL_CTL_MOD),
     (EPOLLIN OR EPOLLOUT OR EPOLLRDHUP, EPOLL_CTL_MOD), (EPOLLIN OR EPOLLOUT, EPOLL_CTL_MOD),
     (0, 255), (EPOLLOUT, EPOLL_CTL_MOD), (EPOLLOUT OR EPOLLRDHUP, EPOLL_CTL_MOD),
     (EPOLLOUT, EPOLL_CTL_MOD), (0, 255), (0, 255), (0, 255), (0, 255), (0, 255),
     (EPOLLIN OR EPOLLOUT, EPOLL_CTL_MOD), (EPOLLIN OR EPOLLOUT OR EPOLLRDHUP, EPOLL_CTL_MOD),
     (EPOLLIN OR EPOLLOUT, EPOLL_CTL_MOD), (0, 255), (EPOLLIN OR EPOLLOUT, EPOLL_CTL_MOD),
     (EPOLLIN OR EPOLLOUT OR EPOLLRDHUP, EPOLL_CTL_MOD), (EPOLLIN OR EPOLLOUT, EPOLL_CTL_MOD),
     (0, 255), (EPOLLOUT, EPOLL_CTL_MOD), (EPOLLOUT OR EPOLLRDHUP, EPOLL_CTL_MOD),
     (EPOLLOUT, EPOLL_CTL_MOD), (0, 255), (0, 255), (0, 255), (0, 255), (0, 255),
     (EPOLLIN, EPOLL_CTL_MOD), (EPOLLIN OR EPOLLRDHUP, EPOLL_CTL_MOD), (EPOLLIN, EPOLL_CTL_MOD),
     (0, 255), (EPOLLIN, EPOLL_CTL_MOD), (EPOLLIN OR EPOLLRDHUP, EPOLL_CTL_MOD),
     (EPOLLIN, EPOLL_CTL_MOD), (0, 255), (EPOLLIN OR EPOLLOUT, EPOLL_CTL_DEL),
     (EPOLLRDHUP, EPOLL_CTL_MOD), (EPOLLIN OR EPOLLOUT OR EPOLLRDHUP, EPOLL_CTL_DEL), (0, 255),
     (0, 255), (0, 255), (0, 255), (0, 255), (0, 255), (0, 255), (0, 255), (0, 255), (0, 255),
     (0, 255), (0, 255), (0, 255), (0, 255), (0, 255), (0, 255), (0, 255), (0, 255), (0, 255),
     (0, 255), (0, 255)]"

definition epoll_op_table_4 :: "operation list" where
  "epoll_op_table_4 =
    [(0, 0), (EPOLLRDHUP, EPOLL_CTL_MOD), (EPOLLRDHUP, EPOLL_CTL_DEL), (0, 255),
     (EPOLLIN OR EPOLLRDHUP, EPOLL_CTL_MOD), (EPOLLIN OR EPOLLRDHUP, EPOLL_CTL_MOD),
     (EPOLLIN, EPOLL_CTL_MOD), (0, 255), (EPOLLRDHUP, EPOLL_CTL_MOD), (EPOLLRDHUP, EPOLL_CTL_MOD),
     (EPOLLIN OR EPOLLRDHUP, EPOLL_CTL_DEL), (0, 255), (0, 255), (0, 255), (0, 255), (0, 255),
     (EPOLLOUT OR EPOLLRDHUP, EPOLL_CTL_MOD), (EPOLLOUT OR EPOLLRDHUP, EPOLL_CTL_MOD),
     (EPOLLOUT, EPOLL_CTL_MOD), (0, 255), (EPOLLIN OR EPOLLOUT OR EPOLLRDHUP, EPOLL_CTL_MOD),
     (EPOLLIN OR EPOLLOUT OR EPOLLRDHUP, EPOLL_CTL_MOD), (EPOLLIN OR EPOLLOUT, EPOLL_CTL_MOD),
     (0, 255), (EPOLLOUT OR EPOLLRDHUP, EPOLL_CTL_MOD), (EPOLLOUT OR EPOLLRDHUP, EPOLL_CTL_MOD),
     (EPOLLOUT, EPOLL_CTL_MOD), (0, 255), (0, 255), (0, 255), (0, 255), (0, 255),
     (EPOLLRDHUP, EPOLL_CTL_MOD), (EPOLLRDHUP, EPOLL_CTL_MOD),
     (EPOLLOUT OR EPOLLRDHUP, EPOLL_CTL_DEL), (0, 255), (EPOLLIN OR EPOLLRDHUP, EPOLL_CTL_MOD),
     (EPOLLIN OR EPOLLRDHUP, EPOLL_CTL_MOD), (EPOLLIN, EPOLL_CTL_MOD), (0, 255),
     (EPOLLRDHUP, EPOLL_CTL_MOD), (EPOLLRDHUP, EPOLL_CTL_MOD),
     (EPOLLIN OR EPOLLOUT OR EPOLLRDHUP, EPOLL_CTL_DEL), (0, 255), (0, 255), (0, 255), (0, 255),
     (0, 255), (0, 255), (0, 255), (0, 255), (0, 255), (0, 255), (0, 255), (0, 255), (0, 255),
     (0, 255), (0, 255), (0, 255), (0, 255), (0, 255), (0, 255), (0, 255), (0, 255)]"

definition epoll_op_table_5 :: "operation list" where
  "epoll_op_table_5 =
    [(0, 0), (EPOLLIN OR EPOLLRDHUP, EPOLL_CTL_MOD), (EPOLLIN, EPOLL_CTL_MOD), (0, 255),
     (EPOLLIN OR EPOLLRDHUP, EPOLL_CTL_MOD), (EPOLLIN OR EPOLLRDHUP, EPOLL_CTL_MOD),
     (EPOLLIN, EPOLL_CTL_MOD), (0, 255), (EPOLLRDHUP, EPOLL_CTL_MOD), (EPOLLRDHUP, EPOLL_CTL_MOD),
     (EPOLLIN OR EPOLLRDHUP, EPOLL_CTL_DEL), (0, 255), (0, 255), (0, 255), (0, 255), (0, 255),
     (EPOLLIN OR EPOLLOUT OR EPOLLRDHUP, EPOLL_CTL_MOD),
     (EPOLLIN OR EPOLLOUT OR EPOLLRDHUP, EPOLL_CTL_MOD), (EPOLLIN OR EPOLLOUT, EPOLL_CTL_MOD),
     (0, 255), (EPOLLIN OR EPOLLOUT OR EPOLLRDHUP, EPOLL_CTL_MOD),
     (EPOLLIN OR EPOLLOUT OR EPOLLRDHUP, EPOLL_CTL_MOD), (EPOLLIN OR EPOLLOUT, EPOLL_CTL_MOD),
     (0, 255), (EPOLLOUT OR EPOLLRDHUP, EPOLL_CTL_MOD), (EPOLLOUT OR EPOLLRDHUP, EPOLL_CTL_MOD),
     (EPOLLOUT, EPOLL_CTL_MOD), (0, 255), (0, 255), (0, 255), (0, 255), (0, 255),
     (EPOLLIN OR EPOLLRDHUP, EPOLL_CTL_MOD), (EPOLLIN OR EPOLLRDHUP, EPOLL_CTL_MOD),
     (EPOLLIN, EPOLL_CTL_MOD), (0, 255), (EPOLLIN OR EPOLLRDHUP, EPOLL_CTL_MOD),
     (EPOLLIN OR EPOLLRDHUP, EPOLL_CTL_MOD), (EPOLLIN, EPOLL_CTL_MOD), (0, 255),
     (EPOLLRDHUP, EPOLL_CTL_MOD), (EPOLLRDHUP, EPOLL_CTL_MOD),
     (EPOLLIN OR EPOLLOUT OR EPOLLRDHUP, EPOLL_CTL_DEL), (0, 255), (0, 255), (0, 255), (0, 255),
     (0, 255), (0, 255), (0, 255), (0, 255), (0, 255), (0, 255), (0, 255), (0, 255), (0, 255),
     (0, 255), (0, 255), (0, 255), (0, 255), (0, 255), (0, 255), (0, 255), (0, 255)]"

definition epoll_op_table_6 :: "operation list" where
  "epoll_op_table_6 =
    [(0, 0), (EPOLLOUT OR EPOLLRDHUP, EPOLL_CTL_MOD), (EPOLLOUT, EPOLL_CTL_MOD), (0, 255),
     (EPOLLIN OR EPOLLOUT OR EPOLLRDHUP, EPOLL_CTL_MOD),
     (EPOLLIN OR EPOLLOUT OR EPOLLRDHUP, EPOLL_CTL_MOD), (EPOLLIN OR EPOLLOUT, EPOLL_CTL_MOD),
     (0, 255), (EPOLLOUT OR EPOLLRDHUP, EPOLL_CTL_MOD), (EPOLLOUT OR EPOLLRDHUP, EPOLL_CTL_MOD),
     (EPOLLOUT, EPOLL_CTL_MOD), (0, 255), (0, 255), (0, 255), (0, 255), (0, 255),
     (EPOLLOUT OR EPOLLRDHUP, EPOLL_CTL_MOD), (EPOLLOUT OR EPOLLRDHUP, EPOLL_CTL_MOD),
     (EPOLLOUT, EPOLL_CTL_MOD), (0, 255), (EPOLLIN OR EPOLLOUT OR EPOLLRDHUP, EPOLL_CTL_MOD),
     (EPOLLIN OR EPOLLOUT OR EPOLLRDHUP, EPOLL_CTL_MOD), (EPOLLIN OR EPOLLOUT, EPOLL_CTL_MOD),
     (0, 255), (EPOLLOUT OR EPOLLRDHUP, EPOLL_CTL_MOD), (EPOLLOUT OR EPOLLRDHUP, EPOLL_CTL_MOD),
     (EPOLLOUT, EPOLL_CTL_MOD), (0, 255), (0, 255), (0, 255), (0, 255), (0, 255),
     (EPOLLRDHUP, EPOLL_CTL_MOD), (EPOLLRDHUP, EPOLL_CTL_MOD),
     (EPOLLOUT OR EPOLLRDHUP, EPOLL_CTL_DEL), (0, 255), (EPOLLIN OR EPOLLRDHUP, EPOLL_CTL_MOD),
     (EPOLLIN OR EPOLLRDHUP, EPOLL_CTL_MOD), (EPOLLIN, EPOLL_CTL_MOD), (0, 255),
     (EPOLLRDHUP, EPOLL_CTL_MOD), (EPOLLRDHUP, EPOLL_CTL_MOD),
     (EPOLLIN OR EPOLLOUT OR EPOLLRDHUP, EPOLL_CTL_DEL), (0, 255), (0, 255), (0, 255), (0, 255),
     (0, 255), (0, 255), (0, 255), (0, 255), (0, 255), (0, 255), (0, 255), (0, 255), (0, 255),
     (0, 255), (0, 255), (0, 255), (0, 255), (0, 255), (0, 255), (0, 255), (0, 255)]"

definition epoll_op_table_7 :: "operation list" where
  "epoll_op_table_7 =
    [(0, 0), (EPOLLIN OR EPOLLOUT OR EPOLLRDHUP, EPOLL_CTL_MOD),
     (EPOLLIN OR EPOLLOUT, EPOLL_CTL_MOD), (0, 255),
     (EPOLLIN OR EPOLLOUT OR EPOLLRDHUP, EPOLL_CTL_MOD),
     (EPOLLIN OR EPOLLOUT OR EPOLLRDHUP, EPOLL_CTL_MOD), (EPOLLIN OR EPOLLOUT, EPOLL_CTL_MOD),
     (0, 255), (EPOLLOUT OR EPOLLRDHUP, EPOLL_CTL_MOD), (EPOLLOUT OR EPOLLRDHUP, EPOLL_CTL_MOD),
     (EPOLLOUT, EPOLL_CTL_MOD), (0, 255), (0, 255), (0, 255), (0, 255), (0, 255),
     (EPOLLIN OR EPOLLOUT OR EPOLLRDHUP, EPOLL_CTL_MOD),
     (EPOLLIN OR EPOLLOUT OR EPOLLRDHUP, EPOLL_CTL_MOD), (EPOLLIN OR EPOLLOUT, EPOLL_CTL_MOD),
     (0, 255), (EPOLLIN OR EPOLLOUT OR EPOLLRDHUP, EPOLL_CTL_MOD),
     (EPOLLIN OR EPOLLOUT OR EPOLLRDHUP, EPOLL_CTL_MOD), (EPOLLIN OR EPOLLOUT, EPOLL_CTL_MOD),
     (0, 255), (EPOLLOUT OR EPOLLRDHUP, EPOLL_CTL_MOD), (EPOLLOUT OR EPOLLRDHUP, EPOLL_CTL_MOD),
     (EPOLLOUT, EPOLL_CTL_MOD), (0, 255), (0, 255), (0, 255), (0, 255), (0, 255),
     (EPOLLIN OR EPOLLRDHUP, EPOLL_CTL_MOD), (EPOLLIN OR EPOLLRDHUP, EPOLL_CTL_MOD),
     (EPOLLIN, EPOLL_CTL_MOD), (0, 255), (EPOLLIN OR EPOLLRDHUP, EPOLL_CTL_MOD),
     (EPOLLIN OR EPOLLRDHUP, EPOLL_CTL_MOD), (EPOLLIN, EPOLL_CTL_MOD), (0, 255),
     (EPOLLRDHUP, EPOLL_CTL_MOD), (EPOLLRDHUP, EPOLL_CTL_MOD),
     (EPOLLIN OR EPOLLOUT OR EPOLLRDHUP, EPOLL_CTL_DEL), (0, 255), (0, 255), (0, 255), (0, 255),
     (0, 255), (0, 255), (0, 255), (0, 255), (0, 255), (0, 255), (0, 255), (0, 255), (0, 255),
     (0, 255), (0, 255), (0, 255), (0, 255), (0, 255), (0, 255), (0, 255), (0, 255)]"

definition epoll_op_table :: "operation list" where
  "epoll_op_table = epoll_op_table_0 @ epoll_op_table_1 @ epoll_op_table_2 @ epoll_op_table_3 @
     epoll_op_table_4 @ epoll_op_table_5 @ epoll_op_table_6 @ epoll_op_table_7"

end
