(* ===== verification/Ev_Epoll.thy ===== *)
theory Ev_Epoll
  imports Ev_Epoll_Table Ev_Changelist
begin

text \<open>
  The epoll backend of \<open>epoll.c\<close>: the translation of a change to an \<open>epoll_ctl\<close> call
  through the operation table, the retries when the kernel's view differs, and the dispatch
  of the kernel's events. The two system calls are parameters: \<open>ctl\<close> gives the kernel's new
  state and \<open>None\<close> for success or \<open>Some errno\<close>; the configuration modelled is the one with
  \<open>EPOLLRDHUP\<close> and without \<open>timerfd\<close> (\<open>USING_TIMERFD\<close> undefined).
\<close>

section \<open>Applying a change\<close>

definition ENOENT :: int where "ENOENT = 2"
definition EPERM :: int where "EPERM = 1"
definition EINTR :: int where "EINTR = 4"
definition EBADF :: int where "EBADF = 9"
definition EEXIST :: int where "EEXIST = 17"

type_synonym 'k epoll_ctl = "'k \<Rightarrow> int \<Rightarrow> int \<Rightarrow> u32 \<Rightarrow> 'k \<times> int option"

definition EPOLL_OP_TABLE_INDEX :: "event_change \<Rightarrow> nat" where
  "EPOLL_OP_TABLE_INDEX c = unat
     ((ucast (close_change c AND (EV_CHANGE_ADD OR EV_CHANGE_DEL)) :: u32) OR
      push_bit 2 (ucast (read_change c AND (EV_CHANGE_ADD OR EV_CHANGE_DEL))) OR
      push_bit 4 (ucast (write_change c AND (EV_CHANGE_ADD OR EV_CHANGE_DEL))) OR
      push_bit 5 (ucast (old_events c AND (EV_READ OR EV_WRITE))) OR
      push_bit 1 (ucast (old_events c AND EV_CLOSED)))"

text \<open>\<open>None\<close> is the failure of \<open>EVUTIL_ASSERT(op == 0)\<close>.\<close>

definition epoll_apply_one_change :: "'k epoll_ctl \<Rightarrow> 'k \<Rightarrow> event_change \<Rightarrow> ('k \<times> int) option" where
  "epoll_apply_one_change ctl k ch =
     (let idx = EPOLL_OP_TABLE_INDEX ch;
          op = snd (epoll_op_table ! idx);
          events = fst (epoll_op_table ! idx)
      in if events = 0 then (if op = 0 then Some (k, 0) else None)
         else
           (let events' = (if has_flag (read_change ch OR write_change ch OR close_change ch) EV_CHANGE_ET
                           then events OR EPOLLET else events)
            in case ctl k op (ch_fd ch) events' of
                 (k1, None) \<Rightarrow> Some (k1, 0)
               | (k1, Some errno) \<Rightarrow>
                   (if op = EPOLL_CTL_MOD \<and> errno = ENOENT then
                      (case ctl k1 EPOLL_CTL_ADD (ch_fd ch) events' of
                         (k2, Some _) \<Rightarrow> Some (k2, -1)
                       | (k2, None) \<Rightarrow> Some (k2, 0))
                    else if op = EPOLL_CTL_ADD \<and> errno = EEXIST then
                      (case ctl k1 EPOLL_CTL_MOD (ch_fd ch) events' of
                         (k2, Some _) \<Rightarrow> Some (k2, -1)
                       | (k2, None) \<Rightarrow> Some (k2, 0))
                    else if op = EPOLL_CTL_DEL \<and> (errno = ENOENT \<or> errno = EBADF \<or> errno = EPERM) then
                      Some (k1, 0)
                    else Some (k1, -1))))"

fun epoll_apply_list :: "'k epoll_ctl \<Rightarrow> 'k \<Rightarrow> event_change list \<Rightarrow> int \<Rightarrow> ('k \<times> int) option" where
  "epoll_apply_list ctl k [] r = Some (k, r)"
| "epoll_apply_list ctl k (ch # chs) r =
     (case epoll_apply_one_change ctl k ch of
        None \<Rightarrow> None
      | Some (k', r') \<Rightarrow> epoll_apply_list ctl k' chs (if r' < 0 then -1 else r))"

definition epoll_apply_changes :: "'k epoll_ctl \<Rightarrow> 'k \<Rightarrow> event_changelist \<Rightarrow> ('k \<times> int) option" where
  "epoll_apply_changes ctl k cl = epoll_apply_list ctl k (take (n_changes cl) (changes cl)) 0"

text \<open>The change \<open>epoll_nochangelist_add\<close> and \<open>epoll_nochangelist_del\<close> build on the stack.\<close>

definition nochangelist_change :: "byte \<Rightarrow> int \<Rightarrow> short \<Rightarrow> short \<Rightarrow> event_change" where
  "nochangelist_change what fd old events =
     (let field = (\<lambda>ev. if has_flag events ev then what OR ucast (events AND EV_ET) else 0)
      in \<lparr>ch_fd = fd, old_events = old, read_change = field EV_READ, write_change = field EV_WRITE,
          close_change = field EV_CLOSED\<rparr>)"

definition epoll_nochangelist_add :: "'k epoll_ctl \<Rightarrow> 'k \<Rightarrow> int \<Rightarrow> short \<Rightarrow> short \<Rightarrow> ('k \<times> int) option" where
  "epoll_nochangelist_add ctl k fd old events =
     epoll_apply_one_change ctl k (nochangelist_change EV_CHANGE_ADD fd old events)"

definition epoll_nochangelist_del :: "'k epoll_ctl \<Rightarrow> 'k \<Rightarrow> int \<Rightarrow> short \<Rightarrow> short \<Rightarrow> ('k \<times> int) option" where
  "epoll_nochangelist_del ctl k fd old events =
     epoll_apply_one_change ctl k (nochangelist_change EV_CHANGE_DEL fd old events)"

section \<open>Dispatch\<close>

definition MAX_EPOLL_TIMEOUT_MSEC :: int where "MAX_EPOLL_TIMEOUT_MSEC = 35 * 60 * 1000"
definition INITIAL_NEVENT :: nat where "INITIAL_NEVENT = 32"
definition MAX_NEVENT :: nat where "MAX_NEVENT = 4096"

record epollop =
  nevents :: nat
  epfd :: int

definition epoll_timeout :: "timeval option \<Rightarrow> int" where
  "epoll_timeout tv =
     (case tv of
        None \<Rightarrow> -1
      | Some t \<Rightarrow>
          (let timeout = evutil_tv_to_msec t
           in if timeout < 0 \<or> timeout > MAX_EPOLL_TIMEOUT_MSEC then MAX_EPOLL_TIMEOUT_MSEC else timeout))"

definition epoll_what_to_ev :: "u32 \<Rightarrow> short" where
  "epoll_what_to_ev what =
     (if has_flag what EPOLLERR then EV_READ OR EV_WRITE
      else if has_flag what EPOLLHUP \<and> \<not> has_flag what EPOLLRDHUP then EV_READ OR EV_WRITE
      else flag_if (has_flag what EPOLLIN) EV_READ OR flag_if (has_flag what EPOLLOUT) EV_WRITE OR
           flag_if (has_flag what EPOLLRDHUP) EV_CLOSED)"

text \<open>
  What a report of the kernel means for an event, said without the code: an error, or a hang-up of
  both sides, concerns the events that read and those that write; otherwise each reported kind
  concerns the events that wait for it.
\<close>

definition epoll_ready :: "u32 \<Rightarrow> short \<Rightarrow> bool" where
  "epoll_ready what evs \<longleftrightarrow>
     (let broken = has_flag what EPOLLERR \<or> has_flag what EPOLLHUP \<and> \<not> has_flag what EPOLLRDHUP
      in has_flag evs EV_READ \<and> (broken \<or> has_flag what EPOLLIN) \<or>
         has_flag evs EV_WRITE \<and> (broken \<or> has_flag what EPOLLOUT) \<or>
         has_flag evs EV_CLOSED \<and> \<not> broken \<and> has_flag what EPOLLRDHUP)"

lemma epoll_ready_what:
  "has_flag evs ((epoll_what_to_ev what OR EV_ET) AND NOT EV_ET) = epoll_ready what evs"
  "epoll_what_to_ev what = 0 \<Longrightarrow> \<not> epoll_ready what evs"
proof -
  have m: "(io_mask r w c OR EV_ET) AND NOT EV_ET = io_mask r w c" for r w c
    by (cases r; cases w; cases c; simp add: io_mask_def ev_flag_defs)
  define broken where "broken \<longleftrightarrow> has_flag what EPOLLERR \<or> has_flag what EPOLLHUP \<and> \<not> has_flag what EPOLLRDHUP"
  have w: "epoll_what_to_ev what = io_mask (broken \<or> has_flag what EPOLLIN) (broken \<or> has_flag what EPOLLOUT)
      (\<not> broken \<and> has_flag what EPOLLRDHUP)"
    by (auto simp: epoll_what_to_ev_def broken_def io_mask_def)
  have f: "has_flag evs (io_mask r w c) \<longleftrightarrow> has_flag evs EV_READ \<and> r \<or> has_flag evs EV_WRITE \<and> w \<or> has_flag evs EV_CLOSED \<and> c" for r w c
    by (cases r; cases w; cases c; simp add: io_mask_def has_flag_or)
  show e: "has_flag evs ((epoll_what_to_ev what OR EV_ET) AND NOT EV_ET) = epoll_ready what evs"
    unfolding w m by (simp add: f epoll_ready_def broken_def Let_def)
  show "epoll_what_to_ev what = 0 \<Longrightarrow> \<not> epoll_ready what evs"
    using e by (auto simp: has_flag_def)
qed

text \<open>
  \<open>epoll_wait\<close> returns an error number or the events, at most as many as asked for. The
  result holds the calls of \<open>evmap_io_active_\<close> in their order, with the flags passed.
\<close>

type_synonym 'k epoll_wait = "'k \<Rightarrow> nat \<Rightarrow> int \<Rightarrow> 'k \<times> (int + (int \<times> u32) list)"

definition epoll_activations :: "(int \<times> u32) list \<Rightarrow> (int \<times> short) list" where
  "epoll_activations evs =
     map (\<lambda>(fd, what). (fd, epoll_what_to_ev what OR EV_ET))
       (filter (\<lambda>(fd, what). epoll_what_to_ev what \<noteq> 0) evs)"

definition epoll_grow_events :: "(nat \<Rightarrow> bool) \<Rightarrow> epollop \<Rightarrow> nat \<Rightarrow> epollop" where
  "epoll_grow_events realloc_ok ep res =
     (if res = nevents ep \<and> nevents ep < MAX_NEVENT then
        (let new_nevents = nevents ep * 2
         in if realloc_ok (new_nevents * 12) then ep\<lparr>nevents := new_nevents\<rparr> else ep)
      else ep)"

record 'k epoll_result =
  er_op :: epollop
  er_kernel :: 'k
  er_changelist :: event_changelist
  er_io :: fdinfo_map
  er_sigs :: fdinfo_map
  er_active :: "(int \<times> short) list"
  er_ret :: int

definition epoll_dispatch ::
  "(nat \<Rightarrow> bool) \<Rightarrow> 'k epoll_ctl \<Rightarrow> 'k epoll_wait \<Rightarrow> epollop \<Rightarrow> 'k \<Rightarrow> event_changelist \<Rightarrow> fdinfo_map
   \<Rightarrow> fdinfo_map \<Rightarrow> timeval option \<Rightarrow> 'k epoll_result option"
where
  "epoll_dispatch realloc_ok ctl wait ep k cl io sigs tv =
     (case epoll_apply_changes ctl k cl of
        None \<Rightarrow> None
      | Some (k1, _) \<Rightarrow>
          (case event_changelist_remove_all cl io sigs of
             None \<Rightarrow> None
           | Some (cl', io', sigs') \<Rightarrow>
               (case wait k1 (nevents ep) (epoll_timeout tv) of
                  (k2, Inl errno) \<Rightarrow>
                    Some \<lparr>er_op = ep, er_kernel = k2, er_changelist = cl', er_io = io', er_sigs = sigs',
                          er_active = [], er_ret = (if errno \<noteq> EINTR then -1 else 0)\<rparr>
                | (k2, Inr evs) \<Rightarrow>
                    (if \<not> length evs \<le> nevents ep then None
                     else Some \<lparr>er_op = epoll_grow_events realloc_ok ep (length evs), er_kernel = k2,
                            er_changelist = cl', er_io = io', er_sigs = sigs',
                            er_active = epoll_activations evs, er_ret = 0\<rparr>))))"

section \<open>The table computes one rule\<close>

text \<open>
  The rule of the table, as a function of the changes \<open>(add, del)\<close> and the old events for
  reading, writing and closing. The comment of the table describes it for reading and writing, and
  with -1 where the entries hold 255.
\<close>

definition epoll_mask :: "bool \<Rightarrow> bool \<Rightarrow> bool \<Rightarrow> u32" where
  "epoll_mask r w c = flag_if r EPOLLIN OR flag_if w EPOLLOUT OR flag_if c EPOLLRDHUP"

definition epoll_rule ::
  "bool \<times> bool \<Rightarrow> bool \<times> bool \<Rightarrow> bool \<times> bool \<Rightarrow> bool \<Rightarrow> bool \<Rightarrow> bool \<Rightarrow> operation"
where
  "epoll_rule = (\<lambda>(ca, cd) (ra, rd) (wa, wd) r0 w0 c0.
     (if ca \<and> cd \<or> ra \<and> rd \<or> wa \<and> wd then (0, 255)
      else if \<not> (ca \<or> cd \<or> ra \<or> rd \<or> wa \<or> wd) then (0, 0)
      else
        (let r = (ra \<or> r0) \<and> \<not> rd; w = (wa \<or> w0) \<and> \<not> wd; c = (ca \<or> c0) \<and> \<not> cd
         in if \<not> (r \<or> w \<or> c) then (epoll_mask rd wd cd, EPOLL_CTL_DEL)
            else if \<not> (r0 \<or> w0 \<or> c0) then (epoll_mask r w c, EPOLL_CTL_ADD)
            else (epoll_mask r w c, EPOLL_CTL_MOD))))"

definition bool_index :: "bool list \<Rightarrow> nat" where
  "bool_index bs = foldr (\<lambda>b n. of_bool b + 2 * n) bs 0"

text \<open>All lists of \<open>n\<close> booleans in the order of their index.\<close>

fun idx_lists :: "nat \<Rightarrow> bool list list" where
  "idx_lists 0 = [[]]"
| "idx_lists (Suc n) = concat (map (\<lambda>bs. [False # bs, True # bs]) (idx_lists n))"

definition rule_of_bools :: "bool list \<Rightarrow> operation" where
  "rule_of_bools bs = (case bs of
     [b0, b1, b2, b3, b4, b5, b6, b7, b8] \<Rightarrow> epoll_rule (b0, b1) (b2, b3) (b4, b5) b6 b7 b8
   | _ \<Rightarrow> (0, 0))"

lemma table_eq_rule_list: "epoll_op_table = map rule_of_bools (idx_lists 9)"
  by code_simp

lemma nth_concat_pairs:
  "i < length xs \<Longrightarrow> concat (map (\<lambda>x. [f x, g x]) xs) ! (2 * i) = f (xs ! i)"
  "i < length xs \<Longrightarrow> concat (map (\<lambda>x. [f x, g x]) xs) ! (Suc (2 * i)) = g (xs ! i)"
  by (induction xs arbitrary: i) (auto simp: nth_Cons split: nat.splits)

lemma length_idx_lists: "length (idx_lists n) = 2 ^ n"
  by (induction n) (simp_all add: length_concat comp_def sum_list_triv)

lemma bool_index_less: "bool_index bs < 2 ^ length bs"
  by (induction bs) (auto simp: bool_index_def)

lemma nth_idx_lists: "idx_lists (length bs) ! bool_index bs = bs"
proof (induction bs)
  case (Cons b bs)
  have "bool_index (b # bs) = (if b then Suc (2 * bool_index bs) else 2 * bool_index bs)"
    by (simp add: bool_index_def)
  then show ?case
    using Cons bool_index_less [of bs] by (simp add: nth_concat_pairs length_idx_lists)
qed (simp add: bool_index_def)

lemma table_eq_rule:
  "epoll_op_table ! bool_index [b0, b1, b2, b3, b4, b5, b6, b7, b8] =
   epoll_rule (b0, b1) (b2, b3) (b4, b5) b6 b7 b8"
proof -
  let ?bs = "[b0, b1, b2, b3, b4, b5, b6, b7, b8]"
  have "idx_lists 9 ! bool_index ?bs = ?bs" "bool_index ?bs < length (idx_lists 9)"
    using nth_idx_lists [of ?bs] bool_index_less [of ?bs] unfolding length_idx_lists
    by (simp_all add: eval_nat_numeral)
  then show ?thesis by (simp only: table_eq_rule_list nth_map) (simp add: rule_of_bools_def)
qed

lemma unat_flags:
  "unat (flag_if b0 1 OR flag_if b1 2 OR flag_if b2 4 OR flag_if b3 8 OR flag_if b4 16 OR flag_if b5 32 OR
     flag_if b6 64 OR flag_if b7 128 OR flag_if b8 256 :: u32) = bool_index [b0, b1, b2, b3, b4, b5, b6, b7, b8]"
  by (cases b0; cases b1; cases b2; cases b3; cases b4; cases b5; cases b6; cases b7; cases b8)
    (simp_all add: bool_index_def)

lemma op_table_index:
  "EPOLL_OP_TABLE_INDEX c = bool_index
     [has_flag (close_change c) EV_CHANGE_ADD, has_flag (close_change c) EV_CHANGE_DEL,
      has_flag (read_change c) EV_CHANGE_ADD, has_flag (read_change c) EV_CHANGE_DEL,
      has_flag (write_change c) EV_CHANGE_ADD, has_flag (write_change c) EV_CHANGE_DEL,
      has_flag (old_events c) EV_READ, has_flag (old_events c) EV_WRITE, has_flag (old_events c) EV_CLOSED]"
  unfolding EPOLL_OP_TABLE_INDEX_def unat_flags [symmetric] change_flag_defs ev_flag_defs
    bit.conj_disj_distrib and_flag unsigned_or_eq push_bit_or flag_if_map
  by (simp add: push_bit_eq_mult or.assoc)

lemma op_table_entry:
  "epoll_op_table ! EPOLL_OP_TABLE_INDEX c =
   epoll_rule (has_flag (close_change c) EV_CHANGE_ADD, has_flag (close_change c) EV_CHANGE_DEL)
     (has_flag (read_change c) EV_CHANGE_ADD, has_flag (read_change c) EV_CHANGE_DEL)
     (has_flag (write_change c) EV_CHANGE_ADD, has_flag (write_change c) EV_CHANGE_DEL)
     (has_flag (old_events c) EV_READ) (has_flag (old_events c) EV_WRITE) (has_flag (old_events c) EV_CLOSED)"
  by (simp only: op_table_index table_eq_rule)

section \<open>The effect on the kernel\<close>

definition epoll_view :: "short \<Rightarrow> u32" where
  "epoll_view v = epoll_mask (has_flag v EV_READ) (has_flag v EV_WRITE) (has_flag v EV_CLOSED)"

definition no_change :: "event_change \<Rightarrow> bool" where
  "no_change c \<longleftrightarrow> (\<forall>x \<in> {read_change c, write_change c, close_change c}.
     \<not> has_flag x EV_CHANGE_ADD \<and> \<not> has_flag x EV_CHANGE_DEL)"

text \<open>The events of the mask, with the edge-triggered bit when a change asks for it.\<close>

definition epoll_events :: "event_change \<Rightarrow> u32 \<Rightarrow> u32" where
  "epoll_events c m =
     (if has_flag (read_change c OR write_change c OR close_change c) EV_CHANGE_ET
      then m OR EPOLLET else m)"

lemma epoll_mask_eq_0 [simp]: "epoll_mask r w c = 0 \<longleftrightarrow> \<not> r \<and> \<not> w \<and> \<not> c"
  by (cases r; cases w; cases c) (simp_all add: epoll_mask_def epoll_defs)

text \<open>The table, read through the sets of events before and after the change.\<close>

lemma op_table_meaning:
  assumes "change_ok c"
  shows "epoll_op_table ! EPOLL_OP_TABLE_INDEX c =
    (if no_change c then (0, 0)
     else if change_view c = 0 then
       (epoll_mask (has_flag (read_change c) EV_CHANGE_DEL) (has_flag (write_change c) EV_CHANGE_DEL)
          (has_flag (close_change c) EV_CHANGE_DEL), EPOLL_CTL_DEL)
     else if io_flags (old_events c) = 0 then (epoll_view (change_view c), EPOLL_CTL_ADD)
     else (epoll_view (change_view c), EPOLL_CTL_MOD))"
proof -
  define ra rd wa wd ca cd r0 w0 c0 where fields:
    "ra = has_flag (read_change c) EV_CHANGE_ADD" "rd = has_flag (read_change c) EV_CHANGE_DEL"
    "wa = has_flag (write_change c) EV_CHANGE_ADD" "wd = has_flag (write_change c) EV_CHANGE_DEL"
    "ca = has_flag (close_change c) EV_CHANGE_ADD" "cd = has_flag (close_change c) EV_CHANGE_DEL"
    "r0 = has_flag (old_events c) EV_READ" "w0 = has_flag (old_events c) EV_WRITE"
    "c0 = has_flag (old_events c) EV_CLOSED"
  have view: "change_view c = io_mask (if ra then True else if rd then False else r0)
      (if wa then True else if wd then False else w0) (if ca then True else if cd then False else c0)"
    by (simp add: change_view_def change_applies_def fields)
  have ok: "\<not> (ra \<and> rd)" "\<not> (wa \<and> wd)" "\<not> (ca \<and> cd)"
    using assms by (simp_all add: change_ok_def change_field_ok_def fields)
  have nc: "no_change c \<longleftrightarrow> \<not> (ca \<or> cd \<or> ra \<or> rd \<or> wa \<or> wd)"
    by (auto simp: no_change_def fields)
  have old: "io_flags (old_events c) = io_mask r0 w0 c0" by (simp add: io_flags_def fields)
  show ?thesis
    unfolding op_table_entry fields [symmetric] nc old view epoll_view_def
    using ok by (auto simp: epoll_rule_def Let_def)
qed

text \<open>
  The documented behaviour of \<open>epoll_ctl\<close> on descriptors that can be polled, over the
  kernel's table of registered events: adding a registered descriptor is \<open>EEXIST\<close>, changing
  or removing one that is not registered is \<open>ENOENT\<close>, and nothing else fails.
\<close>

definition ctl_gives ::
  "'k epoll_ctl \<Rightarrow> ('k \<Rightarrow> int \<Rightarrow> u32 option) \<Rightarrow> 'k \<Rightarrow> int \<Rightarrow> int \<Rightarrow> u32 \<Rightarrow> int option
   \<Rightarrow> (int \<Rightarrow> u32 option) \<Rightarrow> bool"
where
  "ctl_gives ctl interest k op fd ev e m \<longleftrightarrow>
     (case ctl k op fd ev of (k1, e') \<Rightarrow> e' = e \<and> interest k1 = m)"

definition epoll_ctl_documented :: "'k epoll_ctl \<Rightarrow> ('k \<Rightarrow> int \<Rightarrow> u32 option) \<Rightarrow> bool" where
  "epoll_ctl_documented ctl interest \<longleftrightarrow> (\<forall>k fd ev.
     (case interest k fd of
        None \<Rightarrow>
          ctl_gives ctl interest k EPOLL_CTL_ADD fd ev None ((interest k)(fd \<mapsto> ev)) \<and>
          ctl_gives ctl interest k EPOLL_CTL_MOD fd ev (Some ENOENT) (interest k) \<and>
          ctl_gives ctl interest k EPOLL_CTL_DEL fd ev (Some ENOENT) (interest k)
      | Some _ \<Rightarrow>
          ctl_gives ctl interest k EPOLL_CTL_ADD fd ev (Some EEXIST) (interest k) \<and>
          ctl_gives ctl interest k EPOLL_CTL_MOD fd ev None ((interest k)(fd \<mapsto> ev)) \<and>
          ctl_gives ctl interest k EPOLL_CTL_DEL fd ev None ((interest k)(fd := None))))"

lemma ctl_givesD: "ctl_gives ctl interest k op fd ev e m \<Longrightarrow> \<exists>k1. ctl k op fd ev = (k1, e) \<and> interest k1 = m"
  by (auto simp: ctl_gives_def split: prod.splits)

lemma epoll_ctl_cases:
  assumes "epoll_ctl_documented ctl interest"
  shows "interest k fd = None \<Longrightarrow> \<exists>k1. ctl k EPOLL_CTL_ADD fd ev = (k1, None) \<and> interest k1 = (interest k)(fd \<mapsto> ev)"
    "interest k fd = None \<Longrightarrow> \<exists>k1. ctl k EPOLL_CTL_MOD fd ev = (k1, Some ENOENT) \<and> interest k1 = interest k"
    "interest k fd = None \<Longrightarrow> \<exists>k1. ctl k EPOLL_CTL_DEL fd ev = (k1, Some ENOENT) \<and> interest k1 = interest k"
    "interest k fd = Some v \<Longrightarrow> \<exists>k1. ctl k EPOLL_CTL_ADD fd ev = (k1, Some EEXIST) \<and> interest k1 = interest k"
    "interest k fd = Some v \<Longrightarrow> \<exists>k1. ctl k EPOLL_CTL_MOD fd ev = (k1, None) \<and> interest k1 = (interest k)(fd \<mapsto> ev)"
    "interest k fd = Some v \<Longrightarrow> \<exists>k1. ctl k EPOLL_CTL_DEL fd ev = (k1, None) \<and> interest k1 = (interest k)(fd := None)"
  using assms [unfolded epoll_ctl_documented_def, rule_format, of k fd ev]
  by (simp_all add: ctl_givesD)

text \<open>
  What the kernel has registered for a descriptor after its change: whatever it had before,
  even if that is not what \<open>old_events\<close> says.
\<close>

definition epoll_target :: "event_change \<Rightarrow> (int \<Rightarrow> u32 option) \<Rightarrow> int \<Rightarrow> u32 option" where
  "epoll_target c m =
     (if no_change c then m
      else if change_view c = 0 then m(ch_fd c := None)
      else m(ch_fd c \<mapsto> epoll_events c (epoll_view (change_view c))))"

lemma epoll_apply_one_change_spec:
  assumes doc: "epoll_ctl_documented ctl interest" and ok: "change_ok c"
  shows "\<exists>k'. epoll_apply_one_change ctl k c = Some (k', 0) \<and> interest k' = epoll_target c (interest k)"
proof (cases "no_change c")
  case True
  then show ?thesis by (simp add: epoll_apply_one_change_def op_table_meaning [OF ok] epoll_target_def)
next
  case False
  note ctl = epoll_ctl_cases [OF doc, of k "ch_fd c"]
  have ops: "EPOLL_CTL_ADD \<noteq> EPOLL_CTL_MOD" "EPOLL_CTL_DEL \<noteq> EPOLL_CTL_MOD" "EPOLL_CTL_DEL \<noteq> EPOLL_CTL_ADD"
    "EPOLL_CTL_MOD \<noteq> EPOLL_CTL_ADD" "EPOLL_CTL_ADD \<noteq> EPOLL_CTL_DEL"
    by (simp_all add: epoll_defs)
  show ?thesis
  proof (cases "change_view c = 0")
    case True
    define m where "m = epoll_mask (has_flag (read_change c) EV_CHANGE_DEL)
      (has_flag (write_change c) EV_CHANGE_DEL) (has_flag (close_change c) EV_CHANGE_DEL)"
    have entry: "epoll_op_table ! EPOLL_OP_TABLE_INDEX c = (m, EPOLL_CTL_DEL)"
      using False True by (simp add: op_table_meaning [OF ok] m_def)
    have m: "m \<noteq> 0" using False True
      by (auto simp: m_def no_change_def change_view_def change_applies_def split: if_splits)
    show ?thesis
    proof (cases "interest k (ch_fd c)")
      case None
      then have "(interest k)(ch_fd c := None) = interest k" by auto
      then show ?thesis
        using ctl(3) [OF None, of "epoll_events c m"] m False True ops
        by (auto simp: epoll_apply_one_change_def entry epoll_target_def epoll_events_def [symmetric] Let_def)
    next
      case (Some v)
      then show ?thesis
        using ctl(6) [OF Some, of "epoll_events c m"] m False True
        by (auto simp: epoll_apply_one_change_def entry epoll_target_def epoll_events_def [symmetric] Let_def)
    qed
  next
    case view: False
    define m where "m = epoll_view (change_view c)"
    define op where "op = (if io_flags (old_events c) = 0 then EPOLL_CTL_ADD else EPOLL_CTL_MOD)"
    have entry: "epoll_op_table ! EPOLL_OP_TABLE_INDEX c = (m, op)"
      using False view by (simp add: op_table_meaning [OF ok] m_def op_def)
    have m: "m \<noteq> 0" using view by (simp add: m_def epoll_view_def change_view_def)
    show ?thesis
    proof (cases "interest k (ch_fd c)")
      case None
      obtain k1 where k1: "ctl k EPOLL_CTL_MOD (ch_fd c) (epoll_events c m) = (k1, Some ENOENT)"
        "interest k1 = interest k" using ctl(2) [OF None] by blast
      show ?thesis
        using ctl(1) [OF None, of "epoll_events c m"] k1 None m False view ops
          epoll_ctl_cases(1) [OF doc, of k1 "ch_fd c" "epoll_events c m"]
        by (auto simp: epoll_apply_one_change_def entry op_def epoll_target_def m_def [symmetric]
            epoll_events_def [symmetric] Let_def)
    next
      case (Some v)
      obtain k1 where k1: "ctl k EPOLL_CTL_ADD (ch_fd c) (epoll_events c m) = (k1, Some EEXIST)"
        "interest k1 = interest k" using ctl(4) [OF Some] by blast
      show ?thesis
        using ctl(5) [OF Some, of "epoll_events c m"] k1 Some m False view ops
          epoll_ctl_cases(5) [OF doc, of k1 "ch_fd c" v "epoll_events c m"]
        by (auto simp: epoll_apply_one_change_def entry op_def epoll_target_def m_def [symmetric]
            epoll_events_def [symmetric] Let_def)
    qed
  qed
qed

lemma epoll_apply_list_spec:
  assumes doc: "epoll_ctl_documented ctl interest" and ok: "\<forall>c \<in> set cs. change_ok c"
  shows "\<exists>k'. epoll_apply_list ctl k cs r = Some (k', r) \<and> interest k' = fold epoll_target cs (interest k)"
  using ok
proof (induction cs arbitrary: k)
  case (Cons c cs)
  obtain k1 where "epoll_apply_one_change ctl k c = Some (k1, 0)" "interest k1 = epoll_target c (interest k)"
    using epoll_apply_one_change_spec [OF doc, of c k] Cons.prems by auto
  then show ?case using Cons.IH [of k1] Cons.prems by auto
qed simp

lemma epoll_target_other: "fd \<noteq> ch_fd c \<Longrightarrow> epoll_target c m fd = m fd"
  by (simp add: epoll_target_def)

lemma epoll_target_cong: "m fd = m' fd \<Longrightarrow> epoll_target c m fd = epoll_target c m' fd"
  by (simp add: epoll_target_def)

lemma fold_epoll_target_other: "fd \<notin> ch_fd ` set cs \<Longrightarrow> fold epoll_target cs m fd = m fd"
  by (induction cs arbitrary: m) (simp_all add: epoll_target_other)

lemma fold_epoll_target:
  "distinct (map ch_fd cs) \<Longrightarrow> c \<in> set cs \<Longrightarrow>
   fold epoll_target cs m (ch_fd c) = epoll_target c m (ch_fd c)"
proof (induction cs arbitrary: m)
  case (Cons c' cs)
  show ?case
  proof (cases "c = c'")
    case True
    then show ?thesis using Cons.prems(1) by (simp add: fold_epoll_target_other)
  next
    case False
    then have c: "c \<in> set cs" using Cons.prems(2) by simp
    then have "ch_fd c \<in> ch_fd ` set cs" by (rule imageI)
    then have "ch_fd c \<noteq> ch_fd c'" using Cons.prems(1) by auto
    then have "epoll_target c (epoll_target c' m) (ch_fd c) = epoll_target c m (ch_fd c)"
      by (intro epoll_target_cong epoll_target_other)
    then show ?thesis using Cons.IH [of "epoll_target c' m"] Cons.prems(1) c by simp
  qed
qed simp

lemma changelist_inv_distinct:
  assumes "changelist_inv cl io"
  shows "distinct (map ch_fd (take (n_changes cl) (changes cl)))"
proof -
  have "i = j" if "i < n_changes cl" "j < n_changes cl" "ch_fd (changes cl ! i) = ch_fd (changes cl ! j)" for i j
  proof -
    have "io (ch_fd (changes cl ! i)) = Some (i + 1)" "io (ch_fd (changes cl ! j)) = Some (j + 1)"
      using assms that(1,2) by (simp_all add: changelist_inv_def)
    then have "Some (i + 1) = Some (j + 1)" unfolding that(3) by (rule trans [OF sym])
    then show ?thesis by simp
  qed
  note inj = this
  show ?thesis
    unfolding distinct_conv_nth
  proof (intro allI impI)
    fix i j
    assume *: "i < length (map ch_fd (take (n_changes cl) (changes cl)))"
      "j < length (map ch_fd (take (n_changes cl) (changes cl)))" "i \<noteq> j"
    then have "ch_fd (changes cl ! i) \<noteq> ch_fd (changes cl ! j)" using inj [of i j] by auto
    then show "map ch_fd (take (n_changes cl) (changes cl)) ! i \<noteq>
        map ch_fd (take (n_changes cl) (changes cl)) ! j" using * by simp
  qed
qed

lemma epoll_apply_changes_spec:
  assumes doc: "epoll_ctl_documented ctl interest" and inv: "changelist_inv cl io"
  shows "\<exists>k'. epoll_apply_changes ctl k cl = Some (k', 0) \<and>
    (\<forall>fd p. io fd = Some p \<longrightarrow> p \<noteq> 0 \<longrightarrow>
       interest k' fd = epoll_target (changes cl ! (p - 1)) (interest k) fd) \<and>
    (\<forall>fd. io fd = None \<or> io fd = Some 0 \<longrightarrow> interest k' fd = interest k fd)"
proof -
  let ?cs = "take (n_changes cl) (changes cl)"
  have len: "n_changes cl \<le> length (changes cl)" by (rule changelist_inv_length [OF inv])
  have cell: "io (ch_fd (changes cl ! i)) = Some (i + 1)" "change_ok (changes cl ! i)" if "i < n_changes cl" for i
    using inv that by (simp_all add: changelist_inv_def)
  have "\<forall>c \<in> set ?cs. change_ok c"
    using len cell(2) by (auto simp: set_take_conv_nth)
  then obtain k' where k': "epoll_apply_changes ctl k cl = Some (k', 0)"
    "interest k' = fold epoll_target ?cs (interest k)"
    using epoll_apply_list_spec [OF doc] unfolding epoll_apply_changes_def by blast
  moreover have "interest k' fd = epoll_target (changes cl ! (p - 1)) (interest k) fd"
    if "io fd = Some p" "p \<noteq> 0" for fd p
  proof -
    have p: "p \<le> n_changes cl" "ch_fd (changes cl ! (p - 1)) = fd"
      using inv that unfolding changelist_inv_def by blast+
    then have "changes cl ! (p - 1) \<in> set ?cs"
      using len that(2) by (auto simp: set_take_conv_nth)
    from fold_epoll_target [OF changelist_inv_distinct [OF inv] this] show ?thesis
      using p(2) k'(2) by simp
  qed
  moreover have "interest k' fd = interest k fd" if "io fd = None \<or> io fd = Some 0" for fd
  proof -
    have "fd \<notin> ch_fd ` set ?cs" using len cell(1) that by (auto simp: set_take_conv_nth)
    then show ?thesis by (simp add: k'(2) fold_epoll_target_other)
  qed
  ultimately show ?thesis by blast
qed

text \<open>The direct backend: the change built on the stack adds or deletes exactly the events passed.\<close>

lemma nochangelist_add_view:
  assumes "\<not> has_flag old EV_SIGNAL"
  shows "change_ok (nochangelist_change EV_CHANGE_ADD fd old events)"
    "change_view (nochangelist_change EV_CHANGE_ADD fd old events) = io_flags old OR io_flags events"
    "no_change (nochangelist_change EV_CHANGE_ADD fd old events) \<longleftrightarrow> io_flags events = 0"
proof -
  have et: "EV_CHANGE_ADD OR ucast (events AND EV_ET) =
      (EV_CHANGE_ADD OR ucast ((events AND EV_ET) AND (EV_ET OR EV_PERSIST OR EV_SIGNAL)) :: byte)"
    by (rule arg_cong [where f = "\<lambda>x. EV_CHANGE_ADD OR ucast x"]) (simp add: ev_flag_defs and.assoc)
  have "\<not> has_flag (events AND EV_ET) EV_SIGNAL" by (simp add: flag_simps)
  from add_field [OF this, folded et] have f: "change_field_ok (EV_CHANGE_ADD OR ucast (events AND EV_ET))"
    "change_applies b (EV_CHANGE_ADD OR ucast (events AND EV_ET))" for b by blast+
  have add: "has_flag (EV_CHANGE_ADD OR ucast (events AND EV_ET) :: byte) EV_CHANGE_ADD"
    by (simp add: flag_simps change_flag_defs del: bit_0)
  show "change_ok (nochangelist_change EV_CHANGE_ADD fd old events)"
    using assms f by (simp add: nochangelist_change_def change_ok_def Let_def)
  show "change_view (nochangelist_change EV_CHANGE_ADD fd old events) = io_flags old OR io_flags events"
    using f by (simp add: nochangelist_change_def change_view_def Let_def io_flags_def io_mask_or)
  show "no_change (nochangelist_change EV_CHANGE_ADD fd old events) \<longleftrightarrow> io_flags events = 0"
    using add by (auto simp: nochangelist_change_def no_change_def Let_def io_flags_def)
qed

lemma nochangelist_del_view:
  assumes "\<not> has_flag old EV_SIGNAL"
  shows "change_ok (nochangelist_change EV_CHANGE_DEL fd old events)"
    "change_view (nochangelist_change EV_CHANGE_DEL fd old events) = io_flags old AND NOT (io_flags events)"
    "no_change (nochangelist_change EV_CHANGE_DEL fd old events) \<longleftrightarrow> io_flags events = 0"
proof -
  have del: "has_flag (EV_CHANGE_DEL OR ucast (events AND EV_ET) :: byte) EV_CHANGE_DEL"
    by (simp add: flag_simps change_flag_defs)
  show "change_ok (nochangelist_change EV_CHANGE_DEL fd old events)"
    using assms del_field by (simp add: nochangelist_change_def change_ok_def Let_def)
  show "change_view (nochangelist_change EV_CHANGE_DEL fd old events) = io_flags old AND NOT (io_flags events)"
    using del_field by (simp add: nochangelist_change_def change_view_def Let_def io_flags_def io_mask_diff)
  show "no_change (nochangelist_change EV_CHANGE_DEL fd old events) \<longleftrightarrow> io_flags events = 0"
    using del by (auto simp: nochangelist_change_def no_change_def Let_def io_flags_def)
qed

section \<open>The wait\<close>

lemma epoll_timeout_bounds:
  assumes "tv_normal tv" "0 \<le> tv_sec tv"
  shows "epoll_timeout None = -1" "0 \<le> epoll_timeout (Some tv)"
    "tv_usecs tv \<le> 1000 * MAX_EPOLL_TIMEOUT_MSEC \<Longrightarrow>
       tv_usecs tv \<le> 1000 * epoll_timeout (Some tv) \<and> 1000 * epoll_timeout (Some tv) < tv_usecs tv + 1000"
    "\<not> tv_usecs tv \<le> 1000 * MAX_EPOLL_TIMEOUT_MSEC \<Longrightarrow> epoll_timeout (Some tv) = MAX_EPOLL_TIMEOUT_MSEC"
proof -
  have u: "0 \<le> tv_usec tv" "tv_usec tv < 1000000" using assms(1) by (simp_all add: tv_normal_def)
  let ?q = "(tv_usec tv + 999) div 1000"
  have q: "c_div (tv_usec tv + 999) 1000 = ?q" using u by (simp add: c_div_nonneg)
  have b: "0 \<le> ?q" "tv_usec tv \<le> 1000 * ?q" "1000 * ?q < tv_usec tv + 1000" using u by linarith+
  have m: "evutil_tv_to_msec tv = (if tv_sec tv > MAX_SECONDS_IN_MSEC_LONG then -1 else tv_sec tv * 1000 + ?q)"
    using u q by (simp add: evutil_tv_to_msec_def)
  have big: "MAX_EPOLL_TIMEOUT_MSEC \<le> 1000 * MAX_SECONDS_IN_MSEC_LONG"
    by (simp add: MAX_EPOLL_TIMEOUT_MSEC_def MAX_SECONDS_IN_MSEC_LONG_def LONG_MAX_def)
  have us: "tv_usecs tv = 1000000 * tv_sec tv + tv_usec tv" by (simp add: tv_usecs_def)
  show "epoll_timeout None = -1" by (simp add: epoll_timeout_def)
  have e: "epoll_timeout (Some tv) = (if tv_sec tv > MAX_SECONDS_IN_MSEC_LONG \<or> tv_sec tv * 1000 + ?q > MAX_EPOLL_TIMEOUT_MSEC
      then MAX_EPOLL_TIMEOUT_MSEC else tv_sec tv * 1000 + ?q)"
    using m b(1) assms(2) by (auto simp: epoll_timeout_def Let_def)
  show "0 \<le> epoll_timeout (Some tv)" unfolding e using b(1) assms(2) by (simp add: MAX_EPOLL_TIMEOUT_MSEC_def)
  show "tv_usecs tv \<le> 1000 * epoll_timeout (Some tv) \<and> 1000 * epoll_timeout (Some tv) < tv_usecs tv + 1000"
    if le: "tv_usecs tv \<le> 1000 * MAX_EPOLL_TIMEOUT_MSEC"
  proof -
    have "\<not> tv_sec tv > MAX_SECONDS_IN_MSEC_LONG" using le us u big by linarith
    moreover have "\<not> tv_sec tv * 1000 + ?q > MAX_EPOLL_TIMEOUT_MSEC" using le us b by linarith
    ultimately show ?thesis unfolding e using b us by simp
  qed
  show "epoll_timeout (Some tv) = MAX_EPOLL_TIMEOUT_MSEC" if "\<not> tv_usecs tv \<le> 1000 * MAX_EPOLL_TIMEOUT_MSEC"
    unfolding e using that us b by (simp; linarith)
qed

section \<open>Properties\<close>

text \<open>
  C19. All 512 entries of the generated operation table hold what one rule says, for reading,
  writing and closing alike: an impossible change (an addition and a deletion of the same kind) has
  operation 255, no change has 0; otherwise the events that remain are added or modified, and when
  none remains those deleted are deleted. It is the rule of the table's comment, extended to closing
  as its footnote announces, but for the 255 in place of the -1 the comment names.
\<close>

theorem epoll_op_table_rule:
  "epoll_op_table ! EPOLL_OP_TABLE_INDEX c =
    epoll_rule (has_flag (close_change c) EV_CHANGE_ADD, has_flag (close_change c) EV_CHANGE_DEL)
      (has_flag (read_change c) EV_CHANGE_ADD, has_flag (read_change c) EV_CHANGE_DEL)
      (has_flag (write_change c) EV_CHANGE_ADD, has_flag (write_change c) EV_CHANGE_DEL)
      (has_flag (old_events c) EV_READ) (has_flag (old_events c) EV_WRITE) (has_flag (old_events c) EV_CLOSED)"
  by (rule op_table_entry)

text \<open>A kernel that holds a table of registrations, for the witnesses.\<close>

definition table_ctl :: "(int \<Rightarrow> u32 option) epoll_ctl" where
  "table_ctl k op fd ev =
     (if op = EPOLL_CTL_ADD then (if k fd = None then (k(fd \<mapsto> ev), None) else (k, Some EEXIST))
      else if k fd = None then (k, Some ENOENT)
      else if op = EPOLL_CTL_MOD then (k(fd \<mapsto> ev), None) else (k(fd := None), None))"

lemma table_ctl_documented: "epoll_ctl_documented table_ctl (\<lambda>k. k)"
  by (auto simp: epoll_ctl_documented_def ctl_gives_def table_ctl_def epoll_defs split: option.splits)

text \<open>
  C21. Applying one change leaves the kernel with exactly the change's set of events for the
  descriptor, whatever it had registered before, through the retries after \<open>ENOENT\<close> and
  \<open>EEXIST\<close>; no other descriptor changes.
\<close>

theorem epoll_apply_one_change_correct:
  assumes "epoll_ctl_documented ctl interest" "change_ok c"
  shows "\<exists>k'. epoll_apply_one_change ctl k c = Some (k', 0) \<and> interest k' = epoll_target c (interest k)"
  by (rule epoll_apply_one_change_spec [OF assms])

theorem epoll_apply_one_change_correct_witness:
  "\<exists>k'. epoll_apply_one_change table_ctl (\<lambda>_. None) (nochangelist_change EV_CHANGE_ADD 4 EV_WRITE EV_READ) = Some (k', 0) \<and>
    k' = epoll_target (nochangelist_change EV_CHANGE_ADD 4 EV_WRITE EV_READ) (\<lambda>_. None)"
  by (rule epoll_apply_one_change_correct [OF table_ctl_documented nochangelist_add_view(1)])
    (simp add: ev_flag_defs has_flag_def)

text \<open>
  C29. The timeout passed to \<open>epoll_wait\<close> is -1 when there is nothing to wait for, and otherwise the
  time asked for in milliseconds, rounded up (so it is never shorter and less than a millisecond
  longer), unless that is more than the 35 minutes it is cut at.
\<close>

theorem epoll_timeout_covers:
  assumes "tv_normal tv" "0 \<le> tv_sec tv"
  shows "epoll_timeout None = -1 \<and> 0 \<le> epoll_timeout (Some tv) \<and>
    (if tv_usecs tv \<le> 1000 * MAX_EPOLL_TIMEOUT_MSEC
     then tv_usecs tv \<le> 1000 * epoll_timeout (Some tv) \<and> 1000 * epoll_timeout (Some tv) < tv_usecs tv + 1000
     else epoll_timeout (Some tv) = MAX_EPOLL_TIMEOUT_MSEC)"
  using epoll_timeout_bounds [OF assms] by simp

theorem epoll_timeout_covers_witness:
  "5000001 \<le> 1000 * epoll_timeout (Some (Timeval 5 1)) \<and> 1000 * epoll_timeout (Some (Timeval 5 1)) < 5001001 \<and>
    epoll_timeout (Some (Timeval 2100 1)) = MAX_EPOLL_TIMEOUT_MSEC"
  using epoll_timeout_covers [of "Timeval 5 1"] epoll_timeout_covers [of "Timeval 2100 1"]
  by (simp add: tv_normal_def tv_usecs_def MAX_EPOLL_TIMEOUT_MSEC_def)

end
