(* ===== verification/Ev_Backend.thy ===== *)
theory Ev_Backend
  imports Ev_Epoll Ev_Evmap
begin

text \<open>
  The event maps, the changelist and the epoll backend together: a dispatch applies the
  queued changes to the kernel, after which the kernel has registered for each descriptor
  exactly what the listed events wait for.
\<close>

text \<open>The kernel has a descriptor registered, with the mask of a set, when the set is not empty.\<close>

definition kernel_agrees :: "('k \<Rightarrow> int \<Rightarrow> u32 option) \<Rightarrow> 'k \<Rightarrow> (int \<Rightarrow> short) \<Rightarrow> bool" where
  "kernel_agrees interest k en \<longleftrightarrow>
     (\<forall>fd. case interest k fd of
        None \<Rightarrow> en fd = 0
      | Some v \<Rightarrow> en fd \<noteq> 0 \<and> v AND NOT EPOLLET = epoll_view (en fd))"

text \<open>\<open>epoll_wait\<close> returns at most the number of events asked for and registers nothing.\<close>

definition epoll_wait_documented :: "'k epoll_wait \<Rightarrow> ('k \<Rightarrow> int \<Rightarrow> u32 option) \<Rightarrow> bool" where
  "epoll_wait_documented wait interest \<longleftrightarrow>
     (\<forall>k n t. interest (fst (wait k n t)) = interest k \<and>
        (case snd (wait k n t) of Inl _ \<Rightarrow> True | Inr evs \<Rightarrow> length evs \<le> n))"

lemma epoll_events_no_et: "epoll_events c (epoll_view v) AND NOT EPOLLET = epoll_view v"
proof -
  have "epoll_mask r w c AND NOT EPOLLET = epoll_mask r w c"
    "(epoll_mask r w c OR EPOLLET) AND NOT EPOLLET = epoll_mask r w c" for r w c
    by (cases r; cases w; cases c; simp add: epoll_mask_def epoll_defs)+
  then show ?thesis by (simp add: epoll_events_def epoll_view_def)
qed

lemma change_view_no_change: "no_change c \<Longrightarrow> change_view c = io_flags (old_events c)"
  by (simp add: no_change_def change_view_def change_applies_def io_flags_def)

text \<open>The set of a descriptor once the changes are applied.\<close>

definition applied_view :: "event_changelist \<Rightarrow> fdinfo_map \<Rightarrow> (int \<Rightarrow> short) \<Rightarrow> int \<Rightarrow> short" where
  "applied_view cl m en fd = (case m fd of None \<Rightarrow> en fd | Some x \<Rightarrow> pending_view cl x (en fd))"

lemma apply_changes_agrees:
  assumes doc: "epoll_ctl_documented ctl interest" and inv: "changelist_binv (cl, en) m"
    and ag: "kernel_agrees interest k en"
  shows "\<exists>k'. epoll_apply_changes ctl k cl = Some (k', 0) \<and> kernel_agrees interest k' (applied_view cl m en)"
proof -
  have cinv: "changelist_inv cl m" using inv by (simp add: changelist_binv_def)
  obtain k' where call: "epoll_apply_changes ctl k cl = Some (k', 0)"
    and hit: "\<forall>fd p. m fd = Some p \<longrightarrow> p \<noteq> 0 \<longrightarrow>
       interest k' fd = epoll_target (changes cl ! (p - 1)) (interest k) fd"
    and miss: "\<forall>fd. m fd = None \<or> m fd = Some 0 \<longrightarrow> interest k' fd = interest k fd"
    using epoll_apply_changes_spec [OF doc cinv] by blast
  have "case interest k' fd of None \<Rightarrow> applied_view cl m en fd = 0
      | Some v \<Rightarrow> applied_view cl m en fd \<noteq> 0 \<and> v AND NOT EPOLLET = epoll_view (applied_view cl m en fd)" for fd
  proof (cases "m fd = None \<or> m fd = Some 0")
    case True
    then have "applied_view cl m en fd = en fd"
      using inv by (auto simp: applied_view_def pending_view_def changelist_binv_def)
    moreover have "interest k' fd = interest k fd" using miss True by blast
    ultimately show ?thesis
      using ag [unfolded kernel_agrees_def, rule_format, of fd] by (simp split: option.splits)
  next
    case False
    then obtain p where p: "m fd = Some p" "p \<noteq> 0" by auto
    define c where "c = changes cl ! (p - 1)"
    have fd: "ch_fd c = fd" using cinv p unfolding changelist_inv_def c_def by blast
    have view: "applied_view cl m en fd = change_view c"
      using p by (simp add: applied_view_def pending_view_def c_def)
    have "base_view cl p (en fd) = en fd"
      using inv p(1) unfolding changelist_binv_def by blast
    then have base: "io_flags (old_events c) = en fd" using p(2) by (simp add: base_view_def c_def)
    have k': "interest k' fd = epoll_target c (interest k) fd" unfolding c_def using hit p by blast
    show ?thesis
    proof (cases "no_change c")
      case True
      then show ?thesis
        using ag [unfolded kernel_agrees_def, rule_format, of fd] base
        by (simp add: view k' epoll_target_def change_view_no_change split: option.splits)
    next
      case False
      then show ?thesis by (simp add: view k' epoll_target_def fd epoll_events_no_et)
    qed
  qed
  with call show ?thesis by (auto simp: kernel_agrees_def)
qed

text \<open>A dispatch empties the changelist and keeps the two descriptions together.\<close>

lemma epoll_dispatch_spec:
  assumes doc: "epoll_ctl_documented ctl interest" "epoll_wait_documented wait interest"
    and inv: "changelist_binv (cl, en) m" and ag: "kernel_agrees interest k en"
  shows "\<exists>res. epoll_dispatch realloc_ok ctl wait ep k cl m sigs tv = Some res \<and>
    kernel_agrees interest (er_kernel res) (applied_view cl m en) \<and>
    changelist_binv (er_changelist res, applied_view cl m en) (er_io res) \<and>
    dom (er_io res) = dom m \<and> (\<forall>fd \<in> dom m. er_io res fd = Some 0) \<and> n_changes (er_changelist res) = 0"
proof -
  have cinv: "changelist_inv cl m" using inv by (simp add: changelist_binv_def)
  obtain k1 where k1: "epoll_apply_changes ctl k cl = Some (k1, 0)" "kernel_agrees interest k1 (applied_view cl m en)"
    using apply_changes_agrees [OF doc(1) inv ag] by blast
  obtain m' where m': "event_changelist_remove_all cl m sigs = Some (cl\<lparr>n_changes := 0\<rparr>, m', sigs)"
    "dom m' = dom m" "\<forall>fd \<in> dom m. m' fd = Some 0" "changelist_inv (cl\<lparr>n_changes := 0\<rparr>) m'"
    using remove_all_spec [OF cinv] by blast
  obtain k2 r where w: "wait k1 (nevents ep) (epoll_timeout tv) = (k2, r)" by fastforce
  have k2: "interest k2 = interest k1" "\<And>evs. r = Inr evs \<Longrightarrow> length evs \<le> nevents ep"
    using doc(2) [unfolded epoll_wait_documented_def, rule_format, of k1 "nevents ep" "epoll_timeout tv"] w
    by auto
  have ag2: "kernel_agrees interest k2 (applied_view cl m en)"
    using k1(2) k2(1) by (simp add: kernel_agrees_def)
  have flags: "io_flags (applied_view cl m en fd) = applied_view cl m en fd" for fd
    using inv by (auto simp: applied_view_def pending_view_def changelist_binv_def change_view_def
        split: option.splits)
  have none: "m' fd = None \<longleftrightarrow> m fd = None" for fd using m'(2) by blast
  have "m' fd = Some 0" if "m' fd = Some x" for fd x
    using m'(3) none that by (metis domIff option.distinct(1))
  then have "changelist_binv (cl\<lparr>n_changes := 0\<rparr>, applied_view cl m en) m'"
    using m'(4) flags none inv
    by (auto simp: changelist_binv_def base_view_def applied_view_def)
  then show ?thesis
    using k1 m' w k2(2) ag2 by (cases r) (auto simp: epoll_dispatch_def)
qed

section \<open>Properties\<close>

text \<open>
  C20. A dispatch applies the queued changes: the kernel then has registered for every
  descriptor exactly the events queued for it, also when waiting was interrupted, and the
  changelist is empty and consistent with the kernel.
\<close>

theorem epoll_dispatch_synchronizes:
  assumes "epoll_ctl_documented ctl interest" "epoll_wait_documented wait interest"
    "changelist_binv (cl, en) m" "kernel_agrees interest k en"
  shows "\<exists>res. epoll_dispatch realloc_ok ctl wait ep k cl m sigs tv = Some res \<and>
    kernel_agrees interest (er_kernel res) (applied_view cl m en) \<and>
    changelist_binv (er_changelist res, applied_view cl m en) (er_io res) \<and>
    dom (er_io res) = dom m \<and> (\<forall>fd \<in> dom m. er_io res fd = Some 0) \<and> n_changes (er_changelist res) = 0"
  by (rule epoll_dispatch_spec [OF assms])

theorem epoll_dispatch_synchronizes_witness:
  "\<exists>res. epoll_dispatch (\<lambda>_. True) table_ctl (\<lambda>k n t. (k, Inl EINTR)) \<lparr>nevents = 32, epfd = 5\<rparr> (\<lambda>_. None)
      empty_changes [3 \<mapsto> 0] (\<lambda>_. None) None = Some res \<and> n_changes (er_changelist res) = 0"
proof -
  have w: "epoll_wait_documented (\<lambda>k n t. (k, Inl EINTR)) (\<lambda>k. k)" by (simp add: epoll_wait_documented_def)
  have b: "changelist_binv (empty_changes, \<lambda>_. 0) [3 \<mapsto> 0]"
    using empty_changes_inv by (simp add: changelist_binv_def base_view_def)
  have k: "kernel_agrees (\<lambda>k. k) (\<lambda>_. None) (\<lambda>_. 0)" by (simp add: kernel_agrees_def)
  show ?thesis
    using epoll_dispatch_synchronizes [OF table_ctl_documented w b k] by blast
qed

end
