(* ===== verification/Ev_Core.thy ===== *)
theory Ev_Core
  imports Ev_Api Ev_Backend
begin

text \<open>
  A base over the epoll backend with a changelist (\<open>epollops_changelist\<close> of \<open>epoll.c\<close>): the
  environment of the event maps, the proof that it meets their contract, and one poll, from
  the queued changes to the events the kernel reports made active.
\<close>

section \<open>The backend\<close>

text \<open>The changelist of the base, the \<open>struct epollop\<close> and the kernel's own table.\<close>

record 'k epoll_be =
  eb_changes :: event_changelist
  eb_op :: epollop
  eb_kernel :: 'k

definition epoll_be_add ::
  "(nat \<Rightarrow> bool) \<Rightarrow> 'k epoll_be \<Rightarrow> int \<Rightarrow> short \<Rightarrow> short \<Rightarrow> nat \<Rightarrow> ('k epoll_be \<times> nat \<times> int) option"
where
  "epoll_be_add realloc_ok eb fd old events x =
     map_option (\<lambda>(cl, x', r). (eb\<lparr>eb_changes := cl\<rparr>, x', r)) (event_changelist_add realloc_ok (eb_changes eb) fd old events x)"

definition epoll_be_del ::
  "(nat \<Rightarrow> bool) \<Rightarrow> 'k epoll_be \<Rightarrow> int \<Rightarrow> short \<Rightarrow> short \<Rightarrow> nat \<Rightarrow> ('k epoll_be \<times> nat \<times> int) option"
where
  "epoll_be_del realloc_ok eb fd old events x =
     map_option (\<lambda>(cl, x', r). (eb\<lparr>eb_changes := cl\<rparr>, x', r)) (event_changelist_del realloc_ok (eb_changes eb) fd old events x)"

text \<open>The functions of \<open>epollops\<close>, which apply each change at once.\<close>

definition epoll_direct ::
  "('k \<Rightarrow> int \<Rightarrow> short \<Rightarrow> short \<Rightarrow> ('k \<times> int) option) \<Rightarrow> 'k epoll_be \<Rightarrow> int \<Rightarrow> short \<Rightarrow> short \<Rightarrow> nat
   \<Rightarrow> ('k epoll_be \<times> nat \<times> int) option"
where
  "epoll_direct apply eb fd old events x =
     map_option (\<lambda>(k, r). (eb\<lparr>eb_kernel := k\<rparr>, x, r)) (apply (eb_kernel eb) fd old events)"

text \<open>
  \<open>epollops_changelist\<close> or \<open>epollops\<close> in an environment. \<open>sig_ok\<close> says for each signal whether
  the signal backend (\<open>evsigops\<close>) can install and remove its handler.
\<close>

definition epoll_env ::
  "bool \<Rightarrow> 'k epoll_ctl \<Rightarrow> (int \<Rightarrow> bool) \<Rightarrow> ('k epoll_be, nat) event_env \<Rightarrow> ('k epoll_be, nat) event_env"
where
  "epoll_env use_cl ctl sig_ok E = E\<lparr>
     be_add := (if use_cl then epoll_be_add (m_realloc E) else epoll_direct (epoll_nochangelist_add ctl)),
     be_del := (if use_cl then epoll_be_del (m_realloc E) else epoll_direct (epoll_nochangelist_del ctl)),
     sig_add := (\<lambda>eb sig. Some (eb, if sig_ok sig then 0 else -1)),
     sig_del := (\<lambda>eb sig. Some (eb, if sig_ok sig then 0 else -1)), fdinfo_zero := 0\<rparr>"

text \<open>
  \<open>epoll_init\<close>: \<open>create\<close> is the result of \<open>epoll_create\<close>, \<open>alloc_ok\<close> says whether the two
  allocations succeed. (\<open>timerfd\<close> is not modelled.) The flags decide which of the two the
  base uses.
\<close>

definition EVENT_BASE_FLAG_EPOLL_USE_CHANGELIST :: int where "EVENT_BASE_FLAG_EPOLL_USE_CHANGELIST = 0x10"

definition epoll_init :: "(int \<times> 'k) option \<Rightarrow> bool \<Rightarrow> 'k epoll_be option" where
  "epoll_init create alloc_ok =
     (case create of None \<Rightarrow> None
      | Some (fd, k) \<Rightarrow>
          if \<not> alloc_ok then None
          else Some \<lparr>eb_changes = event_changelist_init, eb_op = \<lparr>nevents = INITIAL_NEVENT, epfd = fd\<rparr>, eb_kernel = k\<rparr>)"

definition epoll_uses_changelist :: "bool \<Rightarrow> (string \<Rightarrow> bool) \<Rightarrow> int \<Rightarrow> bool" where
  "epoll_uses_changelist issetugid getenv flags \<longleftrightarrow>
     flags AND EVENT_BASE_FLAG_EPOLL_USE_CHANGELIST \<noteq> 0 \<or>
     flags AND EVENT_BASE_FLAG_IGNORE_ENV = 0 \<and> evutil_getenv issetugid getenv ''EVENT_EPOLL_USE_CHANGELIST''"

section \<open>What the kernel watches\<close>

definition kernel_en :: "('k \<Rightarrow> int \<Rightarrow> u32 option) \<Rightarrow> 'k \<Rightarrow> int \<Rightarrow> short" where
  "kernel_en interest k fd =
     (case interest k fd of None \<Rightarrow> 0
      | Some v \<Rightarrow> io_mask (has_flag v EPOLLIN) (has_flag v EPOLLOUT) (has_flag v EPOLLRDHUP))"

lemma epoll_view_decode:
  assumes "v AND NOT EPOLLET = epoll_view s" "io_flags s = s"
  shows "io_mask (has_flag v EPOLLIN) (has_flag v EPOLLOUT) (has_flag v EPOLLRDHUP) = s"
proof -
  have d: "has_flag v m = has_flag (v AND NOT EPOLLET) m" if "m \<in> {EPOLLIN, EPOLLOUT, EPOLLRDHUP}" for m
  proof -
    have "(v AND NOT EPOLLET) AND m = v AND m"
      unfolding and.assoc using that by (auto simp: epoll_defs)
    then show ?thesis by (simp add: has_flag_def)
  qed
  have "has_flag (epoll_mask r w c) EPOLLIN = r" "has_flag (epoll_mask r w c) EPOLLOUT = w"
    "has_flag (epoll_mask r w c) EPOLLRDHUP = c" for r w c
    by (cases r; cases w; cases c; simp add: epoll_mask_def epoll_defs has_flag_def)+
  then have "io_mask (has_flag v EPOLLIN) (has_flag v EPOLLOUT) (has_flag v EPOLLRDHUP) = io_flags s"
    unfolding io_flags_def using assms(1) by (simp add: d epoll_view_def)
  with assms(2) show ?thesis by simp
qed

lemma kernel_en_unique:
  assumes "kernel_agrees interest k en" "\<forall>fd. io_flags (en fd) = en fd"
  shows "kernel_en interest k = en"
proof
  fix fd
  show "kernel_en interest k fd = en fd"
    using assms(1) [unfolded kernel_agrees_def, rule_format, of fd] assms(2) epoll_view_decode [of _ "en fd"]
    by (simp add: kernel_en_def split: option.splits)
qed

text \<open>
  The invariant of the backend: the changelist is consistent, the kernel watches the sets
  \<open>kernel_en\<close> reads off its table, and nothing is queued when changes are applied at once. It
  says too that the kernel's \<open>epoll_ctl\<close> is the documented one, on which the direct functions
  rely.
\<close>

definition eb_binv :: "bool \<Rightarrow> 'k epoll_ctl \<Rightarrow> ('k \<Rightarrow> int \<Rightarrow> u32 option) \<Rightarrow> 'k epoll_be \<Rightarrow> fdinfo_map \<Rightarrow> bool" where
  "eb_binv use_cl ctl interest eb m \<longleftrightarrow>
     changelist_binv (eb_changes eb, kernel_en interest (eb_kernel eb)) m \<and>
     kernel_agrees interest (eb_kernel eb) (kernel_en interest (eb_kernel eb)) \<and>
     epoll_ctl_documented ctl interest \<and> (\<not> use_cl \<longrightarrow> n_changes (eb_changes eb) = 0)"

text \<open>The changelist of a base whose backend is \<open>epollops_changelist\<close>.\<close>

definition eb_changelist :: "bool \<Rightarrow> 'k epoll_be \<Rightarrow> event_changelist option" where
  "eb_changelist use_cl eb = (if use_cl then Some (eb_changes eb) else None)"

lemma eb_changelist_ok:
  "eb_binv use_cl ctl interest eb m \<Longrightarrow> eb_changelist use_cl eb = Some cl \<Longrightarrow> event_changelist_assert_ok cl nio (\<lambda>fd. map_option id (m fd)) sigs"
  by (simp add: eb_binv_def eb_changelist_def changelist_binv_def changelist_inv_assert_ok option.map_id split: if_splits)

definition eb_view :: "('k \<Rightarrow> int \<Rightarrow> u32 option) \<Rightarrow> 'k epoll_be \<Rightarrow> int \<Rightarrow> nat \<Rightarrow> short" where
  "eb_view interest eb = changelist_view (eb_changes eb, kernel_en interest (eb_kernel eb))"

text \<open>The steps of the changelist backend, on the whole state.\<close>

lemma epoll_be_eq:
  "epoll_be_add realloc_ok eb fd old events x =
     map_option (\<lambda>((cl, _), x', r). (eb\<lparr>eb_changes := cl\<rparr>, x', r)) (changelist_be_add realloc_ok (eb_changes eb, k) fd old events x)"
  "epoll_be_del realloc_ok eb fd old events x =
     map_option (\<lambda>((cl, _), x', r). (eb\<lparr>eb_changes := cl\<rparr>, x', r)) (changelist_be_del realloc_ok (eb_changes eb, k) fd old events x)"
  by (cases "event_changelist_add realloc_ok (eb_changes eb) fd old events x")
    (auto simp: epoll_be_add_def changelist_be_add_def,
     cases "event_changelist_del realloc_ok (eb_changes eb) fd old events x",
     auto simp: epoll_be_del_def changelist_be_del_def)

lemma changelist_be_kernel:
  "changelist_be_add realloc_ok (cl, k) fd old events x = Some ((cl', k'), x', r) \<Longrightarrow> k' = k"
  "changelist_be_del realloc_ok (cl, k) fd old events x = Some ((cl', k'), x', r) \<Longrightarrow> k' = k"
  by (auto simp: changelist_be_add_def changelist_be_del_def)

lemma epoll_be_add_laws:
  assumes inv: "eb_binv True ctl interest eb m" and fd: "0 \<le> fd" "m fd = Some x" and old: "eb_view interest eb fd x = old"
    "io_flags old = old" and ev: "\<not> has_flag events EV_SIGNAL"
  shows "\<exists>b' x' r. epoll_be_add realloc_ok eb fd old events x = Some (b', x', r) \<and> eb_binv True ctl interest b' (m(fd \<mapsto> x')) \<and>
    (r = 0 \<or> r = -1) \<and> eb_view interest b' fd x' = (if r = 0 then old OR io_flags events else old) \<and>
    (\<forall>fd' x2. fd' \<noteq> fd \<longrightarrow> m fd' = Some x2 \<longrightarrow> eb_view interest b' fd' x2 = eb_view interest eb fd' x2)"
proof -
  let ?k = "kernel_en interest (eb_kernel eb)"
  obtain cl k' x' r where add: "changelist_be_add realloc_ok (eb_changes eb, ?k) fd old events x = Some ((cl, k'), x', r)"
    and s: "changelist_binv (cl, k') (m(fd \<mapsto> x'))" "r = 0 \<or> r = -1"
      "changelist_view (cl, k') fd x' = (if r = 0 then old OR io_flags events else old)"
      "\<forall>fd' x2. fd' \<noteq> fd \<longrightarrow> m fd' = Some x2 \<longrightarrow> changelist_view (cl, k') fd' x2 = changelist_view (eb_changes eb, ?k) fd' x2"
    using changelist_backend.add_ok [of "(eb_changes eb, ?k)" m fd x old events realloc_ok] assms
    by (force simp: eb_binv_def eb_view_def)
  have k': "k' = ?k" by (rule changelist_be_kernel(1) [OF add])
  have "epoll_be_add realloc_ok eb fd old events x = Some (eb\<lparr>eb_changes := cl\<rparr>, x', r)"
    using add by (simp add: epoll_be_eq(1) [where k = ?k])
  then show ?thesis using s inv by (simp add: k' eb_binv_def eb_view_def)
qed

lemma epoll_be_del_laws:
  assumes inv: "eb_binv True ctl interest eb m" and fd: "0 \<le> fd" "m fd = Some x" and old: "eb_view interest eb fd x = old"
    "io_flags old = old" and ev: "\<not> has_flag events EV_SIGNAL"
  shows "\<exists>b' x' r. epoll_be_del realloc_ok eb fd old events x = Some (b', x', r) \<and> eb_binv True ctl interest b' (m(fd \<mapsto> x')) \<and>
    (r = 0 \<or> r = -1) \<and> (r = 0 \<longrightarrow> eb_view interest b' fd x' = old AND NOT (io_flags events)) \<and>
    (\<forall>fd' x2. fd' \<noteq> fd \<longrightarrow> m fd' = Some x2 \<longrightarrow> eb_view interest b' fd' x2 = eb_view interest eb fd' x2)"
proof -
  let ?k = "kernel_en interest (eb_kernel eb)"
  obtain cl k' x' r where del: "changelist_be_del realloc_ok (eb_changes eb, ?k) fd old events x = Some ((cl, k'), x', r)"
    and s: "changelist_binv (cl, k') (m(fd \<mapsto> x'))" "r = 0 \<or> r = -1"
      "r = 0 \<longrightarrow> changelist_view (cl, k') fd x' = old AND NOT (io_flags events)"
      "\<forall>fd' x2. fd' \<noteq> fd \<longrightarrow> m fd' = Some x2 \<longrightarrow> changelist_view (cl, k') fd' x2 = changelist_view (eb_changes eb, ?k) fd' x2"
    using changelist_backend.del_ok [of "(eb_changes eb, ?k)" m fd x old events realloc_ok] assms
    by (force simp: eb_binv_def eb_view_def)
  have k': "k' = ?k" by (rule changelist_be_kernel(2) [OF del])
  have "epoll_be_del realloc_ok eb fd old events x = Some (eb\<lparr>eb_changes := cl\<rparr>, x', r)"
    using del by (simp add: epoll_be_eq(2) [where k = ?k])
  then show ?thesis using s inv by (simp add: k' eb_binv_def eb_view_def)
qed

text \<open>A change applied at once: the kernel then watches the change's set.\<close>

lemma epoll_direct_laws:
  assumes inv: "eb_binv False ctl interest eb m" and fd: "0 \<le> fd" "m fd = Some x" and old: "eb_view interest eb fd x = old"
    "io_flags old = old" and c: "change_ok c" "ch_fd c = fd" "no_change c \<longrightarrow> change_view c = old"
  shows "\<exists>k. epoll_apply_one_change ctl (eb_kernel eb) c = Some (k, 0) \<and> eb_binv False ctl interest (eb\<lparr>eb_kernel := k\<rparr>) m \<and>
    eb_view interest (eb\<lparr>eb_kernel := k\<rparr>) fd x = change_view c \<and>
    (\<forall>fd' x2. fd' \<noteq> fd \<longrightarrow> m fd' = Some x2 \<longrightarrow> eb_view interest (eb\<lparr>eb_kernel := k\<rparr>) fd' x2 = eb_view interest eb fd' x2)"
proof -
  let ?en = "kernel_en interest (eb_kernel eb)"
  have doc: "epoll_ctl_documented ctl interest" and ag: "kernel_agrees interest (eb_kernel eb) ?en" and
    cl: "changelist_binv (eb_changes eb, ?en) m" "n_changes (eb_changes eb) = 0"
    using inv by (simp_all add: eb_binv_def)
  have zero: "x' = 0" if "m fd' = Some x'" for fd' x'
    using cl that by (auto simp: changelist_binv_def changelist_inv_def)
  have flags: "io_flags (?en fd') = ?en fd'" for fd' using cl(1) by (simp add: changelist_binv_def)
  have x0: "x = 0" "?en fd = old"
    using zero [OF fd(2)] old(1) flags [of fd] by (simp_all add: eb_view_def changelist_view_def pending_view_def)
  obtain k where k: "epoll_apply_one_change ctl (eb_kernel eb) c = Some (k, 0)" "interest k = epoll_target c (interest (eb_kernel eb))"
    using epoll_apply_one_change_spec [OF doc c(1)] by blast
  have cf: "io_flags (change_view c) = change_view c" by (simp add: change_view_def)
  have "kernel_agrees interest k (?en(fd := change_view c))"
    unfolding kernel_agrees_def
  proof
    fix fd'
    have a: "case interest (eb_kernel eb) fd' of None \<Rightarrow> ?en fd' = 0 | Some v \<Rightarrow> ?en fd' \<noteq> 0 \<and> v AND NOT EPOLLET = epoll_view (?en fd')"
      using ag unfolding kernel_agrees_def by blast
    show "case interest k fd' of None \<Rightarrow> (?en(fd := change_view c)) fd' = 0
      | Some v \<Rightarrow> (?en(fd := change_view c)) fd' \<noteq> 0 \<and> v AND NOT EPOLLET = epoll_view ((?en(fd := change_view c)) fd')"
      using a c(2,3) x0(2) by (cases "no_change c"; cases "fd' = fd") (auto simp: k(2) epoll_target_def epoll_events_no_et split: option.splits)
  qed
  moreover from this have "kernel_en interest k = ?en(fd := change_view c)"
    by (rule kernel_en_unique) (simp add: flags cf)
  moreover have "changelist_binv (eb_changes eb, ?en(fd := change_view c)) m"
    using cl(1) zero fd(2) flags cf by (auto simp: changelist_binv_def base_view_def)
  ultimately have "eb_binv False ctl interest (eb\<lparr>eb_kernel := k\<rparr>) m" "kernel_en interest k = ?en(fd := change_view c)"
    using doc cl(2) by (simp_all add: eb_binv_def)
  then show ?thesis
    using k(1) x0(1) cf by (auto simp: eb_view_def changelist_view_def pending_view_def)
qed

interpretation epoll_base: event_backend "epoll_env use_cl ctl sig_ok E" "eb_binv use_cl ctl interest" "eb_view interest"
  for use_cl :: bool and ctl :: "'k epoll_ctl" and sig_ok :: "int \<Rightarrow> bool" and E :: "('k epoll_be, nat) event_env" and interest
proof (unfold_locales, goal_cases)
  case (1 eb m fd)
  then show ?case
    using changelist_backend.new_slot [of "(eb_changes eb, kernel_en interest (eb_kernel eb))" m fd]
    by (simp add: eb_binv_def eb_view_def epoll_env_def)
next
  case (2 eb m fd x old events)
  show ?case
  proof (cases use_cl)
    case True
    then show ?thesis using epoll_be_add_laws [of ctl interest eb m fd x old events "m_realloc E"] 2 by (simp add: epoll_env_def)
  next
    case False
    have bf: "eb_binv False ctl interest eb m" using 2(1) False by simp
    have sig: "\<not> has_flag old EV_SIGNAL" by (rule io_flags_signal [OF 2(5)])
    note v = nochangelist_add_view [OF sig, of fd events]
    let ?c = "nochangelist_change EV_CHANGE_ADD fd old events"
    have ch: "ch_fd ?c = fd" by (simp add: nochangelist_change_def Let_def)
    have nc: "no_change ?c \<longrightarrow> change_view ?c = old" using v(2,3) 2(5) by simp
    show ?thesis
      using epoll_direct_laws [OF bf 2(2,3,4,5) v(1) ch nc] False 2(3,5) v(2)
      by (auto simp: epoll_env_def epoll_direct_def epoll_nochangelist_add_def fun_upd_idem)
  qed
next
  case (3 eb m fd x old events)
  show ?case
  proof (cases use_cl)
    case True
    then show ?thesis using epoll_be_del_laws [of ctl interest eb m fd x old events "m_realloc E"] 3 by (simp add: epoll_env_def)
  next
    case False
    have bf: "eb_binv False ctl interest eb m" using 3(1) False by simp
    have sig: "\<not> has_flag old EV_SIGNAL" by (rule io_flags_signal [OF 3(5)])
    note v = nochangelist_del_view [OF sig, of fd events]
    let ?c = "nochangelist_change EV_CHANGE_DEL fd old events"
    have ch: "ch_fd ?c = fd" by (simp add: nochangelist_change_def Let_def)
    have nc: "no_change ?c \<longrightarrow> change_view ?c = old" using v(2,3) 3(5) by simp
    show ?thesis
      using epoll_direct_laws [OF bf 3(2,3,4,5) v(1) ch nc] False 3(3,5) v(2)
      by (auto simp: epoll_env_def epoll_direct_def epoll_nochangelist_del_def fun_upd_idem)
  qed
qed (simp_all add: epoll_env_def)

lemma epoll_env_fields [simp]:
  "m_realloc (epoll_env use_cl ctl sig_ok E) = m_realloc E" "m_calloc (epoll_env use_cl ctl sig_ok E) = m_calloc E"
  "time_now (epoll_env use_cl ctl sig_ok E) = time_now E" "clocks_documented (epoll_env use_cl ctl sig_ok E) = clocks_documented E"
  by (simp_all add: epoll_env_def clocks_documented_def time_now_def fun_eq_iff)

text \<open>With memory for the changelist and removable signal handlers no deletion fails.\<close>

lemma epoll_deletions_work:
  assumes "use_cl \<Longrightarrow> \<forall>n. m_realloc E n" "\<forall>sig. sig_ok sig" "epoll_ctl_documented ctl interest"
  shows "deletions_work (epoll_env use_cl ctl sig_ok E)"
proof -
  have cl: "event_changelist_del (m_realloc E) c fd old events x = Some (cl', x', r) \<Longrightarrow> r \<noteq> -1" if use_cl for c fd old events x cl' x' r
    using assms(1) [OF that]
    by (auto simp: event_changelist_del_def event_changelist_get_or_construct_def event_changelist_grow_def Let_def
        split: option.splits if_splits prod.splits)
  have di: "epoll_nochangelist_del ctl k fd old events = Some (k', r) \<Longrightarrow> r \<noteq> -1" if "\<not> has_flag old EV_SIGNAL" for k fd old events k' r
    using epoll_apply_one_change_spec [OF assms(3) nochangelist_del_view(1) [OF that, of fd events], of k]
    by (auto simp: epoll_nochangelist_del_def)
  show ?thesis
    using assms(2) cl di
    by (cases use_cl) (auto simp: deletions_work_def epoll_env_def epoll_be_del_def epoll_direct_def split: option.splits)
qed

text \<open>With memory and signal handlers that can be installed no addition to the backend fails.\<close>

lemma epoll_additions_work:
  assumes "use_cl \<Longrightarrow> \<forall>n. m_realloc E n" "\<forall>sig. sig_ok sig" "epoll_ctl_documented ctl interest"
  shows "additions_work (epoll_env use_cl ctl sig_ok E)"
proof -
  have cl: "event_changelist_add (m_realloc E) c fd old events x = Some (cl', x', r) \<Longrightarrow> r \<noteq> -1" if use_cl for c fd old events x cl' x' r
    using assms(1) [OF that]
    by (auto simp: event_changelist_add_def event_changelist_get_or_construct_def event_changelist_grow_def Let_def
        split: option.splits if_splits prod.splits)
  have di: "epoll_nochangelist_add ctl k fd old events = Some (k', r) \<Longrightarrow> r \<noteq> -1" if "\<not> has_flag old EV_SIGNAL" for k fd old events k' r
    using epoll_apply_one_change_spec [OF assms(3) nochangelist_add_view(1) [OF that, of fd events], of k]
    by (auto simp: epoll_nochangelist_add_def)
  show ?thesis
    using assms(2) cl di
    by (cases use_cl) (auto simp: additions_work_def epoll_env_def epoll_be_add_def epoll_direct_def split: option.splits)
qed

section \<open>One poll\<close>

text \<open>The cleared \<open>fdinfo\<close>s written back into the map.\<close>

definition put_fdinfos :: "'x evmap_io event_map \<Rightarrow> (int \<Rightarrow> 'x option) \<Rightarrow> 'x evmap_io event_map" where
  "put_fdinfos m f = m\<lparr>entries :=
     map (\<lambda>i. map_option (\<lambda>ctx. case f (int i) of None \<Rightarrow> ctx | Some x \<Rightarrow> ctx\<lparr>fdinfo := x\<rparr>) (entries m ! i))
       [0..<length (entries m)]\<rparr>"

text \<open>The loop of \<open>evmap_io_active_\<close>, and that of \<open>epoll_dispatch\<close> over the reported descriptors.\<close>

fun activate_all ::
  "('b, 'x) event_env \<Rightarrow> (ev_addr \<times> short) list \<Rightarrow> ('b, 'x) event_base \<Rightarrow> ('b, 'x) event_base option"
where
  "activate_all E [] b = Some b"
| "activate_all E ((e, res) # xs) b = Option.bind (event_active_nolock E b e res 1) (activate_all E xs)"

fun io_active_all ::
  "('b, 'x) event_env \<Rightarrow> (int \<times> short) list \<Rightarrow> ('b, 'x) event_base \<Rightarrow> ('b, 'x) event_base option"
where
  "io_active_all E [] b = Some b"
| "io_active_all E ((fd, events) # xs) b =
     Option.bind (activate_all E (evmap_io_active (evs b) b fd events) b) (io_active_all E xs)"

definition epoll_poll ::
  "'k epoll_ctl \<Rightarrow> 'k epoll_wait \<Rightarrow> ('k epoll_be, nat) event_env \<Rightarrow> ('k epoll_be, nat) event_base \<Rightarrow> timeval option
   \<Rightarrow> (('k epoll_be, nat) event_base \<times> int) option"
where
  "epoll_poll ctl wait E b tv =
     (case epoll_dispatch (m_realloc E) ctl wait (eb_op (evbase b)) (eb_kernel (evbase b)) (eb_changes (evbase b))
             (fdinfos (io b)) (\<lambda>_. None) tv of
        None \<Rightarrow> None
      | Some res \<Rightarrow>
          map_option (\<lambda>b'. (b', er_ret res))
            (io_active_all E (er_active res)
               (b\<lparr>io := put_fdinfos (io b) (er_io res),
                  evbase := \<lparr>eb_changes = er_changelist res, eb_op = er_op res, eb_kernel = er_kernel res\<rparr>\<rparr>)))"

lemma put_fdinfos_slot:
  assumes "map_ok m"
  shows "map_ok (put_fdinfos m f)" "nentries (put_fdinfos m f) = nentries m"
    "map_slot (put_fdinfos m f) fd = map_option (\<lambda>ctx. case f fd of None \<Rightarrow> ctx | Some x \<Rightarrow> ctx\<lparr>fdinfo := x\<rparr>) (map_slot m fd)"
  using assms by (auto simp: put_fdinfos_def map_ok_def map_slot_def)

lemma put_fdinfos_infos:
  assumes "map_ok m" "dom f = dom (fdinfos m)"
  shows "fdinfos (put_fdinfos m f) = f"
proof
  fix fd
  have "f fd = None \<longleftrightarrow> fdinfos m fd = None" using assms(2) by (metis domIff)
  then have "f fd = None \<longleftrightarrow> map_slot m fd = None" by (simp add: fdinfos_def)
  then show "fdinfos (put_fdinfos m f) fd = f fd"
    by (auto simp: fdinfos_def put_fdinfos_slot(3) [OF assms(1)] split: option.splits)
qed

text \<open>The maps only lose their pending changes: the lists and what is enabled stay.\<close>

lemma poll_maps_inv:
  assumes inv: "maps_inv (eb_binv use_cl ctl interest) (eb_view interest) b"
    and doc: "epoll_wait_documented wait interest"
  shows "\<exists>res. epoll_dispatch realloc_ok ctl wait (eb_op (evbase b)) (eb_kernel (evbase b)) (eb_changes (evbase b))
        (fdinfos (io b)) (\<lambda>_. None) tv = Some res \<and>
      maps_inv (eb_binv use_cl ctl interest) (eb_view interest)
        (b\<lparr>io := put_fdinfos (io b) (er_io res),
           evbase := \<lparr>eb_changes = er_changelist res, eb_op = er_op res, eb_kernel = er_kernel res\<rparr>\<rparr>) \<and>
      (\<forall>fd. io_list (b\<lparr>io := put_fdinfos (io b) (er_io res)\<rparr>) fd = io_list b fd) \<and>
      (\<forall>fd\<ge>0. case interest (er_kernel res) fd of None \<Rightarrow> want_mask (evs b) (io_list b fd) = 0
         | Some v \<Rightarrow> want_mask (evs b) (io_list b fd) \<noteq> 0 \<and> v AND NOT EPOLLET = epoll_view (want_mask (evs b) (io_list b fd)))"
proof -
  let ?m = "fdinfos (io b)" and ?cl = "eb_changes (evbase b)" and ?k = "eb_kernel (evbase b)"
  let ?en = "kernel_en interest ?k"
  have io: "io_map_inv (evs b) b" and ag: "backend_agrees (eb_binv use_cl ctl interest) (eb_view interest) (evs b) b"
    and mok: "map_ok (io b)"
    using inv by (simp_all add: maps_inv_def io_maps_inv_def io_map_inv_def)
  have be: "changelist_binv (?cl, ?en) ?m" "kernel_agrees interest ?k ?en" and doc1: "epoll_ctl_documented ctl interest"
    using ag by (simp_all add: backend_agrees_def eb_binv_def)
  obtain res where res: "epoll_dispatch realloc_ok ctl wait (eb_op (evbase b)) ?k ?cl ?m (\<lambda>_. None) tv = Some res"
    "kernel_agrees interest (er_kernel res) (applied_view ?cl ?m ?en)"
    "changelist_binv (er_changelist res, applied_view ?cl ?m ?en) (er_io res)"
    "dom (er_io res) = dom ?m" "\<forall>fd \<in> dom ?m. er_io res fd = Some 0"
    "n_changes (er_changelist res) = 0"
    using epoll_dispatch_spec [OF doc1 doc be] by blast
  have "\<forall>fd. io_flags (applied_view ?cl ?m ?en fd) = applied_view ?cl ?m ?en fd"
    using res(3) by (simp add: changelist_binv_def)
  then have en': "kernel_en interest (er_kernel res) = applied_view ?cl ?m ?en" by (rule kernel_en_unique [OF res(2)])
  define eb where "eb = \<lparr>eb_changes = er_changelist res, eb_op = er_op res, eb_kernel = er_kernel res\<rparr>"
  let ?b = "b\<lparr>io := put_fdinfos (io b) (er_io res), evbase := eb\<rparr>"
  have slot: "map_slot (put_fdinfos (io b) (er_io res)) fd = map_option (\<lambda>ctx. ctx\<lparr>fdinfo := 0\<rparr>) (map_slot (io b) fd)" for fd
  proof (cases "map_slot (io b) fd")
    case (Some ctx)
    then have "er_io res fd = Some 0" using res(5) by (simp add: fdinfos_def domIff)
    then show ?thesis using Some by (simp add: put_fdinfos_slot(3) [OF mok])
  qed (simp add: put_fdinfos_slot(3) [OF mok])
  have lst: "io_list ?b fd = io_list b fd" for fd
    using slot [of fd] by (auto simp: io_list_def split: option.splits)
  have want: "want_mask (evs b) (io_list b fd) = applied_view ?cl ?m ?en fd" if "0 \<le> fd" for fd
  proof (cases "map_slot (io b) fd")
    case None
    then have "?m fd = None" by (simp add: fdinfos_def)
    then have "applied_view ?cl ?m ?en fd = 0" using be(1) that by (simp add: applied_view_def changelist_binv_def)
    then show ?thesis using None by (simp add: io_list_def want_mask_def)
  next
    case (Some ctx)
    then have "?m fd = Some (fdinfo ctx)" by (simp add: fdinfos_def)
    moreover have "eb_view interest (evbase b) fd (fdinfo ctx) = want_mask (evs b) (io_events ctx)"
      using ag Some by (simp add: backend_agrees_def)
    ultimately show ?thesis
      using Some by (simp add: applied_view_def eb_view_def changelist_view_def io_list_def)
  qed
  have "io_map_inv (evs b) ?b"
    using io put_fdinfos_slot(1) [OF mok] by (auto simp: io_map_inv_def slot io_entry_ok_def)
  moreover have "backend_agrees (eb_binv use_cl ctl interest) (eb_view interest) (evs b) ?b"
  proof -
    have "eb_binv use_cl ctl interest eb (fdinfos (io ?b))"
      using res(2,3,6) doc1 put_fdinfos_infos [OF mok res(4)] by (simp add: eb_binv_def eb_def en')
    moreover have "eb_view interest eb fd (fdinfo ctx') = want_mask (evs b) (io_events ctx')"
      if sl: "map_slot (io ?b) fd = Some ctx'" for fd ctx'
    proof -
      obtain ctx where ctx: "map_slot (io b) fd = Some ctx" "ctx' = ctx\<lparr>fdinfo := 0\<rparr>"
        using sl slot [of fd] by auto
      then have z: "fdinfo ctx' = 0" "0 \<le> fd" by (auto simp: map_slot_def split: if_splits)
      have "io_events ctx' = io_list b fd" using sl lst [of fd] by (simp add: io_list_def)
      then show ?thesis
        using want [OF z(2)] z(1) \<open>\<forall>fd. io_flags (applied_view ?cl ?m ?en fd) = applied_view ?cl ?m ?en fd\<close>
        by (simp add: eb_view_def changelist_view_def pending_view_def eb_def en')
    qed
    ultimately show ?thesis by (simp add: backend_agrees_def)
  qed
  moreover have "sig_maps_inv (evs b) ?b" by (rule sig_maps_inv_cong [of "evs b" b]) (use inv in \<open>simp_all add: maps_inv_def\<close>)
  moreover have "inserted_ok ?b"
  proof -
    have "sig_list ?b = sig_list b" by (rule lists_cong(2)) simp
    moreover have "io_list ?b = io_list b" by (rule ext) (rule lst)
    ultimately show ?thesis using inv by (simp add: maps_inv_def inserted_ok_def)
  qed
  ultimately have "maps_inv (eb_binv use_cl ctl interest) (eb_view interest) ?b" by (simp add: maps_inv_def io_maps_inv_def)
  moreover have "io_list (b\<lparr>io := put_fdinfos (io b) (er_io res)\<rparr>) fd = io_list b fd" for fd
    using lst [of fd] by (simp add: io_list_def)
  moreover have "case interest (er_kernel res) fd of None \<Rightarrow> want_mask (evs b) (io_list b fd) = 0
         | Some v \<Rightarrow> want_mask (evs b) (io_list b fd) \<noteq> 0 \<and> v AND NOT EPOLLET = epoll_view (want_mask (evs b) (io_list b fd))"
    if "0 \<le> fd" for fd
    using res(2) unfolding want [OF that] kernel_agrees_def by blast
  ultimately show ?thesis using res(1) unfolding eb_def by blast
qed

text \<open>Activating events leaves the maps alone.\<close>

lemma event_active_maps:
  assumes "event_active_nolock E b e res ncalls = Some b'"
  shows "io b' = io b \<and> sigmap b' = sigmap b \<and> evbase b' = evbase b"
proof -
  have ins: "event_queue_insert_active b1 e = Some b2 \<Longrightarrow> io b2 = io b1 \<and> sigmap b2 = sigmap b1 \<and> evbase b2 = evbase b1" for b1 b2
    by (auto simp: event_queue_insert_active_def set_ev_flag_def Let_def split: if_splits)
  have rem: "event_queue_remove_active_later b1 e = Some b2 \<Longrightarrow> io b2 = io b1 \<and> sigmap b2 = sigmap b1 \<and> evbase b2 = evbase b1" for b1 b2
    by (auto simp: event_queue_remove_active_later_def clear_ev_flag_def Let_def split: if_splits option.splits)
  have act: "event_callback_activate_nolock E b1 e = Some (b2, r) \<Longrightarrow> io b2 = io b1 \<and> sigmap b2 = sigmap b1 \<and> evbase b2 = evbase b1" for b1 b2 r
    by (auto simp: event_callback_activate_nolock_def bind_eq_Some_conv dest!: ins rem split: if_splits bool.splits)
  show ?thesis
    using assms by (auto simp: event_active_nolock_def Let_def dest!: act split: if_splits bool.splits)
qed

lemma event_active_total:
  assumes inv: "base_inv binv view b" and pri: "ev_pri (evs b e) < nactivequeues b"
  shows "\<exists>b'. event_active_nolock E b e res ncalls = Some b' \<and> base_inv binv view b' \<and> event_step {e} b b' \<and>
    (\<forall>x. fl b' EVLIST_ACTIVE x \<longleftrightarrow> fl b EVLIST_ACTIVE x \<or> x = e \<and> \<not> fl b EVLIST_FINALIZING e)"
proof (cases "fl b EVLIST_FINALIZING e")
  case True
  then show ?thesis using inv by (simp add: event_active_nolock_def)
next
  case False
  obtain b' where b': "event_active_nolock E b e res ncalls = Some b'" "base_inv binv view b'" "event_step {e} b b'" "fl b' EVLIST_ACTIVE e"
    using event_active_spec [OF inv pri False] by blast
  have "fl b' EVLIST_ACTIVE x \<longleftrightarrow> fl b EVLIST_ACTIVE x \<or> x = e" for x
    using event_stepD(5) [OF b'(3), of x EVLIST_ACTIVE] b'(4) by (cases "x = e") simp_all
  with b' False show ?thesis by blast
qed

lemma activate_all_spec:
  assumes "base_inv binv view b" "\<forall>e \<in> fst ` set xs. ev_pri (evs b e) < nactivequeues b"
  shows "\<exists>b'. activate_all E xs b = Some b' \<and> base_inv binv view b' \<and> event_step (fst ` set xs) b b' \<and>
    (\<forall>x. fl b' EVLIST_ACTIVE x \<longleftrightarrow> fl b EVLIST_ACTIVE x \<or> x \<in> fst ` set xs \<and> \<not> fl b EVLIST_FINALIZING x) \<and>
    io b' = io b \<and> sigmap b' = sigmap b \<and> evbase b' = evbase b"
  using assms
proof (induction xs arbitrary: b)
  case (Cons x xs)
  obtain e res where x: "x = (e, res)" by fastforce
  obtain b1 where b1: "event_active_nolock E b e res 1 = Some b1" "base_inv binv view b1" "event_step {e} b b1"
    "\<forall>x. fl b1 EVLIST_ACTIVE x \<longleftrightarrow> fl b EVLIST_ACTIVE x \<or> x = e \<and> \<not> fl b EVLIST_FINALIZING e"
    using event_active_total [OF Cons.prems(1), of e E res 1] Cons.prems(2) x by auto
  note m1 = event_active_maps [OF b1(1)]
  have n1: "nactivequeues b1 = nactivequeues b" using b1(3) by (simp add: event_step_def)
  have "\<forall>e \<in> fst ` set xs. ev_pri (evs b1 e) < nactivequeues b1"
    using Cons.prems(2) event_stepD(3) [OF b1(3)] n1 by simp
  then obtain b2 where b2: "activate_all E xs b1 = Some b2" "base_inv binv view b2" "event_step (fst ` set xs) b1 b2"
    "\<forall>x. fl b2 EVLIST_ACTIVE x \<longleftrightarrow> fl b1 EVLIST_ACTIVE x \<or> x \<in> fst ` set xs \<and> \<not> fl b1 EVLIST_FINALIZING x"
    "io b2 = io b1 \<and> sigmap b2 = sigmap b1 \<and> evbase b2 = evbase b1"
    using Cons.IH [OF b1(2)] by blast
  have "event_step (insert e (fst ` set xs)) b b2"
    by (rule event_step_trans [OF event_step_mono [OF b1(3)] event_step_mono [OF b2(3)]]) auto
  moreover have "fl b2 EVLIST_ACTIVE y \<longleftrightarrow> fl b EVLIST_ACTIVE y \<or> y \<in> fst ` set (x # xs) \<and> \<not> fl b EVLIST_FINALIZING y" for y
    using b1(4) b2(4) event_stepD(7) [OF b1(3), of y] x by auto
  ultimately show ?case using b1(1) b2(1,2,5) m1 x by simp
qed simp

text \<open>The events a report makes active: those listed for a reported descriptor with a reported flag.\<close>

definition reported :: "('b, 'x) event_base \<Rightarrow> (int \<times> short) list \<Rightarrow> ev_addr \<Rightarrow> bool" where
  "reported b xs e \<longleftrightarrow> (\<exists>(fd, events) \<in> set xs. e \<in> set (io_list b fd) \<and> has_flag (ev_events (evs b e)) (events AND NOT EV_ET))"

lemma evmap_io_active_events:
  "fst ` set (evmap_io_active (evs b) b fd events) =
     {e \<in> set (io_list b fd). has_flag (ev_events (evs b e)) (events AND NOT EV_ET)}"
  by (force simp: evmap_io_active_def io_list_def map_slot_def split: option.splits)

lemma io_active_all_spec:
  assumes "base_inv binv view b" "\<forall>e. fl b EVLIST_INSERTED e \<longrightarrow> ev_pri (evs b e) < nactivequeues b"
  shows "\<exists>b'. io_active_all E xs b = Some b' \<and> base_inv binv view b' \<and> event_step {e. reported b xs e} b b' \<and>
    (\<forall>x. fl b' EVLIST_ACTIVE x \<longleftrightarrow> fl b EVLIST_ACTIVE x \<or> reported b xs x \<and> \<not> fl b EVLIST_FINALIZING x) \<and>
    io b' = io b \<and> sigmap b' = sigmap b \<and> evbase b' = evbase b"
  using assms
proof (induction xs arbitrary: b)
  case Nil
  then show ?case by (simp add: reported_def)
next
  case (Cons x xs)
  obtain fd events where x: "x = (fd, events)" by fastforce
  let ?A = "evmap_io_active (evs b) b fd events"
  have ins: "inserted_ok b" using Cons.prems(1) by (simp add: base_inv_def maps_inv_def)
  have listed: "fl b EVLIST_INSERTED e" if "e \<in> fst ` set ?A" for e
    using that ins unfolding evmap_io_active_events inserted_ok_def by blast
  obtain b1 where b1: "activate_all E ?A b = Some b1" "base_inv binv view b1" "event_step (fst ` set ?A) b b1"
    "\<forall>x. fl b1 EVLIST_ACTIVE x \<longleftrightarrow> fl b EVLIST_ACTIVE x \<or> x \<in> fst ` set ?A \<and> \<not> fl b EVLIST_FINALIZING x"
    "io b1 = io b \<and> sigmap b1 = sigmap b \<and> evbase b1 = evbase b"
    using activate_all_spec [OF Cons.prems(1), of ?A E] listed Cons.prems(2) by blast
  have n1: "nactivequeues b1 = nactivequeues b" using b1(3) by (simp add: event_step_def)
  have l1: "io_list b1 = io_list b" "sig_list b1 = sig_list b" using b1(5) by (auto intro: lists_cong)
  have fi: "fl b1 EVLIST_INSERTED e \<longrightarrow> ev_pri (evs b1 e) < nactivequeues b1" for e
  proof (cases "e \<in> fst ` set ?A")
    case True
    then show ?thesis using listed Cons.prems(2) event_stepD(3) [OF b1(3), of e] n1 by simp
  next
    case False
    then show ?thesis using event_stepD(5) [OF b1(3) False, of EVLIST_INSERTED] Cons.prems(2) event_stepD(3) [OF b1(3), of e] n1 by simp
  qed
  then obtain b2 where b2: "io_active_all E xs b1 = Some b2" "base_inv binv view b2" "event_step {e. reported b1 xs e} b1 b2"
    "\<forall>x. fl b2 EVLIST_ACTIVE x \<longleftrightarrow> fl b1 EVLIST_ACTIVE x \<or> reported b1 xs x \<and> \<not> fl b1 EVLIST_FINALIZING x"
    "io b2 = io b1 \<and> sigmap b2 = sigmap b1 \<and> evbase b2 = evbase b1"
    using Cons.IH [OF b1(2)] by blast
  have r1: "reported b1 xs e = reported b xs e" for e
    using event_stepD(2) [OF b1(3), of e] by (simp add: reported_def l1)
  have r: "reported b (x # xs) e \<longleftrightarrow> e \<in> fst ` set ?A \<or> reported b xs e" for e
    unfolding evmap_io_active_events by (simp add: reported_def x)
  have "event_step {e. reported b (x # xs) e} b b2"
    by (rule event_step_trans [OF event_step_mono [OF b1(3)] event_step_mono [OF b2(3)]]) (auto simp: r r1)
  moreover have "fl b2 EVLIST_ACTIVE y \<longleftrightarrow> fl b EVLIST_ACTIVE y \<or> reported b (x # xs) y \<and> \<not> fl b EVLIST_FINALIZING y" for y
    using b1(4) b2(4) event_stepD(7) [OF b1(3), of y] r1 r by auto
  ultimately show ?case using b1(1,5) b2(1,2,5) x by simp
qed

text \<open>What the kernel was asked and what it answered.\<close>

definition waited :: "'k epoll_wait \<Rightarrow> nat \<Rightarrow> timeval option \<Rightarrow> 'k \<Rightarrow> int + (int \<times> u32) list \<Rightarrow> 'k \<Rightarrow> bool" where
  "waited wait n tv k1 out k2 \<longleftrightarrow> wait k1 n (epoll_timeout tv) = (k2, out)"

abbreviation kernel_reports :: "int + (int \<times> u32) list \<Rightarrow> (int \<times> u32) list" where
  "kernel_reports out \<equiv> (case out of Inl _ \<Rightarrow> [] | Inr evl \<Rightarrow> evl)"

lemma epoll_dispatch_wait:
  assumes "epoll_dispatch realloc_ok ctl wait ep k cl m sigs tv = Some res"
  shows "\<exists>k1 out. waited wait (nevents ep) tv k1 out (er_kernel res) \<and> er_active res = epoll_activations (kernel_reports out) \<and>
    er_ret res = (case out of Inl err \<Rightarrow> if err = EINTR then 0 else -1 | Inr _ \<Rightarrow> 0)"
proof -
  obtain k1 r1 cl' io' sigs' where s: "epoll_apply_changes ctl k cl = Some (k1, r1)" "event_changelist_remove_all cl m sigs = Some (cl', io', sigs')"
    using assms by (auto simp: epoll_dispatch_def split: option.splits)
  obtain k2 out where w: "wait k1 (nevents ep) (epoll_timeout tv) = (k2, out)" by fastforce
  have "er_kernel res = k2 \<and> er_active res = epoll_activations (kernel_reports out) \<and>
      er_ret res = (case out of Inl err \<Rightarrow> if err = EINTR then 0 else -1 | Inr _ \<Rightarrow> 0)"
    using assms s w by (cases out) (auto simp: epoll_dispatch_def epoll_activations_def split: if_splits)
  then show ?thesis using w unfolding waited_def by blast
qed

text \<open>The events listed for a descriptor the kernel reports that what it reports concerns.\<close>

lemma reported_activations:
  "reported b (epoll_activations evl) e \<longleftrightarrow>
     (\<exists>(fd, what) \<in> set evl. e \<in> set (io_list b fd) \<and> epoll_ready what (ev_events (evs b e)))"
proof -
  have a: "(fd, events) \<in> set (epoll_activations evl) \<longleftrightarrow>
      (\<exists>what. (fd, what) \<in> set evl \<and> epoll_what_to_ev what \<noteq> 0 \<and> events = epoll_what_to_ev what OR EV_ET)" for fd events
    by (force simp: epoll_activations_def)
  show ?thesis
    using epoll_ready_what by (fastforce simp: reported_def a)
qed

lemma epoll_poll_spec:
  assumes inv: "base_inv (eb_binv use_cl ctl interest) (eb_view interest) b"
    and pri: "\<forall>e. fl b EVLIST_INSERTED e \<longrightarrow> ev_pri (evs b e) < nactivequeues b"
    and doc: "epoll_wait_documented wait interest"
  shows "\<exists>b' r xs. epoll_poll ctl wait E b tv = Some (b', r) \<and> base_inv (eb_binv use_cl ctl interest) (eb_view interest) b' \<and>
    event_step {e. reported b xs e} b b' \<and>
    (\<forall>x. fl b' EVLIST_ACTIVE x \<longleftrightarrow> fl b EVLIST_ACTIVE x \<or> reported b xs x \<and> \<not> fl b EVLIST_FINALIZING x) \<and>
    (\<forall>fd\<ge>0. case interest (eb_kernel (evbase b')) fd of None \<Rightarrow> want_mask (evs b) (io_list b fd) = 0
       | Some v \<Rightarrow> want_mask (evs b) (io_list b fd) \<noteq> 0 \<and> v AND NOT EPOLLET = epoll_view (want_mask (evs b) (io_list b fd))) \<and>
    (\<exists>k1 out. waited wait (nevents (eb_op (evbase b))) tv k1 out (eb_kernel (evbase b')) \<and> xs = epoll_activations (kernel_reports out) \<and>
       r = (case out of Inl err \<Rightarrow> if err = EINTR then 0 else -1 | Inr _ \<Rightarrow> 0))"
proof -
  obtain res where res: "epoll_dispatch (m_realloc E) ctl wait (eb_op (evbase b)) (eb_kernel (evbase b)) (eb_changes (evbase b))
        (fdinfos (io b)) (\<lambda>_. None) tv = Some res"
    and m: "maps_inv (eb_binv use_cl ctl interest) (eb_view interest)
        (b\<lparr>io := put_fdinfos (io b) (er_io res),
           evbase := \<lparr>eb_changes = er_changelist res, eb_op = er_op res, eb_kernel = er_kernel res\<rparr>\<rparr>)"
    and l: "\<forall>fd. io_list (b\<lparr>io := put_fdinfos (io b) (er_io res)\<rparr>) fd = io_list b fd"
    and k: "\<forall>fd\<ge>0. case interest (er_kernel res) fd of None \<Rightarrow> want_mask (evs b) (io_list b fd) = 0
         | Some v \<Rightarrow> want_mask (evs b) (io_list b fd) \<noteq> 0 \<and> v AND NOT EPOLLET = epoll_view (want_mask (evs b) (io_list b fd))"
    using poll_maps_inv [OF base_invD(2) [OF inv] doc, of "m_realloc E" tv] by blast
  define b1 where "b1 = b\<lparr>io := put_fdinfos (io b) (er_io res),
           evbase := \<lparr>eb_changes = er_changelist res, eb_op = er_op res, eb_kernel = er_kernel res\<rparr>\<rparr>"
  have q: "queues_inv b1" by (rule queues_inv_cong [OF base_invD(1) [OF inv]]) (simp_all add: b1_def)
  have sd: "sides b1 = sides b" by (simp add: b1_def sides_def)
  have i1: "base_inv (eb_binv use_cl ctl interest) (eb_view interest) b1"
    using q m side_invs [OF sd] base_invD(3,4) [OF inv] by (simp add: base_inv_def b1_def)
  have f1: "evs b1 = evs b" "nactivequeues b1 = nactivequeues b" by (simp_all add: b1_def)
  have s1: "event_step X b b1" for X by (simp add: event_step_def b1_def)
  have l1: "io_list b1 fd = io_list b fd" for fd using l [rule_format, of fd] by (simp add: b1_def io_list_def)
  obtain b2 where b2: "io_active_all E (er_active res) b1 = Some b2" "base_inv (eb_binv use_cl ctl interest) (eb_view interest) b2"
    "event_step {e. reported b1 (er_active res) e} b1 b2"
    "\<forall>x. fl b2 EVLIST_ACTIVE x \<longleftrightarrow> fl b1 EVLIST_ACTIVE x \<or> reported b1 (er_active res) x \<and> \<not> fl b1 EVLIST_FINALIZING x"
    "io b2 = io b1 \<and> sigmap b2 = sigmap b1 \<and> evbase b2 = evbase b1"
    using io_active_all_spec [OF i1, of E "er_active res"] pri f1 by auto
  have r: "reported b1 xs e = reported b xs e" for xs e by (simp add: reported_def l1 f1)
  have run: "epoll_poll ctl wait E b tv = Some (b2, er_ret res)"
    using res b2(1) by (simp add: epoll_poll_def b1_def)
  have "eb_kernel (evbase b2) = er_kernel res" using b2(5) by (simp add: b1_def)
  moreover have "event_step {e. reported b (er_active res) e} b b2"
    using event_step_trans [OF s1 b2(3)] by (simp add: r)
  ultimately show ?thesis
    using run b2(2,4) k epoll_dispatch_wait [OF res]
    by (intro exI [of _ b2] exI [of _ "er_ret res"] exI [of _ "er_active res"]) (simp add: r f1)
qed

end
