(* ===== verification/Ev_Machine.thy ===== *)
theory Ev_Machine
  imports Ev_Core
begin

text \<open>
  The base as a state machine: a step is one call of the event interface by the thread that
  uses the base, or one poll of the epoll backend. The invariant holds in every state the
  calls reach, and in such a state no call fails an assertion or follows a broken list.
\<close>

section \<open>States\<close>

text \<open>
  Every event on a queue has a priority the base has a queue for (the assertion of
  \<open>event_queue_insert_active\<close>), and the common timeouts fit their index bits.
\<close>

definition limits_ok :: "('b, 'x) event_base \<Rightarrow> bool" where
  "limits_ok b \<longleftrightarrow> 0 < nactivequeues b \<and> (\<forall>e. \<not> unlisted b e \<longrightarrow> ev_pri (evs b e) < nactivequeues b) \<and>
     (\<forall>t \<in> timers b. ev_pri (evs b t) < nactivequeues b) \<and> n_common_timeouts b \<le> MAX_COMMON_TIMEOUTS"

definition base_ok ::
  "bool \<Rightarrow> 'k epoll_ctl \<Rightarrow> ('k \<Rightarrow> int \<Rightarrow> u32 option) \<Rightarrow> ('k epoll_be, nat) event_base \<Rightarrow> bool"
where
  "base_ok use_cl ctl interest b \<longleftrightarrow> base_inv (eb_binv use_cl ctl interest) (eb_view interest) b \<and> limits_ok b"

lemma limits_ok_step:
  assumes "limits_ok b" "event_step X b b'" "\<And>e. e \<in> X \<Longrightarrow> unlisted b e \<Longrightarrow> unlisted b' e \<or> ev_pri (evs b e) < nactivequeues b"
  shows "limits_ok b'"
proof -
  have n: "nactivequeues b' = nactivequeues b" using assms(2) by (simp add: event_step_def)
  have pri: "ev_pri (evs b' e) = ev_pri (evs b e)" for e by (rule event_stepD(3) [OF assms(2)])
  have "ev_pri (evs b' e) < nactivequeues b'" if "\<not> unlisted b' e" for e
  proof (cases "e \<in> X")
    case True
    then show ?thesis using assms(1) assms(3) [OF True] n pri that by (auto simp: limits_ok_def)
  next
    case False
    then have "unlisted b' e = unlisted b e" using event_stepD(5) [OF assms(2) False] by (simp add: unlisted_def)
    then show ?thesis using that assms(1) n pri by (simp add: limits_ok_def)
  qed
  then show ?thesis
    using assms(1) n pri event_step_timers [OF assms(2)] by (simp add: limits_ok_def)
qed

section \<open>Steps\<close>

text \<open>
  The rules state what the caller has to respect: an event is assigned while it is on no
  queue, the number of priorities is set before events are added, and an addition has a
  normal timeout or a common one of the base.
\<close>

inductive api_step ::
  "'k epoll_ctl \<Rightarrow> 'k epoll_wait \<Rightarrow> ('k epoll_be, nat) event_env \<Rightarrow> ('k epoll_be, nat) event_base \<Rightarrow> ('k epoll_be, nat) event_base
   \<Rightarrow> bool"
  for ctl :: "'k epoll_ctl" and wait :: "'k epoll_wait" and E :: "('k epoll_be, nat) event_env"
where
  assign: "unlisted b e \<Longrightarrow> e \<notin> timers b \<Longrightarrow> event_assign b e fd events = (b', r) \<Longrightarrow> api_step ctl wait E b b'"
| set_priority: "event_priority_set b e pri = (b', r) \<Longrightarrow> api_step ctl wait E b b'"
| priority_init: "\<forall>e. unlisted b e \<Longrightarrow> timers b = {} \<Longrightarrow> event_base_priority_init True b n = (b', r) \<Longrightarrow> api_step ctl wait E b b'"
| add: "ev_pri (evs b e) < nactivequeues b \<Longrightarrow> add_ok E b e tv False \<Longrightarrow> event_add E b e tv = Some (b', r) \<Longrightarrow> api_step ctl wait E b b'"
| del: "event_del E b e = Some (b', r) \<Longrightarrow> api_step ctl wait E b b'"
| remove_timer: "event_remove_timer_nolock b e = Some (b', r) \<Longrightarrow> api_step ctl wait E b b'"
| active: "ev_pri (evs b e) < nactivequeues b \<Longrightarrow> event_active_nolock E b e res ncalls = Some b' \<Longrightarrow> api_step ctl wait E b b'"
| active_later: "ev_pri (evs b e) < nactivequeues b \<Longrightarrow> event_active_later_nolock E b e res = Some b' \<Longrightarrow> api_step ctl wait E b b'"
| cancel: "event_callback_cancel_nolock E b e even_if = Some (b', r) \<Longrightarrow> api_step ctl wait E b b'"
| finalize: "ev_pri (evs b e) < nactivequeues b \<Longrightarrow> \<not> fl b EVLIST_FINALIZING e \<Longrightarrow> event_finalize_nolock E b free_it e = Some b' \<Longrightarrow>
    api_step ctl wait E b b'"
| make_later: "event_queue_make_later_events_active b = Some b' \<Longrightarrow> api_step ctl wait E b b'"
| init_common: "unlisted b t \<Longrightarrow> t \<notin> timers b \<Longrightarrow> 0 \<le> tv_usec (common_duration b d) \<Longrightarrow> tv_usec (common_duration b d) < 2 ^ 20 \<Longrightarrow>
    event_base_init_common_timeout alloc_ok b t d = Some (b', r') \<Longrightarrow> api_step ctl wait E b b'"
| poll: "epoll_poll ctl wait E b tv' = Some (b', r) \<Longrightarrow> api_step ctl wait E b b'"

lemma init_common_any:
  assumes inv: "base_inv binv view b" and t: "unlisted b t" "t \<notin> timers b" and pri: "limits_ok b"
    and dur: "0 \<le> tv_usec (common_duration b d0)" "tv_usec (common_duration b d0) < 2 ^ 20"
    and run: "event_base_init_common_timeout alloc_ok b t d0 = Some (b', r)"
  shows "base_inv binv view b' \<and> limits_ok b'"
proof -
  let ?old = "find (\<lambda>ctl. tv_sec (common_duration b d0) = tv_sec (ctl_duration ctl) \<and>
       tv_usec (common_duration b d0) = tv_usec (ctl_duration ctl) AND MICROSECONDS_MASK) (common_timeout_queues b)"
  show ?thesis
  proof (cases "?old = None \<and> n_common_timeouts b \<noteq> MAX_COMMON_TIMEOUTS \<and> alloc_ok")
    case False
    then have "b' = b"
      using run by (auto simp: event_base_init_common_timeout_def Let_def split: option.splits if_splits)
    then show ?thesis using inv pri by simp
  next
    case True
    then have room: "n_common_timeouts b < MAX_COMMON_TIMEOUTS" using pri by (simp add: limits_ok_def)
    obtain b2 d where b2: "event_base_init_common_timeout True b t d0 = Some (b2, Some d)" "base_inv binv view b2"
      "timers b2 = insert t (timers b)" "unlisted b2 t" "n_common_timeouts b2 = n_common_timeouts b + 1"
      using init_common_timeout_spec [OF inv t _ dur _ room] True pri by (auto simp: limits_ok_def)
    have b': "b' = b2" using run b2(1) True by simp
    have frame: "nactivequeues b2 = nactivequeues b" "\<forall>x. x \<noteq> t \<longrightarrow> evs b2 x = evs b x"
      "ev_pri (evs b2 t) = 0"
      using b2(1) True pri
      by (auto simp: event_base_init_common_timeout_def event_assign_def event_priority_set_def set_ev_flag_def upd_ev_def
          limits_ok_def Let_def has_flag_bits evlist_flag_defs bit_simps split: if_splits)
    have pr: "ev_pri (evs b2 x) = (if x = t then 0 else ev_pri (evs b x))" for x using frame(2,3) by auto
    have un: "unlisted b2 x \<longleftrightarrow> x = t \<or> unlisted b x" for x using frame(2) b2(4) by (auto simp: unlisted_def)
    have "limits_ok b2" using pri room b2(3,5) frame(1) by (simp add: limits_ok_def pr un)
    then show ?thesis using b2(2) b' by simp
  qed
qed

lemma epoll_poll_ok:
  assumes ok: "base_ok use_cl ctl interest b" and doc: "epoll_wait_documented wait interest"
  shows "\<exists>b' r k1 out. epoll_poll ctl wait E b tv = Some (b', r) \<and> base_ok use_cl ctl interest b' \<and>
    waited wait (nevents (eb_op (evbase b))) tv k1 out (eb_kernel (evbase b')) \<and> interest (eb_kernel (evbase b')) = interest k1 \<and>
    r = (case out of Inl err \<Rightarrow> if err = EINTR then 0 else -1 | Inr _ \<Rightarrow> 0) \<and>
    (\<forall>x. fl b' EVLIST_ACTIVE x \<longleftrightarrow> fl b EVLIST_ACTIVE x \<or> \<not> fl b EVLIST_FINALIZING x \<and>
       (\<exists>(fd, what) \<in> set (kernel_reports out). x \<in> set (io_list b fd) \<and> epoll_ready what (ev_events (evs b x)))) \<and>
    (\<forall>fd\<ge>0. case interest k1 fd of None \<Rightarrow> want_mask (evs b) (io_list b fd) = 0
       | Some v \<Rightarrow> want_mask (evs b) (io_list b fd) \<noteq> 0 \<and> v AND NOT EPOLLET = epoll_view (want_mask (evs b) (io_list b fd)))"
proof -
  have i: "base_inv (eb_binv use_cl ctl interest) (eb_view interest) b" and l: "limits_ok b" using ok by (simp_all add: base_ok_def)
  have pri: "\<forall>e. fl b EVLIST_INSERTED e \<longrightarrow> ev_pri (evs b e) < nactivequeues b"
    using l by (auto simp: limits_ok_def unlisted_def)
  obtain b2 r2 xs k1 out where s: "epoll_poll ctl wait E b tv = Some (b2, r2)"
    "base_inv (eb_binv use_cl ctl interest) (eb_view interest) b2" "event_step {e. reported b xs e} b b2"
    "\<forall>x. fl b2 EVLIST_ACTIVE x \<longleftrightarrow> fl b EVLIST_ACTIVE x \<or> reported b xs x \<and> \<not> fl b EVLIST_FINALIZING x"
    "\<forall>fd\<ge>0. case interest (eb_kernel (evbase b2)) fd of None \<Rightarrow> want_mask (evs b) (io_list b fd) = 0
       | Some v \<Rightarrow> want_mask (evs b) (io_list b fd) \<noteq> 0 \<and> v AND NOT EPOLLET = epoll_view (want_mask (evs b) (io_list b fd))"
    "waited wait (nevents (eb_op (evbase b))) tv k1 out (eb_kernel (evbase b2))" "xs = epoll_activations (kernel_reports out)"
    "r2 = (case out of Inl err \<Rightarrow> if err = EINTR then 0 else -1 | Inr _ \<Rightarrow> 0)"
    using epoll_poll_spec [OF i pri doc, of E tv] by blast
  have k: "interest (eb_kernel (evbase b2)) = interest k1"
    using doc s(6) unfolding epoll_wait_documented_def waited_def by (metis fst_conv)
  have "ev_pri (evs b e) < nactivequeues b" if "reported b xs e" for e
  proof -
    have "inserted_ok b" using i by (simp add: base_inv_def maps_inv_def)
    then have "fl b EVLIST_INSERTED e" using that unfolding reported_def inserted_ok_def by blast
    then show ?thesis using pri by simp
  qed
  then have "limits_ok b2" using limits_ok_step [OF l s(3)] by blast
  then have "base_ok use_cl ctl interest b2" using s(2) by (simp add: base_ok_def)
  then show ?thesis
    using s(1,4,5,6,8) k unfolding s(7) reported_activations
    by (intro exI [of _ b2] exI [of _ r2] exI [of _ k1] exI [of _ out]) auto
qed

lemma api_step_ok:
  assumes step: "api_step ctl wait E b b'" and ok: "base_ok use_cl ctl interest b" and E: "E = epoll_env use_cl ctl sig_ok E0"
    and doc: "clocks_documented E0" "epoll_wait_documented wait interest" and w: "deletions_work E"
  shows "base_ok use_cl ctl interest b'"
proof -
  let ?B = "eb_binv use_cl ctl interest" and ?V = "eb_view interest"
  have clk: "clocks_documented (epoll_env use_cl ctl sig_ok E0)" using doc(1) by simp
  have w': "deletions_work (epoll_env use_cl ctl sig_ok E0)" using w E by simp
  have i: "base_inv ?B ?V b" and l: "limits_ok b" using ok by (simp_all add: base_ok_def)
  have fin: ?thesis if "base_inv ?B ?V b'" "event_step X b b'"
      "\<And>e. e \<in> X \<Longrightarrow> unlisted b e \<Longrightarrow> unlisted b' e \<or> ev_pri (evs b e) < nactivequeues b" for X
    using that(1) limits_ok_step [OF l that(2,3)] by (simp add: base_ok_def)
  from step show ?thesis
  proof cases
    case (assign e fd events r)
    note s = event_assign_spec [OF i assign]
    have n: "nactivequeues b' = nactivequeues b" "n_common_timeouts b' = n_common_timeouts b"
      using assign(3) by (auto simp: event_assign_def Let_def split: if_splits)
    have un: "unlisted b' x = unlisted b x" for x using s(2,3) assign(1) by (cases "x = e") (simp_all add: unlisted_def)
    have "limits_ok b'" using l s(3,4) assign(1,2) n un unfolding limits_ok_def by metis
    then show ?thesis using s(1) by (simp add: base_ok_def)
  next
    case (set_priority e pri r)
    note s = event_priority_set_spec [OF i set_priority]
    have n: "nactivequeues b' = nactivequeues b" "n_common_timeouts b' = n_common_timeouts b"
      "\<forall>x. x \<noteq> e \<longrightarrow> ev_pri (evs b' x) = ev_pri (evs b x)" "r \<noteq> 0 \<longrightarrow> b' = b"
      using set_priority by (auto simp: event_priority_set_def upd_ev_def split: if_splits)
    have un: "unlisted b' x = unlisted b x" for x using s(4) by (simp add: unlisted_def)
    have "limits_ok b'"
    proof (cases "r = 0")
      case True
      then have "ev_pri (evs b' e) < nactivequeues b" using s(2) by (simp add: nat_less_iff)
      then show ?thesis using l n un s(5) unfolding limits_ok_def by metis
    qed (use l n(4) in simp)
    then show ?thesis using s(1) by (simp add: base_ok_def)
  next
    case (priority_init n r)
    note s = priority_init_inv [OF i priority_init(3)]
    have f: "evs b' = evs b" "timers b' = timers b" "n_common_timeouts b' = n_common_timeouts b"
      using priority_init(3) by (auto simp: event_base_priority_init_def timers_def split: if_splits)
    have "0 < nactivequeues b'"
      using s(2,3) l by (auto simp: event_base_get_npriorities_def limits_ok_def)
    moreover have "unlisted b' x" for x using spec [OF priority_init(1), of x] f(1) by (simp add: unlisted_def)
    ultimately have "limits_ok b'" using l priority_init(2) f by (simp add: limits_ok_def)
    then show ?thesis using s(1) by (simp add: base_ok_def)
  next
    case (add e tv r)
    obtain b2 r2 where s: "event_add_nolock E b e tv False = Some (b2, r2)" "base_inv ?B ?V b2"
      "event_step (add_touches b e tv r2) b b2"
      using epoll_base.event_add_spec [OF i clk add(2) [unfolded E]] unfolding E by blast
    have b2: "b2 = b'" using add(3) s(1) by (simp add: event_add_def)
    have "ev_pri (evs b x) < nactivequeues b" if "x \<in> add_touches b e tv r2" for x
      using that add(1) l by (auto simp: add_touches_def limits_ok_def split: if_splits option.splits)
    then show ?thesis using fin [of "add_touches b e tv r2"] s(2,3) b2 by blast
  next
    case (del e r)
    show ?thesis
    proof (cases "fl b EVLIST_FINALIZING e")
      case True
      then show ?thesis using del ok by (simp add: event_del_def event_del_nolock_def)
    next
      case False
      obtain b2 where s: "event_del_nolock E b e False = Some (b2, 0)" "base_inv ?B ?V b2" "event_step {e} b b2" "unlisted b2 e"
        using epoll_base.event_del_works [OF i _ w', of False e] False unfolding E by blast
      then show ?thesis using fin [of "{e}"] del by (simp add: event_del_def)
    qed
  next
    case (remove_timer e r)
    obtain b2 where s: "event_remove_timer_nolock b e = Some (b2, 0)" "base_inv ?B ?V b2" "event_step {e} b b2"
      "\<not> fl b2 EVLIST_TIMEOUT e"
      using event_remove_timer_spec [OF i, of e] by blast
    have "unlisted b e \<Longrightarrow> b2 = b" using s(1) by (simp add: event_remove_timer_nolock_def unlisted_def)
    then show ?thesis using fin [of "{e}"] remove_timer s by auto
  next
    case (active e res ncalls)
    show ?thesis using event_active_total [OF i active(1), of E res ncalls] active fin [of "{e}"] by auto
  next
    case (active_later e res)
    show ?thesis using event_active_later_spec [OF i active_later(1), of E res] active_later fin [of "{e}"] by auto
  next
    case (cancel e even_if r)
    obtain b2 r2 where s: "event_callback_cancel_nolock E b e even_if = Some (b2, r2)" "r2 = 0" "base_inv ?B ?V b2" "event_step {e} b b2"
      using epoll_base.callback_cancel_spec [OF i, where e = e and even_if = even_if] w' unfolding E by blast
    have b2: "b2 = b'" using cancel s(1) by simp
    show ?thesis
    proof (cases "unlisted b e")
      case True
      have "unlisted b2 e"
      proof (cases "fl b EVLIST_INIT e \<and> (even_if \<or> \<not> fl b EVLIST_FINALIZING e)")
        case init: True
        obtain b3 where "event_del_nolock E b e even_if = Some (b3, 0)" "unlisted b3 e"
          using epoll_base.event_del_works [OF i _ w', of even_if e] init unfolding E by blast
        then show ?thesis using s(1) init by (auto simp: event_callback_cancel_nolock_def)
      next
        case False
        then show ?thesis using s(1) True by (auto simp: event_callback_cancel_nolock_def unlisted_def split: if_splits)
      qed
      then show ?thesis using fin [of "{e}"] s b2 by blast
    next
      case False
      then show ?thesis using fin [of "{e}"] s b2 by blast
    qed
  next
    case (finalize e free_it)
    obtain b2 where s: "event_finalize_nolock E b free_it e = Some b2" "base_inv ?B ?V b2" "nactivequeues b2 = nactivequeues b"
      "timers b2 = timers b" "n_common_timeouts b2 = n_common_timeouts b"
      "\<forall>x. ev_pri (evs b2 x) = ev_pri (evs b x) \<and> (x \<noteq> e \<longrightarrow> unlisted b2 x = unlisted b x)"
      using epoll_base.event_finalize_spec [OF i w' finalize(1,2), of free_it] unfolding E by blast
    have "ev_pri (evs b2 x) < nactivequeues b2" if "\<not> unlisted b2 x" for x
      using s(3,6) finalize(1) l that unfolding limits_ok_def by metis
    then have "limits_ok b2" using l s(3-6) by (simp add: limits_ok_def)
    then show ?thesis using s(1,2) finalize by (simp add: base_ok_def)
  next
    case make_later
    obtain b2 where s: "event_queue_make_later_events_active b = Some b2" "base_inv ?B ?V b2"
      "length (activequeues b2) = length (activequeues b)" "\<forall>x. ev_core (evs b2 x) = ev_core (evs b x)" "sides b2 = sides b"
      "\<forall>g x. single_bit g \<longrightarrow> g \<noteq> EVLIST_ACTIVE \<longrightarrow> g \<noteq> EVLIST_ACTIVE_LATER \<longrightarrow> fl b2 g x = fl b g x"
      using make_later_base_inv [OF i] by blast
    have pri: "ev_pri (evs b2 x) = ev_pri (evs b x)" for x using ev_core_eqD [of "evs b2 x" "evs b x"] s(4) by simp
    have "ev_pri (evs b2 x) < nactivequeues b2" if "\<not> unlisted b2 x" for x
    proof (cases "fl b2 EVLIST_ACTIVE x \<or> fl b2 EVLIST_ACTIVE_LATER x")
      case True
      then show ?thesis using queues_invD(2) [OF base_invD(1) [OF s(2)]] unfolding actives_ok_def by blast
    next
      case False
      then have "\<not> unlisted b x" using that s(6) by (auto simp: unlisted_def)
      then show ?thesis using l pri s(3) by (simp add: limits_ok_def)
    qed
    moreover have "timers b2 = timers b \<and> n_common_timeouts b2 = n_common_timeouts b" by (rule sides_timers [OF s(5)])
    ultimately have "limits_ok b2" using l s(3) pri by (simp add: limits_ok_def)
    then show ?thesis using s(1,2) make_later by (simp add: base_ok_def)
  next
    case (init_common t d alloc_ok r')
    then show ?thesis using init_common_any [OF i init_common(1,2) l init_common(3-5)] by (simp add: base_ok_def)
  next
    case (poll tv' r)
    show ?thesis using epoll_poll_ok [OF ok doc(2), of E tv'] poll by auto
  qed
qed

lemma api_steps_ok:
  assumes "(api_step ctl wait E)\<^sup>*\<^sup>* b b'" "base_ok use_cl ctl interest b" "E = epoll_env use_cl ctl sig_ok E0"
    "clocks_documented E0" "epoll_wait_documented wait interest" "deletions_work E"
  shows "base_ok use_cl ctl interest b'"
  using assms(1)
proof (induction rule: rtranclp_induct)
  case (step b1 b2)
  then show ?case using api_step_ok [OF step(2) _ assms(3-6)] by blast
qed (rule assms(2))

section \<open>The first state\<close>

definition EV_FEATURE_ET :: int where "EV_FEATURE_ET = 0x01"
definition EV_FEATURE_O1 :: int where "EV_FEATURE_O1 = 0x02"
definition EV_FEATURE_EARLY_CLOSE :: int where "EV_FEATURE_EARLY_CLOSE = 0x08"

definition epollops :: "(int \<times> 'k) option \<Rightarrow> bool \<Rightarrow> 'k epoll_be eventop" where
  "epollops create alloc_ok = \<lparr>op_name = ''epoll'',
     op_features = EV_FEATURE_ET OR EV_FEATURE_O1 OR EV_FEATURE_EARLY_CLOSE,
     op_init = (\<lambda>_. epoll_init create alloc_ok)\<rparr>"

lemma epoll_init_binv:
  assumes "epoll_init (Some (fd, k)) alloc_ok = Some eb" "interest k = (\<lambda>_. None)" "epoll_ctl_documented ctl interest"
  shows "eb_binv use_cl ctl interest eb (\<lambda>_. None)"
proof -
  have eb: "eb = \<lparr>eb_changes = event_changelist_init, eb_op = \<lparr>nevents = INITIAL_NEVENT, epfd = fd\<rparr>, eb_kernel = k\<rparr>"
    using assms(1) by (auto simp: epoll_init_def split: if_splits)
  have en: "kernel_en interest k = (\<lambda>_. 0)" by (rule ext) (simp add: kernel_en_def assms(2))
  show ?thesis
    using assms(3)
    by (simp add: eb eb_binv_def en changelist_binv_def changelist_inv_def event_changelist_init_def kernel_agrees_def assms(2))
qed

lemma new_base_base_ok:
  assumes st: "idle_store st" and clk: "clocks_documented E" and k: "interest k = (\<lambda>_. None)" "epoll_ctl_documented ctl interest"
    and new: "event_base_new_with_config E issetugid getenv True [epollops (Some (fd, k)) alloc_ok] st cfg = Some (op, b)"
  shows "base_ok use_cl ctl interest b" "event_base_get_npriorities b = 1" "event_count b = 0" "evs b = st"
    "common_timeout_queues b = []"
proof -
  have binv: "eb_binv use_cl ctl interest bs (\<lambda>_. None)"
    if "op \<in> set [epollops (Some (fd, k)) alloc_ok]" "op_init op (base_flags issetugid getenv cfg) = Some bs" for op bs
    using that epoll_init_binv [OF _ k] by (simp add: epollops_def)
  note n = new_base_inv [where binv = "eb_binv use_cl ctl interest", OF st clk _ new]
  have inv: "base_inv (eb_binv use_cl ctl interest) (eb_view interest) b" by (rule n(1)) (rule binv)
  show np: "event_base_get_npriorities b = 1" by (rule n(2)) (rule binv)
  show "event_count b = 0" by (rule n(7)) (rule binv)
  show ev: "evs b = st" by (rule n(3)) (rule binv)
  show ct: "common_timeout_queues b = []" by (rule n(4)) (rule binv)
  have th: "timeheap b = min_heap_ctor" by (rule n(5)) (rule binv)
  have "unlisted b e" for e using st ev by (simp add: idle_store_def unlisted_def)
  then have "limits_ok b" using np ct by (simp add: limits_ok_def event_base_get_npriorities_def timers_def)
  then show "base_ok use_cl ctl interest b" using inv by (simp add: base_ok_def)
qed

section \<open>A concrete base\<close>

text \<open>The witnesses of the properties start from this environment and the base made in it.\<close>

definition demo_env :: "((int \<Rightarrow> u32 option) epoll_be, nat) event_env" where
  "demo_env =
     \<lparr>be_add = (\<lambda>_ _ _ _ _. None), be_del = (\<lambda>_ _ _ _ _. None), sig_add = (\<lambda>_ _. None), sig_del = (\<lambda>_ _. None),
      fdinfo_len = 4, fdinfo_zero = 0, m_realloc = (\<lambda>_. True), m_calloc = (\<lambda>_. True), debug_mode = False,
      posix_clock = True, clock_gettime = (\<lambda>n. Some (Timeval (100 + int n) 0)), wall_clock = (\<lambda>n. Timeval (500 + int n) 0),
      need_notify = False, has_notify_fn = True\<rparr>"

definition demo_epoll :: "((int \<Rightarrow> u32 option) epoll_be, nat) event_env" where
  "demo_epoll = epoll_env True table_ctl (\<lambda>_. True) demo_env"

definition demo_store :: ev_heap where "demo_store = (\<lambda>_. zeroed_event\<lparr>min_heap_idx := -1\<rparr>)"

definition demo_base :: "((int \<Rightarrow> u32 option) epoll_be, nat) event_base" where
  "demo_base = snd (the (event_base_new_with_config demo_epoll False (\<lambda>_. False) True
     [epollops (Some (5, \<lambda>_. None)) True] demo_store None))"

lemma demo_docs:
  "clocks_documented demo_env" "deletions_work demo_epoll" "idle_store demo_store"
  unfolding demo_epoll_def
  by (simp add: clocks_documented_def demo_env_def tv_normal_def,
      rule epoll_deletions_work [OF _ _ table_ctl_documented], simp_all add: demo_env_def,
      simp add: idle_store_def demo_store_def zeroed_event_def)

lemma demo_new:
  "event_base_new_with_config demo_epoll False (\<lambda>_. False) True [epollops (Some (5, \<lambda>_. None)) True] demo_store None =
    Some (epollops (Some (5, \<lambda>_. None)) True, demo_base)"
  unfolding demo_base_def
  by (simp add: event_base_new_with_config_def epollops_def epoll_init_def base_flags_def should_check_environment_def
      event_is_method_disabled_def evutil_getenv_def event_base_priority_init_def set_dispatch_limits_def EVENT_MAX_PRIORITIES_def
      zeroed_base_def gettime_def evutil_gettime_monotonic_def demo_epoll_def epoll_env_def demo_env_def Let_def)

lemma demo_base_ok:
  "base_ok True table_ctl (\<lambda>k. k) demo_base" "nactivequeues demo_base = 1" "evs demo_base = demo_store"
  "common_timeout_queues demo_base = []"
proof -
  have clk: "clocks_documented demo_epoll" using demo_docs(1) by (simp add: demo_epoll_def)
  note n = new_base_base_ok [OF demo_docs(3) clk refl table_ctl_documented demo_new]
  show "base_ok True table_ctl (\<lambda>k. k) demo_base" by (rule n(1))
  show "nactivequeues demo_base = 1" using n(2) by (simp add: event_base_get_npriorities_def)
  show "evs demo_base = demo_store" "common_timeout_queues demo_base = []" by (fact n(4), fact n(5))
qed

lemma demo_unlisted: "unlisted demo_base e" "timers demo_base = {}"
  by (simp_all add: unlisted_def demo_base_ok demo_store_def zeroed_event_def timers_def)

lemma demo_inv: "base_inv (eb_binv True table_ctl (\<lambda>k. k)) (eb_view (\<lambda>k. k)) demo_base"
  using demo_base_ok(1) by (simp add: base_ok_def)

lemma demo_quiet: "event_count_active demo_base = 0" "heap_elems (timeheap demo_base) = {}"
proof -
  have a: "actives_ok demo_base" "timeouts_ok demo_base" using demo_inv by (simp_all add: base_inv_def queues_inv_def)
  show "heap_elems (timeheap demo_base) = {}" using a(2) demo_unlisted(1) unfolding timeouts_ok_def unlisted_def by blast
  have "activequeues demo_base ! 0 = []" "active_later_queue demo_base = []"
    using a(1) demo_unlisted(1) by (auto simp: actives_ok_def unlisted_def demo_base_ok(2) set_empty [symmetric] simp del: set_empty)
  moreover have "activequeues demo_base = [activequeues demo_base ! 0]"
    using demo_base_ok(2) by (metis One_nat_def length_0_conv length_Suc_conv nth_Cons_0)
  ultimately have "activequeues demo_base = [[]]" "active_later_queue demo_base = []" by simp_all
  then show "event_count_active demo_base = 0" using a(1) by (simp add: actives_ok_def)
qed

end
