(* ===== verification/Ev_Loop.thy ===== *)
theory Ev_Loop
  imports Ev_Machine
begin

text \<open>
  The event loop of \<open>event.c\<close>: how long to wait (\<open>timeout_next\<close>), which timers fire
  (\<open>timeout_process\<close>, \<open>common_timeout_callback\<close>), how the active queues are run
  (\<open>event_process_active\<close> with the closures of each kind of callback) and
  \<open>event_base_loop\<close> itself. The program's callbacks are parameters. They act on the base by
  calling the interface and on a state of their own, of any type.
\<close>

section \<open>Callbacks\<close>

text \<open>
  The members of \<open>evcb_cb_union\<close>: what the callback stored in the structure at an address
  does, with the arguments it gets. \<open>None\<close> ends the process or never returns.
\<close>

record ('b, 'x, 'u) callbacks =
  evcb_callback :: "ev_addr \<Rightarrow> int \<Rightarrow> short \<Rightarrow> 'u \<Rightarrow> ('b, 'x) event_base \<Rightarrow> ('u \<times> ('b, 'x) event_base) option"
  evcb_selfcb :: "ev_addr \<Rightarrow> 'u \<Rightarrow> ('b, 'x) event_base \<Rightarrow> ('u \<times> ('b, 'x) event_base) option"
  evcb_evfinalize :: "ev_addr \<Rightarrow> 'u \<Rightarrow> ('b, 'x) event_base \<Rightarrow> ('u \<times> ('b, 'x) event_base) option"
  evcb_cbfinalize :: "ev_addr \<Rightarrow> 'u \<Rightarrow> ('b, 'x) event_base \<Rightarrow> ('u \<times> ('b, 'x) event_base) option"

section \<open>Timeouts\<close>

text \<open>
  The time to wait: \<open>None\<close> inside is the null pointer (wait for I/O only). A reading of the
  clock that fails leaves \<open>tv\<close> unset in the code, which uses it nevertheless.
\<close>

definition timeout_next :: "('b, 'x) event_env \<Rightarrow> ('b, 'x) event_base \<Rightarrow> (('b, 'x) event_base \<times> timeval option) option" where
  "timeout_next E b =
     (case min_heap_top (timeheap b) of
        None \<Rightarrow> Some (b, None)
      | Some e \<Rightarrow>
          (case gettime E b of
             (b1, None) \<Rightarrow> None
           | (b1, Some now) \<Rightarrow>
               if evutil_timercmp (ev_timeout (evs b1 e)) now (\<le>) then Some (b1, Some evutil_timerclear)
               else
                 (let tv = evutil_timersub (ev_timeout (evs b1 e)) now
                  in if tv_sec tv \<ge> 0 \<and> tv_usec tv \<ge> 0 then Some (b1, Some tv) else None)))"

text \<open>The body of both loops: the event leaves all queues and becomes active.\<close>

definition fire_timeout :: "('b, 'x) event_env \<Rightarrow> ('b, 'x) event_base \<Rightarrow> ev_addr \<Rightarrow> ('b, 'x) event_base option" where
  "fire_timeout E b e =
     Option.bind (event_del_nolock E b e False) (\<lambda>(b1, _). event_active_nolock E b1 e EV_TIMEOUT 1)"

definition timeout_process :: "('b, 'x) event_env \<Rightarrow> ('b, 'x) event_base \<Rightarrow> ('b, 'x) event_base option" where
  "timeout_process E b =
     (if min_heap_empty (timeheap b) then Some b
      else
        (case gettime E b of
           (b1, None) \<Rightarrow> None
         | (b1, Some now) \<Rightarrow>
             map_option fst
               (expire_loop (\<lambda>b. min_heap_top (timeheap b))
                  (\<lambda>b e. \<not> evutil_timercmp (ev_timeout (evs b e)) now (>)) (fire_timeout E) b1)))"

text \<open>\<open>common_timeout_callback\<close> for list \<open>i\<close>: its due events, in order, then the list's timer again.\<close>

definition ctl_first :: "nat \<Rightarrow> ('b, 'x) event_base \<Rightarrow> ev_addr option" where
  "ctl_first i b = (case ctl_events (common_timeout_queues b ! i) of [] \<Rightarrow> None | e # _ \<Rightarrow> Some e)"

definition common_due :: "timeval \<Rightarrow> ('b, 'x) event_base \<Rightarrow> ev_addr \<Rightarrow> bool" where
  "common_due now b e =
     (let tv = ev_timeout (evs b e)
      in \<not> (tv_sec tv > tv_sec now \<or> tv_sec tv = tv_sec now \<and> (tv_usec tv AND MICROSECONDS_MASK) > tv_usec now))"

definition common_timeout_callback :: "('b, 'x) event_env \<Rightarrow> ('b, 'x) event_base \<Rightarrow> nat \<Rightarrow> ('b, 'x) event_base option" where
  "common_timeout_callback E b i =
     (case gettime E b of
        (b1, None) \<Rightarrow> None
      | (b1, Some now) \<Rightarrow>
          Option.bind (expire_loop (ctl_first i) (common_due now) (fire_timeout E) b1) (\<lambda>(b2, _).
            case ctl_first i b2 of None \<Rightarrow> Some b2 | Some e \<Rightarrow> common_timeout_schedule E b2 i e))"

section \<open>Running one callback\<close>

text \<open>The callback of an event: the library's own for the timer of a common timeout list.\<close>

definition timer_index :: "('b, 'x) event_base \<Rightarrow> ev_addr \<Rightarrow> nat" where
  "timer_index b e = length (takeWhile (\<lambda>ctl. ctl_timeout_event ctl \<noteq> e) (common_timeout_queues b))"

definition call_event ::
  "('b, 'x) event_env \<Rightarrow> ('b, 'x, 'u) callbacks \<Rightarrow> ev_addr \<Rightarrow> int \<Rightarrow> short \<Rightarrow> 'u \<Rightarrow> ('b, 'x) event_base
   \<Rightarrow> ('u \<times> ('b, 'x) event_base) option"
where
  "call_event E C e fd res u b =
     (if timer_index b e < n_common_timeouts b
      then map_option (\<lambda>b1. (u, b1)) (common_timeout_callback E b (timer_index b e))
      else evcb_callback C e fd res u b)"

text \<open>The next run of a persistent event: one interval after the last scheduled run, or after now when that has passed.\<close>

definition persist_run_at :: "bool \<Rightarrow> timeval \<Rightarrow> timeval \<Rightarrow> timeval \<Rightarrow> bool \<Rightarrow> timeval" where
  "persist_run_at common timeout io_timeout now timed_out =
     (let delay = (if common then real_timeout io_timeout else io_timeout);
          usec_mask = (if common then tv_usec io_timeout AND NOT MICROSECONDS_MASK else 0);
          relative_to = (if timed_out then (if common then real_timeout timeout else timeout) else now);
          run_at0 = evutil_timeradd relative_to delay;
          run_at = (if evutil_timercmp run_at0 now (<) then evutil_timeradd now delay else run_at0)
      in Timeval (tv_sec run_at) (tv_usec run_at OR usec_mask))"

definition event_persist_closure ::
  "('b, 'x) event_env \<Rightarrow> ('b, 'x, 'u) callbacks \<Rightarrow> ev_addr \<Rightarrow> 'u \<Rightarrow> ('b, 'x) event_base
   \<Rightarrow> ('u \<times> ('b, 'x) event_base) option"
where
  "event_persist_closure E C e u b =
     Option.bind
       (let ev = evs b e
        in if tv_sec (ev_io_timeout ev) \<noteq> 0 \<or> tv_usec (ev_io_timeout ev) \<noteq> 0 then
             (if \<not> is_same_common_timeout (ev_timeout ev) (ev_io_timeout ev) then None
              else
                (case gettime E b of
                   (b1, None) \<Rightarrow> None
                 | (b1, Some now) \<Rightarrow>
                     map_option fst
                       (event_add_nolock E b1 e
                          (Some (persist_run_at (is_common_timeout (ev_timeout ev) b1) (ev_timeout ev) (ev_io_timeout ev) now
                             (has_flag (ev_res ev) EV_TIMEOUT))) True)))
           else Some b)
       (\<lambda>b2. call_event E C e (ev_fd (evs b2 e)) (ev_res (evs b2 e)) u b2)"

text \<open>
  The loop of \<open>event_signal_closure\<close>. Its local counter is \<open>signal_ncalls\<close>, which a deletion
  of the event from its callback sets to zero.
\<close>

partial_function (option) signal_calls ::
  "('b, 'x) event_env \<Rightarrow> ('b, 'x, 'u) callbacks \<Rightarrow> ev_addr \<Rightarrow> 'u \<Rightarrow> ('b, 'x) event_base
   \<Rightarrow> ('u \<times> ('b, 'x) event_base) option"
where
  "signal_calls E C e u b =
     (if signal_ncalls b = 0 then Some (u, b)
      else
        (let n = signal_ncalls b - 1;
             b1 = upd_ev e (\<lambda>ev. ev\<lparr>ev_ncalls := n, ev_pncalls := (if n = 0 then False else ev_pncalls ev)\<rparr>)
                    (b\<lparr>signal_ncalls := n\<rparr>)
         in Option.bind (call_event E C e (ev_fd (evs b1 e)) (ev_res (evs b1 e)) u b1) (\<lambda>(u2, b2).
              if event_break b2
              then Some (u2, if signal_ncalls b2 \<noteq> 0 then upd_ev e (\<lambda>ev. ev\<lparr>ev_pncalls := False\<rparr>) b2 else b2)
              else signal_calls E C e u2 b2)))"

definition event_signal_closure ::
  "('b, 'x) event_env \<Rightarrow> ('b, 'x, 'u) callbacks \<Rightarrow> ev_addr \<Rightarrow> 'u \<Rightarrow> ('b, 'x) event_base
   \<Rightarrow> ('u \<times> ('b, 'x) event_base) option"
where
  "event_signal_closure E C e u b =
     (let n = ev_ncalls (evs b e);
          b1 = b\<lparr>signal_ncalls := n\<rparr>
      in signal_calls E C e u (if n \<noteq> 0 then upd_ev e (\<lambda>ev. ev\<lparr>ev_pncalls := True\<rparr>) b1 else b1))"

text \<open>The \<open>switch\<close> of \<open>event_process_active_single_queue\<close>; \<open>ev\<close> is set for an initialized event only.\<close>

definition run_closure ::
  "('b, 'x) event_env \<Rightarrow> ('b, 'x, 'u) callbacks \<Rightarrow> ev_addr \<Rightarrow> 'u \<Rightarrow> ('b, 'x) event_base
   \<Rightarrow> ('u \<times> ('b, 'x) event_base) option"
where
  "run_closure E C e u b =
     (let is_event = has_flag (ev_flags (evs b e)) EVLIST_INIT;
          finalizing = has_flag (ev_flags (evs b e)) EVLIST_FINALIZING
      in case ev_closure (evs b e) of
           EV_CLOSURE_EVENT_SIGNAL \<Rightarrow> if is_event then event_signal_closure E C e u b else None
         | EV_CLOSURE_EVENT_PERSIST \<Rightarrow> if is_event then event_persist_closure E C e u b else None
         | EV_CLOSURE_EVENT \<Rightarrow>
             if is_event then call_event E C e (ev_fd (evs b e)) (ev_res (evs b e)) u b else None
         | EV_CLOSURE_CB_SELF \<Rightarrow> evcb_selfcb C e u b
         | EV_CLOSURE_EVENT_FINALIZE \<Rightarrow>
             if is_event \<and> finalizing then evcb_evfinalize C e u (b\<lparr>current_event := None\<rparr>) else None
         | EV_CLOSURE_EVENT_FINALIZE_FREE \<Rightarrow>
             if is_event \<and> finalizing then evcb_evfinalize C e u (b\<lparr>current_event := None\<rparr>) else None
         | EV_CLOSURE_CB_FINALIZE \<Rightarrow>
             if finalizing then evcb_cbfinalize C e u (b\<lparr>current_event := None\<rparr>) else None)"

section \<open>Running the active queues\<close>

text \<open>An event is taken off the active queue before its callback runs; one that is not persistent is deleted.\<close>

definition take_active :: "('b, 'x) event_env \<Rightarrow> ('b, 'x) event_base \<Rightarrow> ev_addr \<Rightarrow> ('b, 'x) event_base option" where
  "take_active E b e =
     (if has_flag (ev_flags (evs b e)) EVLIST_INIT \<and>
         \<not> (has_flag (ev_events (evs b e)) EV_PERSIST \<or> has_flag (ev_flags (evs b e)) EVLIST_FINALIZING)
      then map_option fst (event_del_nolock E b e False)
      else event_queue_remove_active b e)"

text \<open>
  \<open>event_process_active_single_queue\<close> on queue \<open>i\<close>: the result holds the count, or -1. A queue
  that a callback has done away with (by \<open>event_base_priority_init\<close>) is not there: \<open>None\<close>.
\<close>

partial_function (option) process_queue ::
  "('b, 'x) event_env \<Rightarrow> ('b, 'x, 'u) callbacks \<Rightarrow> nat \<Rightarrow> int \<Rightarrow> timeval option \<Rightarrow> int \<Rightarrow> 'u \<Rightarrow> ('b, 'x) event_base
   \<Rightarrow> ('u \<times> ('b, 'x) event_base \<times> int) option"
where
  "process_queue E C i max_to_process endtime cnt u b =
     (if \<not> i < nactivequeues b then None
      else
        (case activequeues b ! i of
           [] \<Rightarrow> Some (u, b, cnt)
         | e # _ \<Rightarrow>
             Option.bind (take_active E b e) (\<lambda>b1.
               let cnt' = (if has_flag (ev_flags (evs b1 e)) EVLIST_INTERNAL then cnt else cnt + 1)
               in Option.bind (run_closure E C e u (b1\<lparr>current_event := Some e\<rparr>)) (\<lambda>(u2, b2).
                    let b3 = b2\<lparr>current_event := None\<rparr>
                    in if event_break b3 then Some (u2, b3, -1)
                       else if cnt' \<ge> max_to_process then Some (u2, b3, cnt')
                       else
                         (case (if cnt' \<noteq> 0 then endtime else None) of
                            None \<Rightarrow>
                              if event_continue b3 then Some (u2, b3, cnt')
                              else process_queue E C i max_to_process endtime cnt' u2 b3
                          | Some endt \<Rightarrow>
                              (case gettime E (update_time_cache E b3) of
                                 (b4, None) \<Rightarrow> None
                               | (b4, Some now) \<Rightarrow>
                                   if evutil_timercmp now endt (\<ge>) then Some (u2, b4, cnt')
                                   else if event_continue b4 then Some (u2, b4, cnt')
                                   else process_queue E C i max_to_process endtime cnt' u2 b4))))))"

text \<open>The loop over the priorities, from queue \<open>i\<close> on; the first that runs a real event ends it.\<close>

partial_function (option) process_priorities ::
  "('b, 'x) event_env \<Rightarrow> ('b, 'x, 'u) callbacks \<Rightarrow> int \<Rightarrow> int \<Rightarrow> timeval option \<Rightarrow> nat \<Rightarrow> int \<Rightarrow> 'u \<Rightarrow> ('b, 'x) event_base
   \<Rightarrow> ('u \<times> ('b, 'x) event_base \<times> int) option"
where
  "process_priorities E C maxcb limit endtime i c u b =
     (if \<not> i < nactivequeues b then Some (u, b, c)
      else if activequeues b ! i = [] then process_priorities E C maxcb limit endtime (i + 1) c u b
      else
        Option.bind
          (let b1 = b\<lparr>event_running_priority := int i\<rparr>
           in if int i < limit then process_queue E C i C_INT_MAX None 0 u b1
              else process_queue E C i maxcb endtime 0 u b1)
          (\<lambda>(u2, b2, c2).
             if c2 \<noteq> 0 then Some (u2, b2, c2)
             else process_priorities E C maxcb limit endtime (i + 1) c2 u2 b2))"

definition event_process_active ::
  "('b, 'x) event_env \<Rightarrow> ('b, 'x, 'u) callbacks \<Rightarrow> 'u \<Rightarrow> ('b, 'x) event_base \<Rightarrow> ('u \<times> ('b, 'x) event_base \<times> int) option"
where
  "event_process_active E C u b =
     (let maxcb = max_dispatch_callbacks b;
          limit = limit_callbacks_after_prio b
      in Option.bind
           (if tv_sec (max_dispatch_time b) \<ge> 0 then
              (case gettime E (update_time_cache E b) of
                 (b1, None) \<Rightarrow> None
               | (b1, Some tv) \<Rightarrow> Some (b1, Some (evutil_timeradd (max_dispatch_time b1) tv)))
            else Some (b, None))
           (\<lambda>(b1, endtime).
              map_option (\<lambda>(u2, b2, c). (u2, b2\<lparr>event_running_priority := -1\<rparr>, c))
                (process_priorities E C maxcb limit endtime 0 0 u b1)))"

section \<open>The loop\<close>

definition EVLOOP_ONCE :: int where "EVLOOP_ONCE = 0x01"
definition EVLOOP_NONBLOCK :: int where "EVLOOP_NONBLOCK = 0x02"
definition EVLOOP_NO_EXIT_ON_EMPTY :: int where "EVLOOP_NO_EXIT_ON_EMPTY = 0x04"

text \<open>One round: \<open>Inl\<close> ends the loop with a result, \<open>Inr\<close> goes on to the next round.\<close>

definition loop_round ::
  "(('b, 'x) event_base \<Rightarrow> timeval option \<Rightarrow> (('b, 'x) event_base \<times> int) option) \<Rightarrow> ('b, 'x) event_env
   \<Rightarrow> ('b, 'x, 'u) callbacks \<Rightarrow> int \<Rightarrow> 'u \<Rightarrow> ('b, 'x) event_base
   \<Rightarrow> (('u \<times> ('b, 'x) event_base \<times> int) + ('u \<times> ('b, 'x) event_base)) option"
where
  "loop_round dispatch E C flags u b0 =
     (let b = b0\<lparr>event_continue := False, n_deferreds_queued := 0\<rparr>
      in if event_gotterm b \<or> event_break b then Some (Inl (u, b, 0))
         else
           Option.bind (if N_ACTIVE_CALLBACKS b = 0 \<and> flags AND EVLOOP_NONBLOCK = 0 then timeout_next E b
                        else Some (b, Some evutil_timerclear)) (\<lambda>(b1, tv_p).
             if flags AND EVLOOP_NO_EXIT_ON_EMPTY = 0 \<and> \<not> event_haveevents b1 \<and> N_ACTIVE_CALLBACKS b1 = 0
             then Some (Inl (u, b1, 1))
             else
               Option.bind (event_queue_make_later_events_active b1) (\<lambda>b2.
               Option.bind (dispatch (clear_time_cache b2) tv_p) (\<lambda>(b3, res).
                 if res = -1 then Some (Inl (u, b3, -1))
                 else
                   Option.bind (timeout_process E (update_time_cache E b3)) (\<lambda>b4.
                     if N_ACTIVE_CALLBACKS b4 \<noteq> 0 then
                       Option.bind (event_process_active E C u b4) (\<lambda>(u2, b5, n).
                         if flags AND EVLOOP_ONCE \<noteq> 0 \<and> N_ACTIVE_CALLBACKS b5 = 0 \<and> n \<noteq> 0
                         then Some (Inl (u2, b5, 0)) else Some (Inr (u2, b5)))
                     else if flags AND EVLOOP_NONBLOCK \<noteq> 0 then Some (Inl (u, b4, 0))
                     else Some (Inr (u, b4)))))))"

partial_function (option) loop_rounds ::
  "(('b, 'x) event_base \<Rightarrow> timeval option \<Rightarrow> (('b, 'x) event_base \<times> int) option) \<Rightarrow> ('b, 'x) event_env
   \<Rightarrow> ('b, 'x, 'u) callbacks \<Rightarrow> int \<Rightarrow> 'u \<Rightarrow> ('b, 'x) event_base \<Rightarrow> ('u \<times> ('b, 'x) event_base \<times> int) option"
where
  "loop_rounds dispatch E C flags u b =
     Option.bind (loop_round dispatch E C flags u b) (\<lambda>r.
       case r of Inl res \<Rightarrow> Some res | Inr (u2, b2) \<Rightarrow> loop_rounds dispatch E C flags u2 b2)"

definition event_base_loop ::
  "(('b, 'x) event_base \<Rightarrow> timeval option \<Rightarrow> (('b, 'x) event_base \<times> int) option) \<Rightarrow> ('b, 'x) event_env
   \<Rightarrow> ('b, 'x, 'u) callbacks \<Rightarrow> int \<Rightarrow> 'u \<Rightarrow> ('b, 'x) event_base \<Rightarrow> ('u \<times> ('b, 'x) event_base \<times> int) option"
where
  "event_base_loop dispatch E C flags u b =
     (if running_loop b then Some (u, b, -1)
      else
        map_option (\<lambda>(u2, b2, r). (u2, (clear_time_cache b2)\<lparr>running_loop := False\<rparr>, r))
          (loop_rounds dispatch E C flags u
             ((clear_time_cache (b\<lparr>running_loop := True\<rparr>))\<lparr>event_gotterm := False, event_break := False\<rparr>)))"

section \<open>Leaving the loop, and queries\<close>

text \<open>The result of \<open>evthread_notify_base\<close> is that of the notifying function, which writes to a pipe (0 here).\<close>

definition notify_result :: "('b, 'x) event_env \<Rightarrow> int" where
  "notify_result E = (if need_notify E \<and> \<not> has_notify_fn E then -1 else 0)"

definition event_base_loopbreak :: "('b, 'x) event_env \<Rightarrow> ('b, 'x) event_base \<Rightarrow> ('b, 'x) event_base \<times> int" where
  "event_base_loopbreak E b = (notify_if True E (b\<lparr>event_break := True\<rparr>), notify_result E)"

definition event_base_loopcontinue :: "('b, 'x) event_env \<Rightarrow> ('b, 'x) event_base \<Rightarrow> ('b, 'x) event_base \<times> int" where
  "event_base_loopcontinue E b = (notify_if True E (b\<lparr>event_continue := True\<rparr>), notify_result E)"

definition event_loopexit_cb :: "('b, 'x) event_base \<Rightarrow> ('b, 'x) event_base" where
  "event_loopexit_cb b = b\<lparr>event_gotterm := True\<rparr>"

definition event_base_got_break :: "('b, 'x) event_base \<Rightarrow> bool" where
  "event_base_got_break b = event_break b"

definition event_base_got_exit :: "('b, 'x) event_base \<Rightarrow> bool" where
  "event_base_got_exit b = event_gotterm b"

definition event_base_update_cache_time :: "('b, 'x) event_env \<Rightarrow> ('b, 'x) event_base \<Rightarrow> ('b, 'x) event_base" where
  "event_base_update_cache_time E b = (if running_loop b then update_time_cache E b else b)"

definition event_base_gettimeofday_cached ::
  "('b, 'x) event_env \<Rightarrow> ('b, 'x) event_base \<Rightarrow> ('b, 'x) event_base \<times> timeval"
where
  "event_base_gettimeofday_cached E b =
     (if tv_sec (tv_cache b) = 0 then (b\<lparr>clock_reads := clock_reads b + 1\<rparr>, wall_clock E (clock_reads b))
      else (b, evutil_timeradd (tv_cache b) (tv_clock_diff b)))"

definition EVENT_BASE_COUNT_ACTIVE :: int where "EVENT_BASE_COUNT_ACTIVE = 1"
definition EVENT_BASE_COUNT_VIRTUAL :: int where "EVENT_BASE_COUNT_VIRTUAL = 2"
definition EVENT_BASE_COUNT_ADDED :: int where "EVENT_BASE_COUNT_ADDED = 4"

definition event_base_get_num_events :: "('b, 'x) event_base \<Rightarrow> int \<Rightarrow> int" where
  "event_base_get_num_events b type =
     (if type AND EVENT_BASE_COUNT_ACTIVE \<noteq> 0 then event_count_active b else 0) +
     (if type AND EVENT_BASE_COUNT_VIRTUAL \<noteq> 0 then virtual_event_count b else 0) +
     (if type AND EVENT_BASE_COUNT_ADDED \<noteq> 0 then event_count b else 0)"

definition event_base_get_max_events :: "('b, 'x) event_base \<Rightarrow> int \<Rightarrow> bool \<Rightarrow> ('b, 'x) event_base \<times> int" where
  "event_base_get_max_events b type clear =
     (let active = (type AND EVENT_BASE_COUNT_ACTIVE \<noteq> 0);
          virtual = (type AND EVENT_BASE_COUNT_VIRTUAL \<noteq> 0);
          added = (type AND EVENT_BASE_COUNT_ADDED \<noteq> 0)
      in (b\<lparr>event_count_active_max := (if active \<and> clear then 0 else event_count_active_max b),
            virtual_event_count_max := (if virtual \<and> clear then 0 else virtual_event_count_max b),
            event_count_max := (if added \<and> clear then 0 else event_count_max b)\<rparr>,
          (if active then event_count_active_max b else 0) + (if virtual then virtual_event_count_max b else 0) +
          (if added then event_count_max b else 0)))"

definition event_base_add_virtual :: "('b, 'x) event_base \<Rightarrow> ('b, 'x) event_base" where
  "event_base_add_virtual b =
     (let n = virtual_event_count b + 1
      in b\<lparr>virtual_event_count := n, virtual_event_count_max := max (virtual_event_count_max b) n\<rparr>)"

definition event_base_del_virtual :: "('b, 'x) event_env \<Rightarrow> ('b, 'x) event_base \<Rightarrow> ('b, 'x) event_base option" where
  "event_base_del_virtual E b =
     (if virtual_event_count b \<le> 0 then None
      else
        (let b1 = b\<lparr>virtual_event_count := virtual_event_count b - 1\<rparr>
         in Some (notify_if (virtual_event_count b1 = 0) E b1)))"

end
