(* ===== verification/Ev_Frames.thy ===== *)
theory Ev_Frames
  imports Ev_Loop
begin

text \<open>
  What the operations on events leave alone besides the flags and queues: the timeouts of
  every event, the variables of the running loop, and the order of the queues an event is
  taken off.
\<close>

section \<open>Timeouts and loop variables\<close>

definition tm :: "event \<Rightarrow> timeval \<times> timeval" where
  "tm ev = (ev_timeout ev, ev_io_timeout ev)"

definition loop_vars :: "('b, 'x) event_base \<Rightarrow> bool \<times> bool \<times> bool \<times> ev_addr option \<times> bool \<times> timeval \<times> int \<times> int" where
  "loop_vars b = (running_loop b, event_break b, event_gotterm b, current_event b, no_cache_time b,
     max_dispatch_time b, max_dispatch_callbacks b, limit_callbacks_after_prio b)"

text \<open>The timeouts and the loop's variables stay; the counter of a signal loop stays or is cleared.\<close>

definition calm :: "('b, 'x) event_base \<Rightarrow> ('b, 'x) event_base \<Rightarrow> bool" where
  "calm b b' \<longleftrightarrow> loop_vars b' = loop_vars b \<and> (signal_ncalls b' = signal_ncalls b \<or> signal_ncalls b' = 0)"

definition still :: "('b, 'x) event_base \<Rightarrow> ('b, 'x) event_base \<Rightarrow> bool" where
  "still b b' \<longleftrightarrow> calm b b' \<and> (\<forall>x. tm (evs b' x) = tm (evs b x))"

named_theorems stills \<open>operations that leave the timeouts and the loop's variables alone\<close>

lemma still_refl [simp, stills]: "still b b"
  by (simp add: still_def calm_def)

lemma still_trans [trans]: "still b b1 \<Longrightarrow> still b1 b2 \<Longrightarrow> still b b2"
  by (auto simp: still_def calm_def)

lemma calm_trans [trans]: "calm b b1 \<Longrightarrow> calm b1 b2 \<Longrightarrow> calm b b2"
  by (auto simp: calm_def)

lemma calm_refl [simp]: "calm b b"
  by (simp add: calm_def)

lemma still_calm: "still b b' \<Longrightarrow> calm b b'"
  by (simp add: still_def)

lemma still_ev_flags [stills]: "still b (set_ev_flag f e b)" "still b (clear_ev_flag f e b)"
  by (simp_all add: still_def calm_def loop_vars_def tm_def set_ev_flag_def clear_ev_flag_def upd_ev_def)

lemma still_counts [stills]: "still b (INCR_EVENT_COUNT e b)" "still b (DECR_EVENT_COUNT e b)"
  by (simp_all add: still_def calm_def loop_vars_def INCR_EVENT_COUNT_def DECR_EVENT_COUNT_def Let_def)

lemma still_abort [stills]: "still b (abort_signal_loop e b)"
  by (simp add: still_def calm_def loop_vars_def abort_signal_loop_def)

lemma still_notify [stills]: "still b (notify_if c E b)"
  by (simp add: still_def calm_def loop_vars_def notify_if_def evthread_notify_base_def)

lemma still_same:
  "evs b' = evs b \<Longrightarrow> loop_vars b' = loop_vars b \<Longrightarrow> signal_ncalls b' = signal_ncalls b \<Longrightarrow> still b b'"
  by (simp add: still_def calm_def)

lemma still_more: "evmap_base.more b' = evmap_base.more (b :: ('b, 'x) event_base) \<Longrightarrow> still b b'"
  by (rule still_same) (cases b; cases b'; simp add: loop_vars_def)+

lemma still_remove_inserted [stills]: "event_queue_remove_inserted b e = Some b' \<Longrightarrow> still b b'"
  by (auto simp: event_queue_remove_inserted_def split: if_splits intro!: still_trans [OF still_counts(2) still_ev_flags(2)])

lemma still_insert_inserted [stills]: "event_queue_insert_inserted b e = Some b' \<Longrightarrow> still b b'"
  by (auto simp: event_queue_insert_inserted_def split: if_splits intro!: still_trans [OF still_counts(1) still_ev_flags(1)])

lemma still_remove_active [stills]: "event_queue_remove_active b e = Some b' \<Longrightarrow> still b b'"
  by (auto simp: event_queue_remove_active_def Let_def split: if_splits option.splits
      intro!: still_trans [OF still_trans [OF still_counts(2) still_ev_flags(2)] still_same] simp: loop_vars_def)

lemma still_insert_active [stills]: "event_queue_insert_active b e = Some b' \<Longrightarrow> still b b'"
  by (auto simp: event_queue_insert_active_def Let_def split: if_splits
      intro!: still_trans [OF still_trans [OF still_counts(1) still_ev_flags(1)] still_same] simp: loop_vars_def)

lemma still_remove_active_later [stills]: "event_queue_remove_active_later b e = Some b' \<Longrightarrow> still b b'"
  by (auto simp: event_queue_remove_active_later_def Let_def split: if_splits option.splits
      intro!: still_trans [OF still_trans [OF still_counts(2) still_ev_flags(2)] still_same] simp: loop_vars_def)

lemma still_insert_active_later [stills]: "event_queue_insert_active_later b e = Some b' \<Longrightarrow> still b b'"
  by (auto simp: event_queue_insert_active_later_def Let_def split: if_splits
      intro!: still_trans [OF still_trans [OF still_counts(1) still_ev_flags(1)] still_same] simp: loop_vars_def)

lemma still_heap:
  assumes "idx_frame (evs b) st"
  shows "still b (b\<lparr>evs := st, timeheap := h\<rparr>)"
proof -
  have "tm (st x) = tm (evs b x)" for x
    using idx_frame_core [OF assms, of x] ev_core_eqD [of "st x" "evs b x"] by (simp add: tm_def)
  then show ?thesis by (simp add: still_def calm_def loop_vars_def)
qed

lemma still_set_ctl [stills]: "still b (set_ctl_events i evl b)"
  by (rule still_same) (simp_all add: set_ctl_events_def loop_vars_def)

lemma still_remove_timeout [stills]:
  assumes "event_queue_remove_timeout b e = Some b'"
  shows "still b b'"
proof -
  define b1 where "b1 = clear_ev_flag EVLIST_TIMEOUT e (DECR_EVENT_COUNT e b)"
  have keep: "still b b1" unfolding b1_def by (rule still_trans [OF still_counts(2) still_ev_flags(2)])
  show ?thesis
  proof (cases "is_common_timeout (ev_timeout (evs b e)) b")
    case True
    then obtain i evl where "b' = set_ctl_events i evl b1"
      using assms by (auto simp: event_queue_remove_timeout_def b1_def [symmetric] Let_def split: if_splits)
    then show ?thesis using still_trans [OF keep still_set_ctl] by simp
  next
    case False
    then obtain st h r where r: "min_heap_erase (evs b1) (timeheap b1) e = Some (st, h, r)" "b' = b1\<lparr>evs := st, timeheap := h\<rparr>"
      using assms by (auto simp: event_queue_remove_timeout_def b1_def [symmetric] Let_def split: if_splits)
    then show ?thesis using still_trans [OF keep still_heap [OF erase_frame [OF r(1)]]] by simp
  qed
qed

lemma still_insert_timeout [stills]:
  assumes "event_queue_insert_timeout E b e = Some b'"
  shows "still b b'"
proof -
  define b1 where "b1 = set_ev_flag EVLIST_TIMEOUT e (INCR_EVENT_COUNT e b)"
  have keep: "still b b1" unfolding b1_def by (rule still_trans [OF still_counts(1) still_ev_flags(1)])
  show ?thesis
  proof (cases "is_common_timeout (ev_timeout (evs b e)) b")
    case True
    then obtain i evl where "b' = set_ctl_events i evl b1"
      using assms by (auto simp: event_queue_insert_timeout_def b1_def [symmetric] Let_def split: if_splits)
    then show ?thesis using still_trans [OF keep still_set_ctl] by simp
  next
    case False
    obtain st h r where r: "min_heap_push (m_realloc E) (evs b1) (timeheap b1) e = (st, h, r)" by (metis prod_cases3)
    then have "b' = b1\<lparr>evs := st, timeheap := h\<rparr>"
      using assms False by (auto simp: event_queue_insert_timeout_def b1_def [symmetric] Let_def split: if_splits)
    then show ?thesis using still_trans [OF keep still_heap [OF push_frame [OF r]]] by simp
  qed
qed

section \<open>Operations on events\<close>

text \<open>The three parts of a deletion: the timeout, the active queues, the event maps.\<close>

lemma event_del_steps:
  assumes "event_del_nolock E b e even_if = Some (b', r)" and go: "even_if \<or> \<not> fl b EVLIST_FINALIZING e"
  obtains b2 b3 where
    "(let b1 = abort_signal_loop e b in if fl b1 EVLIST_TIMEOUT e then event_queue_remove_timeout b1 e else Some b1) = Some b2"
    "(if fl b2 EVLIST_ACTIVE e then event_queue_remove_active b2 e
       else if fl b2 EVLIST_ACTIVE_LATER e then event_queue_remove_active_later b2 e else Some b2) = Some b3"
    "b' = b3 \<or> (\<exists>b4 b5 c. event_queue_remove_inserted b3 e = Some b4 \<and>
       evmap_base.more b5 = evmap_base.more b4 \<and> b' = notify_if c E b5)"
proof -
  have no: "\<not> (\<not> even_if \<and> fl b EVLIST_FINALIZING e)" using go by blast
  have all: "\<not> (ev_flags (evs b e) AND NOT EVLIST_ALL \<noteq> 0)"
    by (rule notI) (use assms in \<open>auto simp: event_del_nolock_def\<close>)
  from assms(1) [unfolded event_del_nolock_def if_not_P [OF no] if_not_P [OF all] bind_eq_Some_conv]
  obtain b2 b3 where s: "(let b1 = abort_signal_loop e b in if fl b1 EVLIST_TIMEOUT e then event_queue_remove_timeout b1 e else Some b1) = Some b2"
    "(if fl b2 EVLIST_ACTIVE e then event_queue_remove_active b2 e
       else if fl b2 EVLIST_ACTIVE_LATER e then event_queue_remove_active_later b2 e else Some b2) = Some b3"
    "(if fl b3 EVLIST_INSERTED e then
          Option.bind (event_queue_remove_inserted b3 e) (\<lambda>b4.
          Option.bind (if has_flag (ev_events (evs b4 e)) (EV_READ OR EV_WRITE OR EV_CLOSED)
                       then evmap_io_del E (evs b4) b4 (ev_fd (evs b4 e)) e
                       else evmap_signal_del E (evs b4) b4 (ev_fd (evs b4 e)) e) (\<lambda>(b5, res).
          let notify = (res = 1 \<or> (\<not> event_haveevents b5 \<and> N_ACTIVE_CALLBACKS b5 = 0));
              res' = (if res = 1 then 0 else res)
          in Some (notify_if (res' \<noteq> -1 \<and> notify) E b5, res')))
        else Some (b3, 0)) = Some (b', r)"
    by blast
  have "b' = b3 \<or> (\<exists>b4 b5 c. event_queue_remove_inserted b3 e = Some b4 \<and>
       evmap_base.more b5 = evmap_base.more b4 \<and> b' = notify_if c E b5)"
  proof (cases "fl b3 EVLIST_INSERTED e")
    case True
    obtain b4 b5 res where t: "event_queue_remove_inserted b3 e = Some b4"
      "(if has_flag (ev_events (evs b4 e)) (EV_READ OR EV_WRITE OR EV_CLOSED)
        then evmap_io_del E (evs b4) b4 (ev_fd (evs b4 e)) e
        else evmap_signal_del E (evs b4) b4 (ev_fd (evs b4 e)) e) = Some (b5, res)" "\<exists>c. b' = notify_if c E b5"
      using s(3) [unfolded if_P [OF True] bind_eq_Some_conv] by (auto simp: Let_def)
    have "evmap_base.more b5 = evmap_base.more b4"
      using t(2) by (auto split: if_splits dest: evmap_io_del_frame evmap_signal_del_frame)
    then show ?thesis using t(1,3) by blast
  qed (use s(3) in simp)
  then show thesis by (rule that [OF s(1,2)])
qed

lemma still_del [stills]:
  assumes "event_del_nolock E b e even_if = Some (b', r)"
  shows "still b b'"
proof (cases "even_if \<or> \<not> fl b EVLIST_FINALIZING e")
  case True
  obtain b2 b3 where s: "(let b1 = abort_signal_loop e b in if fl b1 EVLIST_TIMEOUT e then event_queue_remove_timeout b1 e else Some b1) = Some b2"
    "(if fl b2 EVLIST_ACTIVE e then event_queue_remove_active b2 e
       else if fl b2 EVLIST_ACTIVE_LATER e then event_queue_remove_active_later b2 e else Some b2) = Some b3"
    "b' = b3 \<or> (\<exists>b4 b5 c. event_queue_remove_inserted b3 e = Some b4 \<and>
       evmap_base.more b5 = evmap_base.more b4 \<and> b' = notify_if c E b5)"
    by (rule event_del_steps [OF assms True])
  have "still (abort_signal_loop e b) b2" using s(1) by (auto simp: Let_def split: if_splits intro: still_remove_timeout)
  with still_abort have "still b b2" by (rule still_trans)
  also have "still b2 b3" using s(2) by (auto split: if_splits intro: still_remove_active still_remove_active_later)
  also have "still b3 b'"
    using s(3)
  proof
    assume "\<exists>b4 b5 c. event_queue_remove_inserted b3 e = Some b4 \<and> evmap_base.more b5 = evmap_base.more b4 \<and> b' = notify_if c E b5"
    then obtain b4 b5 c where t: "event_queue_remove_inserted b3 e = Some b4" "evmap_base.more b5 = evmap_base.more b4" "b' = notify_if c E b5"
      by blast
    show ?thesis
      unfolding t(3) by (rule still_trans [OF still_trans [OF still_remove_inserted [OF t(1)] still_more [OF t(2)]] still_notify])
  qed simp
  finally show ?thesis .
qed (use assms in \<open>simp add: event_del_nolock_def\<close>)

lemma still_upd:
  "(\<And>ev. tm (F ev) = tm ev) \<Longrightarrow> still b (upd_ev e F b)"
  by (simp add: still_def calm_def loop_vars_def upd_ev_def)

lemma still_callback_activate [stills]:
  assumes "event_callback_activate_nolock E b e = Some (b', r)"
  shows "still b b'"
proof -
  consider "b' = b" | b2 where "event_queue_insert_active b e = Some b2" "b' = notify_if True E b2"
    | b1 b2 where "event_queue_remove_active_later b e = Some b1" "event_queue_insert_active b1 e = Some b2" "b' = notify_if True E b2"
    using assms by (auto simp: event_callback_activate_nolock_def bind_eq_Some_conv split: if_splits bool.splits)
  then show ?thesis
    by cases (auto intro: still_trans [OF still_insert_active still_notify]
        still_trans [OF still_remove_active_later still_trans [OF still_insert_active still_notify]])
qed

lemma still_active [stills]:
  assumes "event_active_nolock E b e res ncalls = Some b'"
  shows "still b b'"
proof -
  have t: "still b (upd_ev e (\<lambda>ev. ev\<lparr>ev_res := f ev\<rparr>) b)" for f by (rule still_upd) (simp add: tm_def)
  show ?thesis
  proof (cases "fl b EVLIST_FINALIZING e \<or> fl b EVLIST_ACTIVE e")
    case True
    then show ?thesis using assms t by (auto simp: event_active_nolock_def Let_def split: if_splits bool.splits)
  next
    case False
    define later where "later = fl b EVLIST_ACTIVE_LATER e"
    define b1 where "b1 = upd_ev e (\<lambda>ev. ev\<lparr>ev_res := (if later then ev_res ev OR res else res)\<rparr>) b"
    define b2 where "b2 = (if int (ev_pri (evs b e)) < event_running_priority b1 then b1\<lparr>event_continue := True\<rparr> else b1)"
    define b3 where "b3 = (if has_flag (ev_events (evs b e)) EV_SIGNAL
      then upd_ev e (\<lambda>ev. ev\<lparr>ev_ncalls := ncalls, ev_pncalls := False\<rparr>) b2 else b2)"
    have "event_active_nolock E b e res ncalls = map_option fst (event_callback_activate_nolock E b3 e)"
      using False by (simp add: event_active_nolock_def Let_def b1_def b2_def b3_def later_def [symmetric])
    then have "map_option fst (event_callback_activate_nolock E b3 e) = Some b'" using assms by simp
    then have run: "still b3 b'" by (auto dest: still_callback_activate)
    have "still b b1" unfolding b1_def by (rule t)
    also have "still b1 b2" by (rule still_same) (simp_all add: b2_def loop_vars_def)
    also have "still b2 b3" by (simp add: b3_def still_upd tm_def)
    also have "still b3 b'" by (rule run)
    finally show ?thesis .
  qed
qed

lemma still_activate_later [stills]: "event_callback_activate_later_nolock E b e = Some (b', r) \<Longrightarrow> still b b'"
  by (auto simp: event_callback_activate_later_nolock_def split: if_splits intro: still_trans [OF still_insert_active_later still_notify])

lemma still_active_later [stills]:
  assumes "event_active_later_nolock E b e res = Some b'"
  shows "still b b'"
proof -
  have t: "still b (upd_ev e (\<lambda>ev. ev\<lparr>ev_res := f ev\<rparr>) b)" for f by (rule still_upd) (simp add: tm_def)
  show ?thesis
    using assms by (auto simp: event_active_later_nolock_def t split: if_splits intro: still_trans [OF t still_activate_later])
qed

lemma still_cancel [stills]: "event_callback_cancel_nolock E b e even_if = Some (b', r) \<Longrightarrow> still b b'"
  by (auto simp: event_callback_cancel_nolock_def split: if_splits bool.splits
      intro: still_del still_remove_active still_remove_active_later)

lemma still_finalize [stills]:
  assumes "event_finalize_nolock E b free_it e = Some b'"
  shows "still b b'"
proof -
  obtain b1 r b2 c where d: "event_del_nolock E b e False = Some (b1, r)"
    "event_active_nolock E (upd_ev e (\<lambda>ev. ev\<lparr>ev_closure := c\<rparr>) b1) e EV_FINALIZE 1 = Some b2" "b' = set_ev_flag EVLIST_FINALIZING e b2"
    using assms by (auto simp: event_finalize_nolock_def bind_eq_Some_conv Let_def)
  note still_del [OF d(1)]
  also have "still b1 (upd_ev e (\<lambda>ev. ev\<lparr>ev_closure := c\<rparr>) b1)" by (rule still_upd) (simp add: tm_def)
  also note still_active [OF d(2)]
  also have "still b2 b'" unfolding d(3) by (rule still_ev_flags)
  finally show ?thesis .
qed

lemma still_make_later: "make_later_active es b = Some b' \<Longrightarrow> still b b'"
proof (induction es arbitrary: b)
  case Nil
  then show ?case by (auto intro: still_same simp: loop_vars_def)
next
  case (Cons e es)
  obtain b1 where b1: "make_later_active es b1 = Some b'" "still b b1"
    using Cons.prems by (auto simp: Let_def upd_ev_def still_def calm_def loop_vars_def tm_def split: if_splits)
  show ?case by (rule still_trans [OF b1(2) Cons.IH [OF b1(1)]])
qed

lemma still_activate_all: "activate_all E xs b = Some b' \<Longrightarrow> still b b'"
proof (induction E xs b rule: activate_all.induct)
  case (2 E e res xs b)
  then obtain b1 where b1: "event_active_nolock E b e res 1 = Some b1" "activate_all E xs b1 = Some b'"
    by (auto simp: bind_eq_Some_conv)
  show ?case by (rule still_trans [OF still_active [OF b1(1)] 2(1) [OF b1]])
qed simp

lemma still_io_active: "io_active_all E xs b = Some b' \<Longrightarrow> still b b'"
proof (induction E xs b rule: io_active_all.induct)
  case (2 E fd events xs b)
  then obtain b1 where b1: "activate_all E (evmap_io_active (evs b) b fd events) b = Some b1" "io_active_all E xs b1 = Some b'"
    by (auto simp: bind_eq_Some_conv)
  show ?case by (rule still_trans [OF still_activate_all [OF b1(1)] 2(1) [OF b1]])
qed simp

lemma still_poll [stills]:
  assumes "epoll_poll ctl wait E b tv = Some (b', r)"
  shows "still b b'"
proof -
  obtain xs m eb where "io_active_all E xs (b\<lparr>io := m, evbase := eb\<rparr>) = Some b'"
    using assms by (auto simp: epoll_poll_def split: option.splits)
  moreover have "still b (b\<lparr>io := m, evbase := eb\<rparr>)" by (rule still_same) (simp_all add: loop_vars_def)
  ultimately show ?thesis using still_trans still_io_active by blast
qed

lemma still_gettime [stills]: "gettime E b = (b', t) \<Longrightarrow> still b b'"
  by (auto simp: gettime_def Let_def still_def calm_def loop_vars_def split: if_splits option.splits)

section \<open>Additions\<close>

lemma add_maps_cases:
  assumes "event_add_maps E b e = Some (b', r, n)"
  obtains "b' = b" | b1 where "evmap_base.more b1 = evmap_base.more b" "b' = b1 \<or> event_queue_insert_inserted b1 e = Some b'"
proof (cases "has_flag (ev_events (evs b e)) (EV_READ OR EV_WRITE OR EV_CLOSED OR EV_SIGNAL) \<and>
    \<not> has_flag (ev_flags (evs b e)) (EVLIST_INSERTED OR EVLIST_ACTIVE OR EVLIST_ACTIVE_LATER)")
  case True
  obtain b1 res where m: "(if has_flag (ev_events (evs b e)) (EV_READ OR EV_WRITE OR EV_CLOSED)
        then evmap_io_add E (evs b) b (ev_fd (evs b e)) e else evmap_signal_add E (evs b) b (ev_fd (evs b e)) e) = Some (b1, res)"
    "(if res \<noteq> -1 then event_queue_insert_inserted b1 e else Some b1) = Some b'"
    using assms True by (auto simp: event_add_maps_def Let_def split: option.splits)
  have "evmap_base.more b1 = evmap_base.more b"
    using m(1) by (auto split: if_splits dest: evmap_io_add_frame evmap_signal_add_frame)
  then show ?thesis using that(2) m(2) by (auto split: if_splits)
next
  case False
  then show ?thesis using assms that(1) unfolding event_add_maps_def Let_def if_not_P [OF False] by simp
qed

lemma still_add_maps:
  assumes "event_add_maps E b e = Some (b', r, n)"
  shows "still b b'" "ev_closure (evs b' x) = ev_closure (evs b x)"
  using assms
proof (atomize (full), cases rule: add_maps_cases)
  case (2 b1)
  have c: "event_queue_insert_inserted b1 e = Some b' \<Longrightarrow> ev_closure (evs b' x) = ev_closure (evs b1 x)"
    by (auto simp: event_queue_insert_inserted_def set_ev_flag_def upd_ev_def split: if_splits)
  from 2(2) show "still b b' \<and> ev_closure (evs b' x) = ev_closure (evs b x)"
  proof
    assume "b' = b1"
    then show ?thesis using still_more [OF 2(1)] same_more(1) [OF 2(1)] by simp
  next
    assume i: "event_queue_insert_inserted b1 e = Some b'"
    show ?thesis
      using still_trans [OF still_more [OF 2(1)] still_insert_inserted [OF i]] c [OF i] same_more(1) [OF 2(1)] by simp
  qed
qed simp

text \<open>Only an addition with a relative time sets \<open>ev_io_timeout\<close>, of a persistent event.\<close>

abbreviation io_of :: "('b, 'x) event_base \<Rightarrow> ev_addr \<Rightarrow> timeval" where
  "io_of b x \<equiv> ev_io_timeout (evs b x)"

lemma still_io: "still b b' \<Longrightarrow> io_of b' x = io_of b x"
  by (simp add: still_def tm_def)

lemma add_timeout_io:
  assumes run: "event_add_timeout schedule E b e tv is_absolute = Some (b', n)"
    and sched: "\<And>b1 i b2. schedule b1 i e = Some b2 \<Longrightarrow> calm b1 b2 \<and> (\<forall>x. io_of b2 x = io_of b1 x)"
  shows "calm b b' \<and>
    (\<forall>x. io_of b' x = (if x = e \<and> ev_closure (evs b e) = EV_CLOSURE_EVENT_PERSIST \<and> \<not> is_absolute then tv else io_of b x))"
proof -
  define b1 where "b1 = (if ev_closure (evs b e) = EV_CLOSURE_EVENT_PERSIST \<and> \<not> is_absolute
    then upd_ev e (\<lambda>ev. ev\<lparr>ev_io_timeout := tv\<rparr>) b else b)"
  obtain b2 b3 where s: "(if has_flag (ev_flags (evs b1 e)) EVLIST_TIMEOUT then event_queue_remove_timeout b1 e else Some b1) = Some b2"
    "(if has_flag (ev_flags (evs b2 e)) EVLIST_ACTIVE \<and> has_flag (ev_res (evs b2 e)) EV_TIMEOUT
      then event_queue_remove_active (abort_signal_loop e b2) e else Some b2) = Some b3"
    and r3: "(case gettime E b3 of
           (b4, None) \<Rightarrow> None
         | (b4, Some now) \<Rightarrow>
             (let common = is_common_timeout tv b4;
                  b5 = upd_ev e (\<lambda>ev. ev\<lparr>ev_timeout := timeout_at is_absolute common now tv\<rparr>) b4
              in Option.bind (event_queue_insert_timeout E b5 e) (\<lambda>b6.
                   if common then
                     (let i = COMMON_TIMEOUT_IDX (ev_timeout (evs b6 e));
                          evl = ctl_events (common_timeout_queues b6 ! i)
                      in if evl \<noteq> [] \<and> hd evl = e
                         then map_option (\<lambda>b7. (b7, False)) (schedule b6 i e)
                         else Some (b6, False))
                   else
                     Some (b6, min_heap_elt_is_top (evs b6) e \<or>
                       (case min_heap_top (timeheap b6) of
                          None \<Rightarrow> False
                        | Some x \<Rightarrow> evutil_timercmp (ev_timeout (evs b6 x)) now (<)))))) = Some (b', n)"
    using run unfolding event_add_timeout_def b1_def [symmetric] Let_def [of b1] bind_eq_Some_conv by blast
  obtain b4 now where g: "gettime E b3 = (b4, Some now)" using r3 by (auto split: prod.splits option.splits)
  define b5 where "b5 = upd_ev e (\<lambda>ev. ev\<lparr>ev_timeout := timeout_at is_absolute (is_common_timeout tv b4) now tv\<rparr>) b4"
  obtain b6 where b6: "event_queue_insert_timeout E b5 e = Some b6" "b' = b6 \<or> (\<exists>i. schedule b6 i e = Some b')"
    using r3 unfolding g prod.case option.case Let_def b5_def [symmetric] bind_eq_Some_conv by (auto split: if_splits)
  have "still b1 b2" using s(1) by (auto split: if_splits intro: still_remove_timeout)
  also have "still b2 b3"
    using s(2) by (auto split: if_splits intro: still_trans [OF still_abort still_remove_active])
  also have "still b3 b4" by (rule still_gettime [OF g])
  finally have s4: "still b1 b4" .
  have b45: "calm b4 b5 \<and> (\<forall>x. io_of b5 x = io_of b4 x)" by (simp add: b5_def calm_def loop_vars_def upd_ev_def)
  have s6: "still b5 b6" by (rule still_insert_timeout [OF b6(1)])
  have b6': "calm b6 b' \<and> (\<forall>x. io_of b' x = io_of b6 x)" using b6(2) sched by auto
  have "calm b b1" by (simp add: b1_def calm_def loop_vars_def upd_ev_def)
  then have "calm b b'"
    using calm_trans still_calm [OF s4] b45 still_calm [OF s6] b6' by metis
  moreover have "io_of b' x = io_of b1 x" for x using still_io [OF s4] b45 still_io [OF s6] b6' by simp
  ultimately show ?thesis by (auto simp: b1_def upd_ev_def)
qed

lemma add_core_io:
  assumes run: "event_add_core schedule E b e tv is_absolute = Some (b', r)"
    and sched: "\<And>b1 i b2. schedule b1 i e = Some b2 \<Longrightarrow> calm b1 b2 \<and> (\<forall>x. io_of b2 x = io_of b1 x)"
  shows "calm b b'" "tv = None \<or> r = -1 \<Longrightarrow> still b b'"
    "io_of b' x = (if x = e \<and> ev_closure (evs b e) = EV_CLOSURE_EVENT_PERSIST \<and> \<not> is_absolute \<and> r \<noteq> -1 \<and> tv \<noteq> None
       then the tv else io_of b x)"
proof -
  have "still b b' \<and> (tv = None \<or> r = -1) \<or>
    calm b b' \<and> tv \<noteq> None \<and> r \<noteq> -1 \<and> (\<forall>x. io_of b' x = (if x = e \<and> ev_closure (evs b e) = EV_CLOSURE_EVENT_PERSIST \<and> \<not> is_absolute
       then the tv else io_of b x))"
  proof (cases "fl b EVLIST_FINALIZING e")
    case True
    then show ?thesis using run by (auto simp: event_add_core_def split: if_splits)
  next
    case fin: False
    obtain h q where hq: "(if tv \<noteq> None \<and> \<not> has_flag (ev_flags (evs b e)) EVLIST_TIMEOUT
        then min_heap_reserve (m_realloc E) (timeheap b) (1 + min_heap_size (timeheap b)) else (timeheap b, 0)) = (h, q)"
      by fastforce
    define b0 where "b0 = b\<lparr>timeheap := h\<rparr>"
    have s0: "still b b0" by (rule still_same) (simp_all add: b0_def loop_vars_def)
    have all: "\<not> (ev_flags (evs b e) AND NOT EVLIST_ALL \<noteq> 0)"
      by (rule notI) (use run in \<open>simp add: event_add_core_def\<close>)
    have run2: "(if q = -1 then Some (b0, -1)
            else
              Option.bind (event_add_maps E b0 e) (\<lambda>(b1, res, notify).
                if res = -1 \<or> tv = None then Some (notify_if (res \<noteq> -1 \<and> notify) E b1, res)
                else map_option (\<lambda>(b2, notify'). (notify_if (notify \<or> notify') E b2, res))
                       (event_add_timeout schedule E b1 e (the tv) is_absolute))) = Some (b', r)"
      using run unfolding event_add_core_def if_not_P [OF all] if_not_P [OF fin] hq Let_def prod.case b0_def by simp
    show ?thesis
    proof (cases "q = -1")
      case True
      then show ?thesis using run2 s0 by auto
    next
      case False
      obtain b1 res notify where m: "event_add_maps E b0 e = Some (b1, res, notify)"
        and r1: "(if res = -1 \<or> tv = None then Some (notify_if (res \<noteq> -1 \<and> notify) E b1, res)
                else map_option (\<lambda>(b2, notify'). (notify_if (notify \<or> notify') E b2, res))
                       (event_add_timeout schedule E b1 e (the tv) is_absolute)) = Some (b', r)"
        using run2 False by (auto simp: bind_eq_Some_conv)
      have s1: "still b b1" by (rule still_trans [OF s0 still_add_maps(1) [OF m]])
      show ?thesis
      proof (cases "res = -1 \<or> tv = None")
        case True
        then show ?thesis using r1 still_trans [OF s1 still_notify] by auto
      next
        case go: False
        then obtain b2 n c where t: "event_add_timeout schedule E b1 e (the tv) is_absolute = Some (b2, n)" "b' = notify_if c E b2" "r = res"
          using r1 by auto
        have cl: "ev_closure (evs b1 e) = ev_closure (evs b e)"
          using still_add_maps(2) [OF m] by (simp add: b0_def)
        have a: "calm b1 b2 \<and> (\<forall>x. io_of b2 x =
            (if x = e \<and> ev_closure (evs b1 e) = EV_CLOSURE_EVENT_PERSIST \<and> \<not> is_absolute then the tv else io_of b1 x))"
          by (rule add_timeout_io [OF t(1)]) (rule sched)
        have s2: "still b2 b'" unfolding t(2) by (rule still_notify)
        have "calm b b'" by (rule calm_trans [OF calm_trans [OF still_calm [OF s1] conjunct1 [OF a]] still_calm [OF s2]])
        then show ?thesis using conjunct2 [OF a] go t(3) cl still_io [OF s1] still_io [OF s2] by simp
      qed
    qed
  qed
  then show "calm b b'" "tv = None \<or> r = -1 \<Longrightarrow> still b b'"
    "io_of b' x = (if x = e \<and> ev_closure (evs b e) = EV_CLOSURE_EVENT_PERSIST \<and> \<not> is_absolute \<and> r \<noteq> -1 \<and> tv \<noteq> None
       then the tv else io_of b x)"
    by (auto dest: still_calm still_io)
qed

lemma schedule_io: "common_timeout_schedule E b i head = Some b' \<Longrightarrow> calm b b' \<and> (\<forall>x. io_of b' x = io_of b x)"
  using add_core_io [of "\<lambda>_ _ _. None" E b "ctl_timeout_event (common_timeout_queues b ! i)"
      "Some (real_timeout (ev_timeout (evs b head)))" True]
  by (auto simp: common_timeout_schedule_def)

lemma event_add_io:
  assumes "event_add_nolock E b e tv is_absolute = Some (b', r)"
  shows "calm b b'" "tv = None \<or> r = -1 \<Longrightarrow> still b b'"
    "io_of b' x = (if x = e \<and> ev_closure (evs b e) = EV_CLOSURE_EVENT_PERSIST \<and> \<not> is_absolute \<and> r \<noteq> -1 \<and> tv \<noteq> None
       then the tv else io_of b x)"
proof -
  note c = add_core_io [OF assms [unfolded event_add_nolock_def]]
  show "calm b b'" by (rule c(1)) (rule schedule_io)
  show "still b b'" if "tv = None \<or> r = -1" by (rule c(2) [OF _ that]) (rule schedule_io)
  show "io_of b' x = (if x = e \<and> ev_closure (evs b e) = EV_CLOSURE_EVENT_PERSIST \<and> \<not> is_absolute \<and> r \<noteq> -1 \<and> tv \<noteq> None
       then the tv else io_of b x)" by (rule c(3)) (rule schedule_io)
qed

end
