(* ===== verification/Ev_Timeouts.thy ===== *)
theory Ev_Timeouts
  imports Ev_Frames
begin

text \<open>
  Timers that fire: the effect of a deletion on the order of the queues, the time the loop
  waits, \<open>timeout_process\<close> over the heap and \<open>common_timeout_callback\<close> over a list of common
  timeouts, both as instances of the timer queue contract.
\<close>

section \<open>What a deletion leaves of the queues\<close>

lemma map_remove1_idem: "(\<And>i. i < length qs \<Longrightarrow> e \<notin> set (qs ! i)) \<Longrightarrow> map (remove1 e) qs = qs"
  by (rule nth_equalityI) (simp_all add: remove1_idem)

lemma map_remove1_one:
  "(\<And>i. i < length qs \<Longrightarrow> i \<noteq> p \<Longrightarrow> e \<notin> set (qs ! i)) \<Longrightarrow> map (remove1 e) qs = qs[p := remove1 e (qs ! p)]"
  by (rule nth_equalityI, simp, rename_tac i, case_tac "i = p") (simp_all add: remove1_idem)

lemma remove_timeout_order:
  assumes inv: "queues_inv b" and run: "event_queue_remove_timeout b e = Some b'"
  shows "map ctl_events (common_timeout_queues b') = map (remove1 e \<circ> ctl_events) (common_timeout_queues b)"
    "ev_res (evs b' x) = ev_res (evs b x)" "activequeues b' = activequeues b" "active_later_queue b' = active_later_queue b"
    "heap_elems (timeheap b') = heap_elems (timeheap b) - {e}" "queues_inv b'"
    "fl b' EVLIST_ACTIVE y = fl b EVLIST_ACTIVE y" "fl b' EVLIST_ACTIVE_LATER y = fl b EVLIST_ACTIVE_LATER y"
    "ev_pri (evs b' y) = ev_pri (evs b y)" "ev_ncalls (evs b' x) = ev_ncalls (evs b x)"
proof -
  have e: "fl b EVLIST_TIMEOUT e" using run by (auto simp: event_queue_remove_timeout_def split: if_splits)
  obtain b2 where b2: "event_queue_remove_timeout b e = Some b2" "queues_inv b2" "queue_step b b2 EVLIST_TIMEOUT e False"
    "activequeues b2 = activequeues b" "active_later_queue b2 = active_later_queue b"
    "heap_elems (timeheap b2) = heap_elems (timeheap b) - {e}"
    using remove_timeout_spec [OF inv e] by blast
  have eq: "b2 = b'" using b2(1) run by simp
  note b2 = b2 [unfolded eq]
  show "activequeues b' = activequeues b" "active_later_queue b' = active_later_queue b"
    "heap_elems (timeheap b') = heap_elems (timeheap b) - {e}" "queues_inv b'" by (fact b2)+
  show "ev_res (evs b' x) = ev_res (evs b x)" "ev_pri (evs b' y) = ev_pri (evs b y)" by (rule queue_step_core [OF b2(3)])+
  show "ev_ncalls (evs b' x) = ev_ncalls (evs b x)" using queue_step_core(1) [OF b2(3), of x] ev_core_eqD by blast
  show "fl b' EVLIST_ACTIVE y = fl b EVLIST_ACTIVE y" "fl b' EVLIST_ACTIVE_LATER y = fl b EVLIST_ACTIVE_LATER y"
    using queue_step_fl [OF b2(3)] by simp_all
  have t: "timeouts_ok b" by (rule queues_invD(1) [OF inv])
  have out: "e \<notin> set (ctl_events (common_timeout_queues b ! j))"
    if "j < n_common_timeouts b" "\<not> is_common_timeout (ev_timeout (evs b e)) b \<or> j \<noteq> COMMON_TIMEOUT_IDX (ev_timeout (evs b e))" for j
    using t [unfolded timeouts_ok_def, THEN conjunct2, THEN conjunct2, THEN conjunct2] that by metis
  have lists: "map (remove1 e \<circ> ctl_events) qs = map (remove1 e) (map ctl_events qs)" for qs by simp
  show "map ctl_events (common_timeout_queues b') = map (remove1 e \<circ> ctl_events) (common_timeout_queues b)"
  proof (cases "is_common_timeout (ev_timeout (evs b e)) b")
    case True
    let ?i = "COMMON_TIMEOUT_IDX (ev_timeout (evs b e))"
    have "common_timeout_queues b' = (common_timeout_queues b)[?i := (common_timeout_queues b ! ?i)
        \<lparr>ctl_events := remove1 e (ctl_events (common_timeout_queues b ! ?i))\<rparr>]"
      using run True by (auto simp: event_queue_remove_timeout_def set_ctl_events_def list_remove_def Let_def split: if_splits)
    then have "map ctl_events (common_timeout_queues b') =
        (map ctl_events (common_timeout_queues b))[?i := remove1 e (map ctl_events (common_timeout_queues b) ! ?i)]"
      using True by (simp add: map_update is_common_timeout_def split: if_splits)
    then show ?thesis using out unfolding lists by (subst map_remove1_one [where p = ?i]) auto
  next
    case False
    then have "common_timeout_queues b' = common_timeout_queues b"
      using run by (auto simp: event_queue_remove_timeout_def Let_def split: if_splits)
    then show ?thesis using out False unfolding lists by (subst map_remove1_idem) auto
  qed
qed

lemma not_queued:
  assumes "actives_ok b"
  shows "\<not> fl b EVLIST_ACTIVE e \<Longrightarrow> map (remove1 e) (activequeues b) = activequeues b"
    "fl b EVLIST_ACTIVE e \<Longrightarrow> map (remove1 e) (activequeues b) = (activequeues b)[ev_pri (evs b e) := remove1 e (activequeues b ! ev_pri (evs b e))]"
    "\<not> fl b EVLIST_ACTIVE_LATER e \<Longrightarrow> remove1 e (active_later_queue b) = active_later_queue b"
proof -
  show "map (remove1 e) (activequeues b) = activequeues b" if "\<not> fl b EVLIST_ACTIVE e"
    by (rule map_remove1_idem) (use assms that in \<open>simp add: actives_ok_def\<close>)
  show "map (remove1 e) (activequeues b) = (activequeues b)[ev_pri (evs b e) := remove1 e (activequeues b ! ev_pri (evs b e))]"
    by (rule map_remove1_one) (use assms in \<open>simp add: actives_ok_def\<close>)
  show "remove1 e (active_later_queue b) = active_later_queue b" if "\<not> fl b EVLIST_ACTIVE_LATER e"
    using assms that by (auto intro!: remove1_idem simp: actives_ok_def)
qed

lemma event_del_order:
  assumes inv: "base_inv binv view b" and run: "event_del_nolock E b e even_if = Some (b', r)"
    and go: "even_if \<or> \<not> fl b EVLIST_FINALIZING e"
  shows "map ctl_events (common_timeout_queues b') = map (remove1 e \<circ> ctl_events) (common_timeout_queues b)"
    "ev_res (evs b' x) = ev_res (evs b x)" "activequeues b' = map (remove1 e) (activequeues b)"
    "active_later_queue b' = remove1 e (active_later_queue b)" "heap_elems (timeheap b') = heap_elems (timeheap b) - {e}"
    "ev_ncalls (evs b' x) = ev_ncalls (evs b x)"
proof -
  obtain b2 b3 where s: "(let b1 = abort_signal_loop e b in if fl b1 EVLIST_TIMEOUT e then event_queue_remove_timeout b1 e else Some b1) = Some b2"
    "(if fl b2 EVLIST_ACTIVE e then event_queue_remove_active b2 e
       else if fl b2 EVLIST_ACTIVE_LATER e then event_queue_remove_active_later b2 e else Some b2) = Some b3"
    "b' = b3 \<or> (\<exists>b4 b5 c. event_queue_remove_inserted b3 e = Some b4 \<and>
       evmap_base.more b5 = evmap_base.more b4 \<and> b' = notify_if c E b5)"
    by (rule event_del_steps [OF run go])
  define b1 where "b1 = abort_signal_loop e b"
  note a = abort_signal_loop_spec [OF inv, of e, folded b1_def]
  have q1: "activequeues b1 = activequeues b" "active_later_queue b1 = active_later_queue b" "evs b1 = evs b"
    by (simp_all add: b1_def abort_signal_loop_def)
  have i1: "queues_inv b1" by (rule base_invD(1) [OF a(1)])
  have "map ctl_events (common_timeout_queues b2) = map (remove1 e \<circ> ctl_events) (common_timeout_queues b) \<and>
    (\<forall>x. ev_res (evs b2 x) = ev_res (evs b x) \<and> ev_ncalls (evs b2 x) = ev_ncalls (evs b x)) \<and> activequeues b2 = activequeues b \<and> active_later_queue b2 = active_later_queue b \<and>
    heap_elems (timeheap b2) = heap_elems (timeheap b) - {e} \<and> queues_inv b2"
  proof (cases "fl b1 EVLIST_TIMEOUT e")
    case True
    then have "event_queue_remove_timeout b1 e = Some b2" using s(1) by (simp add: b1_def Let_def)
    from remove_timeout_order [OF i1 this] show ?thesis using a(5-7) q1 by simp
  next
    case False
    then have "b2 = b1" using s(1) by (simp add: b1_def Let_def)
    moreover have "e \<notin> heap_elems (timeheap b1)" "\<forall>i < n_common_timeouts b1. e \<notin> set (ctl_events (common_timeout_queues b1 ! i))"
      using queues_invD(1) [OF i1] False unfolding timeouts_ok_def by blast+
    moreover from this have "map (remove1 e) (map ctl_events (common_timeout_queues b1)) = map ctl_events (common_timeout_queues b1)"
      by (intro map_remove1_idem) simp
    ultimately show ?thesis using a(5-7) q1 i1 by simp
  qed
  note b2 = this
  note q2 = queues_invD(2) [OF b2 [THEN conjunct2, THEN conjunct2, THEN conjunct2, THEN conjunct2, THEN conjunct2]]
  have "activequeues b3 = map (remove1 e) (activequeues b2) \<and> active_later_queue b3 = remove1 e (active_later_queue b2) \<and>
    (\<forall>x. ev_res (evs b3 x) = ev_res (evs b2 x) \<and> ev_ncalls (evs b3 x) = ev_ncalls (evs b2 x)) \<and> common_timeout_queues b3 = common_timeout_queues b2 \<and> timeheap b3 = timeheap b2"
  proof (cases "fl b2 EVLIST_ACTIVE e")
    case True
    then have "\<not> fl b2 EVLIST_ACTIVE_LATER e" using q2 by (simp add: actives_ok_def)
    then show ?thesis
      using s(2) True not_queued(2,3) [OF q2]
      by (auto simp: event_queue_remove_active_def list_remove_def clear_ev_flag_def upd_ev_def Let_def split: if_splits)
  next
    case False
    then show ?thesis
      using s(2) not_queued(1,3) [OF q2]
      by (auto simp: event_queue_remove_active_later_def list_remove_def clear_ev_flag_def upd_ev_def Let_def split: if_splits)
  qed
  note b3 = this
  have "activequeues b' = activequeues b3 \<and> active_later_queue b' = active_later_queue b3 \<and>
    (\<forall>x. ev_res (evs b' x) = ev_res (evs b3 x) \<and> ev_ncalls (evs b' x) = ev_ncalls (evs b3 x)) \<and> common_timeout_queues b' = common_timeout_queues b3 \<and> timeheap b' = timeheap b3"
    using s(3)
  proof
    assume "\<exists>b4 b5 c. event_queue_remove_inserted b3 e = Some b4 \<and> evmap_base.more b5 = evmap_base.more b4 \<and> b' = notify_if c E b5"
    then obtain b4 b5 c where t: "event_queue_remove_inserted b3 e = Some b4" "evmap_base.more b5 = evmap_base.more b4" "b' = notify_if c E b5"
      by blast
    have "activequeues b4 = activequeues b3 \<and> active_later_queue b4 = active_later_queue b3 \<and>
      (\<forall>x. ev_res (evs b4 x) = ev_res (evs b3 x) \<and> ev_ncalls (evs b4 x) = ev_ncalls (evs b3 x)) \<and> common_timeout_queues b4 = common_timeout_queues b3 \<and> timeheap b4 = timeheap b3"
      using t(1) by (auto simp: event_queue_remove_inserted_def clear_ev_flag_def upd_ev_def split: if_splits)
    then show ?thesis using same_more [OF t(2)] t(3) by simp
  qed simp
  then show "map ctl_events (common_timeout_queues b') = map (remove1 e \<circ> ctl_events) (common_timeout_queues b)"
    "ev_res (evs b' x) = ev_res (evs b x)" "activequeues b' = map (remove1 e) (activequeues b)"
    "active_later_queue b' = remove1 e (active_later_queue b)" "heap_elems (timeheap b') = heap_elems (timeheap b) - {e}"
    "ev_ncalls (evs b' x) = ev_ncalls (evs b x)"
    using b2 b3 by simp_all
qed

section \<open>States the loop can run in\<close>

text \<open>An event that is on a queue has the flags its closure's \<open>case\<close> asserts.\<close>

definition ready :: "event \<Rightarrow> bool" where
  "ready ev \<longleftrightarrow>
     (case ev_closure ev of
        EV_CLOSURE_EVENT_FINALIZE \<Rightarrow> has_flag (ev_flags ev) EVLIST_INIT \<and> has_flag (ev_flags ev) EVLIST_FINALIZING
      | EV_CLOSURE_EVENT_FINALIZE_FREE \<Rightarrow> has_flag (ev_flags ev) EVLIST_INIT \<and> has_flag (ev_flags ev) EVLIST_FINALIZING
      | EV_CLOSURE_CB_FINALIZE \<Rightarrow> has_flag (ev_flags ev) EVLIST_FINALIZING
      | EV_CLOSURE_CB_SELF \<Rightarrow> True
      | EV_CLOSURE_EVENT_PERSIST \<Rightarrow> has_flag (ev_flags ev) EVLIST_INIT \<and> \<not> has_flag (ev_events ev) EV_SIGNAL
      | _ \<Rightarrow> has_flag (ev_flags ev) EVLIST_INIT)"

text \<open>The interval of a persistent event is of the kind of its timeout, and both are times.\<close>

definition persist_times :: "('b, 'x) event_base \<Rightarrow> event \<Rightarrow> bool" where
  "persist_times b ev \<longleftrightarrow>
     (ev_closure ev = EV_CLOSURE_EVENT_PERSIST \<and> evutil_timerisset (ev_io_timeout ev) \<longrightarrow>
        is_same_common_timeout (ev_timeout ev) (ev_io_timeout ev) \<and>
        tv_normal (real_timeout (ev_timeout ev)) \<and> tv_normal (real_timeout (ev_io_timeout ev)) \<and>
        (if is_common_timeout (ev_io_timeout ev) b then usec_32 (ev_timeout ev) \<and> usec_32 (ev_io_timeout ev)
         else tv_normal (ev_timeout ev) \<and> tv_normal (ev_io_timeout ev)))"

definition loop_ok :: "('b, 'x) event_base \<Rightarrow> bool" where
  "loop_ok b \<longleftrightarrow>
     (\<forall>e. \<not> unlisted b e \<or> e \<in> timers b \<longrightarrow> ready (evs b e)) \<and>
     (\<forall>e. fl b EVLIST_FINALIZING e \<longrightarrow> \<not> fl b EVLIST_TIMEOUT e \<and> \<not> fl b EVLIST_INSERTED e) \<and>
     (\<forall>t \<in> timers b. ev_closure (evs b t) = EV_CLOSURE_EVENT \<and> \<not> fl b EVLIST_FINALIZING t) \<and>
     (\<forall>e. fl b EVLIST_INTERNAL e \<longrightarrow> e \<in> timers b) \<and>
     (\<forall>e. persist_times b (evs b e))"

definition sound ::
  "('b \<Rightarrow> (int \<Rightarrow> 'x option) \<Rightarrow> bool) \<Rightarrow> ('b \<Rightarrow> int \<Rightarrow> 'x \<Rightarrow> short) \<Rightarrow> ('b, 'x) event_base \<Rightarrow> bool"
where
  "sound binv view b \<longleftrightarrow> base_inv binv view b \<and> limits_ok b \<and> loop_ok b"

lemma soundD:
  assumes "sound binv view b"
  shows "base_inv binv view b" "limits_ok b" "loop_ok b"
  using assms by (simp_all add: sound_def)

lemma loop_okD:
  assumes "loop_ok b"
  shows "\<not> unlisted b e \<or> e \<in> timers b \<Longrightarrow> ready (evs b e)"
    "fl b EVLIST_FINALIZING e \<Longrightarrow> \<not> fl b EVLIST_TIMEOUT e \<and> \<not> fl b EVLIST_INSERTED e"
    "t \<in> timers b \<Longrightarrow> ev_closure (evs b t) = EV_CLOSURE_EVENT \<and> \<not> fl b EVLIST_FINALIZING t"
    "fl b EVLIST_INTERNAL e \<Longrightarrow> e \<in> timers b" "persist_times b (evs b e)"
  using assms by (simp_all add: loop_ok_def)

lemma ready_step: "event_step X b b' \<Longrightarrow> ready (evs b' x) = ready (evs b x)"
  by (simp add: ready_def event_step_def split: ev_closure.split)

lemma persist_times_cong:
  assumes "tm ev' = tm ev" "ev_closure ev' = ev_closure ev" "n_common_timeouts b' = n_common_timeouts b"
  shows "persist_times b' ev' = persist_times b ev"
  using assms by (simp add: persist_times_def tm_def is_common_timeout_def)

text \<open>An operation keeps a sound state when the events it puts on a queue are ready and not being finalized.\<close>

lemma loop_ok_step:
  assumes ok: "loop_ok b" and step: "event_step X b b'"
    and times: "\<And>x. persist_times b (evs b x) \<Longrightarrow> persist_times b' (evs b' x)"
    and X: "\<And>e. e \<in> X \<Longrightarrow> unlisted b' e \<or> ready (evs b e) \<and> (fl b EVLIST_FINALIZING e \<longrightarrow> \<not> fl b' EVLIST_TIMEOUT e \<and> \<not> fl b' EVLIST_INSERTED e)"
  shows "loop_ok b'"
proof -
  note rd = ready_step [OF step]
  have tms: "timers b' = timers b" using event_step_timers [OF step] by blast
  have out: "fl b' g x = fl b g x" if "x \<notin> X" "single_bit g" for g x by (rule event_stepD(5) [OF step that])
  have fx: "fl b' EVLIST_FINALIZING x = fl b EVLIST_FINALIZING x" "fl b' EVLIST_INTERNAL x = fl b EVLIST_INTERNAL x"
    "ev_closure (evs b' x) = ev_closure (evs b x)" for x
    using step by (simp_all add: event_step_def)
  have r: "ready (evs b' x)" if "\<not> unlisted b' x \<or> x \<in> timers b'" for x
  proof (cases "x \<in> timers b")
    case True
    then show ?thesis using loop_okD(1) [OF ok] rd by blast
  next
    case False
    then have "\<not> unlisted b' x" using that tms by blast
    then show ?thesis using X [of x] out [of x] loop_okD(1) [OF ok, of x] rd by (cases "x \<in> X") (auto simp: unlisted_def)
  qed
  have f: "\<not> fl b' EVLIST_TIMEOUT x \<and> \<not> fl b' EVLIST_INSERTED x" if "fl b' EVLIST_FINALIZING x" for x
    using that X [of x] out [of x] loop_okD(2) [OF ok, of x] fx by (cases "x \<in> X") (auto simp: unlisted_def)
  show ?thesis
    unfolding loop_ok_def using r f loop_okD(3,4,5) [OF ok] fx tms times by auto
qed

lemma still_times:
  assumes "still b b'" "event_step X b b'" "persist_times b (evs b x)"
  shows "persist_times b' (evs b' x)"
  using assms persist_times_cong [of "evs b' x" "evs b x" b' b] event_step_timers [OF assms(2)] event_stepD(4) [OF assms(2)]
  by (simp add: still_def)

section \<open>Firing a timer\<close>

lemma event_active_heap:
  assumes "event_active_nolock E b e res ncalls = Some b'"
  shows "timeheap b' = timeheap b \<and> common_timeout_queues b' = common_timeout_queues b"
proof -
  have ins: "event_queue_insert_active b1 e = Some b2 \<Longrightarrow> timeheap b2 = timeheap b1 \<and> common_timeout_queues b2 = common_timeout_queues b1" for b1 b2
    by (auto simp: event_queue_insert_active_def Let_def split: if_splits)
  have rem: "event_queue_remove_active_later b1 e = Some b2 \<Longrightarrow> timeheap b2 = timeheap b1 \<and> common_timeout_queues b2 = common_timeout_queues b1" for b1 b2
    by (auto simp: event_queue_remove_active_later_def Let_def split: if_splits option.splits)
  have act: "event_callback_activate_nolock E b1 e = Some (b2, r) \<Longrightarrow> timeheap b2 = timeheap b1 \<and> common_timeout_queues b2 = common_timeout_queues b1" for b1 b2 r
    by (auto simp: event_callback_activate_nolock_def bind_eq_Some_conv dest!: ins rem split: if_splits bool.splits)
  show ?thesis
    using assms by (auto simp: event_active_nolock_def Let_def dest!: act split: if_splits bool.splits)
qed

context event_backend
begin

lemma fire_timeout_spec:
  assumes inv: "base_inv binv view b" and w: "deletions_work E" and pri: "ev_pri (evs b e) < nactivequeues b"
    and go: "\<not> fl b EVLIST_FINALIZING e"
  shows "\<exists>b'. fire_timeout E b e = Some b' \<and> base_inv binv view b' \<and> event_step {e} b b' \<and> still b b' \<and>
    fl b' EVLIST_ACTIVE e \<and> \<not> fl b' EVLIST_TIMEOUT e \<and> \<not> fl b' EVLIST_INSERTED e \<and> ev_res (evs b' e) = EV_TIMEOUT \<and>
    activequeues b' = (map (remove1 e) (activequeues b))[ev_pri (evs b e) := remove1 e (activequeues b ! ev_pri (evs b e)) @ [e]] \<and>
    active_later_queue b' = remove1 e (active_later_queue b) \<and> heap_elems (timeheap b') = heap_elems (timeheap b) - {e} \<and>
    map ctl_events (common_timeout_queues b') = map (remove1 e \<circ> ctl_events) (common_timeout_queues b)"
proof -
  obtain b1 where b1: "event_del_nolock E b e False = Some (b1, 0)" "base_inv binv view b1" "event_step {e} b b1" "unlisted b1 e"
    using event_del_works [OF inv _ w, of False e] go by blast
  note o = event_del_order [OF inv b1(1), simplified, OF go]
  have n1: "nactivequeues b1 = nactivequeues b" using b1(3) by (simp add: event_step_def)
  have p1: "ev_pri (evs b1 e) < nactivequeues b1" "\<not> fl b1 EVLIST_FINALIZING e"
    using pri go event_stepD(3,7) [OF b1(3)] n1 by simp_all
  obtain b2 where b2: "event_active_nolock E b1 e EV_TIMEOUT 1 = Some b2" "base_inv binv view b2" "event_step {e} b1 b2"
    "\<forall>g. single_bit g \<longrightarrow> g \<noteq> EVLIST_ACTIVE \<longrightarrow> g \<noteq> EVLIST_ACTIVE_LATER \<longrightarrow> fl b2 g e = fl b1 g e" "fl b2 EVLIST_ACTIVE e"
    "ev_res (evs b2 e) = EV_TIMEOUT"
    "activequeues b2 = (activequeues b1)[ev_pri (evs b1 e) := activequeues b1 ! ev_pri (evs b1 e) @ [e]]"
    "active_later_queue b2 = remove1 e (active_later_queue b1)"
    using event_active_spec [OF b1(2) p1, of E EV_TIMEOUT 1] b1(4) by (auto simp: unlisted_def)
  have s: "event_step {e} b b2" "still b b2"
    by (rule event_step_trans [OF b1(3) b2(3)]) (rule still_trans [OF still_del [OF b1(1)] still_active [OF b2(1)]])
  have "e \<notin> set (active_later_queue b1)"
    using queues_invD(2) [OF base_invD(1) [OF b1(2)]] b1(4) by (simp add: actives_ok_def unlisted_def)
  then have later: "active_later_queue b2 = active_later_queue b1" using b2(8) by (simp add: remove1_idem)
  have "fire_timeout E b e = Some b2" using b1(1) b2(1) by (simp add: fire_timeout_def)
  then show ?thesis
    using b2(2,5,6,7) s b2(4) b1(4) o event_active_heap [OF b2(1)] later pri event_stepD(3) [OF b1(3), of e]
    by (simp add: unlisted_def)
qed

end

lemma sound_step:
  assumes ok: "sound binv view b" and inv: "base_inv binv view b'" and step: "event_step X b b'"
    and times: "\<And>x. persist_times b (evs b x) \<Longrightarrow> persist_times b' (evs b' x)"
    and X: "\<And>e. e \<in> X \<Longrightarrow> unlisted b' e \<or> ready (evs b e) \<and> ev_pri (evs b e) < nactivequeues b \<and>
      (fl b EVLIST_FINALIZING e \<longrightarrow> \<not> fl b' EVLIST_TIMEOUT e \<and> \<not> fl b' EVLIST_INSERTED e)"
  shows "sound binv view b'"
proof -
  have "limits_ok b'" using limits_ok_step [OF soundD(2) [OF ok] step] X by blast
  moreover have "loop_ok b'" using loop_ok_step [OF soundD(3) [OF ok] step times] X by blast
  ultimately show ?thesis using inv by (simp add: sound_def)
qed

lemma sound_listed:
  assumes "sound binv view b" "\<not> unlisted b e"
  shows "ready (evs b e)" "ev_pri (evs b e) < nactivequeues b"
  using assms loop_okD(1) [OF soundD(3) [OF assms(1)]] soundD(2) [OF assms(1)] by (simp_all add: limits_ok_def)

lemma sound_clock:
  assumes "sound binv view b" "clock_step b b'" "clock_inv b'"
  shows "sound binv view b'"
proof -
  have "evs b' = evs b" "common_timeout_queues b' = common_timeout_queues b" using assms(2) by (simp_all add: clock_step_def)
  then have "persist_times b (evs b x) \<Longrightarrow> persist_times b' (evs b' x)" for x by (simp add: persist_times_def is_common_timeout_def)
  then show ?thesis
    using sound_step [OF assms(1) base_inv_clock [OF soundD(1) [OF assms(1)] assms(2,3)] event_step_clock [OF assms(2)], of "{}"] by blast
qed

text \<open>What firing a list of events does, in their order.\<close>

definition fired :: "('b, 'x) event_base \<Rightarrow> ev_addr list \<Rightarrow> ('b, 'x) event_base \<Rightarrow> bool" where
  "fired b es b' \<longleftrightarrow> event_step (set es) b b' \<and> still b b' \<and>
     (\<forall>i < nactivequeues b. activequeues b' ! i =
        filter (\<lambda>e. e \<notin> set es) (activequeues b ! i) @ filter (\<lambda>e. ev_pri (evs b e) = i) es) \<and>
     active_later_queue b' = filter (\<lambda>e. e \<notin> set es) (active_later_queue b) \<and>
     (\<forall>e \<in> set es. fl b' EVLIST_ACTIVE e \<and> \<not> fl b' EVLIST_TIMEOUT e \<and> \<not> fl b' EVLIST_INSERTED e \<and> ev_res (evs b' e) = EV_TIMEOUT)"

lemma fired_Nil [simp]: "fired b [] b"
  by (simp add: fired_def)

lemma remove1_filter: "distinct q \<Longrightarrow> remove1 e q = filter (\<lambda>x. x \<noteq> e) q"
  by (auto simp: distinct_remove1_removeAll removeAll_filter_not_eq intro: filter_cong)

lemma fired_Cons:
  assumes a: "actives_ok b" and step: "event_step {e} b b1" "still b b1"
    and e: "fl b1 EVLIST_ACTIVE e" "\<not> fl b1 EVLIST_TIMEOUT e" "\<not> fl b1 EVLIST_INSERTED e" "ev_res (evs b1 e) = EV_TIMEOUT"
    and q: "activequeues b1 = (map (remove1 e) (activequeues b))[ev_pri (evs b e) := remove1 e (activequeues b ! ev_pri (evs b e)) @ [e]]"
      "active_later_queue b1 = remove1 e (active_later_queue b)"
    and es: "fired b1 es b2" "e \<notin> set es"
  shows "fired b (e # es) b2"
proof -
  have n: "nactivequeues b1 = nactivequeues b" using step(1) by (simp add: event_step_def)
  have pri: "ev_pri (evs b1 x) = ev_pri (evs b x)" for x by (rule event_stepD(3) [OF step(1)])
  have d: "distinct (activequeues b ! i)" if "i < nactivequeues b" for i using a that by (simp add: actives_ok_def)
  have dl: "distinct (active_later_queue b)" using a by (simp add: actives_ok_def)
  have q1: "activequeues b1 ! i = filter (\<lambda>x. x \<noteq> e) (activequeues b ! i) @ (if i = ev_pri (evs b e) then [e] else [])"
    if "i < nactivequeues b" for i
    using that by (simp add: q(1) nth_list_update remove1_filter [OF d])
  have "activequeues b2 ! i = filter (\<lambda>x. x \<notin> set (e # es)) (activequeues b ! i) @ filter (\<lambda>x. ev_pri (evs b x) = i) (e # es)"
    if "i < nactivequeues b" for i
    using es that q1 [OF that] n by (auto simp: fired_def pri conj_commute)
  moreover have "active_later_queue b2 = filter (\<lambda>x. x \<notin> set (e # es)) (active_later_queue b)"
    using es(1) by (simp add: fired_def q(2) remove1_filter [OF dl] conj_commute)
  moreover have "event_step (set (e # es)) b b2"
    using es(1) event_step_trans [OF event_step_mono [OF step(1)] event_step_mono] unfolding fired_def by (metis Un_upper2 insert_is_Un list.simps(15) sup_ge1)
  moreover have "still b b2" using es(1) still_trans [OF step(2)] by (simp add: fired_def)
  moreover have "fl b2 EVLIST_ACTIVE e \<and> \<not> fl b2 EVLIST_TIMEOUT e \<and> \<not> fl b2 EVLIST_INSERTED e \<and> ev_res (evs b2 e) = EV_TIMEOUT"
  proof -
    have s: "event_step (set es) b1 b2" using es(1) by (simp add: fired_def)
    have "ev_core (evs b2 e) = ev_core (evs b1 e)" by (rule event_stepD(6) [OF s es(2)])
    then have "ev_res (evs b2 e) = ev_res (evs b1 e)" using ev_core_eqD [of "evs b2 e" "evs b1 e"] by simp
    then show ?thesis using e event_stepD(5) [OF s es(2)] by simp
  qed
  ultimately show ?thesis using es(1) unfolding fired_def by auto
qed

text \<open>A relation that holds of each step of the loop and composes holds of the loop.\<close>

lemma expire_loop_rel:
  assumes run: "expire_loop peek due fire s = Some (s', es)" and P: "P s"
    and step: "\<And>s e s1. P s \<Longrightarrow> peek s = Some e \<Longrightarrow> due s e \<Longrightarrow> fire s e = Some s1 \<Longrightarrow> P s1"
    and R0: "\<And>s. R s [] s"
    and Rs: "\<And>s e s1 es s2. P s \<Longrightarrow> peek s = Some e \<Longrightarrow> due s e \<Longrightarrow> fire s e = Some s1 \<Longrightarrow> R s1 es s2 \<Longrightarrow> R s (e # es) s2"
  shows "P s' \<and> R s es s'"
proof -
  define Q where "Q = (\<lambda>p d f s r. p = peek \<and> d = due \<and> f = fire \<and> P s \<longrightarrow> P (fst r) \<and> R s (snd r) (fst r))"
  have "Q peek due fire s (s', es)"
  proof (rule expire_loop.raw_induct [where P = Q, OF _ run])
    fix loop p d f t r
    assume IH: "\<And>p d f t r. loop p d f t = Some r \<Longrightarrow> Q p d f t r"
      and body: "(case p t of None \<Rightarrow> Some (t, [])
        | Some e \<Rightarrow> (if \<not> d t e then Some (t, [])
           else Option.bind (f t e) (\<lambda>s'. Option.bind (loop p d f s') (\<lambda>(s'', es). Some (s'', e # es))))) = Some r"
    have "P (fst r) \<and> R t (snd r) (fst r)" if eq: "p = peek" "d = due" "f = fire" and Pt: "P t"
    proof (cases "peek t")
      case None
      then show ?thesis using body Pt R0 by (auto simp: eq)
    next
      case (Some e)
      show ?thesis
      proof (cases "due t e")
        case False
        then show ?thesis using body Pt R0 Some by (auto simp: eq)
      next
        case True
        then obtain s1 s2 es where r: "fire t e = Some s1" "loop p d f s1 = Some (s2, es)" "r = (s2, e # es)"
          using body Some by (auto simp: eq bind_eq_Some_conv)
        have "P s1" using step [OF Pt Some True r(1)] .
        then have "P s2 \<and> R s1 es s2" using IH [OF r(2)] eq by (simp add: Q_def)
        then show ?thesis using Rs [OF Pt Some True r(1)] r(3) by simp
      qed
    qed
    then show "Q p d f t r" by (simp add: Q_def)
  qed
  then show ?thesis using P by (simp add: Q_def)
qed

section \<open>Both timer queues of a base meet the contract\<close>

lemma due_real:
  "common_due now b e \<longleftrightarrow> real_timeout (ev_timeout (evs b e)) \<le> now"
  by (cases now; cases "ev_timeout (evs b e)") (auto simp: common_due_def real_timeout_def timeval_le_code Let_def)

lemma same_common_order:
  assumes "is_same_common_timeout tv tv'"
  shows "real_timeout tv \<le> real_timeout tv' \<longleftrightarrow> tv \<le> tv'"
proof -
  have split: "x = (x AND MICROSECONDS_MASK) + (x AND NOT MICROSECONDS_MASK)" for x :: int
  proof -
    have "(x AND MICROSECONDS_MASK) AND (x AND NOT MICROSECONDS_MASK) = 0"
      "(x AND MICROSECONDS_MASK) OR (x AND NOT MICROSECONDS_MASK) = x"
      by (rule bit_eqI, auto simp: bit_simps)+
    then show ?thesis using plus_and_or [of "x AND MICROSECONDS_MASK" "x AND NOT MICROSECONDS_MASK"] by simp
  qed
  show ?thesis
    using assms split [of "tv_usec tv"] split [of "tv_usec tv'"]
    by (cases tv; cases tv') (auto simp: real_timeout_def is_same_common_timeout_def timeval_le_code)
qed

lemma ctl_facts:
  assumes "timeouts_ok b" "i < n_common_timeouts b" "e \<in> set (ctl_events (common_timeout_queues b ! i))"
  shows "fl b EVLIST_TIMEOUT e" "is_common_timeout (ev_timeout (evs b e)) b" "COMMON_TIMEOUT_IDX (ev_timeout (evs b e)) = i"
    "usec_32 (ev_timeout (evs b e))"
  using assms unfolding timeouts_ok_def by blast+

context event_backend
begin

text \<open>Firing an event with a timeout keeps a base sound, and all the rest as \<open>fired\<close> says.\<close>

lemma fire_sound:
  assumes ok: "sound binv view b" and w: "deletions_work E" and e: "fl b EVLIST_TIMEOUT e"
  shows "\<exists>b'. fire_timeout E b e = Some b' \<and> sound binv view b' \<and> event_step {e} b b' \<and> still b b' \<and>
    heap_elems (timeheap b') = heap_elems (timeheap b) - {e} \<and>
    map ctl_events (common_timeout_queues b') = map (remove1 e \<circ> ctl_events) (common_timeout_queues b) \<and>
    (\<forall>es b2. fired b' es b2 \<longrightarrow> e \<notin> set es \<longrightarrow> fired b (e # es) b2)"
proof -
  have l: "\<not> unlisted b e" using e by (simp add: unlisted_def)
  have fin: "\<not> fl b EVLIST_FINALIZING e" using loop_okD(2) [OF soundD(3) [OF ok]] e by blast
  obtain b' where b': "fire_timeout E b e = Some b'" "base_inv binv view b'" "event_step {e} b b'" "still b b'"
    "fl b' EVLIST_ACTIVE e" "\<not> fl b' EVLIST_TIMEOUT e" "\<not> fl b' EVLIST_INSERTED e" "ev_res (evs b' e) = EV_TIMEOUT"
    "activequeues b' = (map (remove1 e) (activequeues b))[ev_pri (evs b e) := remove1 e (activequeues b ! ev_pri (evs b e)) @ [e]]"
    "active_later_queue b' = remove1 e (active_later_queue b)" "heap_elems (timeheap b') = heap_elems (timeheap b) - {e}"
    "map ctl_events (common_timeout_queues b') = map (remove1 e \<circ> ctl_events) (common_timeout_queues b)"
    using fire_timeout_spec [OF soundD(1) [OF ok] w sound_listed(2) [OF ok l] fin] by blast
  have "sound binv view b'"
    by (rule sound_step [OF ok b'(2,3) still_times [OF b'(4,3)]]) (use sound_listed [OF ok l] fin in auto)
  moreover have "fired b (e # es) b2" if "fired b' es b2" "e \<notin> set es" for es b2
    by (rule fired_Cons [OF queues_invD(2) [OF base_invD(1) [OF soundD(1) [OF ok]]] b'(3-10) that])
  ultimately show ?thesis using b'(1,3,4,11,12) by blast
qed

end

sublocale event_backend \<subseteq> heap_timers: timer_queue "\<lambda>b. deletions_work E \<and> sound binv view b"
  "\<lambda>b. heap_elems (timeheap b)" "\<lambda>b e. ev_timeout (evs b e)" "\<lambda>b. min_heap_top (timeheap b)" "fire_timeout E"
proof (unfold_locales, goal_cases)
  case (1 b)
  then show ?case by (simp add: heap_elems_def)
next
  case (2 b)
  then have "heap_inv (evs b) (timeheap b)" by (simp add: sound_def base_inv_def queues_inv_def timeouts_ok_def)
  then show ?case by (rule top_spec(1))
next
  case (3 b e)
  then have "heap_inv (evs b) (timeheap b)" by (simp add: sound_def base_inv_def queues_inv_def timeouts_ok_def)
  then show ?case using top_spec(2) 3(2) by blast
next
  case (4 b e)
  then have t: "timeouts_ok b" by (simp add: sound_def base_inv_def queues_inv_def)
  then have "heap_inv (evs b) (timeheap b)" by (simp add: timeouts_ok_def)
  then have "e \<in> heap_elems (timeheap b)" using top_spec(2) 4(2) by blast
  then have "fl b EVLIST_TIMEOUT e" using t unfolding timeouts_ok_def by blast
  then obtain b' where "fire_timeout E b e = Some b'" "sound binv view b'" "still b b'"
    "heap_elems (timeheap b') = heap_elems (timeheap b) - {e}"
    using fire_sound [of b e] 4(1) by blast
  then show ?case using 4(1) by (auto simp: still_def tm_def)
qed

sublocale event_backend \<subseteq> common_timers: timer_queue
  "\<lambda>b. deletions_work E \<and> sound binv view b \<and> i < n_common_timeouts b"
  "\<lambda>b. set (ctl_events (common_timeout_queues b ! i))" "\<lambda>b e. real_timeout (ev_timeout (evs b e))" "ctl_first i" "fire_timeout E"
  for i
proof (unfold_locales, goal_cases)
  case (2 b)
  then show ?case by (simp add: ctl_first_def split: list.splits)
next
  case (3 b e)
  then have t: "timeouts_ok b" and i: "i < n_common_timeouts b" by (simp_all add: sound_def base_inv_def queues_inv_def)
  obtain es where es: "ctl_events (common_timeout_queues b ! i) = e # es"
    using 3(2) by (auto simp: ctl_first_def split: list.splits)
  have "sorted (map (\<lambda>e. ev_timeout (evs b e)) (ctl_events (common_timeout_queues b ! i)))"
    using t i by (simp add: timeouts_ok_def)
  then have "\<forall>x \<in> set (e # es). ev_timeout (evs b e) \<le> ev_timeout (evs b x)" unfolding es by auto
  moreover have "is_same_common_timeout (ev_timeout (evs b e)) (ev_timeout (evs b x))" if "x \<in> set (e # es)" for x
    using same_common [OF ctl_facts(2,4) [OF t i, of e] ctl_facts(2,4) [OF t i, of x]] ctl_facts(3) [OF t i] that unfolding es by simp
  ultimately show ?case unfolding es using same_common_order by simp
next
  case (4 b e)
  then have t: "timeouts_ok b" and i: "i < n_common_timeouts b" by (simp_all add: sound_def base_inv_def queues_inv_def)
  have e: "e \<in> set (ctl_events (common_timeout_queues b ! i))" using 4(2) by (auto simp: ctl_first_def split: list.splits)
  obtain b' where b': "fire_timeout E b e = Some b'" "sound binv view b'" "still b b'" "event_step {e} b b'"
    "map ctl_events (common_timeout_queues b') = map (remove1 e \<circ> ctl_events) (common_timeout_queues b)"
    using fire_sound [of b e] ctl_facts(1) [OF t i e] 4(1) by blast
  have n: "n_common_timeouts b' = n_common_timeouts b" using event_step_timers [OF b'(4)] by blast
  have "ctl_events (common_timeout_queues b' ! i) = remove1 e (ctl_events (common_timeout_queues b ! i))"
    using arg_cong [OF b'(5), of "\<lambda>qs. qs ! i"] n i by simp
  moreover have "distinct (ctl_events (common_timeout_queues b ! i))" using t i by (simp add: timeouts_ok_def)
  ultimately have "set (ctl_events (common_timeout_queues b' ! i)) = set (ctl_events (common_timeout_queues b ! i)) - {e}" by simp
  then show ?case using 4(1) b'(1-3) n i by (auto simp: still_def tm_def)
qed simp

section \<open>The operations\<close>

lemma timeout_next_spec:
  assumes inv: "base_inv binv view b" and clk: "clocks_documented E"
  shows "\<exists>b' tv. timeout_next E b = Some (b', tv) \<and> clock_step b b' \<and> clock_inv b' \<and>
    (case tv of
       None \<Rightarrow> heap_elems (timeheap b) = {}
     | Some t \<Rightarrow> \<exists>e \<in> heap_elems (timeheap b). \<exists>now. tv_normal now \<and> (\<forall>x \<in> heap_elems (timeheap b). ev_timeout (evs b e) \<le> ev_timeout (evs b x)) \<and>
         0 \<le> tv_sec t \<and> 0 \<le> tv_usec t \<and>
         (tv_normal (ev_timeout (evs b e)) \<longrightarrow> tv_normal t \<and> tv_usecs t = max 0 (tv_usecs (ev_timeout (evs b e)) - tv_usecs now)) \<and>
         (tv_sec (tv_cache b) \<noteq> 0 \<longrightarrow> now = tv_cache b))"
proof -
  have h: "heap_inv (evs b) (timeheap b)" using inv by (simp add: base_inv_def queues_inv_def timeouts_ok_def)
  show ?thesis
  proof (cases "min_heap_top (timeheap b)")
    case None
    then have "heap_elems (timeheap b) = {}" using top_spec(1) [OF h] by blast
    then show ?thesis using None base_invD(3) [OF inv] by (simp add: timeout_next_def clock_step_def)
  next
    case (Some e)
    have e: "e \<in> heap_elems (timeheap b)" "\<forall>x \<in> heap_elems (timeheap b). ev_timeout (evs b e) \<le> ev_timeout (evs b x)"
      using top_spec(2) [OF h Some] by simp_all
    obtain b1 now where g: "gettime E b = (b1, Some now)" "tv_normal now" "clock_inv b1" "clock_step b b1"
      "tv_sec (tv_cache b) \<noteq> 0 \<longrightarrow> b1 = b \<and> now = tv_cache b"
      using gettime_spec [OF base_invD(3) [OF inv] clk] by blast
    have evs: "evs b1 = evs b" using g(4) by (simp add: clock_step_def)
    let ?t = "ev_timeout (evs b e)"
    have sm: "tv_small ?t" using inv e(1) by (simp add: base_inv_def queues_inv_def timeouts_ok_def)
    show ?thesis
    proof (cases "?t \<le> now")
      case True
      then have "tv_normal ?t \<Longrightarrow> tv_usecs ?t \<le> tv_usecs now" using tv_usecs_le_iff [OF _ g(2)] by simp
      then show ?thesis
        using Some g e True by (auto simp: timeout_next_def evs evutil_timerclear_def tv_normal_def tv_usecs_def intro!: bexI [of _ e] exI [of _ now])
    next
      case False
      define d where "d = evutil_timersub ?t now"
      have pos: "0 \<le> tv_sec d" "0 \<le> tv_usec d"
        using False sm g(2) by (cases "?t"; cases now;
            auto simp: d_def not_le timeval_less_code tv_small_def tv_normal_def evutil_timersub_def Let_def)+
      have ex: "tv_normal d \<and> tv_usecs d = max 0 (tv_usecs ?t - tv_usecs now)" if nt: "tv_normal ?t"
        using timersub_normal [OF nt g(2)] tv_usecs_less_iff [OF g(2) nt] False by (simp add: d_def)
      have "timeout_next E b = Some (b1, Some d)"
        using Some g(1) False pos by (simp add: timeout_next_def evs d_def [symmetric] Let_def)
      then show ?thesis using g e pos ex by (auto intro!: bexI [of _ e] exI [of _ now])
    qed
  qed
qed

context event_backend
begin

lemma timeout_process_spec:
  assumes ok: "sound binv view b" and w: "deletions_work E" and clk: "clocks_documented E"
  shows "\<exists>b' es now. timeout_process E b = Some b' \<and> sound binv view b' \<and> fired b es b' \<and> tv_normal now \<and>
    (tv_sec (tv_cache b) \<noteq> 0 \<longrightarrow> now = tv_cache b) \<and> distinct es \<and> sorted (map (\<lambda>e. ev_timeout (evs b e)) es) \<and>
    set es = {e \<in> heap_elems (timeheap b). ev_timeout (evs b e) \<le> now} \<and>
    heap_elems (timeheap b') = {e \<in> heap_elems (timeheap b). now < ev_timeout (evs b e)}"
proof -
  have c: "clock_inv b" using ok by (simp add: sound_def base_inv_def)
  show ?thesis
  proof (cases "min_heap_empty (timeheap b)")
    case True
    then have "heap_elems (timeheap b) = {}" by (simp add: min_heap_empty_def heap_elems_def)
    then show ?thesis using True ok c by (auto simp: timeout_process_def clock_inv_def intro!: exI [of _ "[]"] exI [of _ "tv_cache b"])
  next
    case False
    obtain b1 now where g: "gettime E b = (b1, Some now)" "tv_normal now" "clock_inv b1" "clock_step b b1"
      "tv_sec (tv_cache b) \<noteq> 0 \<longrightarrow> b1 = b \<and> now = tv_cache b"
      using gettime_spec [OF c clk] by blast
    have i1: "sound binv view b1" by (rule sound_clock [OF ok g(4,3)])
    have same: "evs b1 = evs b" "timeheap b1 = timeheap b" "activequeues b1 = activequeues b" "active_later_queue b1 = active_later_queue b"
      using g(4) by (simp_all add: clock_step_def)
    let ?due = "\<lambda>b e. \<not> evutil_timercmp (ev_timeout (evs b e)) now (>)"
    have due: "?due = (\<lambda>b e. ev_timeout (evs b e) \<le> now)" by (simp add: fun_eq_iff not_less)
    obtain b2 es where r: "expire_loop (\<lambda>b. min_heap_top (timeheap b)) ?due (fire_timeout E) b1 = Some (b2, es)"
      "sound binv view b2" "distinct es" "set es = {e \<in> heap_elems (timeheap b1). ev_timeout (evs b1 e) \<le> now}"
      "sorted (map (\<lambda>e. ev_timeout (evs b1 e)) es)" "heap_elems (timeheap b2) = {e \<in> heap_elems (timeheap b1). now < ev_timeout (evs b1 e)}"
      using heap_timers.expire_loop_complete [of b1 now] i1 w unfolding due by auto
    have "sound binv view b2 \<and> (distinct es \<longrightarrow> set es \<subseteq> heap_elems (timeheap b1) \<and> fired b1 es b2)"
    proof (rule expire_loop_rel [OF r(1), where P = "sound binv view"
          and R = "\<lambda>s es s'. distinct es \<longrightarrow> set es \<subseteq> heap_elems (timeheap s) \<and> fired s es s'"], goal_cases)
      case (2 s e s1)
      then show ?case using heap_timers.fire_peek [of s e] w by auto
    next
      case (4 s e s1 es s2)
      have t: "fl s EVLIST_TIMEOUT e" "e \<in> heap_elems (timeheap s)"
        using heap_timers.peek_Some [of s e] w 4(1,2) soundD(1) [OF 4(1)] by (auto simp: base_inv_def queues_inv_def timeouts_ok_def)
      obtain b' where b': "fire_timeout E s e = Some b'" "heap_elems (timeheap b') = heap_elems (timeheap s) - {e}"
        "\<forall>es b2. fired b' es b2 \<longrightarrow> e \<notin> set es \<longrightarrow> fired s (e # es) b2"
        using fire_sound [OF 4(1) w t(1)] by blast
      then show ?case using 4(4,5) t(2) by auto
    qed (use i1 in simp_all)
    then have "fired b1 es b2" using r(3) by blast
    then have "fired b es b2"
      using event_step_trans [OF event_step_clock [OF g(4)]] still_trans [OF still_gettime [OF g(1)]]
      by (simp add: fired_def same)
    moreover have "timeout_process E b = Some b2" using False g(1) r(1) by (simp add: timeout_process_def)
    ultimately show ?thesis using r(2-6) g(2,5) unfolding same by blast
  qed
qed

lemma schedule_sound:
  assumes ok: "sound binv view b" and clk: "clocks_documented E" and i: "i < n_common_timeouts b"
    and room: "heap_n (timeheap b) + 1 < 2 ^ 31"
  shows "\<exists>b'. common_timeout_schedule E b i head = Some b' \<and> sound binv view b' \<and>
    event_step {ctl_timeout_event (common_timeout_queues b ! i)} b b' \<and> calm b b' \<and>
    (\<forall>x. fl b' EVLIST_ACTIVE x \<longrightarrow> fl b EVLIST_ACTIVE x) \<and>
    ((\<forall>n. m_realloc E n) \<longrightarrow> rescheduled b' i (real_timeout (ev_timeout (evs b head))))"
proof -
  let ?t = "ctl_timeout_event (common_timeout_queues b ! i)"
  have t: "?t \<in> timers b" using i by (simp add: timers_def)
  obtain b' where b': "common_timeout_schedule E b i head = Some b'" "base_inv binv view b'" "event_step {?t} b b'"
    "\<forall>x. fl b' EVLIST_ACTIVE x \<longrightarrow> fl b EVLIST_ACTIVE x"
    "(\<forall>n. m_realloc E n) \<and> \<not> fl b EVLIST_FINALIZING ?t \<longrightarrow> rescheduled b' i (real_timeout (ev_timeout (evs b head)))"
    using common_timeout_schedule_spec [OF soundD(1) [OF ok] clk i room, of head] by blast
  note l = loop_okD [OF soundD(3) [OF ok]]
  have "sound binv view b'"
  proof (rule sound_step [OF ok b'(2,3)])
    fix x
    assume p: "persist_times b (evs b x)"
    have n: "n_common_timeouts b' = n_common_timeouts b" using event_step_timers [OF b'(3)] by blast
    show "persist_times b' (evs b' x)"
    proof (cases "x = ?t")
      case True
      then show ?thesis using l(3) [OF t] event_stepD(4) [OF b'(3), of x] by (simp add: persist_times_def)
    next
      case False
      then have "ev_core (evs b' x) = ev_core (evs b x)" using event_stepD(6) [OF b'(3)] by blast
      then have "tm (evs b' x) = tm (evs b x)" using ev_core_eqD [of "evs b' x" "evs b x"] by (simp add: tm_def)
      then show ?thesis using p persist_times_cong [OF _ event_stepD(4) [OF b'(3)] n] by blast
    qed
  next
    fix e
    assume "e \<in> {?t}"
    then show "unlisted b' e \<or> ready (evs b e) \<and> ev_pri (evs b e) < nactivequeues b \<and>
        (fl b EVLIST_FINALIZING e \<longrightarrow> \<not> fl b' EVLIST_TIMEOUT e \<and> \<not> fl b' EVLIST_INSERTED e)"
      using l(1,3) t soundD(2) [OF ok] by (auto simp: limits_ok_def)
  qed
  moreover have "\<not> fl b EVLIST_FINALIZING ?t" using l(3) [OF t] by blast
  ultimately show ?thesis using b'(1,3,4,5) schedule_io [OF b'(1)] by blast
qed

text \<open>The head of a list of common timeouts is the next that is due.\<close>

lemma ctl_head_first:
  assumes "base_inv binv view b" "i < n_common_timeouts b" "ctl_events (common_timeout_queues b ! i) = h # hs" "x \<in> set (h # hs)"
  shows "real_timeout (ev_timeout (evs b h)) \<le> real_timeout (ev_timeout (evs b x))"
proof -
  have t: "timeouts_ok b" using assms(1) by (simp add: base_inv_def queues_inv_def)
  have "sorted (map (\<lambda>e. ev_timeout (evs b e)) (h # hs))" using t assms(2,3) unfolding timeouts_ok_def by metis
  then have "ev_timeout (evs b h) \<le> ev_timeout (evs b x)" using assms(4) by auto
  moreover have m: "y \<in> set (ctl_events (common_timeout_queues b ! i))" if "y \<in> {h, x}" for y using assms(3,4) that by auto
  have "is_same_common_timeout (ev_timeout (evs b h)) (ev_timeout (evs b x))"
    by (rule same_common [OF ctl_facts(2,4) [OF t assms(2) m] ctl_facts(2,4) [OF t assms(2) m]])
      (use ctl_facts(3) [OF t assms(2) m] in simp_all)
  ultimately show ?thesis using same_common_order by simp
qed

lemma common_timeout_callback_spec:
  assumes ok: "sound binv view b" and w: "deletions_work E" and clk: "clocks_documented E" and i: "i < n_common_timeouts b"
    and room: "heap_n (timeheap b) + 1 < 2 ^ 31"
  shows "\<exists>b' b2 es now. common_timeout_callback E b i = Some b' \<and> sound binv view b' \<and> calm b b' \<and> fired b es b2 \<and>
    (\<forall>x. x \<notin> set es \<longrightarrow> fl b' EVLIST_ACTIVE x \<longrightarrow> fl b EVLIST_ACTIVE x) \<and>
    event_step (insert (ctl_timeout_event (common_timeout_queues b ! i)) (set es)) b b' \<and>
    tv_normal now \<and> time_now E b now \<and> distinct es \<and>
    sorted (map (\<lambda>e. real_timeout (ev_timeout (evs b e))) es) \<and>
    set es = {e \<in> set (ctl_events (common_timeout_queues b ! i)). real_timeout (ev_timeout (evs b e)) \<le> now} \<and>
    set (ctl_events (common_timeout_queues b2 ! i)) =
      {e \<in> set (ctl_events (common_timeout_queues b ! i)). now < real_timeout (ev_timeout (evs b e))} \<and>
    (if ctl_events (common_timeout_queues b2 ! i) = [] then b' = b2
     else event_step {ctl_timeout_event (common_timeout_queues b ! i)} b2 b' \<and>
       ((\<forall>n. m_realloc E n) \<longrightarrow>
          (\<exists>h \<in> set (ctl_events (common_timeout_queues b2 ! i)). rescheduled b' i (real_timeout (ev_timeout (evs b h))) \<and>
             (\<forall>x \<in> set (ctl_events (common_timeout_queues b2 ! i)).
                real_timeout (ev_timeout (evs b h)) \<le> real_timeout (ev_timeout (evs b x))))))"
proof -
  have c: "clock_inv b" using ok by (simp add: sound_def base_inv_def)
  obtain b1 now where g: "gettime E b = (b1, Some now)" "tv_normal now" "clock_inv b1" "clock_step b b1"
    using gettime_spec [OF c clk] by blast
  note tn = gettime_time_now [OF g(1)]
  have i1: "sound binv view b1" by (rule sound_clock [OF ok g(4,3)])
  have same: "evs b1 = evs b" "timeheap b1 = timeheap b" "activequeues b1 = activequeues b" "active_later_queue b1 = active_later_queue b"
    "common_timeout_queues b1 = common_timeout_queues b"
    using g(4) by (simp_all add: clock_step_def)
  have due: "common_due now = (\<lambda>b e. real_timeout (ev_timeout (evs b e)) \<le> now)" by (simp add: fun_eq_iff due_real)
  let ?L = "\<lambda>b. ctl_events (common_timeout_queues b ! i)"
  obtain b2 es where r: "expire_loop (ctl_first i) (common_due now) (fire_timeout E) b1 = Some (b2, es)"
    "sound binv view b2" "i < n_common_timeouts b2" "distinct es" "set es = {e \<in> set (?L b1). real_timeout (ev_timeout (evs b1 e)) \<le> now}"
    "sorted (map (\<lambda>e. real_timeout (ev_timeout (evs b1 e))) es)" "set (?L b2) = {e \<in> set (?L b1). now < real_timeout (ev_timeout (evs b1 e))}"
    using common_timers.expire_loop_complete [of b1 i now] i1 w i same(5) unfolding due by auto
  have "(sound binv view b2 \<and> i < n_common_timeouts b2 \<and> heap_n (timeheap b2) + 1 < 2 ^ 31) \<and>
    (distinct es \<longrightarrow> set es \<subseteq> set (?L b1) \<and> fired b1 es b2)"
  proof (rule expire_loop_rel [OF r(1), where P = "\<lambda>b. sound binv view b \<and> i < n_common_timeouts b \<and> heap_n (timeheap b) + 1 < 2 ^ 31"
        and R = "\<lambda>s es s'. distinct es \<longrightarrow> set es \<subseteq> set (?L s) \<and> fired s es s'"], goal_cases)
    case (2 s e s1)
    then have t: "fl s EVLIST_TIMEOUT e" using ctl_facts(1) [of s i e] by (auto simp: sound_def base_inv_def queues_inv_def ctl_first_def split: list.splits)
    obtain b' where b': "fire_timeout E s e = Some b'" "sound binv view b'" "event_step {e} s b'"
      "heap_elems (timeheap b') = heap_elems (timeheap s) - {e}"
      using fire_sound [of s e] w t 2(1) by blast
    have "finite (heap_elems (timeheap s))" by (simp add: heap_elems_def)
    then have "card (heap_elems (timeheap b')) \<le> card (heap_elems (timeheap s))" unfolding b'(4) by (intro card_mono) auto
    moreover have "base_inv binv view s" using 2(1) soundD(1) by blast
    ultimately show ?case
      using b'(1,2) 2(1,4) event_step_timers [OF b'(3)] base_heap_card [OF soundD(1) [OF b'(2)]] base_heap_card [of binv view s]
      by auto
  next
    case (4 s e s1 es s2)
    have e: "e \<in> set (?L s)" using 4(2) by (auto simp: ctl_first_def split: list.splits)
    then have t: "fl s EVLIST_TIMEOUT e" using 4(1) ctl_facts(1) [of s i e] by (auto simp: sound_def base_inv_def queues_inv_def)
    obtain b' where b': "fire_timeout E s e = Some b'" "\<forall>es b2. fired b' es b2 \<longrightarrow> e \<notin> set es \<longrightarrow> fired s (e # es) b2"
      using fire_sound [of s e] w t 4(1) by blast
    have "set (?L s1) = set (?L s) - {e}" using common_timers.fire_peek [of s i e] w 4(1,2,4) by auto
    then show ?case using 4(4,5) b' e by auto
  qed (use i1 i same room in simp_all)
  then have f: "fired b1 es b2" "heap_n (timeheap b2) + 1 < 2 ^ 31" using r(4) by blast+
  then have f0: "fired b es b2"
    using event_step_trans [OF event_step_clock [OF g(4)]] still_trans [OF still_gettime [OF g(1)]]
    by (simp add: fired_def same)
  have tm0: "ctl_timeout_event (common_timeout_queues b2 ! i) = ctl_timeout_event (common_timeout_queues b ! i)"
  proof -
    have "map ctl_timeout_event (common_timeout_queues b2) = map ctl_timeout_event (common_timeout_queues b)"
      using f0 by (simp add: fired_def event_step_def)
    then have "map ctl_timeout_event (common_timeout_queues b2) ! i = map ctl_timeout_event (common_timeout_queues b) ! i" by simp
    then show ?thesis using r(3) i by simp
  qed
  have act: "fl b2 EVLIST_ACTIVE x = fl b EVLIST_ACTIVE x" if "x \<notin> set es" for x
    using f0 that event_stepD(5) [of "set es" b b2 x EVLIST_ACTIVE] by (simp add: fired_def)
  have st: "event_step (insert (ctl_timeout_event (common_timeout_queues b ! i)) (set es)) b b2"
    using f0 by (auto simp: fired_def intro: event_step_mono)
  have cb: "calm b b2" using f0 still_calm by (auto simp: fired_def)
  have run: "common_timeout_callback E b i = (case ctl_first i b2 of None \<Rightarrow> Some b2 | Some e \<Rightarrow> common_timeout_schedule E b2 i e)"
    using g(1) r(1) by (simp add: common_timeout_callback_def)
  show ?thesis
  proof (cases "?L b2")
    case Nil
    then have "common_timeout_callback E b i = Some b2" using run by (simp add: ctl_first_def)
    then show ?thesis
      using r(2,4-7) f0 g(2) tn cb Nil act st unfolding same by (intro exI [of _ b2] exI [of _ b2] exI [of _ es] exI [of _ now]) auto
  next
    case (Cons h hs)
    obtain b' where b': "common_timeout_schedule E b2 i h = Some b'" "sound binv view b'"
      "event_step {ctl_timeout_event (common_timeout_queues b2 ! i)} b2 b'" "calm b2 b'"
      "\<forall>x. fl b' EVLIST_ACTIVE x \<longrightarrow> fl b2 EVLIST_ACTIVE x"
      "(\<forall>n. m_realloc E n) \<longrightarrow> rescheduled b' i (real_timeout (ev_timeout (evs b2 h)))"
      using schedule_sound [OF r(2) clk r(3) f(2), of h] by blast
    have old: "ev_timeout (evs b2 x) = ev_timeout (evs b x)" if "x \<in> set (?L b2)" for x
    proof -
      have "x \<notin> set es" using that r(5,7) by auto
      then show ?thesis using f0 event_stepD(6) [of "set es" b b2 x] ev_core_eqD [of "evs b2 x" "evs b x"] by (simp add: fired_def)
    qed
    have "\<forall>x \<in> set (?L b2). real_timeout (ev_timeout (evs b h)) \<le> real_timeout (ev_timeout (evs b x))"
      using ctl_head_first [OF soundD(1) [OF r(2)] r(3) Cons] old Cons by simp
    then have hd: "(\<forall>n. m_realloc E n) \<longrightarrow> (\<exists>h \<in> set (?L b2). rescheduled b' i (real_timeout (ev_timeout (evs b h))) \<and>
        (\<forall>x \<in> set (?L b2). real_timeout (ev_timeout (evs b h)) \<le> real_timeout (ev_timeout (evs b x))))"
      using b'(6) old [of h] Cons by (intro impI bexI [of _ h]) simp_all
    have cb': "common_timeout_callback E b i = Some b'" using run Cons b'(1) by (simp add: ctl_first_def)
    have calm': "calm b b'" by (rule calm_trans [OF cb b'(4)])
    have step': "event_step (insert (ctl_timeout_event (common_timeout_queues b ! i)) (set es)) b b'"
      by (rule event_step_trans [OF st event_step_mono [OF b'(3)]]) (simp add: tm0)
    have act': "\<forall>x. x \<notin> set es \<longrightarrow> fl b' EVLIST_ACTIVE x \<longrightarrow> fl b EVLIST_ACTIVE x" using b'(5) act by blast
    have ne: "?L b2 \<noteq> []" using Cons by simp
    have last: "if ?L b2 = [] then b' = b2
     else event_step {ctl_timeout_event (common_timeout_queues b ! i)} b2 b' \<and>
       ((\<forall>n. m_realloc E n) \<longrightarrow> (\<exists>h \<in> set (?L b2). rescheduled b' i (real_timeout (ev_timeout (evs b h))) \<and>
          (\<forall>x \<in> set (?L b2). real_timeout (ev_timeout (evs b h)) \<le> real_timeout (ev_timeout (evs b x)))))"
      unfolding if_not_P [OF ne] by (intro conjI hd b'(3) [unfolded tm0])
    show ?thesis
      by (rule exI [of _ b'], rule exI [of _ b2], rule exI [of _ es], rule exI [of _ now])
        (intro conjI; fact cb' b'(2) calm' f0 act' step' g(2) tn r(4-7) [unfolded same] last)
  qed
qed

end

end
