(* ===== verification/Ev_Loop_Run.thy ===== *)
theory Ev_Loop_Run
  imports Ev_Timeouts
begin

text \<open>
  Running the loop. The callbacks of the program meet a contract: each returns, and leaves a
  base that is sound. Under it the queues of active events are worked off in finitely many
  steps, whatever the callbacks add, and every round of the loop returns.
\<close>

section \<open>The contract of callbacks\<close>

text \<open>
  All events on queues, and the timers of the common timeouts, lie in \<open>U\<close>, which is smaller
  than the number of elements the heap can hold.
\<close>

definition good ::
  "('b \<Rightarrow> (int \<Rightarrow> 'x option) \<Rightarrow> bool) \<Rightarrow> ('b \<Rightarrow> int \<Rightarrow> 'x \<Rightarrow> short) \<Rightarrow> ev_addr set \<Rightarrow> ('b, 'x) event_base \<Rightarrow> bool"
where
  "good binv view U b \<longleftrightarrow> sound binv view b \<and> finite U \<and> card U + 1 < 2 ^ 31 \<and> (\<forall>e. \<not> unlisted b e \<or> e \<in> timers b \<longrightarrow> e \<in> U)"

definition kept :: "('b, 'x) event_base \<Rightarrow> ('b, 'x) event_base \<Rightarrow> bool" where
  "kept b b' \<longleftrightarrow> nactivequeues b' = nactivequeues b \<and> running_loop b' = running_loop b"

definition returns_ok :: "(('b, 'x) event_base \<Rightarrow> bool) \<Rightarrow> ('u \<Rightarrow> ('b, 'x) event_base \<Rightarrow> ('u \<times> ('b, 'x) event_base) option) \<Rightarrow> bool" where
  "returns_ok P f \<longleftrightarrow>
     (\<forall>u b. P b \<longrightarrow> (\<exists>u' b'. f u b = Some (u', b') \<and> P b' \<and> kept b b' \<and> (signal_ncalls b' = signal_ncalls b \<or> signal_ncalls b' = 0)))"

definition callbacks_ok :: "(('b, 'x) event_base \<Rightarrow> bool) \<Rightarrow> ('b, 'x, 'u) callbacks \<Rightarrow> bool" where
  "callbacks_ok P C \<longleftrightarrow>
     (\<forall>e. (\<forall>fd res. returns_ok P (evcb_callback C e fd res)) \<and> returns_ok P (evcb_selfcb C e) \<and>
        returns_ok P (evcb_evfinalize C e) \<and> returns_ok P (evcb_cbfinalize C e))"

lemma kept_refl [simp]: "kept b b"
  by (simp add: kept_def)

lemma kept_trans: "kept b b1 \<Longrightarrow> kept b1 b2 \<Longrightarrow> kept b b2"
  by (simp add: kept_def)

lemma kept_step: "event_step X b b' \<Longrightarrow> calm b b' \<Longrightarrow> kept b b'"
  by (simp add: kept_def event_step_def calm_def loop_vars_def)

lemma goodD:
  assumes "good binv view U b"
  shows "sound binv view b" "finite U" "card U + 1 < 2 ^ 31" "\<not> unlisted b e \<or> e \<in> timers b \<Longrightarrow> e \<in> U"
    "base_inv binv view b"
  using assms by (auto simp: good_def sound_def)

text \<open>The heap has room for one more.\<close>

lemma good_room:
  assumes "good binv view U b"
  shows "heap_n (timeheap b) + 1 < 2 ^ 31"
proof -
  have c: "heap_n (timeheap b) = card (heap_elems (timeheap b))" using base_heap_card [OF goodD(5) [OF assms]] by blast
  have "timeouts_ok b" using goodD(5) [OF assms] by (simp add: base_inv_def queues_inv_def)
  then have "heap_elems (timeheap b) \<subseteq> U"
    using goodD(4) [OF assms] unfolding timeouts_ok_def unlisted_def by blast
  then have "card (heap_elems (timeheap b)) \<le> card U" by (rule card_mono [OF goodD(2) [OF assms]])
  then show ?thesis using goodD(3) [OF assms] c by simp
qed

lemma good_step:
  assumes g: "good binv view U b" and s: "sound binv view b'" and step: "event_step X b b'" and X: "X \<subseteq> U"
  shows "good binv view U b'"
proof -
  have "e \<in> U" if "\<not> unlisted b' e \<or> e \<in> timers b'" for e
  proof (cases "e \<in> X")
    case False
    then have "unlisted b' e = unlisted b e" using event_stepD(5) [OF step False] by (simp add: unlisted_def)
    then show ?thesis using that goodD(4) [OF g] event_step_timers [OF step] by blast
  qed (use X in blast)
  then show ?thesis using s goodD [OF g] by (simp add: good_def)
qed

text \<open>Variables of the base outside the invariant can be written freely.\<close>

lemma sound_cong:
  assumes ok: "sound binv view b" and q: "evs b' = evs b" "timeheap b' = timeheap b"
    "common_timeout_queues b' = common_timeout_queues b" "activequeues b' = activequeues b"
    "active_later_queue b' = active_later_queue b" "event_count b' = event_count b"
    "event_count_active b' = event_count_active b" "io b' = io b" "sigmap b' = sigmap b" "evbase b' = evbase b"
    and c: "clock_inv b'"
  shows "sound binv view b'"
proof -
  have i: "base_inv binv view b'" by (rule base_inv_cong [OF soundD(1) [OF ok] q c])
  have t: "timers b' = timers b" "n_common_timeouts b' = n_common_timeouts b" "nactivequeues b' = nactivequeues b"
    using q by (simp_all add: timers_def)
  have u: "unlisted b' x = unlisted b x" for x by (simp add: unlisted_def q)
  have p: "persist_times b' ev = persist_times b ev" for ev by (rule persist_times_cong) (simp_all add: t)
  show ?thesis
    using soundD(2,3) [OF ok] i by (simp add: sound_def limits_ok_def loop_ok_def t u p q)
qed

lemma good_cong:
  assumes g: "good binv view U b" and q: "evs b' = evs b" "timeheap b' = timeheap b"
    "common_timeout_queues b' = common_timeout_queues b" "activequeues b' = activequeues b"
    "active_later_queue b' = active_later_queue b" "event_count b' = event_count b"
    "event_count_active b' = event_count_active b" "io b' = io b" "sigmap b' = sigmap b" "evbase b' = evbase b"
    and c: "clock_inv b'"
  shows "good binv view U b'"
  using sound_cong [OF goodD(1) [OF g] q c] goodD(2-4) [OF g] q(1) by (simp add: good_def unlisted_def timers_def q)

lemma good_vars [simp]:
  fixes b :: "('b, 'x) event_base"
  shows "good binv view U (b\<lparr>current_event := v\<rparr>) = good binv view U b"
  "good binv view U (b\<lparr>event_running_priority := p\<rparr>) = good binv view U b"
  "good binv view U (b\<lparr>signal_ncalls := n\<rparr>) = good binv view U b"
  "good binv view U (b\<lparr>event_continue := c, n_deferreds_queued := d\<rparr>) = good binv view U b"
  "good binv view U (b\<lparr>running_loop := r\<rparr>) = good binv view U b"
  "good binv view U (b\<lparr>event_gotterm := t, event_break := k\<rparr>) = good binv view U b"
proof -
  have iff: "good binv view U b' = good binv view U b"
    if "evs b' = evs b" "timeheap b' = timeheap b"
      "common_timeout_queues b' = common_timeout_queues b" "activequeues b' = activequeues b"
      "active_later_queue b' = active_later_queue b" "event_count b' = event_count b"
      "event_count_active b' = event_count_active b" "io b' = io b" "sigmap b' = sigmap b" "evbase b' = evbase b"
      "clock_inv b' = clock_inv b" for b' :: "('b, 'x) event_base"
  proof -
    have "clock_inv b \<Longrightarrow> clock_inv b'" "clock_inv b' \<Longrightarrow> clock_inv b" using that(11) by simp_all
    then show ?thesis
      using good_cong [where b = b and b' = b'] good_cong [where b = b' and b' = b] that(1-10)
        base_invD(3) [OF goodD(5)] by metis
  qed
  show "good binv view U (b\<lparr>current_event := v\<rparr>) = good binv view U b"
    "good binv view U (b\<lparr>event_running_priority := p\<rparr>) = good binv view U b"
    "good binv view U (b\<lparr>signal_ncalls := n\<rparr>) = good binv view U b"
    "good binv view U (b\<lparr>event_continue := c, n_deferreds_queued := d\<rparr>) = good binv view U b"
    "good binv view U (b\<lparr>running_loop := r\<rparr>) = good binv view U b"
    "good binv view U (b\<lparr>event_gotterm := t, event_break := k\<rparr>) = good binv view U b"
    by (rule iff; simp add: clock_inv_def)+
qed

lemma good_clock: "good binv view U b \<Longrightarrow> clock_step b b' \<Longrightarrow> clock_inv b' \<Longrightarrow> good binv view U b'"
  using good_step [OF _ sound_clock event_step_clock, of binv view U b b b' "{}"] goodD(1) by blast


section \<open>The time of a persistent event\<close>

text \<open>
  The next run: of the kind of the interval, at the last run plus the interval or, when that
  has passed already, at now plus the interval.
\<close>

lemma persist_run_at_spec:
  fixes timed_out :: bool
  assumes same: "is_same_common_timeout timeout io_timeout" and now: "tv_normal now"
    and n: "tv_normal (real_timeout timeout)" "tv_normal (real_timeout io_timeout)"
    and kind: "if common then usec_32 io_timeout else tv_normal timeout \<and> tv_normal io_timeout"
  defines "r \<equiv> persist_run_at common timeout io_timeout now timed_out"
    and "next \<equiv> tv_usecs (if timed_out then real_timeout timeout else now) + tv_usecs (real_timeout io_timeout)"
  shows "is_same_common_timeout r io_timeout" "tv_normal (real_timeout r)" "if common then usec_32 r else tv_normal r"
    "tv_usecs (real_timeout r) = (if next < tv_usecs now then tv_usecs now + tv_usecs (real_timeout io_timeout) else next)"
proof -
  let ?delay = "real_timeout io_timeout" and ?rel = "if timed_out then real_timeout timeout else now"
  have plain: "real_timeout t = t" if "tv_normal t" for t using real_timeout_small normal_small that by blast
  define t0 where "t0 = evutil_timeradd ?rel ?delay"
  define t where "t = (if t0 < now then evutil_timeradd now ?delay else t0)"
  have n0: "tv_normal t0" using n now by (simp add: t0_def timeradd_normal)
  have nt: "tv_normal t" using n0 n now by (simp add: t_def timeradd_normal)
  have ut: "tv_usecs t = (if next < tv_usecs now then tv_usecs now + tv_usecs ?delay else next)"
  proof -
    have "tv_usecs t0 = next" by (simp add: t0_def next_def)
    then show ?thesis using tv_usecs_less_iff [OF n0 now] by (simp add: t_def)
  qed
  have u: "0 \<le> tv_usec t" "tv_usec t < 2 ^ 20" using nt by (simp_all add: tv_normal_def)
  have r: "r = Timeval (tv_sec t) (tv_usec t OR (if common then tv_usec io_timeout AND NOT MICROSECONDS_MASK else 0))"
    using kind plain by (cases common) (auto simp: r_def persist_run_at_def t_def t0_def Let_def)
  have "r = t" "real_timeout t = t" if "\<not> common" using r that nt plain by simp_all
  moreover have "real_timeout r = t" if common using r that or_high_mask(1) [OF u] by (simp add: real_timeout_def)
  ultimately have rt: "real_timeout r = t" by (cases common) simp_all
  show "tv_normal (real_timeout r)"
    "tv_usecs (real_timeout r) = (if next < tv_usecs now then tv_usecs now + tv_usecs (real_timeout io_timeout) else next)"
    using rt nt ut by simp_all
  have small: "tv_usec x AND NOT MICROSECONDS_MASK = 0" if "tv_normal x" for x
    using or_high_mask(2) [of "tv_usec x" 0] that by (simp add: tv_normal_def)
  show "is_same_common_timeout r io_timeout"
  proof (cases common)
    case True
    then show ?thesis using r or_high_mask(2) [OF u] by (simp add: is_same_common_timeout_def)
  next
    case False
    then show ?thesis using r kind small [OF nt] small [of io_timeout] by (simp add: is_same_common_timeout_def)
  qed
  show "if common then usec_32 r else tv_normal r" using r kind usec_32_or [OF u] nt by (cases common) simp_all
qed

lemma same_common_kind: "is_same_common_timeout tv tv' \<Longrightarrow> is_common_timeout tv b = is_common_timeout tv' b"
proof -
  assume s: "is_same_common_timeout tv tv'"
  have masks: "MICROSECONDS_MASK = mask 20" by (simp add: MICROSECONDS_MASK_def mask_eq_exp_minus_1)
  have m: "x AND push_bit 20 m = (x AND NOT MICROSECONDS_MASK) AND push_bit 20 m" for x m :: int
    unfolding masks by (rule bit_eqI) (auto simp: bit_simps)
  have k: "COMMON_TIMEOUT_MASK = push_bit 20 0xf00" "COMMON_TIMEOUT_IDX_MASK = push_bit 20 0xff"
    by (simp_all add: COMMON_TIMEOUT_MASK_def COMMON_TIMEOUT_IDX_MASK_def push_bit_eq_mult)
  show ?thesis
    using s unfolding is_common_timeout_def COMMON_TIMEOUT_IDX_def k m [of "tv_usec tv"] m [of "tv_usec tv'"] is_same_common_timeout_def by simp
qed


section \<open>Running one event\<close>

text \<open>The event a queue starts with, and what is known of it.\<close>

lemma queue_head:
  assumes g: "good binv view U b" and i: "i < nactivequeues b" "activequeues b ! i = e # q"
  shows "fl b EVLIST_ACTIVE e" "\<not> fl b EVLIST_ACTIVE_LATER e" "ev_pri (evs b e) = i" "e \<in> U" "ready (evs b e)" "e \<notin> set q"
    "\<not> unlisted b e"
proof -
  have a: "actives_ok b" using goodD(5) [OF g] by (simp add: base_inv_def queues_inv_def)
  have m: "e \<in> set (activequeues b ! i)" "distinct (activequeues b ! i)"
    using i a unfolding actives_ok_def by (metis list.set_intros(1), metis)
  then show "e \<notin> set q" using i(2) by simp
  show f: "fl b EVLIST_ACTIVE e" "\<not> fl b EVLIST_ACTIVE_LATER e" "ev_pri (evs b e) = i"
    using a i(1) m(1) unfolding actives_ok_def by blast+
  then show l: "\<not> unlisted b e" by (simp add: unlisted_def)
  then show "e \<in> U" "ready (evs b e)" using goodD(1,4) [OF g] sound_listed(1) by blast+
qed

text \<open>Taking an event off the queues leaves the request to continue alone.\<close>

lemma continue_queues:
  "event_queue_remove_active b e = Some b' \<Longrightarrow> event_continue b' = event_continue b"
  "event_queue_remove_active_later b e = Some b' \<Longrightarrow> event_continue b' = event_continue b"
  "event_queue_remove_inserted b e = Some b' \<Longrightarrow> event_continue b' = event_continue b"
  "event_queue_remove_timeout b e = Some b' \<Longrightarrow> event_continue b' = event_continue b"
  by (auto simp: event_queue_remove_active_def event_queue_remove_active_later_def event_queue_remove_inserted_def
      event_queue_remove_timeout_def DECR_EVENT_COUNT_def clear_ev_flag_def upd_ev_def set_ctl_events_def Let_def
      split: if_splits option.splits)

lemma continue_del:
  assumes "event_del_nolock E b e even_if = Some (b', r)"
  shows "event_continue b' = event_continue b"
proof (cases "even_if \<or> \<not> fl b EVLIST_FINALIZING e")
  case True
  obtain b2 b3 where s: "(let b1 = abort_signal_loop e b in if fl b1 EVLIST_TIMEOUT e then event_queue_remove_timeout b1 e else Some b1) = Some b2"
    "(if fl b2 EVLIST_ACTIVE e then event_queue_remove_active b2 e
       else if fl b2 EVLIST_ACTIVE_LATER e then event_queue_remove_active_later b2 e else Some b2) = Some b3"
    "b' = b3 \<or> (\<exists>b4 b5 c. event_queue_remove_inserted b3 e = Some b4 \<and>
       evmap_base.more b5 = evmap_base.more b4 \<and> b' = notify_if c E b5)"
    by (rule event_del_steps [OF assms True])
  have "event_continue (abort_signal_loop e b) = event_continue b" by (simp add: abort_signal_loop_def)
  then have "event_continue b2 = event_continue b" using s(1) by (auto simp: Let_def split: if_splits dest: continue_queues)
  moreover have "event_continue b3 = event_continue b2" using s(2) by (auto split: if_splits dest: continue_queues)
  moreover have "event_continue b' = event_continue b3"
    using s(3)
  proof
    assume "\<exists>b4 b5 c. event_queue_remove_inserted b3 e = Some b4 \<and> evmap_base.more b5 = evmap_base.more b4 \<and> b' = notify_if c E b5"
    then obtain b4 b5 c where t: "event_queue_remove_inserted b3 e = Some b4" "evmap_base.more b5 = evmap_base.more b4" "b' = notify_if c E b5"
      by blast
    have "event_continue b5 = event_continue b4" using t(2) by (cases b4; cases b5; simp)
    then show ?thesis using t(3) continue_queues(3) [OF t(1)] by (simp add: notify_if_def evthread_notify_base_def)
  qed simp
  ultimately show ?thesis by simp
qed (use assms in \<open>simp add: event_del_nolock_def\<close>)

context event_backend
begin

lemma take_active_spec:
  assumes g: "good binv view U b" and w: "deletions_work E" and i: "i < nactivequeues b" "activequeues b ! i = e # q"
  shows "\<exists>b'. take_active E b e = Some b' \<and> good binv view U b' \<and> event_step {e} b b' \<and> still b b' \<and>
    \<not> fl b' EVLIST_ACTIVE e \<and> activequeues b' = (activequeues b)[i := q] \<and> active_later_queue b' = active_later_queue b \<and>
    ev_res (evs b' e) = ev_res (evs b e) \<and> event_continue b' = event_continue b \<and>
    ev_ncalls (evs b' e) = ev_ncalls (evs b e) \<and> heap_elems (timeheap b') \<subseteq> heap_elems (timeheap b)"
proof -
  note h = queue_head [OF g i]
  note inv = goodD(5) [OF g]
  have a: "actives_ok b" using inv by (simp add: base_inv_def queues_inv_def)
  have tail: "remove1 e (activequeues b ! i) = q" using i(2) by simp
  show ?thesis
  proof (cases "has_flag (ev_flags (evs b e)) EVLIST_INIT \<and>
      \<not> (has_flag (ev_events (evs b e)) EV_PERSIST \<or> has_flag (ev_flags (evs b e)) EVLIST_FINALIZING)")
    case True
    then obtain b' where b': "event_del_nolock E b e False = Some (b', 0)" "base_inv binv view b'" "event_step {e} b b'" "unlisted b' e"
      using event_del_works [OF inv _ w, of False e] by blast
    have o: "activequeues b' = map (remove1 e) (activequeues b)" "active_later_queue b' = remove1 e (active_later_queue b)"
      using event_del_order(3,4) [OF inv b'(1)] True by simp_all
    then have "activequeues b' = (activequeues b)[i := q]" "active_later_queue b' = active_later_queue b"
      using not_queued(2) [OF a h(1)] not_queued(3) [OF a h(2)] h(3) tail by simp_all
    moreover have "sound binv view b'"
      by (rule sound_step [OF goodD(1) [OF g] b'(2,3) still_times [OF still_del [OF b'(1)] b'(3)]]) (use b'(4) in auto)
    then have "good binv view U b'" using good_step [OF g _ b'(3)] h(4) by simp
    ultimately show ?thesis
      using True b' still_del [OF b'(1)] event_del_order(2,5,6) [OF inv b'(1)] continue_del [OF b'(1)]
      by (simp add: take_active_def unlisted_def)
  next
    case False
    obtain b' where b': "event_queue_remove_active b e = Some b'" "queues_inv b'" "queue_step b b' EVLIST_ACTIVE e False"
      "activequeues b' = (activequeues b)[ev_pri (evs b e) := remove1 e (activequeues b ! ev_pri (evs b e))]"
      "active_later_queue b' = active_later_queue b"
      using remove_active_spec [OF base_invD(1) [OF inv] h(1)] by blast
    have inv': "base_inv binv view b'" by (rule base_inv_step [OF inv b'(2,3)]) simp
    have step: "event_step {e} b b'" by (rule event_step_queue [OF b'(3)]) simp
    have st: "still b b'" by (rule still_remove_active [OF b'(1)])
    have "sound binv view b'"
    proof (rule sound_step [OF goodD(1) [OF g] inv' step still_times [OF st step]])
      fix x assume "x \<in> {e}"
      then show "unlisted b' x \<or> ready (evs b x) \<and> ev_pri (evs b x) < nactivequeues b \<and>
          (fl b EVLIST_FINALIZING x \<longrightarrow> \<not> fl b' EVLIST_TIMEOUT x \<and> \<not> fl b' EVLIST_INSERTED x)"
        using h(3,5) i(1) loop_okD(2) [OF soundD(3) [OF goodD(1) [OF g]], of e] queue_step_fl [OF b'(3)] by simp
    qed
    then have "good binv view U b'" using good_step [OF g _ step] h(4) by simp
    moreover have "take_active E b e = Some b'" unfolding take_active_def if_not_P [OF False] by (rule b'(1))
    ultimately show ?thesis
      using b'(1,4,5) step st queue_step_fl [OF b'(3), of EVLIST_ACTIVE e] queue_step_core(7) [OF b'(3)] h(3) tail
        ev_core_eqD [OF queue_step_core(1) [OF b'(3), of e]] remove_active_frame [OF b'(1)]
      by (simp add: continue_queues)
  qed
qed

text \<open>The library's own callback, of a common timeout's timer, makes no timer active.\<close>

lemma timer_index_in: "e \<in> timers b \<longleftrightarrow> timer_index b e < n_common_timeouts b"
proof -
  have "length (takeWhile P xs) < length xs \<longleftrightarrow> (\<exists>x \<in> set xs. \<not> P x)" for P and xs :: "common_timeout_list list"
    by (induction xs) auto
  then show ?thesis by (auto simp: timer_index_def timers_def)
qed

lemma call_event_spec:
  assumes g: "good binv view U b" and w: "deletions_work E" and clk: "clocks_documented E" and C: "callbacks_ok (good binv view U) C"
  shows "\<exists>u' b'. call_event E C e fd res u b = Some (u', b') \<and> good binv view U b' \<and> kept b b' \<and>
    (signal_ncalls b' = signal_ncalls b \<or> signal_ncalls b' = 0) \<and>
    (e \<in> timers b \<longrightarrow> timers b' = timers b \<and> (\<forall>t \<in> timers b. fl b' EVLIST_ACTIVE t \<longrightarrow> fl b EVLIST_ACTIVE t))"
proof (cases "e \<in> timers b")
  case True
  then have i: "timer_index b e < n_common_timeouts b" by (simp add: timer_index_in)
  let ?i = "timer_index b e"
  note ok = goodD(1) [OF g]
  obtain b' b2 es where b': "common_timeout_callback E b ?i = Some b'" "sound binv view b'" "calm b b'"
    "\<forall>x. x \<notin> set es \<longrightarrow> fl b' EVLIST_ACTIVE x \<longrightarrow> fl b EVLIST_ACTIVE x"
    "event_step (insert (ctl_timeout_event (common_timeout_queues b ! ?i)) (set es)) b b'"
    "set es \<subseteq> set (ctl_events (common_timeout_queues b ! ?i))"
    using common_timeout_callback_spec [OF ok w clk i good_room [OF g]] by blast
  have t: "timeouts_ok b" "ctls_ok b" using soundD(1) [OF ok] by (simp_all add: base_inv_def queues_inv_def)
  have es: "x \<notin> timers b \<and> x \<in> U" if "x \<in> set es" for x
  proof -
    have x: "x \<in> set (ctl_events (common_timeout_queues b ! ?i))" using b'(6) that by blast
    have "x \<notin> timers b" using ctl_facts(2) [OF t(1) i x] t(2) small_not_common by (auto simp: ctls_ok_def)
    moreover have "\<not> unlisted b x" using ctl_facts(1) [OF t(1) i x] by (simp add: unlisted_def)
    ultimately show ?thesis using goodD(4) [OF g] by blast
  qed
  have "ctl_timeout_event (common_timeout_queues b ! ?i) \<in> timers b" using i by (simp add: timers_def)
  then have "ctl_timeout_event (common_timeout_queues b ! ?i) \<in> U" using goodD(4) [OF g] by blast
  then have gd: "good binv view U b'" using good_step [OF g b'(2,5)] es by blast
  have "call_event E C e fd res u b = Some (u, b')" using b'(1) i by (simp add: call_event_def)
  then show ?thesis
    using gd kept_step [OF b'(5,3)] b'(3,4) es event_step_timers [OF b'(5)] by (auto simp: calm_def)
next
  case False
  then have "call_event E C e fd res u b = evcb_callback C e fd res u b" by (simp add: call_event_def timer_index_in)
  then show ?thesis using C g False unfolding callbacks_ok_def returns_ok_def by metis
qed

lemma persist_closure_spec:
  assumes g: "good binv view U b" and w: "deletions_work E" and clk: "clocks_documented E" and C: "callbacks_ok (good binv view U) C"
    and e: "e \<in> U" "ready (evs b e)" "ev_pri (evs b e) < nactivequeues b" "ev_closure (evs b e) = EV_CLOSURE_EVENT_PERSIST"
  shows "\<exists>u' b'. event_persist_closure E C e u b = Some (u', b') \<and> good binv view U b' \<and> kept b b'"
proof -
  let ?set = "tv_sec (ev_io_timeout (evs b e)) \<noteq> 0 \<or> tv_usec (ev_io_timeout (evs b e)) \<noteq> 0"
  define again where "again = (let ev = evs b e
        in if tv_sec (ev_io_timeout ev) \<noteq> 0 \<or> tv_usec (ev_io_timeout ev) \<noteq> 0 then
             (if \<not> is_same_common_timeout (ev_timeout ev) (ev_io_timeout ev) then None
              else
                (case gettime E b of
                   (b1, None) \<Rightarrow> None
                 | (b1, Some now) \<Rightarrow>
                     map_option fst
                       (event_add_nolock E b1 e
                          (Some (persist_run_at (is_common_timeout (ev_timeout ev) b1) (ev_timeout ev) (ev_io_timeout ev) now
                             (has_flag (ev_res ev) EV_TIMEOUT))) True)))
           else Some b)"
  note ok = goodD(1) [OF g]
  have "\<exists>b2. again = Some b2 \<and> good binv view U b2 \<and> kept b b2"
  proof (cases ?set)
    case False
    then show ?thesis using g by (simp add: again_def)
  next
    case True
    let ?ev = "evs b e"
    have pt: "is_same_common_timeout (ev_timeout ?ev) (ev_io_timeout ?ev)"
      "tv_normal (real_timeout (ev_timeout ?ev))" "tv_normal (real_timeout (ev_io_timeout ?ev))"
      "if is_common_timeout (ev_io_timeout ?ev) b then usec_32 (ev_timeout ?ev) \<and> usec_32 (ev_io_timeout ?ev)
         else tv_normal (ev_timeout ?ev) \<and> tv_normal (ev_io_timeout ?ev)"
      using loop_okD(5) [OF soundD(3) [OF ok], of e] e(4) True by (simp_all add: persist_times_def evutil_timerisset_def)
    obtain b1 now where t: "gettime E b = (b1, Some now)" "tv_normal now" "clock_inv b1" "clock_step b b1"
      using gettime_spec [OF base_invD(3) [OF goodD(5) [OF g]] clk] by blast
    have g1: "good binv view U b1" by (rule good_clock [OF g t(4,3)])
    note ok1 = goodD(1) [OF g1]
    have q: "evs b1 = evs b" "timeheap b1 = timeheap b" "common_timeout_queues b1 = common_timeout_queues b" "nactivequeues b1 = nactivequeues b"
      using t(4) by (simp_all add: clock_step_def)
    have k: "is_common_timeout x b1 = is_common_timeout x b" for x by (simp add: is_common_timeout_def q)
    define common where "common = is_common_timeout (ev_timeout ?ev) b"
    define r where "r = persist_run_at common (ev_timeout ?ev) (ev_io_timeout ?ev) now (has_flag (ev_res ?ev) EV_TIMEOUT)"
    have ck: "common = is_common_timeout (ev_io_timeout ?ev) b" using same_common_kind [OF pt(1)] by (simp add: common_def)
    have p: "is_same_common_timeout r (ev_io_timeout ?ev)" "tv_normal (real_timeout r)" "if common then usec_32 r else tv_normal r"
      unfolding r_def by (rule persist_run_at_spec(1-3) [OF pt(1) t(2) pt(2,3)]; use pt(4) ck in simp)+
    have rk: "is_common_timeout r b1 = common" using same_common_kind [OF p(1), of b] by (simp add: ck k)
    have nt: "e \<notin> timers b1" using loop_okD(3) [OF soundD(3) [OF ok1], of e] e(4) by (auto simp: q)
    have to: "timeouts_ok b1" using goodD(5) [OF g1] by (simp add: base_inv_def queues_inv_def)
    have "\<not> has_flag (ev_events ?ev) EV_SIGNAL" using e(2,4) by (simp add: ready_def)
    then have wf: "ev_wf (evs b1 e)" by (simp add: ev_wf_def q)
    have tv: "tv_ok True r b1" using p(3) rk by (simp add: tv_ok_def normal_small split: if_splits)
    have heap: "common \<or> e \<in> heap_elems (timeheap b1)" if "fl b1 EVLIST_TIMEOUT e"
    proof (cases common)
      case False
      then have "\<not> is_common_timeout (ev_timeout (evs b1 e)) b1" by (simp add: common_def q k)
      then show ?thesis using to that unfolding timeouts_ok_def by blast
    qed simp
    have aok: "add_ok E b1 e (Some r) True"
      using wf good_room [OF g1] tv nt heap rk unfolding add_ok_def by auto
    obtain b2 x where b2: "event_add_nolock E b1 e (Some r) True = Some (b2, x)" "base_inv binv view b2"
      "event_step (add_touches b1 e (Some r) x) b1 b2" "fl b1 EVLIST_FINALIZING e \<longrightarrow> x = -1" "x = 0 \<or> x = -1"
      "x = 0 \<longrightarrow> added E b1 b2 e (Some r) True"
      using event_add_spec [OF goodD(5) [OF g1] clk aok] by blast
    note io = event_add_io [OF b2(1)]
    have touch: "y = e \<or> y \<in> timers b1" "x \<noteq> -1" if "y \<in> add_touches b1 e (Some r) x" for y
      using that by (auto simp: add_touches_def split: if_splits)
    have pt2: "persist_times b2 (evs b2 y)" if "persist_times b1 (evs b1 y)" for y
    proof (cases "x = -1")
      case True
      then show ?thesis using still_times [OF io(2) b2(3)] that by blast
    next
      case False
      then have x0: "x = 0" using b2(5) by blast
      show ?thesis
      proof (cases "y = e")
        case True
        have "ev_timeout (evs b2 e) = r" using b2(6) x0 by (auto simp: added_def due_time_def)
        moreover have "ev_io_timeout (evs b2 e) = ev_io_timeout ?ev" using io(3) [of e] by (simp add: q)
        moreover have "is_common_timeout z b2 = is_common_timeout z b" for z
          using event_step_timers [OF b2(3)] q(3) by (simp add: is_common_timeout_def)
        ultimately show ?thesis using p pt(3,4) ck True by (auto simp: persist_times_def)
      next
        case False
        show ?thesis
        proof (cases "y \<in> timers b1")
          case True
          then have "ev_closure (evs b2 y) = EV_CLOSURE_EVENT"
            using loop_okD(3) [OF soundD(3) [OF ok1]] event_stepD(4) [OF b2(3), of y] by simp
          then show ?thesis by (simp add: persist_times_def)
        next
          case nt: False
          then have "y \<notin> add_touches b1 e (Some r) x" using touch False by blast
          then have "ev_core (evs b2 y) = ev_core (evs b1 y)" using event_stepD(6) [OF b2(3)] by blast
          then have "tm (evs b2 y) = tm (evs b1 y)" using ev_core_eqD [of "evs b2 y" "evs b1 y"] by (simp add: tm_def)
          then show ?thesis using that persist_times_cong [OF _ event_stepD(4) [OF b2(3)]] event_step_timers [OF b2(3)] by blast
        qed
      qed
    qed
    have s2: "sound binv view b2"
    proof (rule sound_step [OF ok1 b2(2,3) pt2])
      fix y assume y: "y \<in> add_touches b1 e (Some r) x"
      show "unlisted b2 y \<or> ready (evs b1 y) \<and> ev_pri (evs b1 y) < nactivequeues b1 \<and>
          (fl b1 EVLIST_FINALIZING y \<longrightarrow> \<not> fl b2 EVLIST_TIMEOUT y \<and> \<not> fl b2 EVLIST_INSERTED y)"
        using touch [OF y] b2(4) e(2,3) loop_okD(1,3) [OF soundD(3) [OF ok1], of y] soundD(2) [OF ok1]
        by (auto simp: q limits_ok_def)
    qed
    have "add_touches b1 e (Some r) x \<subseteq> U" using touch e(1) goodD(4) [OF g1] by blast
    then have g2: "good binv view U b2" by (rule good_step [OF g1 s2 b2(3)])
    have "kept b b1" using t(4) still_gettime [OF t(1)] by (simp add: kept_def q still_def calm_def loop_vars_def)
    moreover have "kept b1 b2" by (rule kept_step [OF b2(3) io(1)])
    moreover have "again = Some b2"
      using True pt(1) t(1) b2(1) k by (auto simp: again_def Let_def r_def common_def)
    ultimately show ?thesis using g2 kept_trans by blast
  qed
  then obtain b2 where b2: "again = Some b2" "good binv view U b2" "kept b b2" by blast
  obtain u' b' where b': "call_event E C e (ev_fd (evs b2 e)) (ev_res (evs b2 e)) u b2 = Some (u', b')" "good binv view U b'" "kept b2 b'"
    using call_event_spec [OF b2(2) w clk C] by blast
  have "event_persist_closure E C e u b = Some (u', b')"
    unfolding event_persist_closure_def again_def [symmetric] using b2(1) b'(1) by simp
  then show ?thesis using b'(2) kept_trans [OF b2(3) b'(3)] by blast
qed

end


section \<open>The other closures\<close>

lemma good_soft:
  assumes g: "good binv view U b" and F: "soft_field F" "\<And>ev. ev_closure (F ev) = ev_closure ev" "\<And>ev. tm (F ev) = tm ev" and e: "e \<in> U"
  shows "good binv view U (upd_ev e F b)"
proof -
  note ok = goodD(1) [OF g]
  have step: "event_step {e} b (upd_ev e F b)" by (rule event_step_soft [OF F(1,2)])
  have un: "unlisted (upd_ev e F b) x = unlisted b x" for x using upd_ev_soft(1) [OF F(1), of e b x] by (simp add: unlisted_def)
  have "sound binv view (upd_ev e F b)"
  proof (rule sound_step [OF ok base_inv_soft [OF soundD(1) [OF ok] F(1)] step still_times [OF still_upd [OF F(3)] step]])
    fix x assume "x \<in> {e}"
    then show "unlisted (upd_ev e F b) x \<or> ready (evs b x) \<and> ev_pri (evs b x) < nactivequeues b \<and>
        (fl b EVLIST_FINALIZING x \<longrightarrow> \<not> fl (upd_ev e F b) EVLIST_TIMEOUT x \<and> \<not> fl (upd_ev e F b) EVLIST_INSERTED x)"
      using sound_listed [OF ok, of x] loop_okD(2) [OF soundD(3) [OF ok], of x] upd_ev_soft(1) [OF F(1), of e b x] by (auto simp: un)
  qed
  then show ?thesis using good_step [OF g _ step] e by simp
qed

lemma upd_ev_vars [simp]:
  "signal_ncalls (upd_ev e F b) = signal_ncalls b" "running_loop (upd_ev e F b) = running_loop b"
  "event_break (upd_ev e F b) = event_break b"
  by (simp_all add: upd_ev_def)

context event_backend
begin

lemma signal_calls_spec:
  assumes "good binv view U b" "deletions_work E" "clocks_documented E" "callbacks_ok (good binv view U) C" "e \<in> U"
  shows "\<exists>u' b'. signal_calls E C e u b = Some (u', b') \<and> good binv view U b' \<and> kept b b'"
  using assms(1)
proof (induction "unat (signal_ncalls b)" arbitrary: u b rule: less_induct)
  case less
  show ?case
  proof (cases "signal_ncalls b = 0")
    case True
    then show ?thesis using less.prems by (subst signal_calls.simps) simp
  next
    case False
    define n where "n = signal_ncalls b - 1"
    define b1 where "b1 = upd_ev e (\<lambda>ev. ev\<lparr>ev_ncalls := n, ev_pncalls := (if n = 0 then False else ev_pncalls ev)\<rparr>)
                    (b\<lparr>signal_ncalls := n\<rparr>)"
    have n: "unat n < unat (signal_ncalls b)" using False by (simp add: n_def unat_minus_one unat_gt_0)
    have g1: "good binv view U b1"
      unfolding b1_def by (rule good_soft [OF _ _ _ _ assms(5)]) (use less.prems in \<open>simp_all add: soft_field_def tm_def\<close>)
    have k1: "kept b b1" by (simp add: b1_def kept_def)
    obtain u2 b2 where b2: "call_event E C e (ev_fd (evs b1 e)) (ev_res (evs b1 e)) u b1 = Some (u2, b2)" "good binv view U b2"
      "kept b1 b2" "signal_ncalls b2 = n \<or> signal_ncalls b2 = 0"
      using call_event_spec [OF g1 assms(2-4), of e "ev_fd (evs b1 e)" "ev_res (evs b1 e)" u] by (auto simp: b1_def)
    note k2 = kept_trans [OF k1 b2(3)]
    have run: "signal_calls E C e u b =
        (if event_break b2
              then Some (u2, if signal_ncalls b2 \<noteq> 0 then upd_ev e (\<lambda>ev. ev\<lparr>ev_pncalls := False\<rparr>) b2 else b2)
              else signal_calls E C e u2 b2)"
      using False b2(1) by (subst signal_calls.simps) (simp add: n_def [symmetric] b1_def [symmetric] Let_def)
    show ?thesis
    proof (cases "event_break b2")
      case True
      have "good binv view U (upd_ev e (\<lambda>ev. ev\<lparr>ev_pncalls := False\<rparr>) b2)"
        by (rule good_soft [OF b2(2) _ _ _ assms(5)]) (simp_all add: soft_field_def tm_def)
      then show ?thesis using True run k2 b2(2) by (simp add: kept_def)
    next
      case False
      have "unat (signal_ncalls b2) < unat (signal_ncalls b)" using b2(4) n by auto
      then show ?thesis using less.hyps [OF _ b2(2)] run False k2 kept_trans by fastforce
    qed
  qed
qed

lemma run_closure_spec:
  assumes g: "good binv view U b" and w: "deletions_work E" and clk: "clocks_documented E" and C: "callbacks_ok (good binv view U) C"
    and e: "e \<in> U" "ready (evs b e)" "ev_pri (evs b e) < nactivequeues b"
  shows "\<exists>u' b'. run_closure E C e u b = Some (u', b') \<and> good binv view U b' \<and> kept b b' \<and>
    (e \<in> timers b \<longrightarrow> timers b' = timers b \<and> (\<forall>t \<in> timers b. fl b' EVLIST_ACTIVE t \<longrightarrow> fl b EVLIST_ACTIVE t))"
proof -
  have t: "e \<notin> timers b" if "ev_closure (evs b e) \<noteq> EV_CLOSURE_EVENT"
    using loop_okD(3) [OF soundD(3) [OF goodD(1) [OF g]]] that by blast
  have cb: "\<exists>u' b'. f e u b1 = Some (u', b') \<and> good binv view U b' \<and> kept b b'"
    if "\<forall>e. returns_ok (good binv view U) (f e)" "good binv view U b1" "kept b b1" for f b1
    using that unfolding returns_ok_def by (metis kept_trans)
  have fields: "\<forall>e. returns_ok (good binv view U) (evcb_selfcb C e)" "\<forall>e. returns_ok (good binv view U) (evcb_evfinalize C e)"
    "\<forall>e. returns_ok (good binv view U) (evcb_cbfinalize C e)" using C by (simp_all add: callbacks_ok_def)
  have quiet: "good binv view U (b\<lparr>current_event := None\<rparr>)" "kept b (b\<lparr>current_event := None\<rparr>)" using g by (simp_all add: kept_def)
  show ?thesis
  proof (cases "ev_closure (evs b e)")
    case EV_CLOSURE_EVENT
    then show ?thesis using call_event_spec [OF g w clk C, of e "ev_fd (evs b e)" "ev_res (evs b e)" u] e(2)
      by (auto simp: run_closure_def ready_def Let_def)
  next
    case EV_CLOSURE_EVENT_SIGNAL
    let ?n = "ev_ncalls (evs b e)"
    let ?b1 = "b\<lparr>signal_ncalls := ?n\<rparr>"
    let ?b2 = "if ?n \<noteq> 0 then upd_ev e (\<lambda>ev. ev\<lparr>ev_pncalls := True\<rparr>) ?b1 else ?b1"
    have "good binv view U (upd_ev e (\<lambda>ev. ev\<lparr>ev_pncalls := True\<rparr>) ?b1)"
      by (rule good_soft [OF _ _ _ _ e(1)]) (use g in \<open>simp_all add: soft_field_def tm_def\<close>)
    then have g2: "good binv view U ?b2" using g by simp
    have k2: "kept b ?b2" by (simp add: kept_def)
    obtain u' b' where "signal_calls E C e u ?b2 = Some (u', b')" "good binv view U b'" "kept ?b2 b'"
      using signal_calls_spec [OF g2 w clk C e(1), of u] by blast
    then show ?thesis using EV_CLOSURE_EVENT_SIGNAL e(2) t kept_trans [OF k2]
      by (auto simp: run_closure_def ready_def event_signal_closure_def Let_def)
  next
    case EV_CLOSURE_EVENT_PERSIST
    then show ?thesis using persist_closure_spec [OF g w clk C e] t e(2) by (auto simp: run_closure_def ready_def Let_def)
  next
    case EV_CLOSURE_CB_SELF
    then show ?thesis using cb [OF fields(1) g kept_refl] t by (auto simp: run_closure_def Let_def)
  next
    case EV_CLOSURE_CB_FINALIZE
    then show ?thesis using cb [OF fields(3) quiet] t e(2) by (auto simp: run_closure_def ready_def Let_def)
  next
    case EV_CLOSURE_EVENT_FINALIZE
    then show ?thesis using cb [OF fields(2) quiet] t e(2) by (auto simp: run_closure_def ready_def Let_def)
  next
    case EV_CLOSURE_EVENT_FINALIZE_FREE
    then show ?thesis using cb [OF fields(2) quiet] t e(2) by (auto simp: run_closure_def ready_def Let_def)
  qed
qed

end

section \<open>The cached time\<close>

definition same_queues :: "('b, 'x) event_base \<Rightarrow> ('b, 'x) event_base \<Rightarrow> bool" where
  "same_queues b b' \<longleftrightarrow> evs b' = evs b \<and> timeheap b' = timeheap b \<and> common_timeout_queues b' = common_timeout_queues b \<and>
     activequeues b' = activequeues b \<and> active_later_queue b' = active_later_queue b \<and>
     event_count_active b' = event_count_active b \<and> still b b'"

lemma good_set_cache: "good binv view U b \<Longrightarrow> tv_normal tv \<Longrightarrow> good binv view U (b\<lparr>tv_cache := tv\<rparr>)"
  by (rule good_cong) (use base_invD(3) [OF goodD(5)] in \<open>auto simp: clock_inv_def\<close>)

lemma good_caches:
  assumes g: "good binv view U b" and clk: "clocks_documented E"
  shows "good binv view U (clear_time_cache b)" "good binv view U (update_time_cache E b)"
    "same_queues b (clear_time_cache b)" "same_queues b (update_time_cache E b)"
    "kept b (clear_time_cache b)" "kept b (update_time_cache E b)"
proof -
  define b1 where "b1 = b\<lparr>tv_cache := Timeval 0 (tv_usec (tv_cache b))\<rparr>"
  have n: "tv_normal (Timeval 0 (tv_usec (tv_cache b)))"
    using base_invD(3) [OF goodD(5) [OF g]] by (simp add: clock_inv_def tv_normal_def)
  have g1: "good binv view U b1" unfolding b1_def by (rule good_set_cache [OF g n])
  have s1: "same_queues b b1" "kept b b1"
    by (simp_all add: b1_def same_queues_def kept_def still_def calm_def loop_vars_def)
  show "good binv view U (clear_time_cache b)" "same_queues b (clear_time_cache b)" "kept b (clear_time_cache b)"
    using g1 s1 by (simp_all add: clear_time_cache_def b1_def)
  obtain b2 now where t: "gettime E b1 = (b2, Some now)" "tv_normal now" "clock_inv b2" "clock_step b1 b2"
    using gettime_spec [OF base_invD(3) [OF goodD(5) [OF g1]] clk] by blast
  have u: "update_time_cache E b = (if no_cache_time b then b1 else b2\<lparr>tv_cache := now\<rparr>)"
    by (simp add: update_time_cache_def b1_def [symmetric] t(1) Let_def)
  have "good binv view U (b2\<lparr>tv_cache := now\<rparr>)" by (rule good_set_cache [OF good_clock [OF g1 t(4,3)] t(2)])
  moreover have "same_queues b (b2\<lparr>tv_cache := now\<rparr>)" "kept b (b2\<lparr>tv_cache := now\<rparr>)"
    using t(4) still_gettime [OF t(1)] by (auto simp: same_queues_def clock_step_def b1_def kept_def still_def calm_def loop_vars_def)
  ultimately show "good binv view U (update_time_cache E b)" "same_queues b (update_time_cache E b)" "kept b (update_time_cache E b)"
    using g1 s1 u by simp_all
qed

lemma good_gettime:
  assumes g: "good binv view U b" and clk: "clocks_documented E"
  obtains b' now where "gettime E b = (b', Some now)" "good binv view U b'" "kept b b'" "tv_normal now" "clock_step b b'"
proof -
  obtain b' now where t: "gettime E b = (b', Some now)" "tv_normal now" "clock_inv b'" "clock_step b b'"
    using gettime_spec [OF base_invD(3) [OF goodD(5) [OF g]] clk] by blast
  show thesis
    by (rule that [OF t(1) good_clock [OF g t(4,3)] kept_step [OF event_step_clock [OF t(4)] still_calm [OF still_gettime [OF t(1)]]] t(2,4)])
qed

end
