(* ===== verification/Ev_Loop_Spec.thy ===== *)
theory Ev_Loop_Spec
  imports Ev_Loop_Run
begin

text \<open>
  The queues and the loop as a whole, with callbacks that keep the contract: a queue is worked
  off in finitely many steps, whatever the callbacks add to it, since each round either counts
  an event of the program towards the limit or takes one of the library's timers off; a round of
  the loop returns; the loop returns a sound base.
\<close>

section \<open>Working off the queues\<close>

definition active_timers :: "('b, 'x) event_base \<Rightarrow> ev_addr set" where
  "active_timers b = {t \<in> timers b. fl b EVLIST_ACTIVE t}"

lemma finite_timers [simp]: "finite (timers b)"
  by (simp add: timers_def)

context event_backend
begin

lemma process_queue_spec:
  assumes w: "deletions_work E" and clk: "clocks_documented E" and C: "callbacks_ok (good binv view U) C"
    and "good binv view U b" "i < nactivequeues b"
  shows "\<exists>u' b' c. process_queue E C i max_to_process endtime cnt u b = Some (u', b', c) \<and> good binv view U b' \<and> kept b b' \<and>
    (c = -1 \<and> event_break b' \<or> cnt \<le> c)"
  using assms(4,5)
proof (induction "(nat (max_to_process - cnt), card (active_timers b))" arbitrary: cnt u b
    rule: wf_induct_rule [OF wf_lex_prod [OF wf_less_than wf_less_than]])
  case (1 cnt b u)
  note g = 1(2) and i = 1(3)
  show ?case
  proof (cases "activequeues b ! i")
    case Nil
    then show ?thesis using g i by (subst process_queue.simps) simp
  next
    case (Cons e q)
    note h = queue_head [OF g i Cons]
    obtain b1 where b1: "take_active E b e = Some b1" "good binv view U b1" "event_step {e} b b1" "still b b1" "\<not> fl b1 EVLIST_ACTIVE e"
      using take_active_spec [OF g w i Cons] by blast
    define cnt' where "cnt' = (if fl b1 EVLIST_INTERNAL e then cnt else cnt + 1)"
    let ?b1 = "b1\<lparr>current_event := Some e\<rparr>"
    have k1: "kept b ?b1" using kept_step [OF b1(3) still_calm [OF b1(4)]] by (simp add: kept_def)
    have n1: "nactivequeues ?b1 = nactivequeues b" using k1 by (simp add: kept_def)
    have r1: "ready (evs ?b1 e)" "ev_pri (evs ?b1 e) < nactivequeues ?b1"
      using h(3,5) i ready_step [OF b1(3)] event_stepD(3) [OF b1(3)] n1 by simp_all
    have t1: "timers ?b1 = timers b" using event_step_timers [OF b1(3)] by (simp add: timers_def)
    have g1: "good binv view U ?b1" using b1(2) by simp
    obtain u2 b2 where b2: "run_closure E C e u ?b1 = Some (u2, b2)" "good binv view U b2" "kept ?b1 b2"
      "e \<in> timers ?b1 \<longrightarrow> timers b2 = timers ?b1 \<and> (\<forall>t \<in> timers ?b1. fl b2 EVLIST_ACTIVE t \<longrightarrow> fl ?b1 EVLIST_ACTIVE t)"
      using run_closure_spec [OF g1 w clk C h(4) r1, of u] by auto
    let ?b3 = "b2\<lparr>current_event := None\<rparr>"
    have g3: "good binv view U ?b3" and k3: "kept b ?b3" using b2(2) kept_trans [OF k1 b2(3)] by (simp_all add: kept_def)
    have cnt': "cnt \<le> cnt'" by (simp add: cnt'_def)
    have less: "((nat (max_to_process - cnt'), card (active_timers b4)), (nat (max_to_process - cnt), card (active_timers b)))
        \<in> less_than <*lex*> less_than"
      if "evs b4 = evs b2" "timers b4 = timers b2" "cnt' < max_to_process" for b4 :: "('b, 'x) event_base"
    proof (cases "fl b1 EVLIST_INTERNAL e")
      case True
      then have "fl b EVLIST_INTERNAL e" using b1(3) by (simp add: event_step_def)
      then have e: "e \<in> timers b" using loop_okD(4) [OF soundD(3) [OF goodD(1) [OF g]]] by blast
      have "active_timers b4 \<subseteq> active_timers b - {e}"
      proof
        fix t assume "t \<in> active_timers b4"
        then have t: "t \<in> timers b" "fl b1 EVLIST_ACTIVE t" using b2(4) e t1 that by (auto simp: active_timers_def)
        then show "t \<in> active_timers b - {e}"
          using event_stepD(5) [OF b1(3), of t EVLIST_ACTIVE] b1(5) by (cases "t = e") (simp_all add: active_timers_def)
      qed
      moreover have "e \<in> active_timers b" using e h(1) by (simp add: active_timers_def)
      moreover have "finite (active_timers b)" by (simp add: active_timers_def)
      ultimately have "card (active_timers b4) < card (active_timers b)" by (metis card_Diff1_less card_mono finite_Diff le_less_trans)
      then show ?thesis using True by (simp add: cnt'_def)
    qed (use that(3) in \<open>simp add: cnt'_def\<close>)
    have run: "process_queue E C i max_to_process endtime cnt u b =
      (if event_break ?b3 then Some (u2, ?b3, -1)
                       else if cnt' \<ge> max_to_process then Some (u2, ?b3, cnt')
                       else
                         (case (if cnt' \<noteq> 0 then endtime else None) of
                            None \<Rightarrow>
                              if event_continue ?b3 then Some (u2, ?b3, cnt')
                              else process_queue E C i max_to_process endtime cnt' u2 ?b3
                          | Some endt \<Rightarrow>
                              (case gettime E (update_time_cache E ?b3) of
                                 (b4, None) \<Rightarrow> None
                               | (b4, Some now) \<Rightarrow>
                                   if evutil_timercmp now endt (\<ge>) then Some (u2, b4, cnt')
                                   else if event_continue b4 then Some (u2, b4, cnt')
                                   else process_queue E C i max_to_process endtime cnt' u2 b4)))"
      using i Cons b1(1) b2(1) by (subst process_queue.simps) (simp only: not_True_eq_False if_False list.case bind.bind_lunit prod.case Let_def cnt'_def)
    have go: "\<exists>u' b' c. process_queue E C i max_to_process endtime cnt' u2 b4 = Some (u', b', c) \<and> good binv view U b' \<and> kept b b' \<and>
        (c = -1 \<and> event_break b' \<or> cnt \<le> c)"
      if b4: "evs b4 = evs b2" "timers b4 = timers b2" "good binv view U b4" "kept b b4" "cnt' < max_to_process"
      for b4 :: "('b, 'x) event_base"
    proof -
      have "i < nactivequeues b4" using i b4(4) by (simp add: kept_def)
      then obtain u' b' c where "process_queue E C i max_to_process endtime cnt' u2 b4 = Some (u', b', c)" "good binv view U b'" "kept b4 b'"
        "c = -1 \<and> event_break b' \<or> cnt' \<le> c"
        using 1(1) [OF less [OF b4(1,2,5)] b4(3), of u2] by blast
      then show ?thesis using kept_trans [OF b4(4)] cnt' by fastforce
    qed
    have t3: "evs ?b3 = evs b2" "timers ?b3 = timers b2" by (simp_all add: timers_def)
    show ?thesis
    proof (cases "event_break ?b3 \<or> cnt' \<ge> max_to_process")
      case True
      then show ?thesis using run g3 k3 cnt' by auto
    next
      case False
      show ?thesis
      proof (cases "if cnt' \<noteq> 0 then endtime else None")
        case None
        then show ?thesis using run False g3 k3 cnt' go [OF t3 g3 k3] by simp
      next
        case (Some endt)
        note c = good_caches [OF g3 clk]
        obtain b4 now where b4: "gettime E (update_time_cache E ?b3) = (b4, Some now)" "good binv view U b4"
          "kept (update_time_cache E ?b3) b4" "clock_step (update_time_cache E ?b3) b4"
          using good_gettime [OF c(2) clk] by metis
        have k4: "kept b b4" using kept_trans k3 c(6) b4(3) by blast
        have "evs b4 = evs b2" "timers b4 = timers b2"
          using b4(4) c(4) by (simp_all add: clock_step_def same_queues_def timers_def)
        note go4 = go [OF this b4(2) k4]
        show ?thesis using run False Some b4(1,2) k4 cnt' go4 by simp
      qed
    qed
  qed
qed

lemma process_priorities_spec:
  assumes w: "deletions_work E" and clk: "clocks_documented E" and C: "callbacks_ok (good binv view U) C"
    and "good binv view U b" "c = 0"
  shows "\<exists>u' b' c'. process_priorities E C maxcb limit endtime i c u b = Some (u', b', c') \<and> good binv view U b' \<and> kept b b' \<and>
    (c' = -1 \<and> event_break b' \<or> 0 \<le> c')"
  using assms(4,5)
proof (induction "nactivequeues b - i" arbitrary: i c u b rule: less_induct)
  case less
  note g = less.prems(1)
  show ?case
  proof (cases "i < nactivequeues b")
    case False
    then show ?thesis using less.prems by (subst process_priorities.simps) simp
  next
    case i: True
    show ?thesis
    proof (cases "activequeues b ! i = []")
      case True
      then show ?thesis using less.hyps [of b "i + 1" c u] less.prems i by (subst process_priorities.simps) simp
    next
      case False
      let ?b1 = "b\<lparr>event_running_priority := int i\<rparr>"
      define run where "run = (if int i < limit then process_queue E C i C_INT_MAX None 0 u ?b1 else process_queue E C i maxcb endtime 0 u ?b1)"
      have g1: "good binv view U ?b1" "i < nactivequeues ?b1" using g i by simp_all
      have "\<exists>u' b' c. run = Some (u', b', c) \<and> good binv view U b' \<and> kept ?b1 b' \<and> (c = -1 \<and> event_break b' \<or> 0 \<le> c)"
        using process_queue_spec [OF w clk C g1] unfolding run_def by presburger
      then obtain u2 b2 c2 where r: "run = Some (u2, b2, c2)" "good binv view U b2" "kept ?b1 b2" "c2 = -1 \<and> event_break b2 \<or> 0 \<le> c2"
        by blast
      have k: "kept b b2" using r(3) by (simp add: kept_def)
      have step: "process_priorities E C maxcb limit endtime i c u b =
          (if c2 \<noteq> 0 then Some (u2, b2, c2) else process_priorities E C maxcb limit endtime (i + 1) c2 u2 b2)"
        using i False r(1) by (subst process_priorities.simps) (simp add: run_def Let_def)
      show ?thesis
      proof (cases "c2 = 0")
        case True
        have "nactivequeues b2 - (i + 1) < nactivequeues b - i" using k i by (simp add: kept_def)
        then obtain u' b' c' where "process_priorities E C maxcb limit endtime (i + 1) c2 u2 b2 = Some (u', b', c')"
          "good binv view U b'" "kept b2 b'" "c' = -1 \<and> event_break b' \<or> 0 \<le> c'"
          using less.hyps [OF _ r(2) True, of "i + 1" u2] by blast
        then show ?thesis using step True kept_trans [OF k] by fastforce
      qed (use step r k in auto)
    qed
  qed
qed

lemma event_process_active_spec:
  assumes g: "good binv view U b" and w: "deletions_work E" and clk: "clocks_documented E" and C: "callbacks_ok (good binv view U) C"
  shows "\<exists>u' b' n. event_process_active E C u b = Some (u', b', n) \<and> good binv view U b' \<and> kept b b' \<and>
    (n = -1 \<and> event_break b' \<or> 0 \<le> n)"
proof -
  define start where "start = (if tv_sec (max_dispatch_time b) \<ge> 0 then
              (case gettime E (update_time_cache E b) of
                 (b1, None) \<Rightarrow> None
               | (b1, Some tv) \<Rightarrow> Some (b1, Some (evutil_timeradd (max_dispatch_time b1) tv)))
            else Some (b, None))"
  note c = good_caches [OF g clk]
  obtain b1 now where t: "gettime E (update_time_cache E b) = (b1, Some now)" "good binv view U b1" "kept (update_time_cache E b) b1"
    using good_gettime [OF c(2) clk] by metis
  have "\<exists>b1 endtime. start = Some (b1, endtime) \<and> good binv view U b1 \<and> kept b b1"
    using t g kept_trans [OF c(6) t(3)] by (auto simp: start_def)
  then obtain b1 endtime where s: "start = Some (b1, endtime)" "good binv view U b1" "kept b b1" by blast
  obtain u' b' n where r: "process_priorities E C (max_dispatch_callbacks b) (limit_callbacks_after_prio b) endtime 0 0 u b1 = Some (u', b', n)"
    "good binv view U b'" "kept b1 b'" "n = -1 \<and> event_break b' \<or> 0 \<le> n"
    using process_priorities_spec [OF w clk C s(2) refl] by blast
  have "event_process_active E C u b = Some (u', b'\<lparr>event_running_priority := -1\<rparr>, n)"
    unfolding event_process_active_def Let_def start_def [symmetric] using s(1) r(1) by simp
  moreover have "kept b (b'\<lparr>event_running_priority := -1\<rparr>)" using kept_trans [OF s(3) r(3)] by (simp add: kept_def)
  ultimately show ?thesis using r(2,4) by auto
qed

end


section \<open>A round of the loop\<close>

text \<open>The backend's part of the contract: its dispatch returns and keeps the base sound.\<close>

definition dispatch_ok ::
  "(('b, 'x) event_base \<Rightarrow> bool) \<Rightarrow> (('b, 'x) event_base \<Rightarrow> timeval option \<Rightarrow> (('b, 'x) event_base \<times> int) option) \<Rightarrow> bool"
where
  "dispatch_ok P dispatch \<longleftrightarrow> (\<forall>b tv. P b \<longrightarrow> (\<exists>b' r. dispatch b tv = Some (b', r) \<and> P b' \<and> kept b b'))"

lemma make_later_good:
  assumes g: "good binv view U b"
  shows "\<exists>b'. event_queue_make_later_events_active b = Some b' \<and> good binv view U b' \<and> kept b b'"
proof -
  note inv = goodD(5) [OF g] and ok = goodD(1) [OF g]
  obtain b' where s: "event_queue_make_later_events_active b = Some b'" "base_inv binv view b'"
    "length (activequeues b') = length (activequeues b)" "\<forall>x. ev_core (evs b' x) = ev_core (evs b x)" "sides b' = sides b"
    "\<forall>i < nactivequeues b. activequeues b' ! i = activequeues b ! i @ filter (\<lambda>e. ev_pri (evs b e) = i) (active_later_queue b)"
    "\<forall>g x. single_bit g \<longrightarrow> g \<noteq> EVLIST_ACTIVE \<longrightarrow> g \<noteq> EVLIST_ACTIVE_LATER \<longrightarrow> fl b' g x = fl b g x" "active_later_queue b' = []"
    using make_later_base_inv [OF inv] by blast
  have a: "actives_ok b" "actives_ok b'" using inv s(2) by (simp_all add: base_inv_def queues_inv_def)
  let ?X = "{x. \<not> unlisted b x}"
  have act: "fl b' EVLIST_ACTIVE x \<longleftrightarrow> fl b EVLIST_ACTIVE x \<or> fl b EVLIST_ACTIVE_LATER x" "\<not> fl b' EVLIST_ACTIVE_LATER x" for x
  proof -
    show "\<not> fl b' EVLIST_ACTIVE_LATER x" using a(2) s(8) by (simp add: actives_ok_def)
    have pri: "ev_pri (evs b' x) = ev_pri (evs b x)" using ev_core_eqD [of "evs b' x" "evs b x"] s(4) by simp
    let ?i = "ev_pri (evs b x)"
    have "fl b' EVLIST_ACTIVE x \<longleftrightarrow> ?i < nactivequeues b \<and> x \<in> set (activequeues b' ! ?i)"
      using a(2) pri s(3) unfolding actives_ok_def by metis
    also have "\<dots> \<longleftrightarrow> ?i < nactivequeues b \<and> (x \<in> set (activequeues b ! ?i) \<or> x \<in> set (active_later_queue b))"
      using s(6) by auto
    also have "\<dots> \<longleftrightarrow> fl b EVLIST_ACTIVE x \<or> fl b EVLIST_ACTIVE_LATER x"
      using a(1) unfolding actives_ok_def by metis
    finally show "fl b' EVLIST_ACTIVE x \<longleftrightarrow> fl b EVLIST_ACTIVE x \<or> fl b EVLIST_ACTIVE_LATER x" .
  qed
  have un: "unlisted b' x = unlisted b x" for x using act [of x] s(7) by (auto simp: unlisted_def)
  have st: "still b b'" by (rule still_make_later) (use s(1) in \<open>simp add: event_queue_make_later_events_active_def\<close>)
  have core: "ev_fd (evs b' x) = ev_fd (evs b x)" "ev_events (evs b' x) = ev_events (evs b x)"
    "ev_pri (evs b' x) = ev_pri (evs b x)" "ev_closure (evs b' x) = ev_closure (evs b x)" for x
    using ev_core_eqD [of "evs b' x" "evs b x"] s(4) by simp_all
  have side: "map ctl_timeout_event (common_timeout_queues b') = map ctl_timeout_event (common_timeout_queues b)"
    "event_running_priority b' = event_running_priority b" using s(5) by (simp_all add: sides_def)
  have step: "event_step ?X b b'"
    unfolding event_step_def
  proof (intro conjI allI impI)
    fix x g
    assume x: "x \<notin> ?X"
    show "ev_core (evs b' x) = ev_core (evs b x)" using s(4) by blast
    assume "single_bit g"
    then show "fl b' g x = fl b g x"
      using x act [of x] s(7) by (cases "g = EVLIST_ACTIVE \<or> g = EVLIST_ACTIVE_LATER") (auto simp: unlisted_def)
  qed (simp_all add: s(3,7) core side)
  have "sound binv view b'"
  proof (rule sound_step [OF ok s(2) step still_times [OF st step]])
    fix x assume "x \<in> ?X"
    then show "unlisted b' x \<or> ready (evs b x) \<and> ev_pri (evs b x) < nactivequeues b \<and>
        (fl b EVLIST_FINALIZING x \<longrightarrow> \<not> fl b' EVLIST_TIMEOUT x \<and> \<not> fl b' EVLIST_INSERTED x)"
      using sound_listed [OF ok, of x] loop_okD(2) [OF soundD(3) [OF ok], of x] s(7) by auto
  qed
  moreover have "?X \<subseteq> U" using goodD(4) [OF g] by blast
  ultimately show ?thesis using s(1) good_step [OF g _ step] kept_step [OF step still_calm [OF st]] by blast
qed


lemma still_timeout_next: "timeout_next E b = Some (b', tv) \<Longrightarrow> still b b'"
  by (auto simp: timeout_next_def Let_def split: option.splits prod.splits if_splits intro: still_gettime)

lemma timeout_next_good:
  assumes g: "good binv view U b" and clk: "clocks_documented E"
  shows "\<exists>b' tv. timeout_next E b = Some (b', tv) \<and> good binv view U b' \<and> kept b b' \<and> evs b' = evs b"
proof -
  obtain b' tv where t: "timeout_next E b = Some (b', tv)" "clock_step b b'" "clock_inv b'"
    using timeout_next_spec [OF goodD(5) [OF g] clk] by blast
  then show ?thesis
    using good_clock [OF g t(2,3)] kept_step [OF event_step_clock [OF t(2)] still_calm [OF still_timeout_next [OF t(1)]]]
    by (auto simp: clock_step_def)
qed

context event_backend
begin

lemma timeout_process_good:
  assumes g: "good binv view U b" and w: "deletions_work E" and clk: "clocks_documented E"
  shows "\<exists>b'. timeout_process E b = Some b' \<and> good binv view U b' \<and> kept b b'"
proof -
  obtain b' es now where t: "timeout_process E b = Some b'" "sound binv view b'" "fired b es b'"
    "set es = {e \<in> heap_elems (timeheap b). ev_timeout (evs b e) \<le> now}"
    using timeout_process_spec [OF goodD(1) [OF g] w clk] by blast
  have to: "timeouts_ok b" using goodD(5) [OF g] by (simp add: base_inv_def queues_inv_def)
  then have "set es \<subseteq> U"
    using t(4) goodD(4) [OF g] unfolding timeouts_ok_def unlisted_def by blast
  then show ?thesis
    using t good_step [OF g t(2)] kept_step still_calm unfolding fired_def by blast
qed

lemma loop_round_spec:
  assumes g: "good binv view U b" and w: "deletions_work E" and clk: "clocks_documented E"
    and C: "callbacks_ok (good binv view U) C" and D: "dispatch_ok (good binv view U) dispatch"
  shows "\<exists>r. loop_round dispatch E C flags u b = Some r \<and>
    (case r of Inl (u', b', res) \<Rightarrow> good binv view U b' \<and> kept b b' \<and> res \<in> {-1, 0, 1}
     | Inr (u', b') \<Rightarrow> good binv view U b' \<and> kept b b')"
proof -
  let ?b = "b\<lparr>event_continue := False, n_deferreds_queued := 0\<rparr>"
  have g0: "good binv view U ?b" and k0: "kept b ?b" using g by (simp_all add: kept_def)
  show ?thesis
  proof (cases "event_gotterm ?b \<or> event_break ?b")
    case True
    then show ?thesis using g0 k0 by (simp add: loop_round_def Let_def)
  next
    case no: False
    define wait where "wait = (if N_ACTIVE_CALLBACKS ?b = 0 \<and> flags AND EVLOOP_NONBLOCK = 0 then timeout_next E ?b else Some (?b, Some evutil_timerclear))"
    have "\<exists>b1 tv. wait = Some (b1, tv) \<and> good binv view U b1 \<and> kept ?b b1"
      using timeout_next_good [OF g0 clk] g0 by (auto simp: wait_def)
    then obtain b1 tv where b1: "wait = Some (b1, tv)" "good binv view U b1" "kept ?b b1" by blast
    note k1 = kept_trans [OF k0 b1(3)]
    have run: "loop_round dispatch E C flags u b = Option.bind wait (\<lambda>(b1, tv_p).
             if flags AND EVLOOP_NO_EXIT_ON_EMPTY = 0 \<and> \<not> event_haveevents b1 \<and> N_ACTIVE_CALLBACKS b1 = 0
             then Some (Inl (u, b1, 1))
             else
               Option.bind (event_queue_make_later_events_active b1) (\<lambda>b2.
               Option.bind (dispatch (clear_time_cache b2) tv_p) (\<lambda>(b3, res).
                 if res = -1 then Some (Inl (u, b3, -1))
                 else
                   Option.bind (timeout_process E (update_time_cache E b3)) (\<lambda>b4.
                     if N_ACTIVE_CALLBACKS b4 \<noteq> 0 then
                       Option.bind (event_process_active E C u b4) (\<lambda>(u2, b5, n).
                         if flags AND EVLOOP_ONCE \<noteq> 0 \<and> N_ACTIVE_CALLBACKS b5 = 0 \<and> n \<noteq> 0
                         then Some (Inl (u2, b5, 0)) else Some (Inr (u2, b5)))
                     else if flags AND EVLOOP_NONBLOCK \<noteq> 0 then Some (Inl (u, b4, 0))
                     else Some (Inr (u, b4))))))"
      unfolding loop_round_def Let_def wait_def if_not_P [OF no] by (rule refl)
    show ?thesis
    proof (cases "flags AND EVLOOP_NO_EXIT_ON_EMPTY = 0 \<and> \<not> event_haveevents b1 \<and> N_ACTIVE_CALLBACKS b1 = 0")
      case True
      then show ?thesis using run b1 k1 by simp
    next
      case go: False
      obtain b2 where b2: "event_queue_make_later_events_active b1 = Some b2" "good binv view U b2" "kept b1 b2"
        using make_later_good [OF b1(2)] by blast
      note c2 = good_caches [OF b2(2) clk]
      obtain b3 res where b3: "dispatch (clear_time_cache b2) tv = Some (b3, res)" "good binv view U b3" "kept (clear_time_cache b2) b3"
        using D c2(1) unfolding dispatch_ok_def by blast
      note k3 = kept_trans [OF kept_trans [OF kept_trans [OF k1 b2(3)] c2(5)] b3(3)]
      note c3 = good_caches [OF b3(2) clk]
      obtain b4 where b4: "timeout_process E (update_time_cache E b3) = Some b4" "good binv view U b4" "kept (update_time_cache E b3) b4"
        using timeout_process_good [OF c3(2) w clk] by blast
      note k4 = kept_trans [OF kept_trans [OF k3 c3(6)] b4(3)]
      obtain u2 b5 n where b5: "event_process_active E C u b4 = Some (u2, b5, n)" "good binv view U b5" "kept b4 b5"
        using event_process_active_spec [OF b4(2) w clk C] by blast
      note k5 = kept_trans [OF k4 b5(3)]
      show ?thesis
        unfolding run using b1(1,2) k1 go b2(1) b3(1,2) b4(1,2) b5(1,2) k3 k4 k5 by simp
    qed
  qed
qed

lemma loop_rounds_spec:
  fixes u u' :: 'e
  assumes run: "loop_rounds dispatch E' C flags u b = Some (u', b', res)" and E': "E' = E"
    and g: "good binv view U b" and w: "deletions_work E" and clk: "clocks_documented E"
    and C: "callbacks_ok (good binv view U) C" and D: "dispatch_ok (good binv view U) dispatch"
  shows "good binv view U b' \<and> kept b b' \<and> res \<in> {-1, 0, 1}"
proof -
  define P where "P = (\<lambda>d E' C' f (u :: 'e) b (r :: 'e \<times> ('b, 'x) event_base \<times> int). d = dispatch \<and> E' = E \<and> C' = C \<and> f = flags \<and> good binv view U b \<longrightarrow>
    good binv view U (fst (snd r)) \<and> kept b (fst (snd r)) \<and> snd (snd r) \<in> {-1, 0, 1})"
  have "P dispatch E' C flags u b (u', b', res)"
  proof (rule loop_rounds.raw_induct [where P = P, OF _ run])
    fix loop d E' C' f u b r
    assume IH: "\<And>d E' C' f u b r. loop d E' C' f u b = Some r \<Longrightarrow> P d E' C' f u b r"
      and body: "Option.bind (loop_round d E' C' f u b) (\<lambda>r. case r of Inl res \<Rightarrow> Some res | Inr (u2, b2) \<Rightarrow> loop d E' C' f u2 b2) = Some r"
    show "P d E' C' f u b r"
      unfolding P_def
    proof (intro impI)
      assume eq: "d = dispatch \<and> E' = E \<and> C' = C \<and> f = flags \<and> good binv view U b"
      obtain x where x: "loop_round dispatch E C flags u b = Some x"
        "case x of Inl (u', b', res) \<Rightarrow> good binv view U b' \<and> kept b b' \<and> res \<in> {-1, 0, 1} | Inr (u', b') \<Rightarrow> good binv view U b' \<and> kept b b'"
        using loop_round_spec [OF conjunct2 [OF conjunct2 [OF conjunct2 [OF conjunct2 [OF eq]]]] w clk C D] by blast
      show "good binv view U (fst (snd r)) \<and> kept b (fst (snd r)) \<and> snd (snd r) \<in> {-1, 0, 1}"
      proof (cases x)
        case (Inl a)
        then show ?thesis using x body eq by (cases a) auto
      next
        case (Inr a)
        obtain u2 b2 where a: "a = (u2, b2)" by fastforce
        have g2: "good binv view U b2" "kept b b2" using x(2) Inr a by simp_all
        have "loop dispatch E C flags u2 b2 = Some r" using body x(1) Inr a eq by simp
        from IH [OF this] g2 show ?thesis using kept_trans [OF g2(2)] by (simp add: P_def)
      qed
    qed
  qed
  then show ?thesis using E' g by (simp add: P_def)
qed

end

end
