(* ===== verification/Ev_Loop_Api.thy ===== *)
theory Ev_Loop_Api
  imports Ev_Loop_Spec
begin

text \<open>
  The interface keeps a base in a state the loop can run in: so a callback made of calls of it
  meets the contract of \<open>Ev_Loop_Run\<close>, and so do the states a program starts the loop in.
\<close>

section \<open>Events\<close>

lemma sound_active:
  assumes ok: "sound binv view b" and e: "ready (evs b e)" "ev_pri (evs b e) < nactivequeues b" "\<not> fl b EVLIST_FINALIZING e"
  shows "\<exists>b'. event_active_nolock E b e res ncalls = Some b' \<and> sound binv view b' \<and> event_step {e} b b' \<and> still b b' \<and>
    fl b' EVLIST_ACTIVE e"
proof -
  obtain b' where b': "event_active_nolock E b e res ncalls = Some b'" "base_inv binv view b'" "event_step {e} b b'" "fl b' EVLIST_ACTIVE e"
    using event_active_spec [OF soundD(1) [OF ok] e(2,3), of E res ncalls] by blast
  have "sound binv view b'"
    by (rule sound_step [OF ok b'(2,3) still_times [OF still_active [OF b'(1)] b'(3)]]) (use e in auto)
  then show ?thesis using b' still_active [OF b'(1)] by blast
qed

lemma assign_fields:
  assumes "event_assign b e fd events = (b', 0)"
  shows "ready (evs b' e)" "persist_times c (evs b' e)" "ev_closure (evs b' e) =
      (if has_flag events EV_SIGNAL then EV_CLOSURE_EVENT_SIGNAL else if has_flag events EV_PERSIST then EV_CLOSURE_EVENT_PERSIST
       else EV_CLOSURE_EVENT)"
    "nactivequeues b' = nactivequeues b" "n_common_timeouts b' = n_common_timeouts b"
    "common_timeout_queues b' = common_timeout_queues b"
  using assms
  by (auto simp: event_assign_def Let_def upd_ev_def ready_def persist_times_def evutil_timerisset_def evutil_timerclear_def
      has_flag_bits evlist_flag_defs split: if_splits ev_closure.splits)

lemma sound_assign:
  assumes ok: "sound binv view b" and e: "unlisted b e" "e \<notin> timers b" and run: "event_assign b e fd events = (b', 0)"
  shows "sound binv view b'" "unlisted b' e" "timers b' = timers b" "ready (evs b' e)" "ev_pri (evs b' e) < nactivequeues b'"
    "\<not> fl b' EVLIST_FINALIZING e" "\<forall>x. x \<noteq> e \<longrightarrow> evs b' x = evs b x" "ev_wf (evs b' e)"
    "nactivequeues b' = nactivequeues b"
proof -
  note a = event_assign_spec [OF soundD(1) [OF ok] e run] and f = assign_fields [OF run]
  have n: "0 < nactivequeues b" using soundD(2) [OF ok] by (simp add: limits_ok_def)
  have un: "unlisted b' x = unlisted b x" for x using a(2,3) e(1) by (cases "x = e") (simp_all add: unlisted_def)
  show pri: "ev_pri (evs b' e) < nactivequeues b'" using a(9) n f(4) by simp
  have "limits_ok b'"
    using soundD(2) [OF ok] a(3,4) f(4,5) un e unfolding limits_ok_def by metis
  moreover have "loop_ok b'"
    unfolding loop_ok_def
  proof (intro conjI allI impI ballI)
    fix x
    note l = loop_okD [OF soundD(3) [OF ok]]
    show "ready (evs b' x)" if "\<not> unlisted b' x \<or> x \<in> timers b'" using that l(1) [of x] a(3,4) un f(1) e by (cases "x = e") auto
    show "\<not> fl b' EVLIST_TIMEOUT x" "\<not> fl b' EVLIST_INSERTED x" if "fl b' EVLIST_FINALIZING x"
      using that l(2) [of x] a(2,3) by (cases "x = e"; simp add: unlisted_def)+
    show "ev_closure (evs b' x) = EV_CLOSURE_EVENT" "\<not> fl b' EVLIST_FINALIZING x" if "x \<in> timers b'"
      using that l(3) [of x] a(3,4) e(2) by (metis)+
    show "x \<in> timers b'" if "fl b' EVLIST_INTERNAL x"
      using that l(4) [of x] a(3,4,7) by (cases "x = e") (simp_all add: evlist_flag_defs has_flag_bits)
    have "persist_times b' ev = persist_times b ev" for ev by (rule persist_times_cong) (simp_all add: f(5))
    then show "persist_times b' (evs b' x)" using l(5) [of x] a(3) f(2) by (cases "x = e") simp_all
  qed
  ultimately show "sound binv view b'" using a(1) by (simp add: sound_def)
  show "unlisted b' e" "timers b' = timers b" "ready (evs b' e)" "\<forall>x. x \<noteq> e \<longrightarrow> evs b' x = evs b x" by (fact a f)+
  show "\<not> fl b' EVLIST_FINALIZING e" using a(7) by (simp add: evlist_flag_defs has_flag_bits)
  show "ev_wf (evs b' e)" "nactivequeues b' = nactivequeues b" using a(9) f(4) by simp_all
qed

context event_backend
begin

lemma sound_del:
  assumes ok: "sound binv view b" and w: "deletions_work E" and go: "even_if \<or> \<not> fl b EVLIST_FINALIZING e"
  shows "\<exists>b'. event_del_nolock E b e even_if = Some (b', 0) \<and> sound binv view b' \<and> event_step {e} b b' \<and> still b b' \<and> unlisted b' e"
proof -
  obtain b' where b': "event_del_nolock E b e even_if = Some (b', 0)" "base_inv binv view b'" "event_step {e} b b'" "unlisted b' e"
    using event_del_works [OF soundD(1) [OF ok] go w] by blast
  have "sound binv view b'"
    by (rule sound_step [OF ok b'(2,3) still_times [OF still_del [OF b'(1)] b'(3)]]) (use b'(4) in auto)
  then show ?thesis using b' still_del [OF b'(1)] by blast
qed

text \<open>An interval: what it denotes is a normal time; a persistent event keeps it.\<close>

lemma sound_add:
  assumes ok: "sound binv view b" and clk: "clocks_documented E" and aok: "add_ok E b e tv False"
    and e: "ready (evs b e)" "ev_pri (evs b e) < nactivequeues b"
    and tv: "\<And>t. tv = Some t \<Longrightarrow> tv_normal (real_timeout t)" and nt: "e \<notin> timers b"
  shows "\<exists>b' r. event_add_nolock E b e tv False = Some (b', r) \<and> sound binv view b' \<and>
    event_step (add_touches b e tv r) b b' \<and> calm b b' \<and> (r = 0 \<or> r = -1) \<and> (fl b EVLIST_FINALIZING e \<longrightarrow> r = -1) \<and>
    (r = 0 \<longrightarrow> added E b b' e tv False)"
proof -
  obtain b' r where b': "event_add_nolock E b e tv False = Some (b', r)" "base_inv binv view b'"
    "event_step (add_touches b e tv r) b b'" "fl b EVLIST_FINALIZING e \<longrightarrow> r = -1" "r = 0 \<or> r = -1"
    "r = 0 \<longrightarrow> added E b b' e tv False"
    using event_add_spec [OF soundD(1) [OF ok] clk aok] by blast
  note io = event_add_io [OF b'(1)]
  note l = loop_okD [OF soundD(3) [OF ok]]
  have touch: "y = e \<or> y \<in> timers b" "r \<noteq> -1" if "y \<in> add_touches b e tv r" for y
    using that by (auto simp: add_touches_def split: if_splits option.splits)
  have nk: "n_common_timeouts b' = n_common_timeouts b" using event_step_timers [OF b'(3)] by blast
  have "sound binv view b'"
  proof (rule sound_step [OF ok b'(2,3)])
    fix y assume p: "persist_times b (evs b y)"
    show "persist_times b' (evs b' y)"
    proof (cases "tv = None \<or> r = -1")
      case True
      then show ?thesis using still_times [OF io(2) b'(3)] p by blast
    next
      case False
      then obtain t where t: "tv = Some t" and r: "r = 0" using b'(5) by (cases tv) auto
      consider "y = e" | "y \<in> timers b" | "y \<notin> add_touches b e tv r" using touch(1) by blast
      then show ?thesis
      proof cases
        case 1
        let ?c = "is_common_timeout t b"
        obtain now where now: "tv_normal now" "due_time False ?c now t (ev_timeout (evs b' e))"
          using b'(6) r t by (auto simp: added_def)
        have io: "ev_io_timeout (evs b' e) = t" if "ev_closure (evs b' e) = EV_CLOSURE_EVENT_PERSIST"
          using io(3) [of e] that event_stepD(4) [OF b'(3), of e] t r by simp
        have ck: "is_common_timeout t b' = ?c" using nk by (simp add: is_common_timeout_def)
        have nr: "tv_normal (real_timeout t)" by (rule tv [OF t])
        let ?d = "ev_timeout (evs b' e)"
        have ok_t: "if ?c then usec_32 t else tv_normal t" using aok t by (simp add: add_ok_def tv_ok_def split: if_splits)
        have z: "tv_usec y AND NOT MICROSECONDS_MASK = 0" if "tv_normal y" for y
          using or_high_mask(2) [of "tv_usec y" 0] that by (simp add: tv_normal_def)
        have d: "is_same_common_timeout ?d t \<and> tv_normal (real_timeout ?d) \<and> (if ?c then usec_32 ?d else tv_normal ?d)"
          using now(2) nr ok_t z [of t] z [of ?d] real_timeout_small [OF normal_small, of ?d]
          by (auto simp: due_time_def is_same_common_timeout_def split: if_splits)
        show ?thesis using 1 io d nr ok_t ck by (auto simp: persist_times_def)
      next
        case 2
        then show ?thesis using l(3) [of y] event_stepD(4) [OF b'(3), of y] by (simp add: persist_times_def)
      next
        case 3
        then have "ev_core (evs b' y) = ev_core (evs b y)" using event_stepD(6) [OF b'(3)] by blast
        then have "tm (evs b' y) = tm (evs b y)" using ev_core_eqD [of "evs b' y" "evs b y"] by (simp add: tm_def)
        then show ?thesis using p persist_times_cong [OF _ event_stepD(4) [OF b'(3)] nk] by blast
      qed
    qed
  next
    fix y assume y: "y \<in> add_touches b e tv r"
    show "unlisted b' y \<or> ready (evs b y) \<and> ev_pri (evs b y) < nactivequeues b \<and>
        (fl b EVLIST_FINALIZING y \<longrightarrow> \<not> fl b' EVLIST_TIMEOUT y \<and> \<not> fl b' EVLIST_INSERTED y)"
      using touch [OF y] b'(4) e l(1,3) [of y] soundD(2) [OF ok] by (auto simp: limits_ok_def)
  qed
  then show ?thesis using b' io(1) by blast
qed

end


section \<open>Common timeouts\<close>

lemma sound_init_common:
  assumes ok: "sound binv view b" and t: "unlisted b t" "t \<notin> timers b"
    and du: "0 \<le> tv_usec (common_duration b d0)" "tv_usec (common_duration b d0) < 2 ^ 20"
    and new: "find (\<lambda>ctl. tv_sec (common_duration b d0) = tv_sec (ctl_duration ctl) \<and>
       tv_usec (common_duration b d0) = tv_usec (ctl_duration ctl) AND MICROSECONDS_MASK) (common_timeout_queues b) = None"
    and room: "n_common_timeouts b < MAX_COMMON_TIMEOUTS"
  shows "\<exists>b' d. event_base_init_common_timeout True b t d0 = Some (b', Some d) \<and> sound binv view b' \<and>
    is_common_timeout d b' \<and> COMMON_TIMEOUT_IDX d = n_common_timeouts b \<and> real_timeout d = common_duration b d0 \<and>
    n_common_timeouts b' = n_common_timeouts b + 1 \<and> timers b' = insert t (timers b) \<and> unlisted b' t \<and>
    (\<forall>x. x \<noteq> t \<longrightarrow> evs b' x = evs b x) \<and> nactivequeues b' = nactivequeues b \<and>
    common_timeout_queues b' = common_timeout_queues b @ [\<lparr>ctl_events = [], ctl_duration = d, ctl_timeout_event = t\<rparr>]"
proof -
  have n: "0 < nactivequeues b" using soundD(2) [OF ok] by (simp add: limits_ok_def)
  obtain b' d where b': "event_base_init_common_timeout True b t d0 = Some (b', Some d)" "base_inv binv view b'"
    "is_common_timeout d b'" "COMMON_TIMEOUT_IDX d = n_common_timeouts b" "real_timeout d = common_duration b d0"
    "n_common_timeouts b' = n_common_timeouts b + 1" "timers b' = insert t (timers b)" "unlisted b' t"
    using init_common_timeout_spec [OF soundD(1) [OF ok] t n du new room] by blast
  have lim: "limits_ok b'" using init_common_any [OF soundD(1) [OF ok] t soundD(2) [OF ok] du b'(1)] by blast
  have frame: "nactivequeues b' = nactivequeues b" "\<forall>x. x \<noteq> t \<longrightarrow> evs b' x = evs b x"
    "ev_closure (evs b' t) = EV_CLOSURE_EVENT" "fl b' EVLIST_INIT t" "\<not> fl b' EVLIST_FINALIZING t"
    "common_timeout_queues b' = common_timeout_queues b @ [\<lparr>ctl_events = [], ctl_duration = d, ctl_timeout_event = t\<rparr>]"
    using b'(1) new room
    by (auto simp: event_base_init_common_timeout_def event_assign_def event_priority_set_def set_ev_flag_def upd_ev_def
        Let_def has_flag_bits evlist_flag_defs ev_flag_defs bit_simps split: if_splits)
  note l = loop_okD [OF soundD(3) [OF ok]]
  have "loop_ok b'"
    unfolding loop_ok_def
  proof (intro conjI allI impI ballI)
    fix x
    have un: "unlisted b' x = unlisted b x" if "x \<noteq> t" using frame(2) that by (simp add: unlisted_def)
    show "ready (evs b' x)" if "\<not> unlisted b' x \<or> x \<in> timers b'"
      using that frame(2-4) l(1) [of x] b'(7) un by (cases "x = t") (auto simp: ready_def)
    show "\<not> fl b' EVLIST_TIMEOUT x" "\<not> fl b' EVLIST_INSERTED x" if "fl b' EVLIST_FINALIZING x"
      using that l(2) [of x] frame(2,5) by (cases "x = t"; simp)+
    show "ev_closure (evs b' x) = EV_CLOSURE_EVENT" "\<not> fl b' EVLIST_FINALIZING x" if "x \<in> timers b'"
      using that l(3) [of x] frame(2,3,5) b'(7) by (cases "x = t"; auto)+
    show "x \<in> timers b'" if "fl b' EVLIST_INTERNAL x"
      using that l(4) [of x] frame(2) b'(7) by (cases "x = t") simp_all
    show "persist_times b' (evs b' x)"
    proof (cases "x = t")
      case True
      then show ?thesis using frame(3) by (simp add: persist_times_def)
    next
      case False
      have k: "is_common_timeout tv b' = is_common_timeout tv b" if "is_common_timeout tv b \<or> tv_normal tv" for tv
      proof (cases "tv_normal tv")
        case True
        then show ?thesis using small_not_common [OF normal_small, of tv b] small_not_common [OF normal_small, of tv b'] by simp
      next
        case False
        then show ?thesis using that b'(6) by (auto simp: is_common_timeout_def split: if_splits)
      qed
      show ?thesis using l(5) [of x] False frame(2) k [of "ev_io_timeout (evs b x)"] by (auto simp: persist_times_def split: if_splits)
    qed
  qed
  then show ?thesis using b' lim frame by (auto simp: sound_def)
qed

end
