(* ===== verification/Ev_Core_Props.thy ===== *)
theory Ev_Core_Props
  imports Ev_Machine
begin

text \<open>
  What the event core promises a program that uses it: its consistency in every reachable
  state, what each operation on an event does, and what one poll of the epoll backend does.
\<close>

section \<open>Reachable states\<close>

text \<open>
  C1. In every state that calls of the interface and polls reach from a new base the queues,
  the timer heap, the event maps, the counters and the epoll backend agree with each other
  and with the events' flags, and the base's own self-check passes, the changelist's part of
  it included when the base uses one.
\<close>

theorem base_invariant_reachable:
  assumes "idle_store st" "clocks_documented E0" "epoll_ctl_documented ctl interest" "epoll_wait_documented wait interest"
    "interest k = (\<lambda>_. None)" "deletions_work (epoll_env use_cl ctl sig_ok E0)"
    "event_base_new_with_config (epoll_env use_cl ctl sig_ok E0) issetugid getenv True [epollops (Some (fd, k)) alloc_ok] st cfg
      = Some (op, b)"
    "(api_step ctl wait (epoll_env use_cl ctl sig_ok E0))\<^sup>*\<^sup>* b b'"
  shows "base_ok use_cl ctl interest b' \<and> event_base_assert_ok_nolock (eb_changelist use_cl) id b'"
proof -
  have clk: "clocks_documented (epoll_env use_cl ctl sig_ok E0)" using assms(2) by simp
  have "base_ok use_cl ctl interest b" by (rule new_base_base_ok(1) [OF assms(1) clk assms(5,3,7)])
  then have ok: "base_ok use_cl ctl interest b'" using api_steps_ok [OF assms(8) _ refl assms(2,4,6)] by blast
  moreover have "base_inv (eb_binv use_cl ctl interest) (eb_view interest) b'" using ok by (simp add: base_ok_def)
  then have "event_base_assert_ok_nolock (eb_changelist use_cl) id b'" by (rule base_inv_assert_ok) (rule eb_changelist_ok)
  ultimately show ?thesis by blast
qed

theorem base_invariant_reachable_witness:
  "\<exists>b'. event_base_priority_init True demo_base 3 = (b', 0) \<and> base_ok True table_ctl (\<lambda>k. k) b' \<and>
    event_base_assert_ok_nolock (eb_changelist True) id b'"
proof -
  obtain b' where b': "event_base_priority_init True demo_base 3 = (b', 0)"
    using demo_quiet by (simp add: event_base_priority_init_def EVENT_MAX_PRIORITIES_def demo_base_ok)
  have w: "epoll_wait_documented (\<lambda>k n t. (k, Inl EINTR)) (\<lambda>k. k)" by (simp add: epoll_wait_documented_def)
  have "api_step table_ctl (\<lambda>k n t. (k, Inl EINTR)) demo_epoll demo_base b'"
    by (rule api_step.priority_init [OF _ _ b']) (simp_all add: demo_unlisted)
  then have s: "(api_step table_ctl (\<lambda>k n t. (k, Inl EINTR)) demo_epoll)\<^sup>*\<^sup>* demo_base b'" by blast
  show ?thesis
    using base_invariant_reachable [OF demo_docs(3,1) table_ctl_documented w refl demo_docs(2) [unfolded demo_epoll_def]
        demo_new [unfolded demo_epoll_def] s [unfolded demo_epoll_def]] b' by blast
qed

text \<open>
  C2. In a consistent state no operation fails an assertion, ends the process or follows a
  broken list: each returns.
\<close>

theorem operations_never_fail:
  assumes "base_ok use_cl ctl interest b" "clocks_documented E0" "epoll_wait_documented wait interest"
    "deletions_work (epoll_env use_cl ctl sig_ok E0)" "E = epoll_env use_cl ctl sig_ok E0" "ev_pri (evs b e) < nactivequeues b"
  shows "event_del E b e \<noteq> None \<and> event_remove_timer_nolock b e \<noteq> None \<and> event_active_nolock E b e res ncalls \<noteq> None \<and>
    event_active_later_nolock E b e res \<noteq> None \<and> event_callback_cancel_nolock E b e even_if \<noteq> None \<and>
    (fl b EVLIST_FINALIZING e \<or> event_finalize_nolock E b free_it e \<noteq> None) \<and>
    (add_ok E b e tv False \<longrightarrow> event_add E b e tv \<noteq> None) \<and>
    event_queue_make_later_events_active b \<noteq> None \<and> epoll_poll ctl wait E b tv' \<noteq> None"
proof -
  have i: "base_inv (eb_binv use_cl ctl interest) (eb_view interest) b" and l: "limits_ok b"
    using assms(1) by (simp_all add: base_ok_def)
  have clk: "clocks_documented (epoll_env use_cl ctl sig_ok E0)" using assms(2) by simp
  have pri: "\<forall>e. fl b EVLIST_INSERTED e \<longrightarrow> ev_pri (evs b e) < nactivequeues b"
    using l by (auto simp: limits_ok_def unlisted_def)
  have "event_del E b e \<noteq> None"
  proof (cases "fl b EVLIST_FINALIZING e")
    case True
    then show ?thesis by (simp add: event_del_def event_del_nolock_def)
  next
    case False
    then obtain b2 where "event_del_nolock (epoll_env use_cl ctl sig_ok E0) b e False = Some (b2, 0)"
      using epoll_base.event_del_works [OF i _ assms(4), of False e] by blast
    then show ?thesis using assms(5) by (simp add: event_del_def)
  qed
  moreover have "event_remove_timer_nolock b e \<noteq> None" using event_remove_timer_spec [OF i, of e] by auto
  moreover have "event_active_nolock E b e res ncalls \<noteq> None" using event_active_total [OF i assms(6), of E res ncalls] by auto
  moreover have "event_active_later_nolock E b e res \<noteq> None" using event_active_later_spec [OF i assms(6), of E res] by auto
  moreover have "event_callback_cancel_nolock E b e even_if \<noteq> None"
  proof -
    have "\<exists>r. event_callback_cancel_nolock E b e even_if = Some r"
      unfolding assms(5) using epoll_base.callback_cancel_spec [OF i, where e = e and even_if = even_if] by blast
    then show ?thesis by blast
  qed
  moreover have "fl b EVLIST_FINALIZING e \<or> event_finalize_nolock E b free_it e \<noteq> None"
    unfolding assms(5) using epoll_base.event_finalize_spec [OF i assms(4,6), of free_it] by (metis option.distinct(1))
  moreover have "add_ok E b e tv False \<longrightarrow> event_add E b e tv \<noteq> None"
    unfolding assms(5) event_add_def using epoll_base.event_add_spec [OF i clk, of e tv False] by (metis option.distinct(1))
  moreover have "event_queue_make_later_events_active b \<noteq> None" using make_later_base_inv [OF i] by auto
  moreover have "epoll_poll ctl wait E b tv' \<noteq> None" using epoll_poll_spec [OF i pri assms(3), of E tv'] by auto
  ultimately show ?thesis by blast
qed

theorem operations_never_fail_witness:
  "event_del demo_epoll demo_base 3 \<noteq> None \<and> event_active_nolock demo_epoll demo_base 3 EV_READ 1 \<noteq> None \<and>
    epoll_poll table_ctl (\<lambda>k n t. (k, Inl EINTR)) demo_epoll demo_base None \<noteq> None"
proof -
  have w: "epoll_wait_documented (\<lambda>k n t. (k, Inl EINTR)) (\<lambda>k. k)" by (simp add: epoll_wait_documented_def)
  have "ev_pri (evs demo_base 3) < nactivequeues demo_base" by (simp add: demo_base_ok demo_store_def zeroed_event_def)
  then show ?thesis
    using operations_never_fail [OF demo_base_ok(1) demo_docs(1) w demo_docs(2) [unfolded demo_epoll_def] demo_epoll_def] by blast
qed

section \<open>Operations on an event\<close>

lemma base_inv_ctl:
  "base_inv (eb_binv use_cl ctl interest) (eb_view interest) b \<Longrightarrow> epoll_ctl_documented ctl interest"
  by (auto simp: base_inv_def maps_inv_def io_maps_inv_def backend_agrees_def eb_binv_def)

text \<open>
  C4. Adding an event either changes no event and returns -1, or returns 0 and registers it: it is
  inserted in the event maps unless it is already active, it is due the interval asked for
  after the base's time, to the microsecond, and no other event than it and the timers of the
  common timeouts changes. The base stays consistent with the epoll backend in both cases. With
  memory, signal handlers that can be installed, and a descriptor or signal in range, only an
  event that is being finalized is refused.
\<close>

theorem event_add_correct:
  assumes "base_inv (eb_binv use_cl ctl interest) (eb_view interest) b" "clocks_documented E"
    "add_ok (epoll_env use_cl ctl sig_ok E) b e tv False"
  shows "\<exists>b' r. event_add (epoll_env use_cl ctl sig_ok E) b e tv = Some (b', r) \<and>
    base_inv (eb_binv use_cl ctl interest) (eb_view interest) b' \<and> (r = 0 \<or> r = -1) \<and>
    event_step (add_touches b e tv r) b b' \<and> (fl b EVLIST_FINALIZING e \<longrightarrow> r = -1) \<and>
    (r = 0 \<longrightarrow> added E b b' e tv False) \<and>
    (\<not> fl b EVLIST_FINALIZING e \<and> add_resources E b e \<and> (\<forall>sig. sig_ok sig) \<longrightarrow> r = 0)"
proof -
  let ?E = "epoll_env use_cl ctl sig_ok E"
  have "clocks_documented ?E" using assms(2) by simp
  from epoll_base.event_add_spec [OF assms(1) this assms(3)]
  obtain b' r where s: "event_add_nolock ?E b e tv False = Some (b', r)" "base_inv (eb_binv use_cl ctl interest) (eb_view interest) b'"
    "r = 0 \<or> r = -1" "event_step (add_touches b e tv r) b b'" "fl b EVLIST_FINALIZING e \<longrightarrow> r = -1" "r = 0 \<longrightarrow> added ?E b b' e tv False"
    by blast
  have doc: "epoll_ctl_documented ctl interest" by (rule base_inv_ctl [OF assms(1)])
  have "r = 0" if f: "\<not> fl b EVLIST_FINALIZING e" and res: "add_resources E b e" and sig: "\<forall>sig. sig_ok sig"
  proof -
    have "additions_work ?E" by (rule epoll_additions_work [OF _ sig doc]) (use res in \<open>simp add: add_resources_def\<close>)
    moreover have "add_resources ?E b e" using res by (auto simp: add_resources_def epoll_env_def split: if_splits)
    ultimately have "r \<noteq> -1" using epoll_base.event_add_works [OF s(1) [unfolded event_add_nolock_def] assms(1)] f by blast
    then show ?thesis using s(3) by blast
  qed
  moreover have t: "time_now ?E = time_now E" by simp
  have "added ?E b b' e tv False = added E b b' e tv False" by (simp only: added_def t)
  ultimately show ?thesis using s by (auto simp: event_add_def)
qed

lemma demo_time: "tv_sec (tv_cache demo_base) = 0" "clock_reads demo_base = 2"
  unfolding demo_base_def
  by (simp_all add: event_base_new_with_config_def epollops_def epoll_init_def base_flags_def should_check_environment_def
      event_is_method_disabled_def evutil_getenv_def event_base_priority_init_def set_dispatch_limits_def EVENT_MAX_PRIORITIES_def
      zeroed_base_def gettime_def evutil_gettime_monotonic_def CLOCK_SYNC_INTERVAL_def demo_epoll_def epoll_env_def demo_env_def Let_def)

lemma demo_add_ok: "add_ok demo_epoll demo_base 3 (Some (Timeval 2 0)) False"
proof -
  have n: "tv_normal (Timeval 2 0)" by (simp add: tv_normal_def)
  have "heap_elems (timeheap demo_base) = {}" by (rule demo_quiet(2))
  then have "heap_n (timeheap demo_base) = 0" using base_heap_card [OF demo_inv] by simp
  then show ?thesis
    using n small_not_common [OF normal_small [OF n], of demo_base]
    by (simp add: add_ok_def tv_ok_def ev_wf_def demo_base_ok demo_store_def zeroed_event_def)
qed

theorem event_add_correct_witness:
  "\<exists>b'. event_add demo_epoll demo_base 3 (Some (Timeval 2 0)) = Some (b', 0) \<and> fl b' EVLIST_TIMEOUT 3 \<and>
    tv_usecs (ev_timeout (evs b' 3)) = 104000000"
proof -
  have r: "add_resources demo_env demo_base 3" "\<not> fl demo_base EVLIST_FINALIZING 3"
    by (simp_all add: add_resources_def demo_env_def demo_base_ok demo_store_def zeroed_event_def is_io_def)
  have nc: "\<not> is_common_timeout (Timeval 2 0) demo_base" by (simp add: is_common_timeout_def demo_base_ok)
  have now: "now = Timeval 102 0" if "time_now demo_env demo_base now" for now
    using that demo_time by (simp add: time_now_def demo_env_def)
  obtain b' now where b': "event_add demo_epoll demo_base 3 (Some (Timeval 2 0)) = Some (b', 0)" "fl b' EVLIST_TIMEOUT 3"
    "time_now demo_env demo_base now" "tv_usecs (ev_timeout (evs b' 3)) = tv_usecs now + tv_usecs (Timeval 2 0)"
    using event_add_correct [OF demo_inv demo_docs(1) demo_add_ok [unfolded demo_epoll_def]] r nc
    unfolding demo_epoll_def [symmetric] added_def due_time_def option.case by auto
  then show ?thesis using now [OF b'(3)] by (auto simp: tv_usecs_def)
qed

text \<open>
  C5. Deleting an event that is not being finalized takes it off every queue and out of the
  event maps and returns 0, and changes no other event.
\<close>

theorem event_del_correct:
  assumes "base_inv (eb_binv use_cl ctl interest) (eb_view interest) b" "\<not> fl b EVLIST_FINALIZING e"
    "deletions_work (epoll_env use_cl ctl sig_ok E)"
  shows "\<exists>b'. event_del (epoll_env use_cl ctl sig_ok E) b e = Some (b', 0) \<and>
    base_inv (eb_binv use_cl ctl interest) (eb_view interest) b' \<and> event_step {e} b b' \<and> unlisted b' e"
proof -
  obtain b' where "event_del_nolock (epoll_env use_cl ctl sig_ok E) b e False = Some (b', 0)"
    "base_inv (eb_binv use_cl ctl interest) (eb_view interest) b'" "event_step {e} b b'" "unlisted b' e"
    using epoll_base.event_del_works [OF assms(1) _ assms(3), of False e] assms(2) by blast
  then show ?thesis by (simp add: event_del_def)
qed

theorem event_del_correct_witness:
  "\<exists>b'. event_del demo_epoll demo_base 3 = Some (b', 0) \<and> unlisted b' 3"
proof -
  have "\<not> fl demo_base EVLIST_FINALIZING 3" by (simp add: demo_base_ok demo_store_def zeroed_event_def)
  from event_del_correct [OF demo_inv this demo_docs(2) [unfolded demo_epoll_def]]
  show ?thesis unfolding demo_epoll_def by blast
qed

text \<open>
  C6. Activating an event puts it at the end of the queue of its priority once, taking it off
  the queue of later callbacks; the reasons are joined when it was already queued; no other
  event changes.
\<close>

theorem event_active_correct:
  assumes "base_inv binv view b" "ev_pri (evs b e) < nactivequeues b" "\<not> fl b EVLIST_FINALIZING e"
  shows "\<exists>b'. event_active_nolock E b e res ncalls = Some b' \<and> base_inv binv view b' \<and> event_step {e} b b' \<and>
    fl b' EVLIST_ACTIVE e \<and>
    ev_res (evs b' e) = (if fl b EVLIST_ACTIVE e \<or> fl b EVLIST_ACTIVE_LATER e then ev_res (evs b e) OR res else res) \<and>
    activequeues b' = (if fl b EVLIST_ACTIVE e then activequeues b
      else (activequeues b)[ev_pri (evs b e) := activequeues b ! ev_pri (evs b e) @ [e]]) \<and>
    active_later_queue b' = remove1 e (active_later_queue b)"
  using event_active_spec [OF assms] by blast

theorem event_active_correct_witness:
  "\<exists>b'. event_active_nolock demo_epoll demo_base 3 EV_READ 1 = Some b' \<and> fl b' EVLIST_ACTIVE 3 \<and> ev_res (evs b' 3) = EV_READ"
proof -
  have p: "ev_pri (evs demo_base 3) < nactivequeues demo_base" "\<not> fl demo_base EVLIST_FINALIZING 3"
    "\<not> fl demo_base EVLIST_ACTIVE 3" "\<not> fl demo_base EVLIST_ACTIVE_LATER 3"
    by (simp_all add: demo_base_ok demo_store_def zeroed_event_def)
  show ?thesis using event_active_correct [OF demo_inv p(1,2), of demo_epoll EV_READ 1] p(3,4) by auto
qed

text \<open>
  C7. Finalizing an event leaves it on the active queue only, with the finalizer as its
  closure and marked so that later additions and deletions leave it alone.
\<close>

theorem event_finalize_correct:
  assumes "base_inv (eb_binv use_cl ctl interest) (eb_view interest) b" "deletions_work (epoll_env use_cl ctl sig_ok E)"
    "ev_pri (evs b e) < nactivequeues b" "\<not> fl b EVLIST_FINALIZING e"
  shows "\<exists>b'. event_finalize_nolock (epoll_env use_cl ctl sig_ok E) b free_it e = Some b' \<and>
    base_inv (eb_binv use_cl ctl interest) (eb_view interest) b' \<and>
    fl b' EVLIST_FINALIZING e \<and> fl b' EVLIST_ACTIVE e \<and> \<not> fl b' EVLIST_TIMEOUT e \<and> \<not> fl b' EVLIST_INSERTED e \<and>
    ev_closure (evs b' e) = (if free_it then EV_CLOSURE_EVENT_FINALIZE_FREE else EV_CLOSURE_EVENT_FINALIZE) \<and>
    (\<forall>x. x \<noteq> e \<longrightarrow> unlisted b' x = unlisted b x)"
  using epoll_base.event_finalize_spec [OF assms, of free_it] by blast

theorem event_finalize_correct_witness:
  "\<exists>b'. event_finalize_nolock demo_epoll demo_base True 3 = Some b' \<and> fl b' EVLIST_FINALIZING 3 \<and> fl b' EVLIST_ACTIVE 3"
proof -
  have p: "ev_pri (evs demo_base 3) < nactivequeues demo_base" "\<not> fl demo_base EVLIST_FINALIZING 3"
    by (simp_all add: demo_base_ok demo_store_def zeroed_event_def)
  show ?thesis
    using event_finalize_correct [OF demo_inv demo_docs(2) [unfolded demo_epoll_def] p] unfolding demo_epoll_def by blast
qed

text \<open>
  C16. The callbacks put off for a later round are appended, in their order, to the queues of
  their priorities; the queue of later callbacks is then empty and their number is unchanged.
\<close>

theorem make_later_events_active_correct:
  assumes "base_inv binv view b"
  shows "\<exists>b'. event_queue_make_later_events_active b = Some b' \<and> base_inv binv view b' \<and> active_later_queue b' = [] \<and>
    event_count_active b' = event_count_active b \<and>
    (\<forall>i < nactivequeues b. activequeues b' ! i = activequeues b ! i @ filter (\<lambda>e. ev_pri (evs b e) = i) (active_later_queue b))"
  using make_later_base_inv [OF assms] by blast

theorem make_later_events_active_correct_witness:
  "\<exists>b'. event_queue_make_later_events_active demo_base = Some b' \<and> active_later_queue b' = []"
  using make_later_events_active_correct [OF demo_inv] by blast

section \<open>Common timeouts and priorities\<close>

text \<open>
  C17. A duration that has no list yet gets a new one, whose internal timer is a new event on
  no queue; the duration returned names that list and still denotes the same time.
\<close>

theorem event_base_init_common_timeout_correct:
  assumes "base_inv binv view b" "unlisted b t" "t \<notin> timers b" "0 < nactivequeues b"
    "0 \<le> tv_usec (common_duration b d0)" "tv_usec (common_duration b d0) < 2 ^ 20"
    "find (\<lambda>ctl. tv_sec (common_duration b d0) = tv_sec (ctl_duration ctl) \<and>
       tv_usec (common_duration b d0) = tv_usec (ctl_duration ctl) AND MICROSECONDS_MASK) (common_timeout_queues b) = None"
    "n_common_timeouts b < MAX_COMMON_TIMEOUTS"
  shows "\<exists>b' d. event_base_init_common_timeout True b t d0 = Some (b', Some d) \<and> base_inv binv view b' \<and>
    is_common_timeout d b' \<and> COMMON_TIMEOUT_IDX d = n_common_timeouts b \<and> real_timeout d = common_duration b d0 \<and>
    n_common_timeouts b' = n_common_timeouts b + 1 \<and> timers b' = insert t (timers b) \<and> unlisted b' t"
  using init_common_timeout_spec [OF assms] by blast

theorem event_base_init_common_timeout_correct_witness:
  "\<exists>b' d. event_base_init_common_timeout True demo_base 7 (Timeval 10 0) = Some (b', Some d) \<and> is_common_timeout d b' \<and>
    real_timeout d = Timeval 10 0"
proof -
  have d: "common_duration demo_base (Timeval 10 0) = Timeval 10 0" by (simp add: common_duration_def)
  have t: "7 \<notin> timers demo_base" "0 < nactivequeues demo_base" by (simp_all add: demo_unlisted demo_base_ok)
  show ?thesis
    using event_base_init_common_timeout_correct [OF demo_inv demo_unlisted(1) t, of "Timeval 10 0", unfolded d]
    by (simp add: demo_base_ok MAX_COMMON_TIMEOUTS_def) blast
qed

section \<open>The backend\<close>

text \<open>
  C18. A base uses the first backend of the table that is not avoided by name, has the required
  features, is not disabled by the environment and initializes; the name in the environment
  is looked up only when the configuration does not say to ignore it.
\<close>

theorem select_backend_first_fit:
  "select_backend cfg check_env disabled flags ops =
     (case find (backend_fits cfg check_env disabled flags) ops of
        None \<Rightarrow> None | Some op \<Rightarrow> Some (op, the (op_init op flags)))"
  by (rule select_backend_find)

text \<open>
  C3. One poll asks the kernel for at most as many reports as the base has room for, while the
  kernel watches for each descriptor exactly the events that the events listed for it wait
  for. The events that become active are exactly those listed for a descriptor the kernel
  reports that wait for what it reports there (an error or a hangup wakes readers and
  writers), but for the ones being finalized. An interrupted wait is no failure, any other is.
\<close>

theorem epoll_poll_correct:
  assumes "base_ok use_cl ctl interest b" "epoll_wait_documented wait interest"
  shows "\<exists>b' r k1 out. epoll_poll ctl wait E b tv = Some (b', r) \<and> base_ok use_cl ctl interest b' \<and>
    wait k1 (nevents (eb_op (evbase b))) (epoll_timeout tv) = (eb_kernel (evbase b'), out) \<and>
    interest (eb_kernel (evbase b')) = interest k1 \<and>
    r = (case out of Inl err \<Rightarrow> if err = EINTR then 0 else -1 | Inr _ \<Rightarrow> 0) \<and>
    (\<forall>x. fl b' EVLIST_ACTIVE x \<longleftrightarrow> fl b EVLIST_ACTIVE x \<or> \<not> fl b EVLIST_FINALIZING x \<and>
       (\<exists>(fd, what) \<in> set (kernel_reports out). x \<in> set (io_list b fd) \<and> epoll_ready what (ev_events (evs b x)))) \<and>
    (\<forall>fd\<ge>0. case interest k1 fd of None \<Rightarrow> want_mask (evs b) (io_list b fd) = 0
       | Some v \<Rightarrow> want_mask (evs b) (io_list b fd) \<noteq> 0 \<and> v AND NOT EPOLLET = epoll_view (want_mask (evs b) (io_list b fd)))"
  using epoll_poll_ok [OF assms, of E tv] unfolding waited_def by blast

text \<open>Event 3 waits to read from descriptor 4; the kernel reports data there.\<close>

lemma demo_reader:
  "\<exists>b. event_add demo_epoll (fst (event_assign demo_base 3 4 EV_READ)) 3 None = Some (b, 0) \<and>
    base_ok True table_ctl (\<lambda>k. k) b \<and> 3 \<in> set (io_list b 4) \<and> ev_events (evs b 3) = EV_READ \<and>
    \<not> fl b EVLIST_ACTIVE 3 \<and> \<not> fl b EVLIST_FINALIZING 3"
proof -
  obtain b0 where b0: "event_assign demo_base 3 4 EV_READ = (b0, 0)"
    by (simp add: event_assign_def Let_def ev_flag_defs has_flag_def)
  have t: "3 \<notin> timers demo_base" "limits_ok demo_base" using demo_base_ok(1) by (simp_all add: demo_unlisted base_ok_def)
  let ?w = "(\<lambda>k n t. (k, Inl EINTR)) :: (int \<Rightarrow> u32 option) epoll_wait"
  have w: "epoll_wait_documented ?w (\<lambda>k. k)" by (simp add: epoll_wait_documented_def)
  have "api_step table_ctl ?w demo_epoll demo_base b0" by (rule api_step.assign [OF demo_unlisted(1) t(1) b0])
  then have ok0: "base_ok True table_ctl (\<lambda>k. k) b0"
    by (rule api_step_ok [OF _ demo_base_ok(1) demo_epoll_def demo_docs(1) w demo_docs(2)])
  note a = event_assign_spec [OF demo_inv demo_unlisted(1) t(1) b0]
  have un: "unlisted b0 x" for x using a(2,3) demo_unlisted(1) by (cases "x = 3") (simp_all add: unlisted_def)
  have "inserted_ok b0" using a(1) by (simp add: base_inv_def maps_inv_def)
  then have "x \<notin> set (io_list b0 4)" for x using un [of x] unfolding inserted_ok_def unlisted_def by blast
  then have "io_list b0 4 = []" using list.set_sel(1) by blast
  moreover have io: "is_io (evs b0 3)" "ev_fd (evs b0 3) = 4" using a(5,6) by (simp_all add: is_io_def has_flag_def ev_flag_defs)
  ultimately have res: "add_resources demo_env b0 3" by (simp add: add_resources_def demo_env_def)
  have nf: "\<not> fl b0 EVLIST_FINALIZING 3" using a(7) by (simp add: evlist_flag_defs has_flag_bits)
  have "heap_elems (timeheap b0) = {}"
    using queues_invD(1) [OF base_invD(1) [OF a(1)]] un by (auto simp: timeouts_ok_def unlisted_def)
  then have "heap_n (timeheap b0) = 0" using base_heap_card [OF a(1)] by simp
  then have aok: "add_ok demo_epoll b0 3 None False" using a(9) by (simp add: add_ok_def)
  obtain b where b: "event_add demo_epoll b0 3 None = Some (b, 0)" "base_inv (eb_binv True table_ctl (\<lambda>k. k)) (eb_view (\<lambda>k. k)) b"
    "event_step {3} b0 b" "added demo_env b0 b 3 None False"
    using event_add_correct [OF a(1) demo_docs(1) aok [unfolded demo_epoll_def]] res nf
    unfolding demo_epoll_def [symmetric] by (auto simp: add_touches_def)
  have "ev_pri (evs b0 3) < nactivequeues b0" using a(9) ok0 by (simp add: base_ok_def limits_ok_def demo_base_ok(2))
  then have "api_step table_ctl ?w demo_epoll b0 b" by (rule api_step.add [OF _ aok b(1)])
  then have okb: "base_ok True table_ctl (\<lambda>k. k) b"
    by (rule api_step_ok [OF _ ok0 demo_epoll_def demo_docs(1) w demo_docs(2)])
  have ev: "ev_events (evs b 3) = EV_READ" "ev_fd (evs b 3) = 4" using event_stepD(1,2) [OF b(3), of 3] a(5,6) by simp_all
  have fl: "fl b EVLIST_INSERTED 3" "\<not> fl b EVLIST_ACTIVE 3"
    using b(4) un [of 3] a(6) by (simp_all add: added_def unlisted_def has_flag_def ev_flag_defs)
  have "inserted_ok b" using b(2) by (simp add: base_inv_def maps_inv_def)
  then have "if has_flag (ev_events (evs b 3)) (EV_READ OR EV_WRITE OR EV_CLOSED) then 0 \<le> ev_fd (evs b 3) \<longrightarrow> 3 \<in> set (io_list b (ev_fd (evs b 3)))
      else 3 \<in> set (sig_list b (ev_fd (evs b 3)))"
    using fl(1) unfolding inserted_ok_def by blast
  then have "3 \<in> set (io_list b 4)" unfolding ev by (simp add: has_flag_def ev_flag_defs)
  moreover have "\<not> fl b EVLIST_FINALIZING 3" using event_stepD(7) [OF b(3), of 3] nf by simp
  ultimately show ?thesis using b0 b(1) okb ev fl by auto
qed

theorem epoll_poll_correct_witness:
  "\<exists>b b' r. event_add demo_epoll (fst (event_assign demo_base 3 4 EV_READ)) 3 None = Some (b, 0) \<and>
    epoll_poll table_ctl (\<lambda>k n t. (k, if n = 0 then Inl EINTR else Inr [(4, EPOLLIN)])) demo_epoll b None = Some (b', r) \<and>
    (0 < nevents (eb_op (evbase b)) \<longrightarrow> fl b' EVLIST_ACTIVE 3)"
proof -
  have w: "epoll_wait_documented (\<lambda>k n t. (k, if n = 0 then Inl EINTR else Inr [(4, EPOLLIN)])) (\<lambda>k. k)"
    by (simp add: epoll_wait_documented_def)
  obtain b where b: "event_add demo_epoll (fst (event_assign demo_base 3 4 EV_READ)) 3 None = Some (b, 0)"
    "base_ok True table_ctl (\<lambda>k. k) b" "3 \<in> set (io_list b 4)" "ev_events (evs b 3) = EV_READ"
    "\<not> fl b EVLIST_FINALIZING 3"
    using demo_reader by blast
  have "epoll_ready EPOLLIN EV_READ" by (simp add: epoll_ready_def has_flag_def ev_flag_defs epoll_defs Let_def)
  then show ?thesis using epoll_poll_correct [OF b(2) w, of demo_epoll None] b by auto
qed

end
