(* ===== verification/Ev_Loop_Records.thy ===== *)
theory Ev_Loop_Records
  imports Ev_Loop_Api Ev_Core_Props
begin

text \<open>
  What a program sees of the loop when its callbacks only record that they were called: which
  calls each closure makes, the calls of one queue up to a limit of callbacks, and those of a
  whole run of the loop over all priorities.
\<close>

section \<open>Callbacks that record their calls\<close>

definition recording :: "('b, 'x, (ev_addr \<times> int \<times> short) list) callbacks" where
  "recording = \<lparr>evcb_callback = (\<lambda>e fd res u b. Some (u @ [(e, fd, res)], b)), evcb_selfcb = (\<lambda>e u b. Some (u, b)),
     evcb_evfinalize = (\<lambda>e u b. Some (u, b)), evcb_cbfinalize = (\<lambda>e u b. Some (u, b))\<rparr>"

lemma recording_ok: "callbacks_ok P recording"
  by (simp add: callbacks_ok_def returns_ok_def recording_def)

text \<open>
  The calls an active event is due: as many as the signal was caught for a signal event, one
  for another event.
\<close>

definition calls_due :: "event \<Rightarrow> ev_addr \<Rightarrow> (ev_addr \<times> int \<times> short) list" where
  "calls_due ev e = replicate (if ev_closure ev = EV_CLOSURE_EVENT_SIGNAL then unat (ev_ncalls ev) else 1) (e, ev_fd ev, ev_res ev)"

text \<open>
  An event of the program whose closure calls its callback: not the timer of a common timeout
  list, not one being finalized, no deferred callback and not one that a closure adds again.
\<close>

definition plain_event :: "('b, 'x) event_base \<Rightarrow> ev_addr \<Rightarrow> bool" where
  "plain_event b e \<longleftrightarrow> e \<notin> timers b \<and>
     (ev_closure (evs b e) = EV_CLOSURE_EVENT \<or> ev_closure (evs b e) = EV_CLOSURE_EVENT_SIGNAL \<or>
      ev_closure (evs b e) = EV_CLOSURE_EVENT_PERSIST \<and> \<not> evutil_timerisset (ev_io_timeout (evs b e)))"

text \<open>The loop over the calls of a signal: its counters end at zero.\<close>

abbreviation calls_made :: "event \<Rightarrow> event" where
  "calls_made ev \<equiv> ev\<lparr>ev_ncalls := 0, ev_pncalls := False\<rparr>"

text \<open>What the round of one event leaves as it was.\<close>

definition round_frame :: "('b, 'x) event_base \<Rightarrow> ('b, 'x) event_base \<Rightarrow> bool" where
  "round_frame b b' \<longleftrightarrow> active_later_queue b' = active_later_queue b \<and> heap_elems (timeheap b') \<subseteq> heap_elems (timeheap b) \<and>
     loop_vars (b'\<lparr>current_event := None\<rparr>) = loop_vars (b\<lparr>current_event := None\<rparr>) \<and> event_continue b' = event_continue b"

lemma round_frame_trans: "round_frame b b1 \<Longrightarrow> round_frame b1 b2 \<Longrightarrow> round_frame b b2"
  by (auto simp: round_frame_def)

lemma calls_due_core: "ev_core x = ev_core y \<Longrightarrow> calls_due x e = calls_due y e"
  using ev_core_eqD [of x y] by (simp add: calls_due_def)

lemma plain_event_core: "ev_core (evs b' e) = ev_core (evs b e) \<Longrightarrow> timers b' = timers b \<Longrightarrow> plain_event b' e = plain_event b e"
  using ev_core_eqD [of "evs b' e" "evs b e"] by (simp add: plain_event_def)

text \<open>
  One queue: its events in order, up to the limit of callbacks but at least one, each with the
  calls it is due. (\<open>endtime\<close> is the null pointer: no time limit.)
\<close>

definition taken :: "'a list \<Rightarrow> int \<Rightarrow> nat" where
  "taken q room = min (length q) (nat (max 1 room))"

lemma taken_Cons: "taken (e # q) room = Suc (if room \<le> 1 then 0 else taken q (room - 1))"
  by (simp add: taken_def max_def) linarith

text \<open>The active events of a base in the order in which they will be run.\<close>

abbreviation run_order :: "('b, 'x) event_base \<Rightarrow> ev_addr list" where
  "run_order b \<equiv> concat (activequeues b)"

lemma distinct_concat_index:
  assumes "\<forall>i < length xs. distinct (xs ! i) \<and> (\<forall>x \<in> set (xs ! i). f x = i + k)"
  shows "distinct (concat xs) \<and> (\<forall>x \<in> set (concat xs). k \<le> f x)"
  using assms
proof (induction xs arbitrary: k)
  case (Cons ys xs)
  have "\<forall>i < length xs. distinct (xs ! i) \<and> (\<forall>x \<in> set (xs ! i). f x = i + Suc k)"
    using Cons.prems by (auto dest: spec [of _ "Suc _"])
  from Cons.IH [OF this] have ih: "distinct (concat xs)" "\<forall>x \<in> set (concat xs). Suc k \<le> f x" by blast+
  have hd: "distinct ys" "\<forall>x \<in> set ys. f x = k" using Cons.prems by (auto dest: spec [of _ 0])
  have "set ys \<inter> set (concat xs) = {}" using ih(2) hd(2) by fastforce
  then show ?case using ih hd by fastforce
qed simp

lemma run_order_distinct: "actives_ok b \<Longrightarrow> distinct (run_order b)"
  using distinct_concat_index [of "activequeues b" "\<lambda>x. ev_pri (evs b x)" 0] by (simp add: actives_ok_def)

lemma first_queue:
  assumes "concat qs \<noteq> []"
  obtains k where "k < length qs" "qs ! k \<noteq> []" "\<forall>j<k. qs ! j = []" "concat qs = qs ! k @ concat (drop (Suc k) qs)"
    "\<And>n. n \<le> length (qs ! k) \<Longrightarrow> concat (qs[k := drop n (qs ! k)]) = drop n (concat qs)"
proof -
  let ?P = "\<lambda>k. k < length qs \<and> qs ! k \<noteq> []"
  have "\<exists>k. ?P k" using assms by (auto simp: in_set_conv_nth)
  then have P: "?P (LEAST k. ?P k)" by (rule LeastI_ex)
  define k where "k = (LEAST k. ?P k)"
  have k: "k < length qs" "qs ! k \<noteq> []" using P by (simp_all add: k_def)
  have before: "\<forall>j<k. qs ! j = []" using not_less_Least [of _ ?P] k(1) unfolding k_def by (metis less_trans P)
  have z: "concat (take k qs) = []" using before k(1) by (auto simp: in_set_conv_nth)
  have split: "concat qs = qs ! k @ concat (drop (Suc k) qs)"
    using z by (subst id_take_nth_drop [OF k(1)]) simp
  have "concat (qs[k := drop n (qs ! k)]) = drop n (concat qs)" if "n \<le> length (qs ! k)" for n
    unfolding upd_conv_take_nth_drop [OF k(1)] split using z that by simp
  then show thesis using that k before split by blast
qed

text \<open>A kernel with nothing to report: the poll changes the backend's state alone.\<close>

definition silent :: "'k epoll_wait \<Rightarrow> bool" where
  "silent wait \<longleftrightarrow> (\<forall>k n t. snd (wait k n t) = Inr [] \<or> snd (wait k n t) = Inl EINTR)"

lemma epoll_poll_silent:
  assumes "epoll_poll ctl wait E b tv = Some (b', r)" "silent wait"
  shows "r = 0" "evs b' = evs b" "activequeues b' = activequeues b" "active_later_queue b' = active_later_queue b"
    "timeheap b' = timeheap b" "common_timeout_queues b' = common_timeout_queues b" "loop_vars b' = loop_vars b"
    "event_continue b' = event_continue b"
proof -
  obtain res where d: "epoll_dispatch (m_realloc E) ctl wait (eb_op (evbase b)) (eb_kernel (evbase b)) (eb_changes (evbase b))
             (fdinfos (io b)) (\<lambda>_. None) tv = Some res" and r: "r = er_ret res"
    using assms(1) by (auto simp: epoll_poll_def split: option.splits)
  obtain k1 out where w: "waited wait (nevents (eb_op (evbase b))) tv k1 out (er_kernel res)"
    "er_active res = epoll_activations (kernel_reports out)"
    "er_ret res = (case out of Inl err \<Rightarrow> if err = EINTR then 0 else -1 | Inr _ \<Rightarrow> 0)"
    using epoll_dispatch_wait [OF d] by blast
  have out: "out = Inr [] \<or> out = Inl EINTR"
    using assms(2) w(1) unfolding silent_def waited_def by (metis snd_conv)
  then have "er_active res = []" "er_ret res = 0" using w(2,3) by (auto simp: epoll_activations_def)
  then show "r = 0" "evs b' = evs b" "activequeues b' = activequeues b" "active_later_queue b' = active_later_queue b"
    "timeheap b' = timeheap b" "common_timeout_queues b' = common_timeout_queues b" "loop_vars b' = loop_vars b"
    "event_continue b' = event_continue b"
    using assms(1) d r by (auto simp: epoll_poll_def loop_vars_def)
qed

text \<open>All active events are plain, none is put off and none has a timer: the state between two rounds.\<close>

definition only_plain :: "('b, 'x) event_base \<Rightarrow> bool" where
  "only_plain b \<longleftrightarrow> (\<forall>e \<in> set (run_order b). plain_event b e) \<and> active_later_queue b = [] \<and> heap_elems (timeheap b) = {} \<and>
     \<not> event_break b \<and> \<not> event_gotterm b \<and> tv_sec (max_dispatch_time b) < 0"

abbreviation all_calls :: "('b, 'x) event_base \<Rightarrow> ev_addr list \<Rightarrow> (ev_addr \<times> int \<times> short) list" where
  "all_calls b es \<equiv> concat (map (\<lambda>e. calls_due (evs b e) e) es)"

context event_backend
begin

lemma call_event_records:
  assumes "e \<notin> timers b"
  shows "call_event E recording e fd res u b = Some (u @ [(e, fd, res)], b)"
  using assms timer_index_in [of e b] by (simp add: call_event_def recording_def)

lemma signal_calls_records:
  assumes "e \<notin> timers b" "\<not> event_break b"
  shows "signal_calls E recording e u b =
    Some (u @ replicate (unat (signal_ncalls b)) (e, ev_fd (evs b e), ev_res (evs b e)),
      if signal_ncalls b = 0 then b else upd_ev e calls_made (b\<lparr>signal_ncalls := 0\<rparr>))"
  using assms
proof (induction "unat (signal_ncalls b)" arbitrary: u b rule: less_induct)
  case less
  show ?case
  proof (cases "signal_ncalls b = 0")
    case True
    then show ?thesis by (subst signal_calls.simps) simp
  next
    case False
    define n where "n = signal_ncalls b - 1"
    define b1 where "b1 = upd_ev e (\<lambda>ev. ev\<lparr>ev_ncalls := n, ev_pncalls := (if n = 0 then False else ev_pncalls ev)\<rparr>) (b\<lparr>signal_ncalls := n\<rparr>)"
    have u: "unat (signal_ncalls b) = Suc (unat n)"
      using False by (simp add: n_def unat_minus_one unat_gt_0)
    have f: "signal_ncalls b1 = n" "timers b1 = timers b" "event_break b1 = event_break b"
      "ev_fd (evs b1 e) = ev_fd (evs b e)" "ev_res (evs b1 e) = ev_res (evs b e)"
      by (simp_all add: b1_def timers_def upd_ev_def)
    have t1: "e \<notin> timers b1" using less.prems(1) f(2) by simp
    let ?c = "(e, ev_fd (evs b e), ev_res (evs b e))"
    have "signal_calls E recording e u b = signal_calls E recording e (u @ [?c]) b1"
      using False less.prems(2) call_event_records [OF t1] f
      by (subst signal_calls.simps) (simp add: Let_def n_def [symmetric] b1_def [symmetric])
    also have "\<dots> = Some ((u @ [?c]) @ replicate (unat n) ?c, if n = 0 then b1 else upd_ev e calls_made (b1\<lparr>signal_ncalls := 0\<rparr>))"
      using less.hyps [of b1 "u @ [?c]"] less.prems t1 f u by simp
    also have "(if n = 0 then b1 else upd_ev e calls_made (b1\<lparr>signal_ncalls := 0\<rparr>)) = upd_ev e calls_made (b\<lparr>signal_ncalls := 0\<rparr>)"
      by (simp add: b1_def upd_ev_def)
    finally show ?thesis using False u by simp
  qed
qed

text \<open>One event taken off its queue: the calls it is due, and a state in which only its counters changed.\<close>

lemma run_closure_records:
  assumes p: "plain_event b e" and f: "fl b EVLIST_INIT e" "\<not> event_break b"
  shows "\<exists>b'. run_closure E recording e u b = Some (u @ calls_due (evs b e) e, b') \<and>
    (\<exists>n. b' = b\<lparr>signal_ncalls := n\<rparr> \<or> b' = upd_ev e calls_made (b\<lparr>signal_ncalls := n\<rparr>))"
proof (cases "ev_closure (evs b e) = EV_CLOSURE_EVENT_SIGNAL")
  case True
  let ?n = "ev_ncalls (evs b e)"
  define b1 where "b1 = (if ?n \<noteq> 0 then upd_ev e (\<lambda>ev. ev\<lparr>ev_pncalls := True\<rparr>) (b\<lparr>signal_ncalls := ?n\<rparr>) else b\<lparr>signal_ncalls := ?n\<rparr>)"
  have s: "signal_ncalls b1 = ?n" "timers b1 = timers b" "event_break b1 = event_break b"
    "ev_fd (evs b1 e) = ev_fd (evs b e)" "ev_res (evs b1 e) = ev_res (evs b e)"
    by (simp_all add: b1_def timers_def upd_ev_def)
  have "run_closure E recording e u b = signal_calls E recording e u b1"
    using True f(1) by (simp add: run_closure_def event_signal_closure_def b1_def Let_def)
  moreover have "e \<notin> timers b1" using p s(2) by (simp add: plain_event_def)
  ultimately have "run_closure E recording e u b = Some (u @ calls_due (evs b e) e,
      if ?n = 0 then b1 else upd_ev e calls_made (b1\<lparr>signal_ncalls := 0\<rparr>))"
    using signal_calls_records [where e = e and b = b1 and u = u] True f(2) s by (simp add: calls_due_def)
  moreover have "(if ?n = 0 then b1 else upd_ev e calls_made (b1\<lparr>signal_ncalls := 0\<rparr>)) =
      (if ?n = 0 then b\<lparr>signal_ncalls := 0\<rparr> else upd_ev e calls_made (b\<lparr>signal_ncalls := 0\<rparr>))"
    by (simp add: b1_def upd_ev_def)
  ultimately show ?thesis by auto
next
  case False
  have "run_closure E recording e u b = Some (u @ calls_due (evs b e) e, b\<lparr>signal_ncalls := signal_ncalls b\<rparr>)"
    using False p f(1) call_event_records [of e b]
    by (auto simp: plain_event_def run_closure_def event_persist_closure_def evutil_timerisset_def calls_due_def)
  then show ?thesis by blast
qed

lemma take_and_run:
  assumes g: "good binv view U b" and w: "deletions_work E" and i: "i < nactivequeues b" "activequeues b ! i = e # q"
    and p: "plain_event b e" and brk: "\<not> event_break b"
  shows "\<exists>b1 b2. take_active E b e = Some b1 \<and> \<not> fl b1 EVLIST_INTERNAL e \<and>
    run_closure E recording e u (b1\<lparr>current_event := Some e\<rparr>) = Some (u @ calls_due (evs b e) e, b2) \<and>
    good binv view U (b2\<lparr>current_event := None\<rparr>) \<and> event_step {e} b (b2\<lparr>current_event := None\<rparr>) \<and>
    \<not> fl b2 EVLIST_ACTIVE e \<and> activequeues b2 = (activequeues b)[i := q] \<and> round_frame b (b2\<lparr>current_event := None\<rparr>)"
proof -
  note h = queue_head [OF g i]
  obtain b1 where b1: "take_active E b e = Some b1" "good binv view U b1" "event_step {e} b b1" "still b b1" "\<not> fl b1 EVLIST_ACTIVE e"
    "activequeues b1 = (activequeues b)[i := q]" "ev_res (evs b1 e) = ev_res (evs b e)" "event_continue b1 = event_continue b"
    "active_later_queue b1 = active_later_queue b" "ev_ncalls (evs b1 e) = ev_ncalls (evs b e)"
    "heap_elems (timeheap b1) \<subseteq> heap_elems (timeheap b)"
    using take_active_spec [OF g w i] by blast
  let ?c = "b1\<lparr>current_event := Some e\<rparr>"
  have t1: "timers b1 = timers b" using event_step_timers [OF b1(3)] by blast
  have init: "fl b EVLIST_INIT e" using h(5) p by (auto simp: ready_def plain_event_def)
  have "\<not> fl b EVLIST_INTERNAL e" using loop_okD(4) [OF soundD(3) [OF goodD(1) [OF g]]] p by (auto simp: plain_event_def)
  then have int: "\<not> fl b1 EVLIST_INTERNAL e" using b1(3) by (simp add: event_step_def)
  have tm1: "ev_io_timeout (evs b1 e) = ev_io_timeout (evs b e)" using b1(4) by (simp add: still_def tm_def)
  have "plain_event ?c e" using p t1 tm1 event_stepD(4) [OF b1(3), of e] by (simp add: plain_event_def timers_def)
  moreover have "fl ?c EVLIST_INIT e" using init b1(3) by (simp add: event_step_def)
  moreover have lv: "loop_vars b1 = loop_vars b" using b1(4) by (simp add: still_def calm_def)
  then have "\<not> event_break ?c" using brk by (simp add: loop_vars_def)
  ultimately obtain b2 where run: "run_closure E recording e u ?c = Some (u @ calls_due (evs ?c e) e, b2)"
    "\<exists>n. b2 = ?c\<lparr>signal_ncalls := n\<rparr> \<or> b2 = upd_ev e calls_made (?c\<lparr>signal_ncalls := n\<rparr>)"
    using run_closure_records [where b = ?c and e = e and u = u] by blast
  have due: "calls_due (evs ?c e) e = calls_due (evs b e) e"
    using b1(7,10) event_stepD(1,4) [OF b1(3), of e] by (simp add: calls_due_def)
  have F: "soft_field calls_made" by (simp add: soft_field_def)
  let ?b3 = "b2\<lparr>current_event := None\<rparr>"
  obtain n where n: "b2 = ?c\<lparr>signal_ncalls := n\<rparr> \<or> b2 = upd_ev e calls_made (?c\<lparr>signal_ncalls := n\<rparr>)" using run(2) by blast
  have gn: "good binv view U (b1\<lparr>current_event := v, signal_ncalls := n\<rparr>)" for v using b1(2) by simp
  have b3: "?b3 = b1\<lparr>current_event := None, signal_ncalls := n\<rparr> \<or> ?b3 = upd_ev e calls_made (b1\<lparr>current_event := None, signal_ncalls := n\<rparr>)"
    using n by (auto simp: upd_ev_def)
  have "good binv view U (upd_ev e calls_made (b1\<lparr>current_event := None, signal_ncalls := n\<rparr>))"
    by (rule good_soft [OF gn F _ _ h(4)]) (simp_all add: tm_def)
  then have gd: "good binv view U ?b3" using b3 gn [of None] by metis
  have s0: "event_step {e} b1 (b1\<lparr>current_event := None, signal_ncalls := n\<rparr>)" by (simp add: event_step_def)
  have "event_step {e} b1 (upd_ev e calls_made (b1\<lparr>current_event := None, signal_ncalls := n\<rparr>))"
    by (rule event_step_trans [OF s0 event_step_soft [OF F]]) simp
  with s0 b3 have "event_step {e} b1 ?b3" by metis
  then have step: "event_step {e} b ?b3" by (rule event_step_trans [OF b1(3)])
  have act: "\<not> fl ?b3 EVLIST_ACTIVE e" "activequeues ?b3 = (activequeues b)[i := q]"
    using b3 b1(5,6) by (elim disjE; simp add: upd_ev_def)+
  have "round_frame b ?b3"
    using b3 b1(8,9,11) lv by (elim disjE; simp add: round_frame_def loop_vars_def upd_ev_def)
  then show ?thesis using b1(1) int run(1) due gd step act by (intro exI [of _ b1] exI [of _ b2]) simp
qed

lemma process_queue_records:
  assumes w: "deletions_work E" and "good binv view U b" "i < nactivequeues b" "activequeues b ! i = q"
    "\<forall>e \<in> set q. plain_event b e" "\<not> event_break b" "\<not> event_continue b" "0 \<le> cnt"
  shows "\<exists>b'. process_queue E recording i max_to_process None cnt u b =
      Some (u @ concat (map (\<lambda>e. calls_due (evs b e) e) (take (taken q (max_to_process - cnt)) q)), b',
        cnt + int (taken q (max_to_process - cnt))) \<and> good binv view U b' \<and>
    event_step (set (take (taken q (max_to_process - cnt)) q)) b b' \<and>
    activequeues b' = (activequeues b)[i := drop (taken q (max_to_process - cnt)) q] \<and>
    (\<forall>e \<in> set (take (taken q (max_to_process - cnt)) q). \<not> fl b' EVLIST_ACTIVE e) \<and> round_frame b b'"
  using assms(2-8)
proof (induction q arbitrary: b cnt u)
  case Nil
  then have "(activequeues b)[i := []] = activequeues b" by (metis list_update_id)
  then show ?case using Nil by (subst process_queue.simps) (simp add: taken_def round_frame_def)
next
  case (Cons e q)
  note g = Cons.prems(1) and i = Cons.prems(2,3)
  note h = queue_head [OF g i]
  have pe: "plain_event b e" using Cons.prems(4) by simp
  obtain b1 b2 where s: "take_active E b e = Some b1" "\<not> fl b1 EVLIST_INTERNAL e"
    "run_closure E recording e u (b1\<lparr>current_event := Some e\<rparr>) = Some (u @ calls_due (evs b e) e, b2)"
    "good binv view U (b2\<lparr>current_event := None\<rparr>)" "event_step {e} b (b2\<lparr>current_event := None\<rparr>)"
    "\<not> fl b2 EVLIST_ACTIVE e" "activequeues b2 = (activequeues b)[i := q]" "round_frame b (b2\<lparr>current_event := None\<rparr>)"
    using take_and_run [OF g w i pe Cons.prems(5), of u] by blast
  let ?b3 = "b2\<lparr>current_event := None\<rparr>"
  let ?u = "u @ calls_due (evs b e) e"
  have brk: "\<not> event_break ?b3" and cont: "\<not> event_continue ?b3"
    using Cons.prems(5,6) s(8) by (simp_all add: round_frame_def loop_vars_def)
  have step: "process_queue E recording i max_to_process None cnt u b =
      (if cnt + 1 \<ge> max_to_process then Some (?u, ?b3, cnt + 1) else process_queue E recording i max_to_process None (cnt + 1) ?u ?b3)"
    using i s(1,2,3) brk cont Cons.prems(7) by (subst process_queue.simps) (simp add: Let_def)
  show ?case
  proof (cases "cnt + 1 \<ge> max_to_process")
    case True
    then have "taken (e # q) (max_to_process - cnt) = 1" by (simp add: taken_Cons)
    then show ?thesis using step True s(4,5,6,7,8) by simp
  next
    case False
    let ?n = "taken q (max_to_process - cnt - 1)"
    have n: "taken (e # q) (max_to_process - cnt) = Suc ?n" using False by (simp add: taken_Cons)
    have n3: "i < nactivequeues ?b3" and q3: "activequeues ?b3 ! i = q" using s(7) i(1) by simp_all
    have t3: "timers ?b3 = timers b" using event_step_timers [OF s(5)] by blast
    have core: "ev_core (evs ?b3 x) = ev_core (evs b x)" if "x \<in> set q" for x
      using event_stepD(6) [OF s(5), of x] that h(6) by (cases "x = e") auto
    have rest: "\<forall>x \<in> set q. plain_event ?b3 x" using Cons.prems(4) plain_event_core [OF core t3] by simp
    obtain b' where b': "process_queue E recording i max_to_process None (cnt + 1) ?u ?b3 =
        Some (?u @ concat (map (\<lambda>e. calls_due (evs ?b3 e) e) (take ?n q)), b', cnt + 1 + int ?n)"
      "good binv view U b'" "event_step (set (take ?n q)) ?b3 b'" "activequeues b' = (activequeues ?b3)[i := drop ?n q]"
      "\<forall>e \<in> set (take ?n q). \<not> fl b' EVLIST_ACTIVE e" "round_frame ?b3 b'"
      using Cons.IH [OF s(4) n3 q3 rest brk cont, of "cnt + 1" ?u] Cons.prems(7) by (auto simp: diff_diff_eq add.commute)
    have "map (\<lambda>e. calls_due (evs ?b3 e) e) (take ?n q) = map (\<lambda>e. calls_due (evs b e) e) (take ?n q)"
      using calls_due_core [OF core] by (auto dest: in_set_takeD)
    note m = this
    have "process_queue E recording i max_to_process None cnt u b =
        Some (u @ concat (map (\<lambda>e. calls_due (evs b e) e) (take (Suc ?n) (e # q))), b', cnt + int (Suc ?n))"
      using step False b'(1) [unfolded m] by simp
    moreover have "event_step (set (take (Suc ?n) (e # q))) b b'"
      by (rule event_step_trans [OF event_step_mono [OF s(5)] event_step_mono [OF b'(3)]]) auto
    moreover have "e \<notin> set (take ?n q)" using h(6) by (auto dest: in_set_takeD)
    then have "\<not> fl b' EVLIST_ACTIVE e" using event_stepD(5) [OF b'(3), of e EVLIST_ACTIVE] s(6) by simp
    moreover have "activequeues b' = (activequeues b)[i := drop (Suc ?n) (e # q)]" using b'(4) s(7) by simp
    moreover have "round_frame b b'" by (rule round_frame_trans [OF s(8) b'(6)])
    ultimately show ?thesis using b'(2,5) unfolding n by auto
  qed
qed

lemma process_active_records:
  assumes w: "deletions_work E" and g: "good binv view U b" and p: "only_plain b" and a: "run_order b \<noteq> []" and c: "\<not> event_continue b"
  shows "\<exists>b' n. event_process_active E recording u b = Some (u @ all_calls b (take n (run_order b)), b', int n) \<and>
    0 < n \<and> n \<le> length (run_order b) \<and> good binv view U b' \<and> run_order b' = drop n (run_order b) \<and> timers b' = timers b \<and>
    (\<forall>x. x \<notin> set (take n (run_order b)) \<longrightarrow> ev_core (evs b' x) = ev_core (evs b x)) \<and> round_frame b b'"
proof -
  obtain k where k: "k < nactivequeues b" "activequeues b ! k \<noteq> []" "\<forall>j<k. activequeues b ! j = []"
    "run_order b = activequeues b ! k @ concat (drop (Suc k) (activequeues b))"
    "\<And>n. n \<le> length (activequeues b ! k) \<Longrightarrow> concat ((activequeues b)[k := drop n (activequeues b ! k)]) = drop n (run_order b)"
    using first_queue [OF a] by blast
  let ?q = "activequeues b ! k"
  let ?m = "if int k < limit_callbacks_after_prio b then C_INT_MAX else max_dispatch_callbacks b"
  let ?b1 = "b\<lparr>event_running_priority := int k\<rparr>"
  let ?n = "taken ?q ?m"
  have g1: "good binv view U ?b1" using g by simp
  have pl: "\<forall>e \<in> set ?q. plain_event ?b1 e" using p k(4) by (auto simp: only_plain_def plain_event_def timers_def)
  have b1: "k < nactivequeues ?b1" "activequeues ?b1 ! k = ?q" "\<not> event_break ?b1" "\<not> event_continue ?b1"
    using k(1) p c by (simp_all add: only_plain_def)
  obtain b' where b': "process_queue E recording k ?m None 0 u ?b1 = Some (u @ all_calls b (take ?n ?q), b', int ?n)"
    "good binv view U b'" "event_step (set (take ?n ?q)) ?b1 b'" "activequeues b' = (activequeues b)[k := drop ?n ?q]" "round_frame ?b1 b'"
    using process_queue_records [OF w g1 b1(1,2) pl b1(3,4), of 0 ?m u] by auto
  have n: "0 < ?n" "?n \<le> length ?q" using k(2) by (auto simp: taken_def)
  have pq: "process_priorities E recording (max_dispatch_callbacks b) (limit_callbacks_after_prio b) None k 0 u b =
      Some (u @ all_calls b (take ?n ?q), b', int ?n)"
    using k(1,2) b'(1) n(1) by (subst process_priorities.simps) (simp add: Let_def split: if_splits)
  have "process_priorities E recording (max_dispatch_callbacks b) (limit_callbacks_after_prio b) None i 0 u b =
      Some (u @ all_calls b (take ?n ?q), b', int ?n)" if "i \<le> k" for i
    using that
  proof (induction "k - i" arbitrary: i)
    case 0
    then show ?case using pq by simp
  next
    case (Suc d)
    then have "i < k" "d = k - (i + 1)" by simp_all
    then show ?case using Suc.hyps(1) [of "i + 1"] k(1,3) by (subst process_priorities.simps) simp
  qed
  from this [of 0] have "event_process_active E recording u b =
      Some (u @ all_calls b (take ?n ?q), b'\<lparr>event_running_priority := -1\<rparr>, int ?n)"
    using p by (simp add: event_process_active_def only_plain_def Let_def)
  moreover have tk: "take ?n (run_order b) = take ?n ?q" using n(2) unfolding k(4) by simp
  moreover have "?n \<le> length (run_order b)" using n(2) unfolding k(4) by simp
  moreover have "timers b' = timers b" using event_step_timers [OF b'(3)] by (simp add: timers_def)
  moreover have "ev_core (evs b' x) = ev_core (evs b x)" if "x \<notin> set (take ?n ?q)" for x
    using event_stepD(6) [OF b'(3) that] by simp
  moreover have "round_frame b (b'\<lparr>event_running_priority := -1\<rparr>)" using b'(5) by (simp add: round_frame_def loop_vars_def)
  ultimately show ?thesis
    using b'(2,4) n(1) k(5) [OF n(2)]
    by (intro exI [of _ "b'\<lparr>event_running_priority := -1\<rparr>"] exI [of _ ?n]) (simp add: timers_def)
qed

end

section \<open>The loop with the epoll backend\<close>

lemma poll_dispatch_ok:
  assumes "epoll_wait_documented wait interest"
  shows "dispatch_ok (good (eb_binv use_cl ctl interest) (eb_view interest) U) (epoll_poll ctl wait E)"
  unfolding dispatch_ok_def
proof (intro allI impI)
  fix b tv
  assume g: "good (eb_binv use_cl ctl interest) (eb_view interest) U b"
  note inv = goodD(5) [OF g] and ok = goodD(1) [OF g]
  have listed: "\<not> unlisted b x" if "fl b EVLIST_INSERTED x" for x using that by (simp add: unlisted_def)
  then have pri: "\<forall>x. fl b EVLIST_INSERTED x \<longrightarrow> ev_pri (evs b x) < nactivequeues b" using sound_listed(2) [OF ok] by blast
  obtain b' r xs where s: "epoll_poll ctl wait E b tv = Some (b', r)" "base_inv (eb_binv use_cl ctl interest) (eb_view interest) b'"
    "event_step {e. reported b xs e} b b'"
    using epoll_poll_spec [OF inv pri assms] by blast
  have ins: "fl b EVLIST_INSERTED x" if "reported b xs x" for x
    using that inv unfolding reported_def base_inv_def maps_inv_def inserted_ok_def by blast
  have st: "still b b'" by (rule still_poll [OF s(1)])
  have "sound (eb_binv use_cl ctl interest) (eb_view interest) b'"
  proof (rule sound_step [OF ok s(2,3) still_times [OF st s(3)]])
    fix x assume "x \<in> {e. reported b xs e}"
    then have x: "fl b EVLIST_INSERTED x" using ins by simp
    then have "\<not> fl b EVLIST_FINALIZING x" using loop_okD(2) [OF soundD(3) [OF ok]] by blast
    then show "unlisted b' x \<or> ready (evs b x) \<and> ev_pri (evs b x) < nactivequeues b \<and>
        (fl b EVLIST_FINALIZING x \<longrightarrow> \<not> fl b' EVLIST_TIMEOUT x \<and> \<not> fl b' EVLIST_INSERTED x)"
      using sound_listed [OF ok listed [OF x]] by blast
  qed
  moreover have "{e. reported b xs e} \<subseteq> U" using ins listed goodD(4) [OF g] by blast
  ultimately have "good (eb_binv use_cl ctl interest) (eb_view interest) U b'" by (rule good_step [OF g _ s(3)])
  then show "\<exists>b' r. epoll_poll ctl wait E b tv = Some (b', r) \<and> good (eb_binv use_cl ctl interest) (eb_view interest) U b' \<and> kept b b'"
    using s(1) kept_step [OF s(3) still_calm [OF st]] by blast
qed

lemma update_time_cache_vars:
  "event_continue (update_time_cache E b) = event_continue b" "event_break (update_time_cache E b) = event_break b"
  "max_dispatch_callbacks (update_time_cache E b) = max_dispatch_callbacks b"
  "max_dispatch_time (update_time_cache E b) = max_dispatch_time b"
  "event_continue (clear_time_cache b) = event_continue b" "event_break (clear_time_cache b) = event_break b"
  "max_dispatch_callbacks (clear_time_cache b) = max_dispatch_callbacks b"
  "max_dispatch_time (clear_time_cache b) = max_dispatch_time b"
  by (auto simp: update_time_cache_def clear_time_cache_def gettime_def Let_def split: option.splits prod.splits if_splits)

section \<open>Rounds of the loop\<close>

lemma only_plain_active:
  assumes "good binv view U b" "active_later_queue b = []"
  shows "N_ACTIVE_CALLBACKS b = int (length (run_order b))" "distinct (run_order b)"
proof -
  have a: "actives_ok b" using goodD(5) [OF assms(1)] by (simp add: base_inv_def queues_inv_def)
  then show "N_ACTIVE_CALLBACKS b = int (length (run_order b))" by (simp add: assms(2) actives_ok_def length_concat)
  show "distinct (run_order b)" by (rule run_order_distinct [OF a])
qed

lemma loop_round_records:
  assumes g: "good (eb_binv use_cl ctl interest) (eb_view interest) U b0" and clk: "clocks_documented E"
    and w: "deletions_work (epoll_env use_cl ctl sig_ok E)" and doc: "epoll_wait_documented wait interest" "silent wait"
    and p: "only_plain b0" and a: "run_order b0 \<noteq> []"
  shows "\<exists>b' n. loop_round (epoll_poll ctl wait (epoll_env use_cl ctl sig_ok E)) (epoll_env use_cl ctl sig_ok E) recording EVLOOP_ONCE u b0 =
      Some (if n = length (run_order b0) then Inl (u @ all_calls b0 (take n (run_order b0)), b', 0)
            else Inr (u @ all_calls b0 (take n (run_order b0)), b')) \<and>
    0 < n \<and> n \<le> length (run_order b0) \<and> good (eb_binv use_cl ctl interest) (eb_view interest) U b' \<and>
    run_order b' = drop n (run_order b0) \<and> only_plain b' \<and>
    (\<forall>x \<in> set (run_order b'). ev_core (evs b' x) = ev_core (evs b0 x))"
proof -
  let ?E = "epoll_env use_cl ctl sig_ok E" and ?D = "epoll_poll ctl wait (epoll_env use_cl ctl sig_ok E)"
  let ?B = "eb_binv use_cl ctl interest" and ?V = "eb_view interest"
  have clk': "clocks_documented ?E" using clk by simp
  define b1 where "b1 = b0\<lparr>event_continue := False, n_deferreds_queued := 0\<rparr>"
  have g1: "good ?B ?V U b1" using g by (simp add: b1_def)
  have f1: "evs b1 = evs b0" "activequeues b1 = activequeues b0" "active_later_queue b1 = []" "timeheap b1 = timeheap b0"
    "common_timeout_queues b1 = common_timeout_queues b0" "\<not> event_gotterm b1" "\<not> event_break b1" "\<not> event_continue b1"
    "loop_vars b1 = loop_vars b0"
    using p by (simp_all add: b1_def only_plain_def loop_vars_def)
  have n1: "N_ACTIVE_CALLBACKS b1 \<noteq> 0" using only_plain_active(1) [OF g1 f1(3)] a f1(2) by simp
  have "b1\<lparr>active_later_queue := []\<rparr> = b1" using f1(3) by simp
  then have later: "event_queue_make_later_events_active b1 = Some b1" using f1(3) by (simp add: event_queue_make_later_events_active_def)
  define b3 where "b3 = clear_time_cache b1"
  note c3 = good_caches [OF g1 clk', folded b3_def]
  obtain b4 r where b4: "?D b3 (Some evutil_timerclear) = Some (b4, r)" "good ?B ?V U b4"
    using poll_dispatch_ok [OF doc(1), of use_cl ctl U ?E] c3(1) unfolding dispatch_ok_def by blast
  note s4 = epoll_poll_silent [OF b4(1) doc(2)]
  define b5 where "b5 = update_time_cache ?E b4"
  note c5 = good_caches [OF b4(2) clk', folded b5_def]
  have f5: "evs b5 = evs b0" "activequeues b5 = activequeues b0" "active_later_queue b5 = []" "timeheap b5 = timeheap b0"
    "common_timeout_queues b5 = common_timeout_queues b0" "loop_vars b5 = loop_vars b0"
    using c3(3) c5(4) s4 f1 by (simp_all add: same_queues_def still_def calm_def)
  have c: "\<not> event_continue b5" using s4(8) f1(8) by (simp add: b5_def b3_def update_time_cache_vars)
  have tm5: "timers b5 = timers b0" using f5(5) by (simp add: timers_def)
  have p5: "only_plain b5" using p f5 tm5 by (simp add: only_plain_def plain_event_def loop_vars_def)
  have tp: "timeout_process ?E b5 = Some b5"
    using p base_heap_card [OF goodD(5) [OF g]] f5(4) by (simp add: timeout_process_def only_plain_def min_heap_empty_def)
  obtain b6 n where b6: "event_process_active ?E recording u b5 = Some (u @ all_calls b5 (take n (run_order b5)), b6, int n)"
    "0 < n" "n \<le> length (run_order b5)" "good ?B ?V U b6" "run_order b6 = drop n (run_order b5)" "timers b6 = timers b5"
    "\<forall>x. x \<notin> set (take n (run_order b5)) \<longrightarrow> ev_core (evs b6 x) = ev_core (evs b5 x)" "round_frame b5 b6"
    using epoll_base.process_active_records [OF w c5(2) p5 _ c, of u] a f5(2) by auto
  have l6: "active_later_queue b6 = []" using b6(8) f5(3) by (simp add: round_frame_def)
  have n5: "N_ACTIVE_CALLBACKS b5 \<noteq> 0" using only_plain_active(1) [OF c5(2) f5(3)] a f5(2) by simp
  have n6: "N_ACTIVE_CALLBACKS b6 = 0 \<longleftrightarrow> n = length (run_order b0)"
    using only_plain_active(1) [OF b6(4) l6] b6(3,5) f5(2) by auto
  have dist: "distinct (run_order b0)" using only_plain_active(2) [OF g] p by (simp add: only_plain_def)
  have core: "ev_core (evs b6 x) = ev_core (evs b0 x)" if "x \<in> set (run_order b6)" for x
  proof -
    have "distinct (take n (run_order b0) @ drop n (run_order b0))" using dist by simp
    then have "x \<notin> set (take n (run_order b0))" using that b6(5) f5(2) unfolding distinct_append by auto
    then show ?thesis using b6(7) f5(1,2) by simp
  qed
  have "plain_event b6 x" if x: "x \<in> set (run_order b6)" for x
  proof -
    have "x \<in> set (run_order b0)" using x b6(5) f5(2) by (auto dest: in_set_dropD)
    then have "plain_event b0 x" using p unfolding only_plain_def by blast
    then show ?thesis using plain_event_core [OF core [OF x]] b6(6) tm5 by simp
  qed
  then have p6: "only_plain b6"
    using p5 b6(8) l6 by (auto simp: only_plain_def round_frame_def loop_vars_def)
  have "loop_round ?D ?E recording EVLOOP_ONCE u b0 =
      Some (if n = length (run_order b0) then Inl (u @ all_calls b0 (take n (run_order b0)), b6, 0)
            else Inr (u @ all_calls b0 (take n (run_order b0)), b6))"
    using f1(6,7) n1 later b4(1) s4(1) tp n5 b6(1,2) n6 f5(1,2)
    by (simp add: loop_round_def Let_def b1_def [symmetric] b3_def [symmetric] b5_def [symmetric] EVLOOP_ONCE_def EVLOOP_NONBLOCK_def EVLOOP_NO_EXIT_ON_EMPTY_def)
  then show ?thesis using b6(2-5) f5(2) p6 core by (intro exI [of _ b6] exI [of _ n]) simp
qed

lemma loop_rounds_records:
  assumes clk: "clocks_documented E" and w: "deletions_work (epoll_env use_cl ctl sig_ok E)"
    and doc: "epoll_wait_documented wait interest" "silent wait"
    and "good (eb_binv use_cl ctl interest) (eb_view interest) U b" "only_plain b" "run_order b \<noteq> []"
  shows "\<exists>b'. loop_rounds (epoll_poll ctl wait (epoll_env use_cl ctl sig_ok E)) (epoll_env use_cl ctl sig_ok E) recording EVLOOP_ONCE u b =
      Some (u @ all_calls b (run_order b), b', 0) \<and> good (eb_binv use_cl ctl interest) (eb_view interest) U b' \<and>
    run_order b' = [] \<and> active_later_queue b' = []"
  using assms(5-7)
proof (induction "length (run_order b)" arbitrary: b u rule: less_induct)
  case less
  let ?D = "epoll_poll ctl wait (epoll_env use_cl ctl sig_ok E)"
  obtain b1 n where s: "loop_round ?D (epoll_env use_cl ctl sig_ok E) recording EVLOOP_ONCE u b =
      Some (if n = length (run_order b) then Inl (u @ all_calls b (take n (run_order b)), b1, 0)
            else Inr (u @ all_calls b (take n (run_order b)), b1))"
    "0 < n" "n \<le> length (run_order b)" "good (eb_binv use_cl ctl interest) (eb_view interest) U b1"
    "run_order b1 = drop n (run_order b)" "only_plain b1" "\<forall>x \<in> set (run_order b1). ev_core (evs b1 x) = ev_core (evs b x)"
    using loop_round_records [OF less.prems(1) clk w doc less.prems(2,3), of u] by blast
  show ?case
  proof (cases "n = length (run_order b)")
    case True
    then show ?thesis using s(1,4,5,6) by (subst loop_rounds.simps) (simp add: only_plain_def)
  next
    case False
    have len: "length (run_order b1) < length (run_order b)" and ne: "run_order b1 \<noteq> []" using s(2,3,5) False by simp_all
    obtain b' where b': "loop_rounds ?D (epoll_env use_cl ctl sig_ok E) recording EVLOOP_ONCE (u @ all_calls b (take n (run_order b))) b1 =
        Some ((u @ all_calls b (take n (run_order b))) @ all_calls b1 (run_order b1), b', 0)"
      "good (eb_binv use_cl ctl interest) (eb_view interest) U b'" "run_order b' = []" "active_later_queue b' = []"
      using less.hyps [OF len s(4,6) ne, of "u @ all_calls b (take n (run_order b))"] by blast
    have "map (\<lambda>e. calls_due (evs b1 e) e) (run_order b1) = map (\<lambda>e. calls_due (evs b e) e) (run_order b1)"
      using s(7) calls_due_core by (intro map_cong refl) blast
    then have "all_calls b1 (run_order b1) = all_calls b (run_order b1)" by (rule arg_cong)
    then have "all_calls b (take n (run_order b)) @ all_calls b1 (run_order b1) = all_calls b (take n (run_order b) @ run_order b1)" by simp
    then have "all_calls b (take n (run_order b)) @ all_calls b1 (run_order b1) = all_calls b (run_order b)" unfolding s(5) by (simp only: append_take_drop_id)
    then show ?thesis using s(1) False b' by (subst loop_rounds.simps) simp
  qed
qed

end
