(* ===== verification/Ev_Loop_Props.thy ===== *)
theory Ev_Loop_Props
  imports Ev_Loop_Records
begin

text \<open>
  What the event loop promises: when it wakes up, which timers fire and in which order, that
  the active callbacks run in order, that every round returns, and how
  the loop ends. The witnesses run the loop on the base of \<open>Ev_Machine\<close>.
\<close>

section \<open>Concrete bases\<close>

abbreviation demo_binv where "demo_binv \<equiv> eb_binv True table_ctl (\<lambda>k. k)"
abbreviation demo_view where "demo_view \<equiv> eb_view (\<lambda>k. k)"

lemma demo_sound: "sound demo_binv demo_view demo_base"
proof -
  have "loop_ok demo_base"
    using demo_unlisted by (simp add: loop_ok_def demo_base_ok demo_store_def zeroed_event_def persist_times_def)
  then show ?thesis using demo_base_ok(1) by (simp add: sound_def base_ok_def)
qed

lemma demo_clocks: "clocks_documented demo_epoll"
  using demo_docs(1) by (simp add: demo_epoll_def)

lemma demo_wait: "epoll_wait_documented (\<lambda>k n t. (k, Inl EINTR)) (\<lambda>k. k)"
  by (simp add: epoll_wait_documented_def)

text \<open>Event 3 is assigned, and then added with a timeout or activated.\<close>

lemma demo_assigned:
  obtains b where "event_assign demo_base 3 (-1) 0 = (b, 0)" "sound demo_binv demo_view b" "unlisted b 3" "timers b = {}"
    "ready (evs b 3)" "ev_pri (evs b 3) < nactivequeues b" "\<not> fl b EVLIST_FINALIZING 3" "\<forall>x. x \<noteq> 3 \<longrightarrow> evs b x = evs demo_base x"
    "ev_wf (evs b 3)" "nactivequeues b = 1" "ev_closure (evs b 3) = EV_CLOSURE_EVENT" "common_timeout_queues b = []"
    "ev_fd (evs b 3) = -1"
proof -
  obtain b where b: "event_assign demo_base 3 (-1) 0 = (b, 0)"
    by (simp add: event_assign_def Let_def ev_flag_defs has_flag_def)
  have nt: "3 \<notin> timers demo_base" by (simp add: demo_unlisted)
  note s = sound_assign [OF demo_sound demo_unlisted(1) nt b] and f = assign_fields [OF b]
  have "ev_fd (evs b 3) = -1" by (rule event_assign_spec(5) [OF demo_inv demo_unlisted(1) nt b])
  then show thesis
    using that [OF b] s f(3,6) demo_unlisted(2) demo_base_ok(2,4) by (simp add: has_flag_def)
qed

lemma demo_empty_heap: "sound demo_binv demo_view b \<Longrightarrow> \<forall>x. \<not> fl b EVLIST_TIMEOUT x \<Longrightarrow> heap_n (timeheap b) = 0"
proof -
  assume a: "sound demo_binv demo_view b" "\<forall>x. \<not> fl b EVLIST_TIMEOUT x"
  then have "timeouts_ok b" by (simp add: sound_def base_inv_def queues_inv_def)
  then have "heap_elems (timeheap b) = {}" using a(2) unfolding timeouts_ok_def by blast
  then show ?thesis using base_heap_card [OF soundD(1) [OF a(1)]] by simp
qed

lemma demo_timer:
  assumes "sound demo_binv demo_view b" "ready (evs b 3)" "ev_pri (evs b 3) < nactivequeues b" "ev_wf (evs b 3)" "\<forall>x. unlisted b x"
    "tv_ok False t b" "tv_normal (real_timeout t)" "3 \<notin> timers b"
  obtains b' r where "event_add demo_epoll b 3 (Some t) = Some (b', r)" "sound demo_binv demo_view b'"
    "event_step (add_touches b 3 (Some t) r) b b'"
proof -
  have "heap_n (timeheap b) = 0" by (rule demo_empty_heap [OF assms(1)]) (use assms(5) in \<open>simp add: unlisted_def\<close>)
  then have ok: "add_ok demo_epoll b 3 (Some t) False"
    using assms(4-6,8) by (simp add: add_ok_def unlisted_def)
  show thesis
    using epoll_base.sound_add [OF assms(1) demo_clocks [unfolded demo_epoll_def] ok [unfolded demo_epoll_def] assms(2,3) _ assms(8)]
      assms(7) that unfolding demo_epoll_def event_add_def by blast
qed

lemma demo_active:
  obtains b where "good demo_binv demo_view {3} b" "activequeues b = [[3]]" "active_later_queue b = []" "timers b = {}"
    "ev_closure (evs b 3) = EV_CLOSURE_EVENT" "ev_fd (evs b 3) = -1" "ev_res (evs b 3) = EV_TIMEOUT"
    "\<not> event_break b" "\<not> event_continue b" "\<forall>x. x \<noteq> 3 \<longrightarrow> unlisted b x"
    "\<not> fl b EVLIST_TIMEOUT 3"
proof -
  obtain b0 where b0: "sound demo_binv demo_view b0" "unlisted b0 3" "timers b0 = {}"
    "ready (evs b0 3)" "ev_pri (evs b0 3) < nactivequeues b0" "\<not> fl b0 EVLIST_FINALIZING 3" "\<forall>x. x \<noteq> 3 \<longrightarrow> evs b0 x = evs demo_base x"
    "nactivequeues b0 = 1" "ev_closure (evs b0 3) = EV_CLOSURE_EVENT" "ev_fd (evs b0 3) = -1"
    by (rule demo_assigned)
  note i0 = soundD(1) [OF b0(1)]
  have others: "unlisted b0 x" for x using b0(2,7) demo_unlisted(1) [of x] by (cases "x = 3") (simp_all add: unlisted_def)
  have a0: "actives_ok b0" using i0 by (simp add: base_inv_def queues_inv_def)
  have q0: "activequeues b0 ! 0 = []" "active_later_queue b0 = []"
    using a0 others b0(8) by (auto simp: actives_ok_def unlisted_def set_empty [symmetric] simp del: set_empty)
  then have q1: "activequeues b0 = [[]]" using b0(8) by (metis One_nat_def length_0_conv length_Suc_conv nth_Cons_0)
  obtain b1 where b1: "event_active_nolock demo_epoll b0 3 EV_TIMEOUT 1 = Some b1" "event_step {3} b0 b1"
    "ev_res (evs b1 3) = EV_TIMEOUT" "activequeues b1 = [[3]]" "active_later_queue b1 = []"
    "\<not> fl b1 EVLIST_TIMEOUT 3"
    using event_active_spec [OF i0 b0(5,6), of demo_epoll EV_TIMEOUT 1] b0(2,5) q0(2) q1 by (auto simp: unlisted_def)
  have s1: "sound demo_binv demo_view b1"
    using sound_active [OF b0(1,4-6), of demo_epoll EV_TIMEOUT 1] b1(1) by auto
  have t1: "timers b1 = {}" using event_step_timers [OF b1(2)] b0(3) by simp
  have u1: "unlisted b1 x" if "x \<noteq> 3" for x using others [of x] event_stepD(5) [OF b1(2), of x] that by (simp add: unlisted_def)
  have "good demo_binv demo_view {3} b1" using s1 t1 u1 by (auto simp: good_def)
  then have g: "good demo_binv demo_view {3} (b1\<lparr>event_gotterm := False, event_break := False, event_continue := False, n_deferreds_queued := 0\<rparr>)"
    by simp
  show thesis
    by (rule that [OF g]) (use b1 b0 t1 u1 in \<open>simp_all add: event_step_def timers_def unlisted_def\<close>)
qed

section \<open>When the loop wakes up\<close>

text \<open>
  C14. The time the loop waits is infinite exactly when no timer is on the heap, and otherwise the
  time left until the earliest timer, never negative, by the cached time when there is one.
\<close>

theorem timeout_next_correct:
  assumes "base_inv binv view b" "clocks_documented E"
  shows "\<exists>b' tv. timeout_next E b = Some (b', tv) \<and> clock_step b b' \<and>
    (case tv of
       None \<Rightarrow> heap_elems (timeheap b) = {}
     | Some t \<Rightarrow> \<exists>e \<in> heap_elems (timeheap b). \<exists>now. tv_normal now \<and> (\<forall>x \<in> heap_elems (timeheap b). ev_timeout (evs b e) \<le> ev_timeout (evs b x)) \<and>
         0 \<le> tv_sec t \<and> 0 \<le> tv_usec t \<and>
         (tv_normal (ev_timeout (evs b e)) \<longrightarrow> tv_normal t \<and> tv_usecs t = max 0 (tv_usecs (ev_timeout (evs b e)) - tv_usecs now)) \<and>
         (tv_sec (tv_cache b) \<noteq> 0 \<longrightarrow> now = tv_cache b))"
  using timeout_next_spec [OF assms] by blast

theorem timeout_next_correct_witness:
  "\<exists>b r b' tv. event_add demo_epoll demo_base 3 (Some (Timeval 2 0)) = Some (b, r) \<and> timeout_next demo_epoll b = Some (b', tv)"
proof -
  obtain b r where b: "event_add demo_epoll demo_base 3 (Some (Timeval 2 0)) = Some (b, r)" "base_inv demo_binv demo_view b"
    using epoll_base.event_add_spec [OF demo_inv demo_clocks [unfolded demo_epoll_def] demo_add_ok [unfolded demo_epoll_def]]
    unfolding demo_epoll_def event_add_def by blast
  then show ?thesis using timeout_next_correct [OF b(2) demo_clocks] by blast
qed

text \<open>
  C15. A persistent event runs again one interval after the time it was scheduled for (or after
  now, when it did not time out), and one interval after now when that time has passed already;
  the new time carries the mark of the same list of common timeouts.
\<close>

theorem persist_run_at_correct:
  fixes timed_out :: bool
  assumes "is_same_common_timeout timeout io_timeout" "tv_normal now" "tv_normal (real_timeout timeout)" "tv_normal (real_timeout io_timeout)"
    "if common then usec_32 io_timeout else tv_normal timeout \<and> tv_normal io_timeout"
  shows "is_same_common_timeout (persist_run_at common timeout io_timeout now timed_out) io_timeout \<and>
    tv_normal (real_timeout (persist_run_at common timeout io_timeout now timed_out)) \<and>
    tv_usecs (real_timeout (persist_run_at common timeout io_timeout now timed_out)) =
      (let next = tv_usecs (if timed_out then real_timeout timeout else now) + tv_usecs (real_timeout io_timeout)
       in if next < tv_usecs now then tv_usecs now + tv_usecs (real_timeout io_timeout) else next)"
  using persist_run_at_spec [OF assms, of timed_out] by (simp add: Let_def)

theorem persist_run_at_correct_witness:
  "tv_usecs (real_timeout (persist_run_at False (Timeval 10 0) (Timeval 3 0) (Timeval 12 5) True)) = 13000000"
proof -
  have n: "tv_normal (Timeval s 0)" "tv_normal (Timeval 12 5)" for s by (simp_all add: tv_normal_def)
  have r: "real_timeout (Timeval s 0) = Timeval s 0" for s by (rule real_timeout_small [OF normal_small [OF n(1)]])
  show ?thesis
    using persist_run_at_correct [of "Timeval 10 0" "Timeval 3 0" "Timeval 12 5" False True]
    by (simp add: n r is_same_common_timeout_def tv_usecs_def)
qed

section \<open>Which timers fire\<close>

text \<open>
  C12. The loop fires exactly the timers on the heap that are due, in the order of their
  timeouts: each leaves every other queue and goes to the end of the active queue of its
  priority with the reason \<open>EV_TIMEOUT\<close>. The others stay on the heap.
\<close>

theorem timeout_process_correct:
  assumes "sound (eb_binv use_cl ctl interest) (eb_view interest) b" "clocks_documented E" "deletions_work (epoll_env use_cl ctl sig_ok E)"
  shows "\<exists>b' es now. timeout_process (epoll_env use_cl ctl sig_ok E) b = Some b' \<and>
    sound (eb_binv use_cl ctl interest) (eb_view interest) b' \<and> fired b es b' \<and> tv_normal now \<and>
    (tv_sec (tv_cache b) \<noteq> 0 \<longrightarrow> now = tv_cache b) \<and> distinct es \<and> sorted (map (\<lambda>e. ev_timeout (evs b e)) es) \<and>
    set es = {e \<in> heap_elems (timeheap b). ev_timeout (evs b e) \<le> now} \<and>
    heap_elems (timeheap b') = {e \<in> heap_elems (timeheap b). now < ev_timeout (evs b e)}"
proof -
  have clk: "clocks_documented (epoll_env use_cl ctl sig_ok E)" using assms(2) by simp
  show ?thesis by (rule epoll_base.timeout_process_spec [OF assms(1,3) clk])
qed

theorem timeout_process_correct_witness:
  "\<exists>b r b' es. event_add demo_epoll (fst (event_assign demo_base 3 (-1) 0)) 3 (Some (Timeval 2 0)) = Some (b, r) \<and>
    timeout_process demo_epoll b = Some b' \<and> fired b es b'"
proof -
  obtain b0 where b0: "event_assign demo_base 3 (-1) 0 = (b0, 0)" "sound demo_binv demo_view b0" "unlisted b0 3" "timers b0 = {}"
    "ready (evs b0 3)" "ev_pri (evs b0 3) < nactivequeues b0" "\<forall>x. x \<noteq> 3 \<longrightarrow> evs b0 x = evs demo_base x" "ev_wf (evs b0 3)"
    by (rule demo_assigned)
  have others: "\<forall>x. unlisted b0 x" using b0(3,7) demo_unlisted(1) by (metis unlisted_def)
  have n: "tv_normal (Timeval 2 0)" by (simp add: tv_normal_def)
  have tv: "tv_ok False (Timeval 2 0) b0" "tv_normal (real_timeout (Timeval 2 0))"
    using n small_not_common [OF normal_small [OF n], of b0] real_timeout_small [OF normal_small [OF n]] by (simp_all add: tv_ok_def)
  obtain b r where b: "event_add demo_epoll b0 3 (Some (Timeval 2 0)) = Some (b, r)" "sound demo_binv demo_view b"
    by (rule demo_timer [OF b0(2,5,6,8) others tv]) (use b0(4) in simp_all)
  show ?thesis
    using timeout_process_correct [OF b(2) demo_docs(1,2) [unfolded demo_epoll_def]] b(1) b0(1) unfolding demo_epoll_def [symmetric] by auto
qed


text \<open>
  C13. The timer of a list of common timeouts fires exactly the events of the list that are due at
  the base's time, in their order. If any is left and there is memory, the list's timer is
  pending again for exactly the time of the first of them, and nothing else changes.
\<close>

theorem common_timeout_callback_correct:
  assumes "sound (eb_binv use_cl ctl interest) (eb_view interest) b" "clocks_documented E" "deletions_work (epoll_env use_cl ctl sig_ok E)"
    "i < n_common_timeouts b" "heap_n (timeheap b) + 1 < 2 ^ 31"
  shows "\<exists>b' b2 es now. common_timeout_callback (epoll_env use_cl ctl sig_ok E) b i = Some b' \<and>
    sound (eb_binv use_cl ctl interest) (eb_view interest) b' \<and> fired b es b2 \<and>
    tv_normal now \<and> time_now E b now \<and> distinct es \<and>
    sorted (map (\<lambda>e. real_timeout (ev_timeout (evs b e))) es) \<and>
    set es = {e \<in> set (ctl_events (common_timeout_queues b ! i)). real_timeout (ev_timeout (evs b e)) \<le> now} \<and>
    set (ctl_events (common_timeout_queues b2 ! i)) =
      {e \<in> set (ctl_events (common_timeout_queues b ! i)). now < real_timeout (ev_timeout (evs b e))} \<and>
    (if ctl_events (common_timeout_queues b2 ! i) = [] then b' = b2
     else event_step {ctl_timeout_event (common_timeout_queues b ! i)} b2 b' \<and>
       ((\<forall>n. m_realloc E n) \<longrightarrow>
          (\<exists>h \<in> set (ctl_events (common_timeout_queues b2 ! i)). rescheduled b' i (real_timeout (ev_timeout (evs b h))) \<and>
             (\<forall>x \<in> set (ctl_events (common_timeout_queues b2 ! i)).
                real_timeout (ev_timeout (evs b h)) \<le> real_timeout (ev_timeout (evs b x))))))"
proof -
  have clk: "clocks_documented (epoll_env use_cl ctl sig_ok E)" using assms(2) by simp
  show ?thesis using epoll_base.common_timeout_callback_spec [OF assms(1,3) clk assms(4,5), unfolded epoll_env_fields] by blast
qed

text \<open>
  Event 3 is added with a common timeout of ten seconds at second 102; its list's timer, event 7,
  fires early, at second 105: no event is due, and the timer is pending again, for second 112.
\<close>

lemma demo_common:
  obtains b1 d b2 where "event_base_init_common_timeout True demo_base 7 (Timeval 10 0) = Some (b1, Some d)"
    "event_add demo_epoll (fst (event_assign b1 3 (-1) 0)) 3 (Some d) = Some (b2, 0)" "good demo_binv demo_view {3, 7} b2"
    "n_common_timeouts b2 = 1" "set (ctl_events (common_timeout_queues b2 ! 0)) = {3}"
    "real_timeout (ev_timeout (evs b2 3)) = Timeval 112 0"
proof -
  have du: "common_duration demo_base (Timeval 10 0) = Timeval 10 0" by (simp add: common_duration_def)
  have nt: "7 \<notin> timers demo_base" by (simp add: demo_unlisted)
  obtain b1 d where b1: "event_base_init_common_timeout True demo_base 7 (Timeval 10 0) = Some (b1, Some d)"
    "sound demo_binv demo_view b1" "is_common_timeout d b1" "real_timeout d = Timeval 10 0" "n_common_timeouts b1 = 1"
    "timers b1 = {7}" "unlisted b1 7" "\<forall>x. x \<noteq> 7 \<longrightarrow> evs b1 x = evs demo_base x" "common_timeout_queues b1 = [\<lparr>ctl_events = [], ctl_duration = d, ctl_timeout_event = 7\<rparr>]"
    using sound_init_common [OF demo_sound demo_unlisted(1) nt, of "Timeval 10 0", unfolded du]
    by (auto simp: demo_base_ok demo_unlisted MAX_COMMON_TIMEOUTS_def)
  have un: "unlisted b1 x" for x using b1(7,8) demo_unlisted(1) [of x] by (cases "x = 7") (simp_all add: unlisted_def)
  obtain b0 where b0: "event_assign b1 3 (-1) 0 = (b0, 0)"
    by (simp add: event_assign_def Let_def ev_flag_defs has_flag_def)
  have t3: "3 \<notin> timers b1" using b1(6) by simp
  note a = sound_assign [OF b1(2) un t3 b0]
  have others: "\<forall>x. unlisted b0 x" using a(2,7) un by (metis unlisted_def)
  have q0: "common_timeout_queues b0 = common_timeout_queues b1" by (rule assign_fields(6) [OF b0])
  have c0: "is_common_timeout d b0" using b1(3) q0 by (simp add: is_common_timeout_def split: if_splits)
  have d: "d = Timeval 10 (0 OR COMMON_TIMEOUT_MAGIC OR push_bit COMMON_TIMEOUT_IDX_SHIFT (int 0))"
    using b1(1) by (simp add: event_base_init_common_timeout_def du demo_base_ok Let_def MAX_COMMON_TIMEOUTS_def split: if_splits)
  then have u32: "usec_32 d" by (simp add: usec_32_def COMMON_TIMEOUT_MAGIC_def)
  have tv: "tv_ok False d b0" "tv_normal (real_timeout d)" using c0 u32 b1(4) by (simp_all add: tv_ok_def tv_normal_def)
  have "heap_n (timeheap b0) = 0" by (rule demo_empty_heap [OF a(1)]) (use others in \<open>simp add: unlisted_def\<close>)
  then have ok: "add_ok demo_epoll b0 3 (Some d) False"
    using a(2,3,8) tv b1(6) by (simp add: add_ok_def unlisted_def)
  have nt0: "3 \<notin> timers b0" using a(3) t3 by simp
  obtain b2 r where b2: "event_add_nolock demo_epoll b0 3 (Some d) False = Some (b2, r)" "sound demo_binv demo_view b2"
    "event_step (add_touches b0 3 (Some d) r) b0 b2" "r = 0 \<or> r = -1" "r = 0 \<longrightarrow> added demo_epoll b0 b2 3 (Some d) False"
    using epoll_base.sound_add [OF a(1) demo_clocks [unfolded demo_epoll_def] ok [unfolded demo_epoll_def] a(4,5) _ nt0] tv
    unfolding demo_epoll_def by blast
  have e0: "ev_events (evs b0 3) = 0" by (rule event_assign_spec(6) [OF soundD(1) [OF b1(2)] un t3 b0])
  have r: "r = 0"
    using event_add_quiet_works [OF b2(1) [unfolded event_add_nolock_def] e0] b2(4) a(6) by (simp add: demo_epoll_def epoll_env_def demo_env_def)
  have clk: "tv_sec (tv_cache b0) = 0" "clock_reads b0 = 2"
    using b0 b1(1) demo_time by (auto simp: event_assign_def event_base_init_common_timeout_def event_priority_set_def set_ev_flag_def upd_ev_def Let_def split: if_splits option.splits)
  obtain now where now: "time_now demo_epoll b0 now" "due_time False (is_common_timeout d b0) now d (ev_timeout (evs b2 3))" "fl b2 EVLIST_TIMEOUT 3"
    using b2(5) r by (auto simp: added_def)
  let ?t = "ev_timeout (evs b2 3)"
  have "now = Timeval 102 0" using now(1) clk by (simp add: time_now_def demo_epoll_def epoll_env_def demo_env_def)
  then have due: "is_same_common_timeout ?t d" "tv_normal (real_timeout ?t)" "tv_usecs (real_timeout ?t) = tv_usecs (Timeval 112 0)"
    using now(2) c0 tv(2) b1(4) by (simp_all add: due_time_def tv_usecs_def)
  then have rt: "real_timeout ?t = Timeval 112 0" by (intro tv_usecs_inj) (simp_all add: tv_normal_def)
  have n2: "n_common_timeouts b2 = 1" "timers b2 = {7}" using event_step_timers [OF b2(3)] q0 b1(5,6) a(3) by simp_all
  have t2: "timeouts_ok b2" "ctls_ok b2" using soundD(1) [OF b2(2)] by (simp_all add: base_inv_def queues_inv_def)
  have touch: "add_touches b0 3 (Some d) r = {3, 7}" using r c0 a(3) b1(6) by (simp add: add_touches_def)
  have listed: "x \<in> {3, 7}" if "\<not> unlisted b2 x" for x
  proof (rule ccontr)
    assume n: "x \<notin> {3, 7}"
    then have "unlisted b2 x = unlisted b0 x" using event_stepD(5) [OF b2(3), of x] by (simp add: unlisted_def touch)
    then show False using that others by simp
  qed
  have "tv_usec ?t AND NOT MICROSECONDS_MASK \<noteq> 0"
    using due(1) d by (simp add: is_same_common_timeout_def MICROSECONDS_MASK_def COMMON_TIMEOUT_MAGIC_def)
  then have "\<not> tv_small ?t" using or_high_mask(2) [of "tv_usec ?t" 0] by (auto simp: tv_small_def)
  then have "3 \<notin> heap_elems (timeheap b2)" using t2(1) by (auto simp: timeouts_ok_def)
  then have in3: "3 \<in> set (ctl_events (common_timeout_queues b2 ! 0))" using t2(1) now(3) n2(1) by (auto simp: timeouts_ok_def)
  have "x = 3" if x: "x \<in> set (ctl_events (common_timeout_queues b2 ! 0))" for x
  proof -
    note f = ctl_facts [OF t2(1) _ x, unfolded n2(1), OF zero_less_one]
    have "x \<noteq> 7" using f(2) t2(2) small_not_common n2(2) by (auto simp: ctls_ok_def)
    then show ?thesis using listed [of x] f(1) by (auto simp: unlisted_def)
  qed
  then have l: "set (ctl_events (common_timeout_queues b2 ! 0)) = {3}" using in3 by blast
  have "good demo_binv demo_view {3, 7} b2" using b2(2) listed n2(2) by (auto simp: good_def)
  then show thesis using that b1(1) b2(1) b0 r n2(1) l rt by (simp add: event_add_def)
qed

theorem common_timeout_callback_correct_witness:
  "\<exists>b1 d b2 b'. event_base_init_common_timeout True demo_base 7 (Timeval 10 0) = Some (b1, Some d) \<and>
    event_add demo_epoll (fst (event_assign b1 3 (-1) 0)) 3 (Some d) = Some (b2, 0) \<and>
    common_timeout_callback demo_epoll (b2\<lparr>tv_cache := Timeval 105 0\<rparr>) 0 = Some b' \<and> rescheduled b' 0 (Timeval 112 0)"
proof -
  obtain b1 d b2 where b: "event_base_init_common_timeout True demo_base 7 (Timeval 10 0) = Some (b1, Some d)"
    "event_add demo_epoll (fst (event_assign b1 3 (-1) 0)) 3 (Some d) = Some (b2, 0)" "good demo_binv demo_view {3, 7} b2"
    "n_common_timeouts b2 = 1" "set (ctl_events (common_timeout_queues b2 ! 0)) = {3}" "real_timeout (ev_timeout (evs b2 3)) = Timeval 112 0"
    by (rule demo_common)
  let ?b = "b2\<lparr>tv_cache := Timeval 105 0\<rparr>"
  have g: "good demo_binv demo_view {3, 7} ?b" by (rule good_set_cache [OF b(3)]) (simp add: tv_normal_def)
  have i: "0 < n_common_timeouts ?b" using b(4) by simp
  have now: "now = Timeval 105 0" if "time_now demo_env ?b now" for now using that by (simp add: time_now_def)
  have lt: "Timeval 105 0 < Timeval 112 0" "\<not> Timeval 112 0 \<le> Timeval 105 0" by (simp_all add: timeval_less_code timeval_le_code)
  have set3: "{e \<in> set (ctl_events (common_timeout_queues ?b ! 0)). Timeval 105 0 < real_timeout (ev_timeout (evs ?b e))} = {3}"
    using b(5,6) lt by auto
  obtain b' b3 now where c: "common_timeout_callback demo_epoll ?b 0 = Some b'" "time_now demo_env ?b now"
    "set (ctl_events (common_timeout_queues b3 ! 0)) =
      {e \<in> set (ctl_events (common_timeout_queues ?b ! 0)). now < real_timeout (ev_timeout (evs ?b e))}"
    "if ctl_events (common_timeout_queues b3 ! 0) = [] then b' = b3
     else event_step {ctl_timeout_event (common_timeout_queues ?b ! 0)} b3 b' \<and>
       ((\<forall>n. m_realloc demo_env n) \<longrightarrow>
          (\<exists>h \<in> set (ctl_events (common_timeout_queues b3 ! 0)). rescheduled b' 0 (real_timeout (ev_timeout (evs ?b h))) \<and>
             (\<forall>x \<in> set (ctl_events (common_timeout_queues b3 ! 0)).
                real_timeout (ev_timeout (evs ?b h)) \<le> real_timeout (ev_timeout (evs ?b x)))))"
    using common_timeout_callback_correct [OF goodD(1) [OF g] demo_docs(1,2) [unfolded demo_epoll_def] i good_room [OF g]]
    unfolding demo_epoll_def [symmetric] by blast
  have s3: "set (ctl_events (common_timeout_queues b3 ! 0)) = {3}" using c(3) unfolding now [OF c(2)] set3 .
  then have "ctl_events (common_timeout_queues b3 ! 0) \<noteq> []" by auto
  then have "rescheduled b' 0 (Timeval 112 0)" using c(4) s3 b(6) by (simp add: demo_env_def)
  then show ?thesis using b(1,2) c(1) by blast
qed

section \<open>Running the loop\<close>

text \<open>
  C8. With callbacks that return and leave a sound base, every round of the loop over epoll
  returns, whatever the callbacks add, delete or activate, and leaves a sound base: no queue is
  worked off forever.
\<close>

theorem loop_round_returns:
  assumes "good (eb_binv use_cl ctl interest) (eb_view interest) U b" "clocks_documented E" "epoll_wait_documented wait interest"
    "deletions_work (epoll_env use_cl ctl sig_ok E)" "callbacks_ok (good (eb_binv use_cl ctl interest) (eb_view interest) U) C"
  shows "\<exists>r. loop_round (epoll_poll ctl wait (epoll_env use_cl ctl sig_ok E)) (epoll_env use_cl ctl sig_ok E) C flags u b = Some r \<and>
    (case r of Inl (u', b', res) \<Rightarrow> good (eb_binv use_cl ctl interest) (eb_view interest) U b' \<and> res \<in> {-1, 0, 1}
     | Inr (u', b') \<Rightarrow> good (eb_binv use_cl ctl interest) (eb_view interest) U b')"
proof -
  have clk: "clocks_documented (epoll_env use_cl ctl sig_ok E)" using assms(2) by simp
  note d = poll_dispatch_ok [OF assms(3), of use_cl ctl U "epoll_env use_cl ctl sig_ok E"]
  obtain r where r: "loop_round (epoll_poll ctl wait (epoll_env use_cl ctl sig_ok E)) (epoll_env use_cl ctl sig_ok E) C flags u b = Some r"
    "case r of Inl (u', b', res) \<Rightarrow> good (eb_binv use_cl ctl interest) (eb_view interest) U b' \<and> kept b b' \<and> res \<in> {-1, 0, 1}
     | Inr (u', b') \<Rightarrow> good (eb_binv use_cl ctl interest) (eb_view interest) U b' \<and> kept b b'"
    using epoll_base.loop_round_spec [OF assms(1,4) clk assms(5) d] by blast
  then show ?thesis by (auto split: sum.splits)
qed

theorem loop_round_returns_witness:
  "\<exists>b r. activequeues b = [[3]] \<and> loop_round (epoll_poll table_ctl (\<lambda>k n t. (k, Inl EINTR)) demo_epoll) demo_epoll recording 0 [] b = Some r"
proof -
  obtain b where b: "good demo_binv demo_view {3} b" "activequeues b = [[3]]" by (rule demo_active)
  show ?thesis
    using loop_round_returns [OF b(1) demo_docs(1) demo_wait demo_docs(2) [unfolded demo_epoll_def] recording_ok] b(2)
    unfolding demo_epoll_def [symmetric] by blast
qed

text \<open>
  C9. One pass over the active queue of a priority takes its events off in order, up to the limit
  of callbacks (but at least one), and calls each one's callback with its descriptor and its
  reasons: once, or for a signal event as often as the signal was caught. The rest of the queue
  and the other queues stay as they are. This is for a pass without a time limit over events of
  the program that no closure adds again, with callbacks that only record their calls, and with
  no request to break or to continue pending.
\<close>

theorem active_queue_runs_in_order:
  assumes "good (eb_binv use_cl ctl interest) (eb_view interest) U b" "deletions_work (epoll_env use_cl ctl sig_ok E)"
    "i < nactivequeues b" "\<forall>e \<in> set (activequeues b ! i). plain_event b e" "\<not> event_break b" "\<not> event_continue b"
  shows "\<exists>b' n. n = min (length (activequeues b ! i)) (nat (max 1 max_to_process)) \<and>
    process_queue (epoll_env use_cl ctl sig_ok E) recording i max_to_process None 0 [] b =
      Some (concat (map (\<lambda>e. calls_due (evs b e) e) (take n (activequeues b ! i))), b', int n) \<and>
    good (eb_binv use_cl ctl interest) (eb_view interest) U b' \<and>
    activequeues b' = (activequeues b)[i := drop n (activequeues b ! i)] \<and> active_later_queue b' = active_later_queue b \<and>
    (\<forall>e \<in> set (take n (activequeues b ! i)). \<not> fl b' EVLIST_ACTIVE e)"
  using epoll_base.process_queue_records [OF assms(2,1,3) refl assms(4-6), of 0 max_to_process "[]"]
  by (auto simp: taken_def round_frame_def)

theorem active_queue_runs_in_order_witness:
  "\<exists>b b'. activequeues b = [[3]] \<and> process_queue demo_epoll recording 0 10 None 0 [] b = Some ([(3, -1, EV_TIMEOUT)], b', 1) \<and>
    activequeues b' = [[]]"
proof -
  obtain b where b: "good demo_binv demo_view {3} b" "activequeues b = [[3]]" "timers b = {}"
    "ev_closure (evs b 3) = EV_CLOSURE_EVENT" "ev_fd (evs b 3) = -1" "ev_res (evs b 3) = EV_TIMEOUT"
    "\<not> event_break b" "\<not> event_continue b"
    by (rule demo_active)
  have p: "\<forall>e \<in> set (activequeues b ! 0). plain_event b e" using b(2-4) by (simp add: plain_event_def)
  show ?thesis
    using active_queue_runs_in_order [OF b(1) demo_docs(2) [unfolded demo_epoll_def] _ p b(7,8), of 10] b(2,4-6)
    unfolding demo_epoll_def [symmetric] by (auto simp: calls_due_def)
qed


lemma empty_loop:
  assumes g: "good binv view U b" and clk: "clocks_documented E" and idle: "\<not> running_loop b" "N_ACTIVE_CALLBACKS b = 0"
    "\<not> event_haveevents b" and flags: "flags AND EVLOOP_NO_EXIT_ON_EMPTY = 0"
  shows "\<exists>b'. event_base_loop dispatch E C flags u b = Some (u, b', 1) \<and> evs b' = evs b"
proof -
  define b0 where "b0 = ((clear_time_cache (b\<lparr>running_loop := True\<rparr>))\<lparr>event_gotterm := False, event_break := False\<rparr>)"
  define b1 where "b1 = b0\<lparr>event_continue := False, n_deferreds_queued := 0\<rparr>"
  have "good binv view U (clear_time_cache (b\<lparr>running_loop := True\<rparr>))" by (rule good_caches(1) [OF _ clk]) (use g in simp)
  then have g1: "good binv view U b1" by (simp add: b1_def b0_def)
  have f1: "evs b1 = evs b" "N_ACTIVE_CALLBACKS b1 = 0" "\<not> event_gotterm b1" "\<not> event_break b1"
    "event_haveevents b1 = event_haveevents b"
    using idle(2) by (simp_all add: b1_def b0_def clear_time_cache_def event_haveevents_def)
  obtain b2 tv where b2: "(if N_ACTIVE_CALLBACKS b1 = 0 \<and> flags AND EVLOOP_NONBLOCK = 0 then timeout_next E b1 else Some (b1, Some evutil_timerclear)) = Some (b2, tv)"
    "clock_step b1 b2 \<and> event_count b2 = event_count b1"
  proof -
    obtain b' t where "timeout_next E b1 = Some (b', t)" "clock_step b1 b'" using timeout_next_spec [OF goodD(5) [OF g1] clk] by blast
    then show thesis
      by (cases "N_ACTIVE_CALLBACKS b1 = 0 \<and> flags AND EVLOOP_NONBLOCK = 0") (use that in \<open>auto simp: clock_step_def\<close>)
  qed
  have f2: "evs b2 = evs b" "N_ACTIVE_CALLBACKS b2 = 0" "\<not> event_haveevents b2"
    using b2(2) f1 idle(3) by (simp_all add: clock_step_def event_haveevents_def)
  have "loop_round dispatch E C flags u b0 = Some (Inl (u, b2, 1))"
    using b2(1) f1(2-4) f2(2,3) flags by (simp add: loop_round_def b1_def [symmetric] Let_def)
  then have "loop_rounds dispatch E C flags u b0 = Some (u, b2, 1)" by (subst loop_rounds.simps) simp
  then have "event_base_loop dispatch E C flags u b = Some (u, (clear_time_cache b2)\<lparr>running_loop := False\<rparr>, 1)"
    using idle(1) by (simp add: event_base_loop_def b0_def [symmetric])
  then show ?thesis using f2(1) by (simp add: clear_time_cache_def)
qed

text \<open>
  C11. \<open>event_base_loop\<close> refuses to run inside itself with -1 and no change; with nothing to wait
  for it returns 1 at once; and whenever it returns, the base is sound and no longer running.
\<close>

theorem event_base_loop_correct:
  fixes u :: 'u and flags :: int
  assumes "good (eb_binv use_cl ctl interest) (eb_view interest) U b" "clocks_documented E" "epoll_wait_documented wait interest"
    "deletions_work (epoll_env use_cl ctl sig_ok E)" "callbacks_ok (good (eb_binv use_cl ctl interest) (eb_view interest) U) C"
  defines "loop \<equiv> event_base_loop (epoll_poll ctl wait (epoll_env use_cl ctl sig_ok E)) (epoll_env use_cl ctl sig_ok E) C flags u b"
  shows "if running_loop b then loop = Some (u, b, -1)
    else (N_ACTIVE_CALLBACKS b = 0 \<and> \<not> event_haveevents b \<and> flags AND EVLOOP_NO_EXIT_ON_EMPTY = 0 \<longrightarrow>
        (\<exists>b'. loop = Some (u, b', 1) \<and> evs b' = evs b)) \<and>
      (\<forall>u' b' r. loop = Some (u', b', r) \<longrightarrow>
        good (eb_binv use_cl ctl interest) (eb_view interest) U b' \<and> \<not> running_loop b' \<and> r \<in> {-1, 0, 1})"
proof (cases "running_loop b")
  case True
  then show ?thesis by (simp add: loop_def event_base_loop_def)
next
  case False
  have clk: "clocks_documented (epoll_env use_cl ctl sig_ok E)" using assms(2) by simp
  note d = poll_dispatch_ok [OF assms(3), of use_cl ctl U "epoll_env use_cl ctl sig_ok E"]
  let ?b0 = "((clear_time_cache (b\<lparr>running_loop := True\<rparr>))\<lparr>event_gotterm := False, event_break := False\<rparr>)"
  have "good (eb_binv use_cl ctl interest) (eb_view interest) U (clear_time_cache (b\<lparr>running_loop := True\<rparr>))"
    by (rule good_caches(1) [OF _ clk]) (use assms(1) in simp)
  then have g0: "good (eb_binv use_cl ctl interest) (eb_view interest) U ?b0" by simp
  have "good (eb_binv use_cl ctl interest) (eb_view interest) U b' \<and> \<not> running_loop b' \<and> r \<in> {-1, 0, 1}"
    if run: "loop = Some (u', b', r)" for u' b' r
  proof -
    obtain b1 where b1: "loop_rounds (epoll_poll ctl wait (epoll_env use_cl ctl sig_ok E)) (epoll_env use_cl ctl sig_ok E) C flags u ?b0 = Some (u', b1, r)"
      "b' = (clear_time_cache b1)\<lparr>running_loop := False\<rparr>"
      using run False by (auto simp: loop_def event_base_loop_def)
    have "good (eb_binv use_cl ctl interest) (eb_view interest) U b1 \<and> r \<in> {-1, 0, 1}"
      using epoll_base.loop_rounds_spec [OF b1(1) refl g0 assms(4) clk assms(5) d] by blast
    then show ?thesis using good_caches(1) [OF _ clk] b1(2) by auto
  qed
  then show ?thesis using empty_loop [OF assms(1) clk False] False unfolding loop_def by auto
qed

theorem event_base_loop_correct_witness:
  "event_base_loop (epoll_poll table_ctl (\<lambda>k n t. (k, Inl EINTR)) demo_epoll) demo_epoll recording 0 [] (demo_base\<lparr>running_loop := True\<rparr>) =
    Some ([], demo_base\<lparr>running_loop := True\<rparr>, -1)"
proof -
  have "good demo_binv demo_view {} demo_base"
    using demo_sound demo_unlisted by (simp add: good_def)
  then have g: "good demo_binv demo_view {} (demo_base\<lparr>running_loop := True\<rparr>)" by simp
  show ?thesis
    using event_base_loop_correct [OF g demo_docs(1) demo_wait demo_docs(2) [unfolded demo_epoll_def] recording_ok, of 0 "[]"]
    unfolding demo_epoll_def [symmetric] by simp
qed



end
