(* ===== verification/Ev_Chain.thy ===== *)
theory Ev_Chain
  imports Ev_Prelude
begin

text \<open>
  The data of \<open>evbuffer-internal.h\<close> and the helpers of \<open>buffer.c\<close> on chains: an evbuffer is a
  list of chains, each a piece of memory of which a part is in use. The content of a buffer,
  the bytes in use one chain after the other, is the abstraction all properties speak of.
\<close>

section \<open>Data\<close>

text \<open>
  \<open>struct evbuffer_chain\<close>: its memory (\<open>buffer_len\<close> bytes of it), the unused bytes before the
  data, the number of bytes of data, the flags. The list of a buffer takes the place of \<open>next\<close>;
  chains of files, and references to other chains with their counts, are not modelled.
\<close>

record chain =
  buffer :: "byte list"
  misalign :: nat
  off :: nat
  chain_flags :: u32

definition EVBUFFER_REFERENCE :: u32 where "EVBUFFER_REFERENCE = 0x0004"
definition EVBUFFER_IMMUTABLE :: u32 where "EVBUFFER_IMMUTABLE = 0x0008"
definition EVBUFFER_MEM_PINNED_R :: u32 where "EVBUFFER_MEM_PINNED_R = 0x0010"
definition EVBUFFER_MEM_PINNED_W :: u32 where "EVBUFFER_MEM_PINNED_W = 0x0020"
definition EVBUFFER_MEM_PINNED_ANY :: u32 where "EVBUFFER_MEM_PINNED_ANY = EVBUFFER_MEM_PINNED_R OR EVBUFFER_MEM_PINNED_W"

abbreviation buffer_len :: "chain \<Rightarrow> nat" where
  "buffer_len c \<equiv> length (buffer c)"

definition immutable :: "chain \<Rightarrow> bool" where
  "immutable c \<longleftrightarrow> chain_flags c AND EVBUFFER_IMMUTABLE \<noteq> 0"

definition CHAIN_PINNED :: "chain \<Rightarrow> bool" where
  "CHAIN_PINNED c \<longleftrightarrow> chain_flags c AND EVBUFFER_MEM_PINNED_ANY \<noteq> 0"

definition CHAIN_PINNED_R :: "chain \<Rightarrow> bool" where
  "CHAIN_PINNED_R c \<longleftrightarrow> chain_flags c AND EVBUFFER_MEM_PINNED_R \<noteq> 0"

definition CHAIN_SPACE_LEN :: "chain \<Rightarrow> nat" where
  "CHAIN_SPACE_LEN c = (if immutable c then 0 else buffer_len c - (misalign c + off c))"

text \<open>The callbacks of a buffer; a call is recorded with the function and its arguments.\<close>

record cb_entry =
  cb_func :: nat
  cb_flags :: u32

definition EVBUFFER_CB_ENABLED :: u32 where "EVBUFFER_CB_ENABLED = 1"
definition EVBUFFER_CB_NODEFER :: u32 where "EVBUFFER_CB_NODEFER = 2"
definition EVBUFFER_CB_OBSOLETE :: u32 where "EVBUFFER_CB_OBSOLETE = 0x00040000"

datatype cb_call =
    cb_obsolete nat (orig: nat) (new: nat)
  | cb_info nat (orig_size: nat) (n_added: nat) (n_deleted: nat)

text \<open>
  \<open>struct evbuffer\<close>. \<open>last_with_datap\<close> is the number of chains before the one it points to: 0 for
  \<open>&buf->first\<close>, \<open>i + 1\<close> for \<open>&next\<close> of chain \<open>i\<close>.
\<close>

record evbuffer =
  chains :: "chain list"
  last_with_datap :: nat
  total_len :: nat
  n_add_for_cb :: nat
  n_del_for_cb :: nat
  freeze_start :: bool
  freeze_end :: bool
  deferred_cbs :: bool
  deferred_scheduled :: bool
  cb_entries :: "cb_entry list"
  cb_calls :: "cb_call list"

definition evbuffer_new :: evbuffer where
  "evbuffer_new = \<lparr>chains = [], last_with_datap = 0, total_len = 0, n_add_for_cb = 0, n_del_for_cb = 0,
     freeze_start = False, freeze_end = False, deferred_cbs = False, deferred_scheduled = False,
     cb_entries = [], cb_calls = []\<rparr>"

section \<open>Memory\<close>

text \<open>\<open>malloc\<close> gives memory of any content, or none.\<close>

type_synonym malloc = "nat \<Rightarrow> byte list option"

definition malloc_documented :: "malloc \<Rightarrow> bool" where
  "malloc_documented m \<longleftrightarrow> (\<forall>n mem. m n = Some mem \<longrightarrow> length mem = n)"

text \<open>\<open>memcpy(mem + i, xs, length xs)\<close>.\<close>

definition put_bytes :: "nat \<Rightarrow> byte list \<Rightarrow> byte list \<Rightarrow> byte list" where
  "put_bytes i xs mem = take i mem @ xs @ drop (i + length xs) mem"

definition EVBUFFER_CHAIN_SIZE :: nat where "EVBUFFER_CHAIN_SIZE = 48"
definition EVBUFFER_CHAIN_MAX :: nat where "EVBUFFER_CHAIN_MAX = EV_SSIZE_MAX"
definition MIN_BUFFER_SIZE :: nat where "MIN_BUFFER_SIZE = 1024"
definition EVBUFFER_CHAIN_MAX_AUTO_SIZE :: nat where "EVBUFFER_CHAIN_MAX_AUTO_SIZE = 4096"
definition MAX_TO_COPY_IN_EXPAND :: nat where "MAX_TO_COPY_IN_EXPAND = 4096"
definition MAX_TO_REALIGN_IN_EXPAND :: nat where "MAX_TO_REALIGN_IN_EXPAND = 2048"

text \<open>The loop of \<open>evbuffer_chain_new\<close>, from a positive len.\<close>

function double_until :: "nat \<Rightarrow> nat \<Rightarrow> nat" where
  "double_until to_alloc len = (if 0 < to_alloc \<and> to_alloc < len then double_until (2 * to_alloc) len else to_alloc)"
  by pat_completeness auto
termination by (relation "measure (\<lambda>(a, len). len - a)") auto

declare double_until.simps [simp del]

lemma double_until_bounds:
  "0 < a \<Longrightarrow> len \<le> double_until a len \<and> double_until a len \<le> max a (2 * len)"
  by (induction a len rule: double_until.induct) (subst (1 2) double_until.simps, auto)

definition evbuffer_chain_new :: "malloc \<Rightarrow> nat \<Rightarrow> chain option" where
  "evbuffer_chain_new m len =
     (if len > EVBUFFER_CHAIN_MAX - EVBUFFER_CHAIN_SIZE then None
      else
        (let len' = len + EVBUFFER_CHAIN_SIZE;
             to_alloc = (if len' < EVBUFFER_CHAIN_MAX div 2 then double_until MIN_BUFFER_SIZE len' else len')
         in map_option (\<lambda>mem. \<lparr>buffer = drop EVBUFFER_CHAIN_SIZE mem, misalign = 0, off = 0, chain_flags = 0\<rparr>) (m to_alloc)))"

section \<open>The content\<close>

definition payload :: "chain \<Rightarrow> byte list" where
  "payload c = take (off c) (drop (misalign c) (buffer c))"

definition content :: "evbuffer \<Rightarrow> byte list" where
  "content b = concat (map payload (chains b))"

text \<open>
  The data of a chain lies in its memory; the memory is no larger than the largest that
  \<open>evbuffer_chain_new\<close> gives; no read or write of another thread has pinned it (only \<open>buffer_iocp.c\<close>, for Windows,
  does).
\<close>

definition chain_ok :: "chain \<Rightarrow> bool" where
  "chain_ok c \<longleftrightarrow> misalign c + off c \<le> buffer_len c \<and> buffer_len c \<le> EVBUFFER_CHAIN_MAX - EVBUFFER_CHAIN_SIZE \<and>
     \<not> CHAIN_PINNED c"

text \<open>
  A buffer is well formed when its chains are, its length is that of its content, and
  \<open>last_with_datap\<close> points to the last chain with data, or to the first when there is none.
\<close>

definition lwd_ok :: "chain list \<Rightarrow> nat \<Rightarrow> bool" where
  "lwd_ok cs l \<longleftrightarrow> (cs = [] \<longrightarrow> l = 0) \<and> (cs \<noteq> [] \<longrightarrow> l < length cs) \<and> (0 < l \<longrightarrow> off (cs ! l) \<noteq> 0) \<and>
     (\<forall>c \<in> set (drop (Suc l) cs). off c = 0)"

definition buffer_ok :: "evbuffer \<Rightarrow> bool" where
  "buffer_ok b \<longleftrightarrow> (\<forall>c \<in> set (chains b). chain_ok c) \<and> total_len b = length (content b) \<and> total_len b \<le> EV_SIZE_MAX \<and>
     lwd_ok (chains b) (last_with_datap b)"

lemma length_payload [simp]: "chain_ok c \<Longrightarrow> length (payload c) = off c"
  by (auto simp: payload_def chain_ok_def min_def)

lemma payload_empty [simp]: "off c = 0 \<Longrightarrow> payload c = []"
  by (simp add: payload_def)

lemma length_put_bytes [simp]: "i + length xs \<le> length mem \<Longrightarrow> length (put_bytes i xs mem) = length mem"
  by (simp add: put_bytes_def)

lemma buffer_okD:
  assumes "buffer_ok b"
  shows "c \<in> set (chains b) \<Longrightarrow> chain_ok c" "total_len b = length (content b)" "total_len b \<le> EV_SIZE_MAX"
    "lwd_ok (chains b) (last_with_datap b)"
  using assms by (simp_all add: buffer_ok_def)

lemma new_buffer_ok: "buffer_ok evbuffer_new" "content evbuffer_new = []"
  by (simp_all add: buffer_ok_def evbuffer_new_def content_def lwd_ok_def)

lemma chain_ok_unpinned: "chain_ok c \<Longrightarrow> \<not> CHAIN_PINNED c \<and> \<not> CHAIN_PINNED_R c"
proof -
  assume c: "chain_ok c"
  have R: "EVBUFFER_MEM_PINNED_R AND EVBUFFER_MEM_PINNED_ANY = EVBUFFER_MEM_PINNED_R"
    by (simp add: EVBUFFER_MEM_PINNED_ANY_def EVBUFFER_MEM_PINNED_R_def EVBUFFER_MEM_PINNED_W_def)
  have "chain_flags c AND EVBUFFER_MEM_PINNED_ANY = 0" using c by (simp add: chain_ok_def CHAIN_PINNED_def)
  then have "chain_flags c AND (EVBUFFER_MEM_PINNED_R AND EVBUFFER_MEM_PINNED_ANY) = 0"
    by (metis and.left_commute and_zero_eq)
  then show ?thesis using c by (simp add: R CHAIN_PINNED_R_def chain_ok_def)
qed

text \<open>A new chain has room for what was asked.\<close>

lemma chain_new_ok:
  assumes m: "malloc_documented m" and c: "evbuffer_chain_new m len = Some c"
  shows "chain_ok c" "off c = 0" "misalign c = 0" "chain_flags c = 0" "len \<le> buffer_len c" "buffer_len c \<le> EVBUFFER_CHAIN_MAX - EVBUFFER_CHAIN_SIZE"
    "\<not> immutable c" "\<not> CHAIN_PINNED c" "\<not> CHAIN_PINNED_R c"
proof -
  define to_alloc where "to_alloc = (let len' = len + EVBUFFER_CHAIN_SIZE in
    if len' < EVBUFFER_CHAIN_MAX div 2 then double_until MIN_BUFFER_SIZE len' else len')"
  obtain mem where mem: "m to_alloc = Some mem" "c = \<lparr>buffer = drop EVBUFFER_CHAIN_SIZE mem, misalign = 0, off = 0, chain_flags = 0\<rparr>"
    "len \<le> EVBUFFER_CHAIN_MAX - EVBUFFER_CHAIN_SIZE"
    using c by (auto simp: evbuffer_chain_new_def to_alloc_def Let_def split: if_splits)
  have len: "length mem = to_alloc" using m mem(1) by (simp add: malloc_documented_def)
  have big: "EVBUFFER_CHAIN_SIZE \<le> EVBUFFER_CHAIN_MAX" "MIN_BUFFER_SIZE \<le> EVBUFFER_CHAIN_MAX"
    by (simp_all add: EVBUFFER_CHAIN_SIZE_def EVBUFFER_CHAIN_MAX_def EV_SSIZE_MAX_def MIN_BUFFER_SIZE_def)
  have "0 < MIN_BUFFER_SIZE" by (simp add: MIN_BUFFER_SIZE_def)
  then have "len + EVBUFFER_CHAIN_SIZE \<le> to_alloc \<and> to_alloc \<le> EVBUFFER_CHAIN_MAX"
    using double_until_bounds [of MIN_BUFFER_SIZE "len + EVBUFFER_CHAIN_SIZE"] mem(3) big by (auto simp: to_alloc_def Let_def)
  then show "len \<le> buffer_len c" "buffer_len c \<le> EVBUFFER_CHAIN_MAX - EVBUFFER_CHAIN_SIZE" "chain_ok c" using mem(2) len
    by (auto simp: chain_ok_def CHAIN_PINNED_def)
  show "off c = 0" "misalign c = 0" "chain_flags c = 0" using mem(2) by simp_all
  then show "\<not> immutable c" "\<not> CHAIN_PINNED c" "\<not> CHAIN_PINNED_R c" by (simp_all add: immutable_def CHAIN_PINNED_def CHAIN_PINNED_R_def)
qed

end
