(* ===== verification/Ev_Buffer.thy ===== *)
theory Ev_Buffer
  imports Ev_Chain
begin

text \<open>
  The operations of \<open>buffer.c\<close> that add data to an evbuffer and take it out. The result is \<open>None\<close>
  when an assertion fails or a null pointer is followed.
\<close>

section \<open>Callbacks\<close>

text \<open>
  \<open>evbuffer_run_callbacks\<close>: which callbacks run, and what they are told. They are recorded in
  order; callbacks that change the buffer themselves are not modelled.
\<close>

definition evbuffer_run_callbacks :: "bool \<Rightarrow> evbuffer \<Rightarrow> evbuffer" where
  "evbuffer_run_callbacks running_deferred b =
     (let mask = (if running_deferred \<or> deferred_cbs b then EVBUFFER_CB_NODEFER OR EVBUFFER_CB_ENABLED else EVBUFFER_CB_ENABLED);
          masked_val = (if running_deferred then EVBUFFER_CB_ENABLED
                        else if deferred_cbs b then EVBUFFER_CB_NODEFER OR EVBUFFER_CB_ENABLED else EVBUFFER_CB_ENABLED);
          clear = (running_deferred \<or> \<not> deferred_cbs b)
      in if cb_entries b = [] then b\<lparr>n_add_for_cb := 0, n_del_for_cb := 0\<rparr>
         else if n_add_for_cb b = 0 \<and> n_del_for_cb b = 0 then b
         else
           (let orig = total_len b + n_del_for_cb b - n_add_for_cb b;
                run = filter (\<lambda>e. cb_flags e AND mask = masked_val) (cb_entries b);
                call = (\<lambda>e. if cb_flags e AND EVBUFFER_CB_OBSOLETE \<noteq> 0 then cb_obsolete (cb_func e) orig (total_len b)
                            else cb_info (cb_func e) orig (n_add_for_cb b) (n_del_for_cb b))
            in b\<lparr>n_add_for_cb := (if clear then 0 else n_add_for_cb b),
                 n_del_for_cb := (if clear then 0 else n_del_for_cb b),
                 cb_calls := cb_calls b @ map call run\<rparr>))"

definition evbuffer_invoke_callbacks :: "evbuffer \<Rightarrow> evbuffer" where
  "evbuffer_invoke_callbacks b =
     (if cb_entries b = [] then b\<lparr>n_add_for_cb := 0, n_del_for_cb := 0\<rparr>
      else evbuffer_run_callbacks False (if deferred_cbs b then b\<lparr>deferred_scheduled := True\<rparr> else b))"

definition evbuffer_deferred_callback :: "evbuffer \<Rightarrow> evbuffer" where
  "evbuffer_deferred_callback b = evbuffer_run_callbacks True (b\<lparr>deferred_scheduled := False\<rparr>)"

section \<open>Chains of a buffer\<close>

definition evbuffer_get_length :: "evbuffer \<Rightarrow> nat" where
  "evbuffer_get_length b = total_len b"

definition evbuffer_get_contiguous_space :: "evbuffer \<Rightarrow> nat" where
  "evbuffer_get_contiguous_space b = (case chains b of [] \<Rightarrow> 0 | c # _ \<Rightarrow> off c)"

definition evbuffer_freeze :: "bool \<Rightarrow> evbuffer \<Rightarrow> evbuffer" where
  "evbuffer_freeze start b = (if start then b\<lparr>freeze_start := True\<rparr> else b\<lparr>freeze_end := True\<rparr>)"

definition evbuffer_unfreeze :: "bool \<Rightarrow> evbuffer \<Rightarrow> evbuffer" where
  "evbuffer_unfreeze start b = (if start then b\<lparr>freeze_start := False\<rparr> else b\<lparr>freeze_end := False\<rparr>)"

definition evbuffer_chains_all_empty :: "chain list \<Rightarrow> bool" where
  "evbuffer_chains_all_empty cs \<longleftrightarrow> (\<forall>c \<in> set cs. off c = 0)"

text \<open>The chains that stay; the result pointer is the one at their end.\<close>

definition evbuffer_free_trailing_empty_chains :: "evbuffer \<Rightarrow> chain list option" where
  "evbuffer_free_trailing_empty_chains b =
     (let l = last_with_datap b;
          k = l + length (takeWhile (\<lambda>c. off c \<noteq> 0 \<or> CHAIN_PINNED c) (drop l (chains b)))
      in if evbuffer_chains_all_empty (drop k (chains b)) then Some (take k (chains b)) else None)"

definition evbuffer_chain_insert :: "evbuffer \<Rightarrow> chain \<Rightarrow> evbuffer option" where
  "evbuffer_chain_insert b c =
     map_option (\<lambda>b1. b1\<lparr>total_len := total_len b + off c\<rparr>)
       (if \<not> last_with_datap b < length (chains b)
        then (if last_with_datap b = 0 \<and> chains b = [] then Some (b\<lparr>chains := [c]\<rparr>) else None)
        else
          map_option (\<lambda>cs. b\<lparr>chains := cs @ [c], last_with_datap := (if off c \<noteq> 0 then length cs else last_with_datap b)\<rparr>)
            (evbuffer_free_trailing_empty_chains b))"

text \<open>\<open>None\<close> inside: no memory.\<close>

definition evbuffer_chain_insert_new :: "malloc \<Rightarrow> evbuffer \<Rightarrow> nat \<Rightarrow> evbuffer option option" where
  "evbuffer_chain_insert_new m b datlen =
     (case evbuffer_chain_new m datlen of None \<Rightarrow> Some None | Some c \<Rightarrow> map_option Some (evbuffer_chain_insert b c))"

text \<open>The loop of \<open>advance_last_with_data\<close>: the last chain with data after the first of the list, as its distance.\<close>

fun last_data :: "nat \<Rightarrow> nat \<Rightarrow> chain list \<Rightarrow> nat" where
  "last_data l i [] = l"
| "last_data l i (c # cs) = last_data (if off c \<noteq> 0 then i else l) (i + 1) cs"

definition advance_last_with_data :: "evbuffer \<Rightarrow> evbuffer" where
  "advance_last_with_data b =
     (if \<not> last_with_datap b < length (chains b) then b
      else b\<lparr>last_with_datap := last_data (last_with_datap b) (last_with_datap b + 1) (drop (last_with_datap b + 1) (chains b))\<rparr>)"

section \<open>Adding data\<close>

text \<open>\<open>memcpy(CHAIN_SPACE_PTR(chain), data, len)\<close> with the new length.\<close>

definition append_bytes :: "byte list \<Rightarrow> chain \<Rightarrow> chain" where
  "append_bytes xs c = c\<lparr>buffer := put_bytes (misalign c + off c) xs (buffer c), off := off c + length xs\<rparr>"

definition evbuffer_chain_should_realign :: "chain \<Rightarrow> nat \<Rightarrow> bool" where
  "evbuffer_chain_should_realign c datlen \<longleftrightarrow>
     buffer_len c - off c \<ge> datlen \<and> off c < buffer_len c div 2 \<and> off c \<le> MAX_TO_REALIGN_IN_EXPAND"

definition evbuffer_chain_align :: "chain \<Rightarrow> chain option" where
  "evbuffer_chain_align c =
     (if immutable c \<or> CHAIN_PINNED c then None
      else Some (c\<lparr>buffer := put_bytes 0 (payload c) (buffer c), misalign := 0\<rparr>))"

definition set_chain :: "nat \<Rightarrow> chain \<Rightarrow> evbuffer \<Rightarrow> evbuffer" where
  "set_chain i c b = b\<lparr>chains := (chains b)[i := c]\<rparr>"

definition added_len :: "nat \<Rightarrow> evbuffer \<Rightarrow> evbuffer" where
  "added_len n b = b\<lparr>total_len := total_len b + n, n_add_for_cb := n_add_for_cb b + n\<rparr>"

text \<open>The end of \<open>evbuffer_add\<close>: chain \<open>i\<close> takes \<open>remain\<close> bytes, a new chain the others.\<close>

definition add_new_chain :: "malloc \<Rightarrow> evbuffer \<Rightarrow> nat \<Rightarrow> nat \<Rightarrow> byte list \<Rightarrow> (evbuffer \<times> int) option" where
  "add_new_chain m b i remain data =
     (let c = chains b ! i;
          to_alloc0 = (if buffer_len c \<le> EVBUFFER_CHAIN_MAX_AUTO_SIZE div 2 then 2 * buffer_len c else buffer_len c);
          to_alloc = (if length data > to_alloc0 then length data else to_alloc0)
      in case evbuffer_chain_new m to_alloc of
           None \<Rightarrow> Some (b, -1)
         | Some tmp \<Rightarrow>
             (let b1 = (if remain \<noteq> 0 then added_len remain (set_chain i (append_bytes (take remain data) c) b) else b);
                  rest = drop remain data;
                  tmp' = tmp\<lparr>buffer := put_bytes 0 rest (buffer tmp), off := length rest\<rparr>
              in map_option (\<lambda>b2. (evbuffer_invoke_callbacks (b2\<lparr>n_add_for_cb := n_add_for_cb b2 + length rest\<rparr>), 0))
                   (evbuffer_chain_insert b1 tmp')))"

text \<open>The part of \<open>evbuffer_add\<close> after the first chain is there, in chain \<open>i\<close>.\<close>

definition add_to_chain :: "malloc \<Rightarrow> evbuffer \<Rightarrow> nat \<Rightarrow> byte list \<Rightarrow> (evbuffer \<times> int) option" where
  "add_to_chain m b i data =
     (let c = chains b ! i; datlen = length data; remain = buffer_len c - misalign c - off c
      in if immutable c then add_new_chain m b i 0 data
         else if misalign c > EVBUFFER_CHAIN_MAX then None
         else if remain \<ge> datlen
         then Some (evbuffer_invoke_callbacks (added_len datlen (set_chain i (append_bytes data c) b)), 0)
         else if \<not> CHAIN_PINNED c \<and> evbuffer_chain_should_realign c datlen
         then map_option (\<lambda>c'. (evbuffer_invoke_callbacks (added_len datlen (set_chain i (append_bytes data c') b)), 0))
                (evbuffer_chain_align c)
         else add_new_chain m b i remain data)"

definition evbuffer_add :: "malloc \<Rightarrow> evbuffer \<Rightarrow> byte list \<Rightarrow> (evbuffer \<times> int) option" where
  "evbuffer_add m b data =
     (if freeze_end b then Some (b, -1)
      else if length data > EV_SIZE_MAX - total_len b then Some (b, -1)
      else if chains b = [] then
        Option.bind (evbuffer_chain_insert_new m b (length data)) (\<lambda>r.
          case r of None \<Rightarrow> Some (b, -1) | Some b1 \<Rightarrow> add_to_chain m b1 0 data)
      else add_to_chain m b (if last_with_datap b < length (chains b) then last_with_datap b else length (chains b) - 1) data)"

text \<open>\<open>evbuffer_prepend\<close>; the data goes before the data of the first chain.\<close>

definition prepend_bytes :: "byte list \<Rightarrow> chain \<Rightarrow> chain" where
  "prepend_bytes xs c = c\<lparr>buffer := put_bytes (misalign c - length xs) xs (buffer c), off := off c + length xs,
     misalign := misalign c - length xs\<rparr>"

definition prepend_new_chain :: "malloc \<Rightarrow> evbuffer \<Rightarrow> byte list \<Rightarrow> (evbuffer \<times> int) option" where
  "prepend_new_chain m b data =
     (case evbuffer_chain_new m (length data) of
        None \<Rightarrow> Some (b, -1)
      | Some tmp \<Rightarrow>
          (let datlen = length data;
               l = last_with_datap b;
               l' = (if l = 0 then (if off (hd (chains b)) \<noteq> 0 then 1 else 0) else l + 1)
           in if \<not> datlen \<le> buffer_len tmp then None
              else
                (let mis = buffer_len tmp - datlen;
                     tmp' = tmp\<lparr>off := datlen, misalign := mis, buffer := put_bytes mis data (buffer tmp)\<rparr>
                 in Some (evbuffer_invoke_callbacks (added_len datlen (b\<lparr>chains := tmp' # chains b, last_with_datap := l'\<rparr>)), 0))))"

text \<open>The part of \<open>evbuffer_prepend\<close> after the first chain is there.\<close>

definition prepend_to_chain :: "malloc \<Rightarrow> evbuffer \<Rightarrow> byte list \<Rightarrow> (evbuffer \<times> int) option" where
  "prepend_to_chain m b data =
     (let c0 = hd (chains b);
          c = (if off c0 = 0 then c0\<lparr>misalign := buffer_len c0\<rparr> else c0)
      in if immutable c0 then prepend_new_chain m b data
         else if misalign c0 > EVBUFFER_CHAIN_MAX then None
         else if misalign c \<ge> length data
         then Some (evbuffer_invoke_callbacks (added_len (length data) (set_chain 0 (prepend_bytes data c) b)), 0)
         else if misalign c \<noteq> 0 then
           (let n = length data - misalign c
            in prepend_new_chain m (added_len (misalign c) (set_chain 0 (prepend_bytes (drop n data) c) b)) (take n data))
         else prepend_new_chain m (set_chain 0 c b) data)"

definition evbuffer_prepend :: "malloc \<Rightarrow> evbuffer \<Rightarrow> byte list \<Rightarrow> (evbuffer \<times> int) option" where
  "evbuffer_prepend m b data =
     (if length data = 0 then Some (b, 0)
      else if freeze_start b then Some (b, -1)
      else if length data > EV_SIZE_MAX - total_len b then Some (b, -1)
      else if chains b = [] then
        Option.bind (evbuffer_chain_insert_new m b (length data)) (\<lambda>r.
          case r of None \<Rightarrow> Some (b, -1) | Some b1 \<Rightarrow> prepend_to_chain m b1 data)
      else prepend_to_chain m b data)"

definition evbuffer_add_reference :: "malloc \<Rightarrow> evbuffer \<Rightarrow> byte list \<Rightarrow> (evbuffer \<times> int) option" where
  "evbuffer_add_reference m b data =
     (case evbuffer_chain_new m 16 of
        None \<Rightarrow> Some (b, -1)
      | Some c \<Rightarrow>
          if freeze_end b then Some (b, -1)
          else
            map_option (\<lambda>b1. (evbuffer_invoke_callbacks (b1\<lparr>n_add_for_cb := n_add_for_cb b1 + length data\<rparr>), 0))
              (evbuffer_chain_insert b (c\<lparr>chain_flags := chain_flags c OR EVBUFFER_REFERENCE OR EVBUFFER_IMMUTABLE,
                 buffer := data, off := length data\<rparr>)))"

end
