(* ===== verification/Ev_Buffer_Out.thy ===== *)
theory Ev_Buffer_Out
  imports Ev_Buffer
begin

text \<open>
  The operations of \<open>buffer.c\<close> that take data out of an evbuffer, move it between two, make it
  contiguous or make room for more.
\<close>

section \<open>Draining and copying\<close>

definition ZERO_CHAIN :: "evbuffer \<Rightarrow> evbuffer" where
  "ZERO_CHAIN b = b\<lparr>chains := [], last_with_datap := 0, total_len := 0\<rparr>"

definition HAS_PINNED_R :: "evbuffer \<Rightarrow> bool" where
  "HAS_PINNED_R b \<longleftrightarrow> chains b \<noteq> [] \<and> CHAIN_PINNED_R (last (chains b))"

text \<open>
  The loop of \<open>evbuffer_drain\<close> with its end: the chains that stay, \<open>last_with_datap\<close> counted from
  them, and what is left to drain. The pointer is reset to the first chain when the chain before
  it, or the one it points to, goes.
\<close>

fun drain_loop :: "chain list \<Rightarrow> nat \<Rightarrow> nat \<Rightarrow> (chain list \<times> nat \<times> nat) option" where
  "drain_loop [] l remaining = None"
| "drain_loop (c # cs) l remaining =
     (if remaining \<ge> off c then
        (if CHAIN_PINNED_R c then
           (if remaining - off c = 0
            then Some (c\<lparr>misalign := misalign c + off c, off := 0\<rparr> # cs, if l \<le> 1 then 0 else l, 0) else None)
         else drain_loop cs (l - 1) (remaining - off c))
      else Some (c # cs, l, remaining))"

definition drain_chain :: "nat \<Rightarrow> chain \<Rightarrow> chain" where
  "drain_chain n c = c\<lparr>misalign := misalign c + n, off := off c - n\<rparr>"

definition evbuffer_drain :: "evbuffer \<Rightarrow> nat \<Rightarrow> (evbuffer \<times> int) option" where
  "evbuffer_drain b len0 =
     (let old_len = total_len b
      in if old_len = 0 then Some (b, 0)
         else if freeze_start b then Some (b, -1)
         else
           (let len = min len0 old_len
            in map_option (\<lambda>b1. (evbuffer_invoke_callbacks (b1\<lparr>n_del_for_cb := n_del_for_cb b1 + len\<rparr>), 0))
                 (if len0 \<ge> old_len \<and> \<not> HAS_PINNED_R b then Some (ZERO_CHAIN b)
                  else
                    Option.bind (drain_loop (chains b) (last_with_datap b) len) (\<lambda>(cs, l, remaining).
                      case cs of
                        [] \<Rightarrow> None
                      | c # rest \<Rightarrow>
                          if remaining \<le> off c
                          then Some (b\<lparr>chains := drain_chain remaining c # rest, last_with_datap := l, total_len := total_len b - len\<rparr>)
                          else None))))"

text \<open>A position in a buffer: the chain (none behind the last one) and the offset in it; \<open>pos\<close> is -1 for not found.\<close>

record evbuffer_ptr =
  pos :: int
  ptr_chain :: "nat option"
  pos_in_chain :: nat

text \<open>The copying loop, from an offset in the first chain of the list; a null chain ends it by an assertion,
  and so does an offset behind the data of the chain (the subtraction wraps).\<close>

fun copy_loop :: "chain list \<Rightarrow> nat \<Rightarrow> nat \<Rightarrow> byte list option" where
  "copy_loop [] p datlen = (if datlen = 0 then Some [] else None)"
| "copy_loop (c # cs) p datlen =
     (if datlen = 0 then Some []
      else if p > off c then None
      else if datlen \<ge> off c - p
      then (if cs = [] \<and> datlen \<noteq> off c - p then None
            else map_option ((@) (drop p (payload c))) (copy_loop cs 0 (datlen - (off c - p))))
      else Some (take datlen (drop p (payload c))))"

definition chain_tail :: "evbuffer \<Rightarrow> nat option \<Rightarrow> chain list" where
  "chain_tail b c = (case c of None \<Rightarrow> [] | Some i \<Rightarrow> drop i (chains b))"

text \<open>The bytes copied out, with the result; \<open>None\<close> also for a position that is not in the buffer.\<close>

definition evbuffer_copyout_from :: "evbuffer \<Rightarrow> evbuffer_ptr option \<Rightarrow> nat \<Rightarrow> (byte list \<times> int) option" where
  "evbuffer_copyout_from b p datlen0 =
     (let start = (case p of None \<Rightarrow> 0 | Some q \<Rightarrow> nat (pos q));
          cs = (case p of None \<Rightarrow> chains b | Some q \<Rightarrow> chain_tail b (ptr_chain q));
          pic = (case p of None \<Rightarrow> 0 | Some q \<Rightarrow> pos_in_chain q)
      in if (case p of None \<Rightarrow> False | Some q \<Rightarrow> pos q < 0 \<or> nat (pos q) > total_len b) then None
         else if p \<noteq> None \<and> datlen0 > EV_SSIZE_MAX - start then Some ([], -1)
         else
           (let datlen = (if datlen0 + start > total_len b then total_len b - start else datlen0)
            in if datlen = 0 then Some ([], 0)
               else if freeze_start b then Some ([], -1)
               else map_option (\<lambda>out. (out, int datlen)) (copy_loop cs pic datlen)))"

definition evbuffer_copyout :: "evbuffer \<Rightarrow> nat \<Rightarrow> (byte list \<times> int) option" where
  "evbuffer_copyout b datlen = evbuffer_copyout_from b None datlen"

text \<open>\<open>(int)n\<close>.\<close>

definition c_int :: "int \<Rightarrow> int" where
  "c_int n = sint (word_of_int n :: 32 word)"

definition evbuffer_remove :: "evbuffer \<Rightarrow> nat \<Rightarrow> (evbuffer \<times> byte list \<times> int) option" where
  "evbuffer_remove b datlen =
     Option.bind (evbuffer_copyout_from b None datlen) (\<lambda>(out, n).
       if n > 0 then map_option (\<lambda>(b1, r). (b1, out, if r < 0 then -1 else c_int n)) (evbuffer_drain b (nat n))
       else Some (b, out, c_int n))"

section \<open>Moving data between buffers\<close>

text \<open>
  The chains of \<open>src\<close> from its first read-pinned one on are kept back (with a copy of the data
  of that one in its place). \<open>None\<close> inside: no memory.
\<close>

definition PRESERVE_PINNED :: "malloc \<Rightarrow> evbuffer \<Rightarrow> (evbuffer \<times> chain list) option option" where
  "PRESERVE_PINNED m src =
     (if \<not> HAS_PINNED_R src then Some (Some (src, []))
      else
        (let l = last_with_datap src;
             p = (if CHAIN_PINNED_R (chains src ! l) then l else l + 1)
         in if \<not> (p < length (chains src) \<and> CHAIN_PINNED_R (chains src ! p)) then None
            else
              (let c = chains src ! p; kept = drop p (chains src)
               in if off c \<noteq> 0 then
                    (if p \<noteq> l then None
                     else
                       (case evbuffer_chain_new m (off c) of
                          None \<Rightarrow> Some None
                        | Some tmp \<Rightarrow>
                            (let tmp' = tmp\<lparr>buffer := put_bytes 0 (payload c) (buffer tmp), off := off c\<rparr>
                             in Some (Some (src\<lparr>chains := take p (chains src) @ [tmp']\<rparr>,
                                  c\<lparr>misalign := misalign c + off c, off := 0\<rparr> # tl kept)))))
                  else Some (Some (src\<lparr>chains := take p (chains src)\<rparr>, kept)))))"

definition RESTORE_PINNED :: "chain list \<Rightarrow> evbuffer \<Rightarrow> evbuffer" where
  "RESTORE_PINNED pinned src =
     (if pinned = [] then ZERO_CHAIN src else src\<lparr>chains := pinned, last_with_datap := 0, total_len := 0\<rparr>)"

definition COPY_CHAIN :: "evbuffer \<Rightarrow> evbuffer \<Rightarrow> evbuffer" where
  "COPY_CHAIN dst src = dst\<lparr>chains := chains src, last_with_datap := last_with_datap src, total_len := total_len src\<rparr>"

definition APPEND_CHAIN :: "evbuffer \<Rightarrow> evbuffer \<Rightarrow> evbuffer option" where
  "APPEND_CHAIN dst src =
     map_option (\<lambda>cs. dst\<lparr>chains := cs @ chains src, last_with_datap := length cs + last_with_datap src,
         total_len := total_len dst + total_len src\<rparr>)
       (evbuffer_free_trailing_empty_chains dst)"

definition PREPEND_CHAIN :: "evbuffer \<Rightarrow> evbuffer \<Rightarrow> evbuffer" where
  "PREPEND_CHAIN dst src =
     dst\<lparr>chains := chains src @ chains dst,
       last_with_datap := (if \<not> last_with_datap dst < length (chains dst) then last_with_datap src
                           else length (chains src) + last_with_datap dst),
       total_len := total_len dst + total_len src\<rparr>"

text \<open>Both moves, to the end (\<open>front\<close> false) or the front; the result holds \<open>outbuf\<close> and \<open>inbuf\<close>.\<close>

definition move_buffer :: "malloc \<Rightarrow> bool \<Rightarrow> bool \<Rightarrow> evbuffer \<Rightarrow> evbuffer \<Rightarrow> (evbuffer \<times> evbuffer \<times> int) option" where
  "move_buffer m front same outbuf inbuf =
     (if total_len inbuf = 0 \<or> same then Some (outbuf, inbuf, 0)
      else if (if front then freeze_start outbuf else freeze_end outbuf) \<or> freeze_start inbuf then Some (outbuf, inbuf, -1)
      else
        Option.bind (PRESERVE_PINNED m inbuf) (\<lambda>r.
          case r of
            None \<Rightarrow> Some (outbuf, inbuf, -1)
          | Some (in1, pinned) \<Rightarrow>
              map_option (\<lambda>out1.
                  (evbuffer_invoke_callbacks (out1\<lparr>n_add_for_cb := n_add_for_cb out1 + total_len inbuf\<rparr>),
                   evbuffer_invoke_callbacks ((RESTORE_PINNED pinned in1)\<lparr>n_del_for_cb := n_del_for_cb in1 + total_len inbuf\<rparr>), 0))
                (if total_len outbuf = 0 then Some (COPY_CHAIN outbuf in1)
                 else if front then Some (PREPEND_CHAIN outbuf in1) else APPEND_CHAIN outbuf in1)))"

definition evbuffer_add_buffer :: "malloc \<Rightarrow> bool \<Rightarrow> evbuffer \<Rightarrow> evbuffer \<Rightarrow> (evbuffer \<times> evbuffer \<times> int) option" where
  "evbuffer_add_buffer m same outbuf inbuf = move_buffer m False same outbuf inbuf"

definition evbuffer_prepend_buffer :: "malloc \<Rightarrow> bool \<Rightarrow> evbuffer \<Rightarrow> evbuffer \<Rightarrow> (evbuffer \<times> evbuffer \<times> int) option" where
  "evbuffer_prepend_buffer m same outbuf inbuf = move_buffer m True same outbuf inbuf"

text \<open>
  The loop of \<open>evbuffer_remove_buffer\<close>: the whole chains that move and the rest, with
  \<open>last_with_datap\<close> of the source counted from its first chain that stays. \<open>first\<close> is true at the
  first chain: the assertion can only fail there, for after the pointer is reset it is
  compared with a chain already passed.
\<close>

fun whole_chains :: "bool \<Rightarrow> chain list \<Rightarrow> nat \<Rightarrow> nat \<Rightarrow> (chain list \<times> chain list \<times> nat \<times> nat) option" where
  "whole_chains first [] l datlen = None"
| "whole_chains first (c # cs) l datlen =
     (if off c \<le> datlen then
        (if first \<and> l = 0 then None
         else map_option (\<lambda>(moved, rest, l', n). (c # moved, rest, l', n)) (whole_chains False cs (l - 1) (datlen - off c)))
      else Some ([], c # cs, l, datlen))"

definition evbuffer_remove_buffer :: "malloc \<Rightarrow> bool \<Rightarrow> evbuffer \<Rightarrow> evbuffer \<Rightarrow> nat \<Rightarrow> (evbuffer \<times> evbuffer \<times> int) option" where
  "evbuffer_remove_buffer m same src dst datlen =
     (if datlen = 0 \<or> same then Some (src, dst, 0)
      else if freeze_end dst \<or> freeze_start src then Some (src, dst, -1)
      else if datlen \<ge> total_len src
      then map_option (\<lambda>(dst1, src1, _). (src1, dst1, c_int (int (total_len src)))) (evbuffer_add_buffer m False dst src)
      else
        Option.bind (whole_chains True (chains src) (last_with_datap src) datlen) (\<lambda>(moved, rest, l, left).
        Option.bind
          (if moved = [] then Some dst
           else
             map_option (\<lambda>cs.
                 (let n = sum_list (map off moved)
                  in added_len n (advance_last_with_data (dst\<lparr>chains := cs @ moved\<rparr>))))
               (evbuffer_free_trailing_empty_chains dst)) (\<lambda>dst1.
        Option.bind (evbuffer_add m dst1 (take left (payload (hd rest)))) (\<lambda>(dst2, _).
          (let src1 = src\<lparr>chains := drain_chain left (hd rest) # tl rest, last_with_datap := l,
                 total_len := total_len src - datlen, n_del_for_cb := n_del_for_cb src + datlen\<rparr>
           in Some (evbuffer_invoke_callbacks src1, evbuffer_invoke_callbacks dst2, c_int (int datlen)))))))"

section \<open>Making data contiguous\<close>

text \<open>The first loop of \<open>evbuffer_pullup\<close>: no chain the data is copied from is pinned.\<close>

fun pullup_pinned :: "chain list \<Rightarrow> nat \<Rightarrow> bool" where
  "pullup_pinned [] remaining = False"
| "pullup_pinned (c # cs) remaining =
     (if CHAIN_PINNED c then True else if off c \<ge> remaining then False else pullup_pinned cs (remaining - off c))"

text \<open>
  The copying loop: the bytes copied, the chains left, what is still to copy from the first of
  them, and how many chains went.
\<close>

fun pullup_loop :: "chain list \<Rightarrow> nat \<Rightarrow> byte list \<times> chain list \<times> nat \<times> nat" where
  "pullup_loop [] n = ([], [], n, 0)"
| "pullup_loop (c # cs) n =
     (if n \<ge> off c
      then (case pullup_loop cs (n - off c) of (out, rest, r, k) \<Rightarrow> (payload c @ out, rest, r, k + 1))
      else ([], c # cs, n, 0))"

text \<open>
  The end of the function, with the chain the data goes to (\<open>tmp\<close>), where it is written, the
  index of the first chain copied from (0 when \<open>tmp\<close> is new), and how much is copied.
\<close>

definition pullup_into :: "evbuffer \<Rightarrow> chain \<Rightarrow> nat \<Rightarrow> nat \<Rightarrow> nat \<Rightarrow> evbuffer" where
  "pullup_into b tmp at first n =
     (let l = last_with_datap b;
          (out, rest, r, k) = pullup_loop (drop first (chains b)) n;
          data = out @ (case rest of [] \<Rightarrow> [] | c # _ \<Rightarrow> take r (payload c));
          rest' = (case rest of [] \<Rightarrow> [] | c # cs \<Rightarrow> drain_chain r c # cs);
          removed_last_with_data = (first \<le> l \<and> l < first + k);
          removed_last_with_datap = (first < l \<and> l \<le> first + k);
          cs = tmp\<lparr>buffer := put_bytes at data (buffer tmp)\<rparr> # rest';
          l' = (if removed_last_with_data then 0
                else if removed_last_with_datap then (if rest' \<noteq> [] \<and> off (hd rest') \<noteq> 0 then 1 else 0)
                else if l = 0 then 0 else if first + k < l then l - (first + k) + 1 else l)
      in b\<lparr>chains := cs, last_with_datap := l'\<rparr>)"

text \<open>
  The result is the first \<open>size\<close> bytes, or none for the null pointer. (A length above \<open>EV_SSIZE_MAX\<close>,
  which no memory can hold, would not fit the signed \<open>size\<close>.)
\<close>

definition evbuffer_pullup :: "malloc \<Rightarrow> evbuffer \<Rightarrow> int \<Rightarrow> evbuffer \<times> byte list option" where
  "evbuffer_pullup m b size0 =
     (let n = (if size0 < 0 then total_len b else nat size0)
      in if n = 0 \<or> n > total_len b then (b, None)
         else
           (let c = hd (chains b)
            in if off c \<ge> n then (b, Some (take n (payload c)))
               else if pullup_pinned (tl (chains b)) (n - off c) then (b, None)
               else if CHAIN_PINNED c \<and> CHAIN_SPACE_LEN c < n - off c then (b, None)
               else
                 (let found = (\<lambda>b'. (b', Some (take n (payload (hd (chains b'))))))
                  in if CHAIN_PINNED c \<or> buffer_len c - misalign c \<ge> n
                     then found (pullup_into b (c\<lparr>off := n\<rparr>) (misalign c + off c) 1 (n - off c))
                     else
                       (case evbuffer_chain_new m n of
                          None \<Rightarrow> (b, None)
                        | Some tmp \<Rightarrow> found (pullup_into b (tmp\<lparr>off := n\<rparr>) 0 0 n)))))"

end
