(* ===== verification/Ev_Buffer_Spec.thy ===== *)
theory Ev_Buffer_Spec
  imports Ev_Buffer_Out
begin

text \<open>
  What the operations that add to a buffer promise: they do to its content what their names
  say, keep \<open>buffer_ok\<close>, and report the change to the callbacks.
\<close>

section \<open>Chains and their bytes\<close>

text \<open>\<open>holds cs l bs\<close>: the chains are well formed, with \<open>last_with_datap\<close> at \<open>l\<close>, and their data is \<open>bs\<close>.\<close>

definition bytes_of :: "chain list \<Rightarrow> byte list" where
  "bytes_of cs = concat (map payload cs)"

definition holds :: "chain list \<Rightarrow> nat \<Rightarrow> byte list \<Rightarrow> bool" where
  "holds cs l bs \<longleftrightarrow> (\<forall>c \<in> set cs. chain_ok c) \<and> lwd_ok cs l \<and> bytes_of cs = bs"

lemma bytes_of_simps [chain_simps]:
  "bytes_of [] = []" "bytes_of (c # cs) = payload c @ bytes_of cs" "bytes_of (cs @ ds) = bytes_of cs @ bytes_of ds"
  by (simp_all add: bytes_of_def)

lemma content_bytes_of: "content b = bytes_of (chains b)"
  by (simp add: content_def bytes_of_def)

lemma buffer_ok_holds: "buffer_ok b \<longleftrightarrow> holds (chains b) (last_with_datap b) (content b) \<and>
    total_len b = length (content b) \<and> total_len b \<le> EV_SIZE_MAX"
  by (auto simp: buffer_ok_def holds_def content_bytes_of)

lemma buffer_okI:
  "holds (chains b) (last_with_datap b) bs \<Longrightarrow> total_len b = length bs \<Longrightarrow> length bs \<le> EV_SIZE_MAX \<Longrightarrow>
   buffer_ok b \<and> content b = bs"
  by (auto simp: buffer_ok_holds holds_def content_bytes_of)

lemma holdsD:
  assumes "holds cs l bs"
  shows "c \<in> set cs \<Longrightarrow> chain_ok c" "lwd_ok cs l" "bytes_of cs = bs" "i < length cs \<Longrightarrow> chain_ok (cs ! i)"
  using assms by (auto simp: holds_def)

lemma bytes_of_empty [chain_simps]: "\<forall>c \<in> set cs. off c = 0 \<Longrightarrow> bytes_of cs = []"
  by (induction cs) (auto simp: chain_simps)

lemma bytes_of_nth: "i < length cs \<Longrightarrow> bytes_of cs = bytes_of (take i cs) @ payload (cs ! i) @ bytes_of (drop (Suc i) cs)"
  by (subst id_take_nth_drop [of i cs], simp, simp only: chain_simps append_assoc)

lemma length_bytes_of: "\<forall>c \<in> set cs. chain_ok c \<Longrightarrow> length (bytes_of cs) = sum_list (map off cs)"
  by (induction cs) (auto simp: chain_simps)

text \<open>Replacing a chain by one with other data, of which \<open>last_with_datap\<close> may only see less than it points to.\<close>

lemma bytes_of_update:
  "i < length cs \<Longrightarrow> bytes_of (cs[i := c]) = bytes_of (take i cs) @ payload c @ bytes_of (drop (Suc i) cs)"
  by (simp add: bytes_of_nth [of i "cs[i := c]"])

lemma lwd_empty_behind: "lwd_ok cs l \<Longrightarrow> l < i \<Longrightarrow> i < length cs \<Longrightarrow> off (cs ! i) = 0"
proof -
  assume a: "lwd_ok cs l" "l < i" "i < length cs"
  then have "cs ! i \<in> set (drop (Suc l) cs)" by (auto simp: in_set_conv_nth intro!: exI [of _ "i - Suc l"])
  with a show ?thesis by (simp add: lwd_ok_def)
qed

lemma lwd_okI:
  assumes "cs = [] \<Longrightarrow> l = 0" "cs \<noteq> [] \<Longrightarrow> l < length cs" "0 < l \<Longrightarrow> off (cs ! l) \<noteq> 0"
    "\<And>i. l < i \<Longrightarrow> i < length cs \<Longrightarrow> off (cs ! i) = 0"
  shows "lwd_ok cs l"
proof -
  have "off c = 0" if "c \<in> set (drop (Suc l) cs)" for c
    using that assms(4) by (auto simp: in_set_conv_nth)
  then show ?thesis using assms(1,2,3) unfolding lwd_ok_def by blast
qed

lemma lwd_ok_nth:
  "lwd_ok cs l \<longleftrightarrow> (cs = [] \<longrightarrow> l = 0) \<and> (cs \<noteq> [] \<longrightarrow> l < length cs) \<and> (0 < l \<longrightarrow> off (cs ! l) \<noteq> 0) \<and>
     (\<forall>i. l < i \<longrightarrow> i < length cs \<longrightarrow> off (cs ! i) = 0)"
  (is "?L = ?R")
proof
  assume ?L
  then show ?R using lwd_empty_behind [of cs l] by (simp add: lwd_ok_def)
next
  assume ?R
  then show ?L by (elim conjE) (rule lwd_okI; simp)
qed

lemma bytes_behind_lwd: "lwd_ok cs l \<Longrightarrow> bytes_of (drop (Suc l) cs) = []"
  by (simp add: bytes_of_empty lwd_ok_def)

text \<open>The chains up to any one behind \<open>last_with_datap\<close> hold all the data.\<close>

lemma bytes_of_take: "lwd_ok cs l \<Longrightarrow> l < k \<Longrightarrow> bytes_of (take k cs) = bytes_of cs"
proof -
  assume a: "lwd_ok cs l" "l < k"
  have "set (drop k cs) \<subseteq> set (drop (Suc l) cs)" using a(2) by (intro set_drop_subset_set_drop) simp
  then have "\<forall>c \<in> set (drop k cs). off c = 0" using a(1) unfolding lwd_ok_def by blast
  then have "bytes_of (drop k cs) = []" by (rule bytes_of_empty)
  then show ?thesis by (metis append_Nil2 append_take_drop_id bytes_of_simps(3))
qed

section \<open>Chains that take more data\<close>

lemma payload_append_bytes:
  assumes "chain_ok c" "misalign c + off c + length xs \<le> buffer_len c"
  shows "payload (append_bytes xs c) = payload c @ xs" "chain_ok (append_bytes xs c)"
proof -
  have le: "misalign c + off c \<le> buffer_len c" using assms(1) by (simp add: chain_ok_def)
  have "payload (append_bytes xs c) = take (off c + length xs) (drop (misalign c) (take (misalign c + off c) (buffer c)) @ xs)"
    using assms(2) by (simp add: payload_def append_bytes_def put_bytes_def min_def)
  also have "drop (misalign c) (take (misalign c + off c) (buffer c)) = payload c"
    by (simp add: payload_def drop_take)
  finally show "payload (append_bytes xs c) = payload c @ xs" using assms(1) by simp
  show "chain_ok (append_bytes xs c)" using assms by (auto simp: append_bytes_def chain_ok_def immutable_def CHAIN_PINNED_def)
qed

lemma payload_prepend_bytes:
  assumes "chain_ok c" "length xs \<le> misalign c"
  shows "payload (prepend_bytes xs c) = xs @ payload c" "chain_ok (prepend_bytes xs c)"
proof -
  have le: "misalign c + off c \<le> buffer_len c" using assms(1) by (simp add: chain_ok_def)
  then show "payload (prepend_bytes xs c) = xs @ payload c"
    using assms(2) by (simp add: payload_def prepend_bytes_def put_bytes_def min_def)
  show "chain_ok (prepend_bytes xs c)" using assms by (auto simp: prepend_bytes_def chain_ok_def immutable_def CHAIN_PINNED_def)
qed

lemma payload_align:
  assumes "chain_ok c" "evbuffer_chain_align c = Some c'"
  shows "payload c' = payload c" "chain_ok c'" "misalign c' = 0" "off c' = off c" "buffer_len c' = buffer_len c"
    "immutable c' = immutable c"
proof -
  have c': "c' = c\<lparr>buffer := put_bytes 0 (payload c) (buffer c), misalign := 0\<rparr>"
    using assms(2) by (auto simp: evbuffer_chain_align_def split: if_splits)
  have "misalign c + off c \<le> buffer_len c" using assms(1) by (simp add: chain_ok_def)
  then show "payload c' = payload c" "chain_ok c'" "misalign c' = 0" "off c' = off c" "buffer_len c' = buffer_len c"
    "immutable c' = immutable c"
    using assms(1) by (auto simp: c' payload_def put_bytes_def chain_ok_def min_def immutable_def CHAIN_PINNED_def)
qed

text \<open>The chain \<open>last_with_datap\<close> points to is the one that may grow at its end.\<close>

lemma holds_update_last:
  assumes h: "holds cs l bs" and l: "l < length cs" and c: "chain_ok c" "payload c = payload (cs ! l) @ xs" "off c = off (cs ! l) + length xs"
  shows "holds (cs[l := c]) l (bs @ xs)"
proof -
  have ok: "lwd_ok cs l" and bs: "bytes_of cs = bs" using holdsD [OF h] by simp_all
  have "bytes_of (drop (Suc l) cs) = []" using ok by (rule bytes_behind_lwd)
  then have "bytes_of (cs[l := c]) = bs @ xs" using l c(2) bs bytes_of_nth [OF l] by (simp add: bytes_of_update)
  moreover have "lwd_ok (cs[l := c]) l" using ok l c(3) by (auto simp: lwd_ok_def)
  moreover have "\<forall>d \<in> set (cs[l := c]). chain_ok d" using h c(1) by (auto simp: holds_def dest!: set_update_subset_insert [THEN subsetD])
  ultimately show ?thesis by (simp add: holds_def)
qed

section \<open>Inserting a chain\<close>

lemma free_trailing_spec:
  assumes ok: "lwd_ok (chains b) (last_with_datap b)" and l: "last_with_datap b < length (chains b)"
  shows "\<exists>k \<ge> last_with_datap b. k \<le> length (chains b) \<and> evbuffer_free_trailing_empty_chains b = Some (take k (chains b)) \<and>
    (off (chains b ! last_with_datap b) \<noteq> 0 \<longrightarrow> last_with_datap b < k) \<and> bytes_of (take k (chains b)) = bytes_of (chains b)"
proof -
  define l cs where "l = last_with_datap b" and "cs = chains b"
  define t where "t = takeWhile (\<lambda>c. off c \<noteq> 0 \<or> CHAIN_PINNED c) (drop l cs)"
  have le: "l + length t \<le> length cs" using length_takeWhile_le [of _ "drop l cs"] l by (simp add: t_def l_def cs_def le_diff_conv2 add.commute)
  have pos: "l < l + length t" if "off (cs ! l) \<noteq> 0"
    using that l by (simp add: t_def l_def cs_def Cons_nth_drop_Suc [symmetric] del: Cons_nth_drop_Suc)
  have rest: "\<forall>c \<in> set (drop (l + length t) cs). off c = 0"
  proof (cases "off (cs ! l) = 0")
    case True
    then have "l = 0" using ok by (auto simp: lwd_ok_def l_def cs_def)
    then have "off (cs ! i) = 0" if "i < length cs" for i
      using True that lwd_empty_behind [OF ok, of i] by (cases "i = 0") (simp_all add: l_def cs_def)
    then show ?thesis by (metis in_set_conv_nth in_set_dropD)
  next
    case False
    have "set (drop (l + length t) cs) \<subseteq> set (drop (Suc l) cs)" using pos [OF False] by (intro set_drop_subset_set_drop) linarith
    then show ?thesis using ok unfolding lwd_ok_def l_def cs_def by blast
  qed
  then have "bytes_of (drop (l + length t) cs) = []" by (rule bytes_of_empty)
  then have "bytes_of (take (l + length t) cs) = bytes_of cs" by (metis append_Nil2 append_take_drop_id bytes_of_simps(3))
  moreover have "evbuffer_free_trailing_empty_chains b = Some (take (l + length t) cs)"
    unfolding evbuffer_free_trailing_empty_chains_def evbuffer_chains_all_empty_def Let_def
      l_def [symmetric] cs_def [symmetric] t_def [symmetric] using rest by (rule if_P)
  moreover have "l \<le> l + length t" by simp
  ultimately show ?thesis using le pos unfolding l_def cs_def by blast
qed

lemma holds_append_chain:
  assumes h: "holds cs l bs" and k: "l \<le> k" "k \<le> length cs" "off (cs ! l) \<noteq> 0 \<longrightarrow> l < k" "bytes_of (take k cs) = bytes_of cs" "l < length cs"
    and c: "chain_ok c"
  shows "holds (take k cs @ [c]) (if off c \<noteq> 0 then k else l) (bs @ payload c)"
proof -
  have ok: "lwd_ok cs l" and bs: "bytes_of cs = bs" using holdsD [OF h] by simp_all
  have "lwd_ok (take k cs @ [c]) (if off c \<noteq> 0 then k else l)"
  proof (cases "off c = 0")
    case False
    then show ?thesis using k(2) by (auto simp: lwd_ok_def nth_append min_def)
  next
    case True
    have "off ((take k cs @ [c]) ! i) = 0" if "l < i" "i < Suc k" for i
      using that True lwd_empty_behind [OF ok that(1)] k(2) by (cases "i < k") (auto simp: nth_append min_def)
    moreover have "off ((take k cs @ [c]) ! l) \<noteq> 0" if "0 < l"
      using that ok k(2,3) by (auto simp: lwd_ok_def nth_append min_def)
    moreover have "length (take k cs @ [c]) = Suc k" using k(2) by simp
    ultimately have "lwd_ok (take k cs @ [c]) l" using k(1) by (intro lwd_okI) simp_all
    then show ?thesis using True by simp
  qed
  moreover have "bytes_of (take k cs @ [c]) = bs @ payload c" using k(4) bs by (simp add: chain_simps)
  moreover have "\<forall>d \<in> set (take k cs @ [c]). chain_ok d" using h c by (auto simp: holds_def dest: in_set_takeD)
  ultimately show ?thesis by (simp add: holds_def)
qed

lemma chain_insert_spec:
  assumes h: "holds (chains b) (last_with_datap b) bs" and c: "chain_ok c"
  shows "\<exists>cs l. evbuffer_chain_insert b c = Some (b\<lparr>chains := cs, last_with_datap := l, total_len := total_len b + off c\<rparr>) \<and>
    holds cs l (bs @ payload c)"
proof (cases "chains b = []")
  case True
  then have "last_with_datap b = 0" "bs = []" using h by (auto simp: holds_def lwd_ok_def chain_simps)
  moreover from this True have "evbuffer_chain_insert b c = Some (b\<lparr>chains := [c], last_with_datap := 0, total_len := total_len b + off c\<rparr>)"
    by (simp add: evbuffer_chain_insert_def)
  moreover have "holds [c] 0 (payload c)" using c by (simp add: holds_def lwd_ok_def chain_simps)
  ultimately show ?thesis by auto
next
  case False
  have ok: "lwd_ok (chains b) (last_with_datap b)" using h by (rule holdsD)
  then have l: "last_with_datap b < length (chains b)" using False by (simp add: lwd_ok_def)
  obtain k where k: "last_with_datap b \<le> k" "k \<le> length (chains b)"
    "evbuffer_free_trailing_empty_chains b = Some (take k (chains b))"
    "off (chains b ! last_with_datap b) \<noteq> 0 \<longrightarrow> last_with_datap b < k" "bytes_of (take k (chains b)) = bytes_of (chains b)"
    using free_trailing_spec [OF ok l] by blast
  have "evbuffer_chain_insert b c = Some (b\<lparr>chains := take k (chains b) @ [c],
      last_with_datap := (if off c \<noteq> 0 then k else last_with_datap b), total_len := total_len b + off c\<rparr>)"
    using l k(2,3) by (simp add: evbuffer_chain_insert_def)
  then show ?thesis using holds_append_chain [OF h k(1,2,4,5) l c] by blast
qed

section \<open>Adding\<close>

text \<open>
  Why an operation that needs n bytes in a new chain may find no memory: \<open>malloc\<close> has none, or the
  chain would be larger than \<open>EVBUFFER_CHAIN_MAX\<close>.
\<close>

definition no_room :: "malloc \<Rightarrow> nat \<Rightarrow> bool" where
  "no_room m n \<longleftrightarrow> (\<exists>k. m k = None) \<or> n > EVBUFFER_CHAIN_MAX - EVBUFFER_CHAIN_SIZE"

lemma chain_new_None: "evbuffer_chain_new m n = None \<Longrightarrow> (\<exists>k. m k = None) \<or> n > EVBUFFER_CHAIN_MAX - EVBUFFER_CHAIN_SIZE"
  by (auto simp: evbuffer_chain_new_def Let_def split: if_splits)

lemma no_roomI: "evbuffer_chain_new m n' = None \<Longrightarrow> n' \<le> n \<Longrightarrow> no_room m n"
  using chain_new_None [of m n'] by (auto simp: no_room_def)

lemma no_room_double:
  assumes "evbuffer_chain_new m k = None" "chain_ok c"
    "k \<le> max n (if buffer_len c \<le> EVBUFFER_CHAIN_MAX_AUTO_SIZE div 2 then 2 * buffer_len c else buffer_len c)"
  shows "no_room m n"
proof -
  have "\<not> k > EVBUFFER_CHAIN_MAX - EVBUFFER_CHAIN_SIZE" if "n \<le> EVBUFFER_CHAIN_MAX - EVBUFFER_CHAIN_SIZE"
    using that assms(2,3)
    by (auto simp: chain_ok_def EVBUFFER_CHAIN_MAX_AUTO_SIZE_def EVBUFFER_CHAIN_MAX_def EV_SSIZE_MAX_def EVBUFFER_CHAIN_SIZE_def split: if_splits)
  then show ?thesis using chain_new_None [OF assms(1)] unfolding no_room_def by (meson leI)
qed

text \<open>A buffer that got new chains with n more bytes, after its callbacks.\<close>

definition grown :: "evbuffer \<Rightarrow> chain list \<Rightarrow> nat \<Rightarrow> nat \<Rightarrow> evbuffer" where
  "grown b cs l n = evbuffer_invoke_callbacks (added_len n (b\<lparr>chains := cs, last_with_datap := l\<rparr>))"

lemma invoke_callbacks_frame [simp]:
  "chains (evbuffer_invoke_callbacks b) = chains b" "last_with_datap (evbuffer_invoke_callbacks b) = last_with_datap b"
  "total_len (evbuffer_invoke_callbacks b) = total_len b" "freeze_start (evbuffer_invoke_callbacks b) = freeze_start b"
  "freeze_end (evbuffer_invoke_callbacks b) = freeze_end b" "cb_entries (evbuffer_invoke_callbacks b) = cb_entries b"
  "deferred_cbs (evbuffer_invoke_callbacks b) = deferred_cbs b"
  by (simp_all add: evbuffer_invoke_callbacks_def evbuffer_run_callbacks_def Let_def)

lemma grown_frame [simp]:
  "chains (grown b cs l n) = cs" "last_with_datap (grown b cs l n) = l" "total_len (grown b cs l n) = total_len b + n"
  "freeze_start (grown b cs l n) = freeze_start b" "freeze_end (grown b cs l n) = freeze_end b" "cb_entries (grown b cs l n) = cb_entries b"
  "deferred_cbs (grown b cs l n) = deferred_cbs b"
  by (simp_all add: grown_def added_len_def)

lemma grown_ok:
  assumes "total_len b = length (content b)" "holds cs l bs" "length bs = length (content b) + n" "length bs \<le> EV_SIZE_MAX"
  shows "buffer_ok (grown b cs l n)" "content (grown b cs l n) = bs"
  using buffer_okI [of "grown b cs l n" bs] assms by simp_all

text \<open>The memory of a new chain, with data at its start.\<close>

lemma new_chain_filled:
  assumes m: "malloc_documented m" and c: "evbuffer_chain_new m n = Some c" and n: "length xs \<le> n"
  shows "chain_ok (c\<lparr>buffer := put_bytes 0 xs (buffer c), off := length xs\<rparr>)"
    "payload (c\<lparr>buffer := put_bytes 0 xs (buffer c), off := length xs\<rparr>) = xs"
  using chain_new_ok [OF m c] n by (auto simp: chain_ok_def payload_def put_bytes_def immutable_def CHAIN_PINNED_def)

text \<open>Without memory nothing changes.\<close>

lemma grow_last:
  assumes h: "holds (chains b) (last_with_datap b) bs" and l: "l = last_with_datap b" "l < length (chains b)"
    and c: "chain_ok c" "payload c = payload (chains b ! l)" "off c = off (chains b ! l)" "misalign c + off c + length xs \<le> buffer_len c"
  shows "holds ((chains b)[l := append_bytes xs c]) l (bs @ xs)"
  using payload_append_bytes [OF c(1,4)] c(2,3) l h by (intro holds_update_last) (auto simp: append_bytes_def)

lemma add_new_chain_spec:
  assumes m: "malloc_documented m" and h: "holds (chains b) (last_with_datap b) bs" and i: "last_with_datap b < length (chains b)"
    and le: "remain \<le> length data"
    and room: "remain \<noteq> 0 \<Longrightarrow> misalign (chains b ! last_with_datap b) + off (chains b ! last_with_datap b) + remain \<le> buffer_len (chains b ! last_with_datap b)"
  shows "(\<exists>cs l. add_new_chain m b (last_with_datap b) remain data = Some (grown b cs l (length data), 0) \<and> holds cs l (bs @ data)) \<or>
    add_new_chain m b (last_with_datap b) remain data = Some (b, -1) \<and> no_room m (length data)"
proof -
  define l c where "l = last_with_datap b" and "c = chains b ! l"
  have c: "chain_ok c" using holdsD(4) [OF h i] by (simp add: c_def l_def)
  define to_alloc where "to_alloc = (if length data > (if buffer_len c \<le> EVBUFFER_CHAIN_MAX_AUTO_SIZE div 2 then 2 * buffer_len c else buffer_len c)
    then length data else (if buffer_len c \<le> EVBUFFER_CHAIN_MAX_AUTO_SIZE div 2 then 2 * buffer_len c else buffer_len c))"
  have ge: "length data \<le> to_alloc" by (simp add: to_alloc_def)
  define b1 where "b1 = (if remain \<noteq> 0 then added_len remain (set_chain l (append_bytes (take remain data) c) b) else b)"
  define rest where "rest = drop remain data"
  have h1: "holds (chains b1) (last_with_datap b1) (bs @ take remain data)"
  proof (cases "remain = 0")
    case True
    then show ?thesis using h by (simp add: b1_def)
  next
    case False
    then have "misalign c + off c + length (take remain data) \<le> buffer_len c" using room le by (simp add: c_def l_def)
    then show ?thesis using grow_last [OF h l_def _ c] i False by (simp add: b1_def added_len_def set_chain_def l_def c_def)
  qed
  have eq: "add_new_chain m b l remain data = (case evbuffer_chain_new m to_alloc of None \<Rightarrow> Some (b, -1)
      | Some tmp \<Rightarrow> map_option (\<lambda>b2. (evbuffer_invoke_callbacks (b2\<lparr>n_add_for_cb := n_add_for_cb b2 + length rest\<rparr>), 0))
          (evbuffer_chain_insert b1 (tmp\<lparr>buffer := put_bytes 0 rest (buffer tmp), off := length rest\<rparr>)))"
    unfolding add_new_chain_def Let_def c_def [symmetric] to_alloc_def [symmetric] b1_def [symmetric] rest_def [symmetric] by (rule refl)
  show ?thesis
  proof (cases "evbuffer_chain_new m to_alloc")
    case None
    then have "no_room m (length data)" using c by (rule no_room_double) (simp add: to_alloc_def)
    then show ?thesis using None eq by (simp add: l_def)
  next
    case (Some tmp)
    define tmp' where "tmp' = tmp\<lparr>buffer := put_bytes 0 rest (buffer tmp), off := length rest\<rparr>"
    have t: "chain_ok tmp'" "payload tmp' = rest" using new_chain_filled [OF m Some, of rest] ge by (simp_all add: tmp'_def rest_def)
    obtain cs l' where ins: "evbuffer_chain_insert b1 tmp' = Some (b1\<lparr>chains := cs, last_with_datap := l', total_len := total_len b1 + off tmp'\<rparr>)"
      "holds cs l' ((bs @ take remain data) @ payload tmp')"
      using chain_insert_spec [OF h1 t(1)] by blast
    have "add_new_chain m b l remain data = Some (evbuffer_invoke_callbacks (b1\<lparr>chains := cs, last_with_datap := l',
        total_len := total_len b1 + off tmp', n_add_for_cb := n_add_for_cb b1 + length rest\<rparr>), 0)"
      using eq Some ins(1) by (simp add: tmp'_def)
    also have "b1\<lparr>chains := cs, last_with_datap := l', total_len := total_len b1 + off tmp', n_add_for_cb := n_add_for_cb b1 + length rest\<rparr> =
        added_len (length data) (b\<lparr>chains := cs, last_with_datap := l'\<rparr>)"
      using le by (simp add: added_len_def set_chain_def tmp'_def rest_def b1_def)
    finally show ?thesis using ins(2) t(2) by (auto simp: grown_def l_def rest_def)
  qed
qed

lemma add_to_chain_spec:
  assumes m: "malloc_documented m" and h: "holds (chains b) (last_with_datap b) bs" and i: "last_with_datap b < length (chains b)"
  shows "(\<exists>cs l. add_to_chain m b (last_with_datap b) data = Some (grown b cs l (length data), 0) \<and> holds cs l (bs @ data)) \<or>
    add_to_chain m b (last_with_datap b) data = Some (b, -1) \<and> no_room m (length data)"
proof -
  define l c where "l = last_with_datap b" and "c = chains b ! l"
  define remain where "remain = buffer_len c - misalign c - off c"
  have c: "chain_ok c" using holdsD(4) [OF h i] by (simp add: c_def l_def)
  have set_chain: "evbuffer_invoke_callbacks (added_len n (set_chain l d b)) = grown b ((chains b)[l := d]) l n" for d n
    by (simp add: grown_def set_chain_def l_def)
  note eq = add_to_chain_def [of m b l data, unfolded Let_def, folded c_def, folded remain_def]
  have room: "remain \<noteq> 0 \<Longrightarrow> misalign (chains b ! last_with_datap b) + off (chains b ! last_with_datap b) + remain \<le> buffer_len (chains b ! last_with_datap b)"
    by (simp add: remain_def c_def l_def)
  consider (imm) "immutable c" | (fits) "\<not> immutable c" "length data \<le> remain"
    | (align) "\<not> immutable c" "\<not> length data \<le> remain" "\<not> CHAIN_PINNED c" "evbuffer_chain_should_realign c (length data)"
    | (new) "\<not> immutable c" "\<not> length data \<le> remain" "\<not> (\<not> CHAIN_PINNED c \<and> evbuffer_chain_should_realign c (length data))"
    by blast
  then show ?thesis
  proof cases
    case imm
    then show ?thesis using add_new_chain_spec [OF m h i, of 0 data] eq by (simp add: l_def)
  next
    case fits
    then have "\<not> misalign c > EVBUFFER_CHAIN_MAX" "misalign c + off c + length data \<le> buffer_len c" using c by (auto simp: remain_def chain_ok_def)
    then have "holds ((chains b)[l := append_bytes data c]) l (bs @ data)" using grow_last [OF h l_def _ c] i by (simp add: l_def c_def)
    moreover have "add_to_chain m b l data = Some (grown b ((chains b)[l := append_bytes data c]) l (length data), 0)"
      using eq fits \<open>\<not> misalign c > EVBUFFER_CHAIN_MAX\<close> by (simp add: set_chain)
    ultimately show ?thesis unfolding l_def by blast
  next
    case align
    then obtain c' where c': "evbuffer_chain_align c = Some c'" by (simp add: evbuffer_chain_align_def)
    note p = payload_align [OF c c']
    have "\<not> misalign c > EVBUFFER_CHAIN_MAX" "misalign c' + off c' + length data \<le> buffer_len c'"
      using align c p by (auto simp: evbuffer_chain_should_realign_def chain_ok_def)
    then have "holds ((chains b)[l := append_bytes data c']) l (bs @ data)"
      using grow_last [OF h l_def _ p(2)] p(1,4) i by (simp add: l_def c_def)
    moreover have "add_to_chain m b l data = Some (grown b ((chains b)[l := append_bytes data c']) l (length data), 0)"
      using eq align c' \<open>\<not> misalign c > EVBUFFER_CHAIN_MAX\<close> by (simp add: set_chain)
    ultimately show ?thesis unfolding l_def by blast
  next
    case new
    then have "\<not> misalign c > EVBUFFER_CHAIN_MAX" using c by (auto simp: chain_ok_def)
    then have "add_to_chain m b l data = add_new_chain m b l remain data" using eq new by simp
    moreover have "remain \<le> length data" using new(2) by simp
    ultimately show ?thesis using add_new_chain_spec [OF m h i _ room] unfolding l_def by simp
  qed
qed

lemma add_spec:
  assumes m: "malloc_documented m" and ok: "buffer_ok b"
  shows "(\<exists>cs l. evbuffer_add m b data = Some (grown b cs l (length data), 0) \<and> holds cs l (content b @ data) \<and>
      \<not> freeze_end b \<and> total_len b + length data \<le> EV_SIZE_MAX) \<or>
    evbuffer_add m b data = Some (b, -1) \<and>
      (freeze_end b \<or> total_len b + length data > EV_SIZE_MAX \<or> no_room m (length data))"
proof -
  have h: "holds (chains b) (last_with_datap b) (content b)" and len: "total_len b \<le> EV_SIZE_MAX" using ok by (simp_all add: buffer_ok_holds)
  show ?thesis
  proof (cases "freeze_end b \<or> length data > EV_SIZE_MAX - total_len b")
    case True
    then show ?thesis using len by (auto simp: evbuffer_add_def)
  next
    case False
    show ?thesis
    proof (cases "chains b = []")
      case no: False
      then have "last_with_datap b < length (chains b)" using holdsD(2) [OF h] by (simp add: lwd_ok_def)
      moreover from this have "evbuffer_add m b data = add_to_chain m b (last_with_datap b) data"
        using False no by (simp add: evbuffer_add_def)
      moreover have "\<not> freeze_end b" "total_len b + length data \<le> EV_SIZE_MAX" using False len by auto
      ultimately show ?thesis using add_to_chain_spec [OF m h, of data] by auto
    next
      case True
      then have l: "last_with_datap b = 0" and e: "content b = []" "total_len b = 0"
        using ok by (auto simp: buffer_ok_holds holds_def lwd_ok_def content_bytes_of chain_simps)
      show ?thesis
      proof (cases "evbuffer_chain_new m (length data)")
        case None
        then show ?thesis using False True no_roomI [OF None, of "length data"] by (auto simp: evbuffer_add_def evbuffer_chain_insert_new_def)
      next
        case (Some c)
        note c = chain_new_ok [OF m Some]
        define b1 where "b1 = b\<lparr>chains := [c]\<rparr>"
        have "evbuffer_add m b data = add_to_chain m b1 0 data"
          using False True Some l c(2) by (simp add: evbuffer_add_def evbuffer_chain_insert_new_def evbuffer_chain_insert_def b1_def)
        also have "\<dots> = Some (evbuffer_invoke_callbacks (added_len (length data) (set_chain 0 (append_bytes data c) b1)), 0)"
          using c by (simp add: add_to_chain_def b1_def Let_def)
        also have "evbuffer_invoke_callbacks (added_len (length data) (set_chain 0 (append_bytes data c) b1)) =
            grown b [append_bytes data c] 0 (length data)"
          using l by (cases b) (simp add: grown_def b1_def set_chain_def)
        finally have "evbuffer_add m b data = Some (grown b [append_bytes data c] 0 (length data), 0)" .
        moreover have "holds [append_bytes data c] 0 data"
          using payload_append_bytes [of c data] c by (simp add: holds_def chain_simps lwd_ok_def)
        ultimately show ?thesis using False e len by auto
      qed
    qed
  qed
qed

lemma add_reference_spec:
  assumes ok: "buffer_ok b" and len: "length data \<le> EVBUFFER_CHAIN_MAX - EVBUFFER_CHAIN_SIZE"
  shows "(\<exists>cs l. evbuffer_add_reference m b data = Some (grown b cs l (length data), 0) \<and> holds cs l (content b @ data) \<and>
      \<not> freeze_end b) \<or>
    evbuffer_add_reference m b data = Some (b, -1) \<and> (freeze_end b \<or> evbuffer_chain_new m 16 = None)"
proof (cases "evbuffer_chain_new m 16")
  case None
  then show ?thesis by (simp add: evbuffer_add_reference_def)
next
  case (Some c)
  show ?thesis
  proof (cases "freeze_end b")
    case True
    then show ?thesis using Some by (simp add: evbuffer_add_reference_def)
  next
    case False
    have h: "holds (chains b) (last_with_datap b) (content b)" using ok by (simp add: buffer_ok_holds)
    define c' where "c' = c\<lparr>chain_flags := chain_flags c OR EVBUFFER_REFERENCE OR EVBUFFER_IMMUTABLE, buffer := data, off := length data\<rparr>"
    have c: "misalign c = 0" "chain_flags c = 0" using Some by (auto simp: evbuffer_chain_new_def Let_def split: if_splits)
    then have "chain_ok c'" "payload c' = data"
      using len by (simp_all add: c'_def chain_ok_def payload_def immutable_def CHAIN_PINNED_def EVBUFFER_REFERENCE_def EVBUFFER_IMMUTABLE_def
        EVBUFFER_MEM_PINNED_ANY_def EVBUFFER_MEM_PINNED_R_def EVBUFFER_MEM_PINNED_W_def)
    then obtain cs l where "evbuffer_chain_insert b c' = Some (b\<lparr>chains := cs, last_with_datap := l, total_len := total_len b + off c'\<rparr>)"
      "holds cs l (content b @ data)"
      using chain_insert_spec [OF h, of c'] by auto
    then show ?thesis using False Some
      by (auto simp: evbuffer_add_reference_def c'_def grown_def added_len_def)
  qed
qed

section \<open>Prepending\<close>

lemma grown_added [chain_simps]: "grown (added_len n (b\<lparr>chains := ds\<rparr>)) cs l k = grown b cs l (n + k)"
  by (simp add: grown_def added_len_def add.assoc)

lemma grown_chains [chain_simps]: "grown (b\<lparr>chains := ds\<rparr>) cs l k = grown b cs l k"
  by (simp add: grown_def)

lemma prepend_new_chain_spec:
  assumes m: "malloc_documented m" and h: "holds (chains b) (last_with_datap b) bs" and n: "chains b \<noteq> []" "data \<noteq> []"
  shows "(\<exists>cs l. prepend_new_chain m b data = Some (grown b cs l (length data), 0) \<and> holds cs l (data @ bs)) \<or>
    prepend_new_chain m b data = Some (b, -1) \<and> evbuffer_chain_new m (length data) = None"
proof (cases "evbuffer_chain_new m (length data)")
  case None
  then show ?thesis by (simp add: prepend_new_chain_def)
next
  case (Some tmp)
  note t = chain_new_ok [OF m Some]
  define l where "l = last_with_datap b"
  define l' where "l' = (if l = 0 then (if off (hd (chains b)) \<noteq> 0 then 1 else 0) else l + 1)"
  define c where "c = tmp\<lparr>off := length data, misalign := buffer_len tmp - length data,
    buffer := put_bytes (buffer_len tmp - length data) data (buffer tmp)\<rparr>"
  have "prepend_new_chain m b data = Some (grown b (c # chains b) l' (length data), 0)"
    using Some t(5) by (simp add: prepend_new_chain_def Let_def grown_def c_def l'_def l_def)
  moreover have "chain_ok c" "payload c = data" "off c \<noteq> 0"
    using t n(2) by (simp_all add: c_def chain_ok_def payload_def put_bytes_def immutable_def CHAIN_PINNED_def)
  moreover have "lwd_ok (c # chains b) l'"
  proof (rule lwd_okI)
    have lo: "lwd_ok (chains b) l" using holdsD(2) [OF h] by (simp add: l_def)
    show "l' < length (c # chains b)" using lo n(1) by (auto simp: l'_def lwd_ok_def)
    show "off ((c # chains b) ! l') \<noteq> 0" if "0 < l'" using that lo n(1) by (auto simp: l'_def lwd_ok_def hd_conv_nth split: if_splits)
    show "off ((c # chains b) ! i) = 0" if i: "l' < i" "i < length (c # chains b)" for i
    proof (cases "i - 1 = 0")
      case True
      then show ?thesis using i n(1) by (auto simp: l'_def hd_conv_nth split: if_splits)
    next
      case False
      then have "l < i - 1" using i(1) by (auto simp: l'_def split: if_splits)
      then show ?thesis using i lwd_empty_behind [OF lo, of "i - 1"] by (simp add: nth_Cons')
    qed
  qed simp
  ultimately have "holds (c # chains b) l' (data @ bs)" using h by (simp add: holds_def chain_simps)
  with \<open>prepend_new_chain m b data = _\<close> show ?thesis by blast
qed

text \<open>Data in front of the first chain, which must not be the one \<open>last_with_datap\<close> would have to leave.\<close>

lemma holds_update_first:
  assumes h: "holds cs l bs" and n: "cs \<noteq> []"
    and c: "chain_ok c" "payload c = xs @ payload (hd cs)" "off c = off (hd cs) + length xs"
  shows "holds (cs[0 := c]) l (xs @ bs)"
proof -
  obtain d ds where cs: "cs = d # ds" using n by (cases cs) auto
  have "lwd_ok (c # ds) l"
    using holdsD(2) [OF h] c(3) by (cases l) (auto simp: cs lwd_ok_def)
  then show ?thesis using h c(1,2) by (simp add: holds_def cs chain_simps)
qed

text \<open>When memory runs out half way, the end of the data has been put in front.\<close>

definition part_prepended :: "evbuffer \<Rightarrow> byte list \<Rightarrow> byte list \<Rightarrow> evbuffer \<Rightarrow> bool" where
  "part_prepended b data bs b' \<longleftrightarrow> (\<exists>cs n. b' = added_len n (b\<lparr>chains := cs\<rparr>) \<and> n < length data \<and>
     holds cs (last_with_datap b) (drop (length data - n) data @ bs))"

lemma part_prependedI:
  "holds cs (last_with_datap b) (drop (length data - n) data @ bs) \<Longrightarrow> n < length data \<Longrightarrow>
   part_prepended b data bs (added_len n (b\<lparr>chains := cs\<rparr>))"
  by (auto simp: part_prepended_def)

lemma part_prepended_none:
  "holds cs (last_with_datap b) bs \<Longrightarrow> data \<noteq> [] \<Longrightarrow> part_prepended b data bs (b\<lparr>chains := cs\<rparr>)"
  using part_prependedI [of cs b data 0 bs] by (simp add: added_len_def)

lemma prepend_to_chain_spec:
  assumes m: "malloc_documented m" and h: "holds (chains b) (last_with_datap b) bs" and ne: "chains b \<noteq> []" "data \<noteq> []"
  shows "(\<exists>cs l. prepend_to_chain m b data = Some (grown b cs l (length data), 0) \<and> holds cs l (data @ bs)) \<or>
    (\<exists>b'. prepend_to_chain m b data = Some (b', -1) \<and> part_prepended b data bs b' \<and> no_room m (length data))"
proof -
  define c0 where "c0 = hd (chains b)"
  define c where "c = (if off c0 = 0 then c0\<lparr>misalign := buffer_len c0\<rparr> else c0)"
  define k where "k = misalign c"
  have ok0: "chain_ok c0" using holdsD(1) [OF h] ne(1) by (simp add: c0_def)
  then have ok: "chain_ok c" "payload c = payload c0" "off c = off c0" by (auto simp: c_def chain_ok_def immutable_def CHAIN_PINNED_def)
  note eq = prepend_to_chain_def [of m b data, unfolded Let_def, folded c0_def, folded c_def, folded k_def]
  have upd: "holds ((chains b)[0 := prepend_bytes xs c]) (last_with_datap b) (xs @ bs)" if "length xs \<le> k" for xs
    using payload_prepend_bytes [OF ok(1), of xs] that ok(2,3) holds_update_first [OF h ne(1), of "prepend_bytes xs c" xs]
    by (simp add: k_def c0_def) (simp add: prepend_bytes_def)
  have set0: "set_chain 0 d b = b\<lparr>chains := (chains b)[0 := d]\<rparr>" for d by (simp add: set_chain_def)
  consider (imm) "immutable c0" | (fits) "\<not> immutable c0" "length data \<le> k" | (part) "\<not> immutable c0" "\<not> length data \<le> k" "k \<noteq> 0"
    | (none) "\<not> immutable c0" "\<not> length data \<le> k" "k = 0" by blast
  then show ?thesis
  proof cases
    case imm
    then show ?thesis using prepend_new_chain_spec [OF m h ne] part_prepended_none [OF h ne(2)] eq no_roomI [of m "length data" "length data"] by auto
  next
    case fits
    have "\<not> misalign c0 > EVBUFFER_CHAIN_MAX" using ok0 fits by (auto simp: chain_ok_def)
    then have "prepend_to_chain m b data = Some (grown b ((chains b)[0 := prepend_bytes data c]) (last_with_datap b) (length data), 0)"
      using fits eq by (simp add: grown_def set0)
    then show ?thesis using upd [OF fits(2)] by blast
  next
    case part
    define n where "n = length data - k"
    define b1 where "b1 = added_len k (b\<lparr>chains := (chains b)[0 := prepend_bytes (drop n data) c]\<rparr>)"
    have lens: "length (drop n data) = k" "take n data \<noteq> []" "k < length data" "k + n = length data" using part by (auto simp: n_def)
    have h1: "holds (chains b1) (last_with_datap b1) (drop n data @ bs)"
      using upd [of "drop n data"] lens(1) by (simp add: b1_def added_len_def)
    have "\<not> misalign c0 > EVBUFFER_CHAIN_MAX" using ok0 part by (auto simp: chain_ok_def)
    then have new: "prepend_to_chain m b data = prepend_new_chain m b1 (take n data)"
      using part eq by (simp add: n_def b1_def set0)
    have "chains b1 \<noteq> []" using ne(1) by (simp add: b1_def added_len_def)
    from prepend_new_chain_spec [OF m h1 this lens(2)] show ?thesis
    proof
      assume "\<exists>cs l. prepend_new_chain m b1 (take n data) = Some (grown b1 cs l (length (take n data)), 0) \<and> holds cs l (take n data @ drop n data @ bs)"
      moreover have "grown b1 cs l (length (take n data)) = grown b cs l (length data)" for cs l
        using lens(4) by (simp add: b1_def chain_simps)
      ultimately show ?thesis using new by (metis append_assoc append_take_drop_id)
    next
      assume "prepend_new_chain m b1 (take n data) = Some (b1, -1) \<and> evbuffer_chain_new m (length (take n data)) = None"
      moreover from this have "no_room m (length data)" using no_roomI [of m _ "length data"] by auto
      moreover have "part_prepended b data bs b1"
        using part_prependedI [OF _ lens(3), of _ b bs] h1 by (simp add: b1_def added_len_def n_def)
      ultimately show ?thesis using new by auto
    qed
  next
    case none
    have h1: "holds (chains (set_chain 0 c b)) (last_with_datap (set_chain 0 c b)) bs"
      using upd [of "[]"] none holds_update_first [OF h ne(1) ok(1), of "[]"] ok(2,3) by (simp add: set0 c0_def)
    have "\<not> misalign c0 > EVBUFFER_CHAIN_MAX" using ok0 none by (auto simp: chain_ok_def)
    then have new: "prepend_to_chain m b data = prepend_new_chain m (set_chain 0 c b) data" using none eq by simp
    have "chains (set_chain 0 c b) \<noteq> []" using ne(1) by (simp add: set0)
    from prepend_new_chain_spec [OF m h1 this ne(2)] show ?thesis
      using part_prepended_none [OF _ ne(2), of _ b bs] h1 new no_roomI [of m "length data" "length data"] by (auto simp: set0 chain_simps)
  qed
qed

lemma prepend_spec:
  assumes m: "malloc_documented m" and ok: "buffer_ok b" and data: "data \<noteq> []"
  shows "(\<exists>cs l. evbuffer_prepend m b data = Some (grown b cs l (length data), 0) \<and> holds cs l (data @ content b) \<and>
      \<not> freeze_start b \<and> total_len b + length data \<le> EV_SIZE_MAX) \<or>
    evbuffer_prepend m b data = Some (b, -1) \<and> (freeze_start b \<or> total_len b + length data > EV_SIZE_MAX \<or> no_room m (length data)) \<or>
    (\<exists>b'. evbuffer_prepend m b data = Some (b', -1) \<and> part_prepended b data (content b) b' \<and> no_room m (length data) \<and>
      \<not> freeze_start b \<and> total_len b + length data \<le> EV_SIZE_MAX)"
proof (cases "freeze_start b \<or> length data > EV_SIZE_MAX - total_len b")
  case True
  then have "evbuffer_prepend m b data = Some (b, -1)" using data by (auto simp: evbuffer_prepend_def)
  then show ?thesis using True by auto
next
  case False
  have h: "holds (chains b) (last_with_datap b) (content b)" and len: "total_len b \<le> EV_SIZE_MAX" using ok by (simp_all add: buffer_ok_holds)
  then have side: "\<not> freeze_start b" "total_len b + length data \<le> EV_SIZE_MAX" using False by auto
  show ?thesis
  proof (cases "chains b = []")
    case no: False
    then have "evbuffer_prepend m b data = prepend_to_chain m b data" using data False by (simp add: evbuffer_prepend_def)
    then show ?thesis using prepend_to_chain_spec [OF m h no data] side by auto
  next
    case True
    then have l: "last_with_datap b = 0" and e: "content b = []"
      using ok by (auto simp: buffer_ok_holds holds_def lwd_ok_def content_bytes_of chain_simps)
    show ?thesis
    proof (cases "evbuffer_chain_new m (length data)")
      case None
      then show ?thesis using False True data no_roomI [OF None, of "length data"] by (auto simp: evbuffer_prepend_def evbuffer_chain_insert_new_def)
    next
      case (Some c)
      note c = chain_new_ok [OF m Some]
      define b1 where "b1 = b\<lparr>chains := [c]\<rparr>"
      define c1 where "c1 = c\<lparr>misalign := buffer_len c\<rparr>"
      have c1: "chain_ok c1" "payload c1 = []" "off c1 = 0" "length data \<le> misalign c1"
        using c by (simp_all add: c1_def chain_ok_def immutable_def CHAIN_PINNED_def)
      have "evbuffer_prepend m b data = prepend_to_chain m b1 data"
        using False True Some l c(2) data by (simp add: evbuffer_prepend_def evbuffer_chain_insert_new_def evbuffer_chain_insert_def b1_def)
      also have "\<dots> = Some (grown b [prepend_bytes data c1] 0 (length data), 0)"
        using c l by (cases b) (simp add: prepend_to_chain_def b1_def Let_def set_chain_def grown_def c1_def)
      finally have "evbuffer_prepend m b data = Some (grown b [prepend_bytes data c1] 0 (length data), 0)" .
      moreover have "holds [prepend_bytes data c1] 0 data"
        using payload_prepend_bytes [OF c1(1,4)] c1(2) by (simp add: holds_def chain_simps lwd_ok_def)
      ultimately show ?thesis using side e by auto
    qed
  qed
qed

end
