(* ===== verification/Ev_Buffer_Take.thy ===== *)
theory Ev_Buffer_Take
  imports Ev_Buffer_Spec
begin

text \<open>
  What the operations that take data out of a buffer, move it to another or make it contiguous
  promise, on buffers none of whose chains is pinned by a pending read.
\<close>

lemma not_pinned: "buffer_ok b \<Longrightarrow> \<not> HAS_PINNED_R b"
  using last_in_set [of "chains b"] chain_ok_unpinned by (auto simp: buffer_ok_def HAS_PINNED_R_def)

section \<open>Draining\<close>

lemma drain_chain_ok:
  assumes "chain_ok c" "n \<le> off c"
  shows "chain_ok (drain_chain n c)" "payload (drain_chain n c) = drop n (payload c)" "off (drain_chain n c) = off c - n"
  using assms by (auto simp: drain_chain_def chain_ok_def immutable_def CHAIN_PINNED_def payload_def drop_take add.commute)

lemma bytes_nonempty_length: "bytes_of cs \<noteq> [] \<Longrightarrow> lwd_ok cs l \<Longrightarrow> l < length cs"
  by (auto simp: lwd_ok_def chain_simps)

text \<open>A buffer with data has \<open>last_with_datap\<close> at a chain with data.\<close>

lemma lwd_has_data:
  assumes ok: "lwd_ok cs l" and ne: "bytes_of cs \<noteq> []"
  shows "l < length cs" "off (cs ! l) \<noteq> 0"
proof -
  show l: "l < length cs" using bytes_nonempty_length [OF ne ok] .
  show "off (cs ! l) \<noteq> 0"
  proof
    assume z: "off (cs ! l) = 0"
    then have "l = 0" using ok by (auto simp: lwd_ok_def)
    then have "off (cs ! i) = 0" if "i < length cs" for i
      using z that lwd_empty_behind [OF ok, of i] by (cases "i = 0") simp_all
    then have "\<forall>c \<in> set cs. off c = 0" by (auto simp: in_set_conv_nth)
    then show False using ne bytes_of_empty by blast
  qed
qed

lemma lwd_ok_tl: "lwd_ok (c # cs) l \<Longrightarrow> bytes_of cs \<noteq> [] \<Longrightarrow> 0 < l \<and> lwd_ok cs (l - 1)"
  by (cases l) (auto simp: lwd_ok_def chain_simps)

text \<open>Draining less than all of the first chain changes nothing else.\<close>

lemma holds_drain_first:
  assumes h: "holds (c # cs) l bs" and n: "n < off c"
  shows "holds (drain_chain n c # cs) l (drop n bs)"
proof -
  have c: "chain_ok c" using h by (simp add: holds_def)
  note d = drain_chain_ok [OF c, of n]
  have "lwd_ok (drain_chain n c # cs) l" using holdsD(2) [OF h] n d(3) by (cases l) (auto simp: lwd_ok_def)
  then show ?thesis using h n d c by (auto simp: holds_def chain_simps)
qed

lemma drain_loop_spec:
  "holds cs l bs \<Longrightarrow> n < length bs \<Longrightarrow>
   \<exists>c rest l' r. drain_loop cs l n = Some (c # rest, l', r) \<and> r < off c \<and> set (c # rest) \<subseteq> set cs \<and>
     holds (drain_chain r c # rest) l' (drop n bs)"
proof (induction cs arbitrary: l bs n)
  case Nil
  then show ?case by (simp add: holds_def chain_simps)
next
  case (Cons c cs)
  have c: "chain_ok c" and bs: "bs = payload c @ bytes_of cs" using Cons.prems(1) by (auto simp: holds_def chain_simps)
  show ?case
  proof (cases "n < off c")
    case True
    then show ?thesis using holds_drain_first [OF Cons.prems(1) True] by auto
  next
    case False
    then have lt: "n - off c < length (bytes_of cs)" using Cons.prems(2) c by (simp add: bs)
    then have "bytes_of cs \<noteq> []" by auto
    then have "holds cs (l - 1) (bytes_of cs)" using Cons.prems(1) lwd_ok_tl [of c cs l] by (simp add: holds_def)
    from Cons.IH [OF this lt] obtain d rest l' r where
      "drain_loop cs (l - 1) (n - off c) = Some (d # rest, l', r)" "r < off d" "set (d # rest) \<subseteq> set cs"
      "holds (drain_chain r d # rest) l' (drop (n - off c) (bytes_of cs))" by auto
    then show ?thesis using False chain_ok_unpinned [OF c] c by (auto simp: bs)
  qed
qed

text \<open>A buffer that lost n bytes, after its callbacks.\<close>

definition shrunk :: "evbuffer \<Rightarrow> chain list \<Rightarrow> nat \<Rightarrow> nat \<Rightarrow> evbuffer" where
  "shrunk b cs l n = evbuffer_invoke_callbacks
     (b\<lparr>chains := cs, last_with_datap := l, total_len := total_len b - n, n_del_for_cb := n_del_for_cb b + n\<rparr>)"

lemma shrunk_frame [simp]:
  "chains (shrunk b cs l n) = cs" "last_with_datap (shrunk b cs l n) = l" "total_len (shrunk b cs l n) = total_len b - n"
  "freeze_start (shrunk b cs l n) = freeze_start b" "freeze_end (shrunk b cs l n) = freeze_end b"
  "cb_entries (shrunk b cs l n) = cb_entries b" "deferred_cbs (shrunk b cs l n) = deferred_cbs b"
  by (simp_all add: shrunk_def)

lemma shrunk_ok:
  assumes "buffer_ok b" "holds cs l bs" "length bs = length (content b) - n"
  shows "buffer_ok (shrunk b cs l n)" "content (shrunk b cs l n) = bs"
proof -
  have "total_len b = length (content b)" "length bs \<le> EV_SIZE_MAX" using assms by (auto simp: buffer_ok_holds)
  then show "buffer_ok (shrunk b cs l n)" "content (shrunk b cs l n) = bs"
    using buffer_okI [of "shrunk b cs l n" bs] assms(2,3) by simp_all
qed

lemma drain_spec:
  assumes ok: "buffer_ok b"
  shows "evbuffer_drain b n =
     (if total_len b = 0 then Some (b, 0) else if freeze_start b then Some (b, -1) else evbuffer_drain b n)"
    and "total_len b \<noteq> 0 \<Longrightarrow> \<not> freeze_start b \<Longrightarrow>
     \<exists>cs l. evbuffer_drain b n = Some (shrunk b cs l (min n (total_len b)), 0) \<and> holds cs l (drop n (content b))"
proof -
  show "evbuffer_drain b n =
     (if total_len b = 0 then Some (b, 0) else if freeze_start b then Some (b, -1) else evbuffer_drain b n)"
    by (simp add: evbuffer_drain_def)
  assume a: "total_len b \<noteq> 0" "\<not> freeze_start b"
  have h: "holds (chains b) (last_with_datap b) (content b)" and len: "total_len b = length (content b)"
    using ok by (simp_all add: buffer_ok_holds)
  show "\<exists>cs l. evbuffer_drain b n = Some (shrunk b cs l (min n (total_len b)), 0) \<and> holds cs l (drop n (content b))"
  proof (cases "n \<ge> total_len b")
    case True
    then have "evbuffer_drain b n = Some (shrunk b [] 0 (min n (total_len b)), 0)"
      using a not_pinned [OF ok] by (simp add: evbuffer_drain_def Let_def shrunk_def ZERO_CHAIN_def)
    moreover have "holds [] 0 (drop n (content b))" using True len by (simp add: holds_def lwd_ok_def chain_simps)
    ultimately show ?thesis by blast
  next
    case False
    then obtain c rest l' r where d: "drain_loop (chains b) (last_with_datap b) n = Some (c # rest, l', r)" "r < off c"
      "set (c # rest) \<subseteq> set (chains b)" "holds (drain_chain r c # rest) l' (drop n (content b))"
      using drain_loop_spec [OF h, of n] len by auto
    then have "evbuffer_drain b n = Some (shrunk b (drain_chain r c # rest) l' (min n (total_len b)), 0)"
      using a False by (simp add: evbuffer_drain_def Let_def shrunk_def)
    then show ?thesis using d(4) by blast
  qed
qed

lemma c_int_small: "j \<le> INT_MAX \<Longrightarrow> c_int (int j) = int j"
  unfolding c_int_def sint_sbintrunc' by (rule signed_take_bit_int_eq_self) (simp_all add: INT_MAX_def)

section \<open>Copying\<close>

lemma copy_loop_spec:
  "\<forall>c \<in> set cs. chain_ok c \<Longrightarrow> p + n \<le> length (bytes_of cs) \<Longrightarrow> (cs \<noteq> [] \<longrightarrow> p \<le> off (hd cs)) \<Longrightarrow>
   copy_loop cs p n = Some (take n (drop p (bytes_of cs)))"
proof (induction cs arbitrary: p n)
  case (Cons c cs)
  have c: "chain_ok c" and p: "p \<le> off c" using Cons.prems by auto
  show ?case
  proof (cases "n \<ge> off c - p")
    case True
    then have "copy_loop cs 0 (n - (off c - p)) = Some (take (n - (off c - p)) (bytes_of cs))"
      using Cons.IH [of 0 "n - (off c - p)"] Cons.prems c p by (simp add: chain_simps)
    moreover have "cs = [] \<Longrightarrow> n = off c - p" using True Cons.prems(2) c by (simp add: chain_simps)
    ultimately show ?thesis using True p c by (auto simp: chain_simps)
  next
    case False
    then show ?thesis using p c by (simp add: chain_simps)
  qed
qed (simp add: chain_simps)

text \<open>A position that \<open>evbuffer_ptr_set\<close> and the searches give: it is where its chain and offset say.\<close>

definition ptr_ok :: "evbuffer \<Rightarrow> evbuffer_ptr \<Rightarrow> bool" where
  "ptr_ok b q \<longleftrightarrow> 0 \<le> pos q \<and> nat (pos q) \<le> total_len b \<and>
     (case ptr_chain q of
        None \<Rightarrow> nat (pos q) = total_len b \<and> pos_in_chain q = 0
      | Some i \<Rightarrow> i < length (chains b) \<and> pos_in_chain q \<le> off (chains b ! i) \<and>
          nat (pos q) = length (bytes_of (take i (chains b))) + pos_in_chain q)"

lemma ptr_tail:
  assumes ok: "buffer_ok b" and p: "ptr_ok b q"
  shows "drop (pos_in_chain q) (bytes_of (chain_tail b (ptr_chain q))) = drop (nat (pos q)) (content b)"
    "chain_tail b (ptr_chain q) \<noteq> [] \<longrightarrow> pos_in_chain q \<le> off (hd (chain_tail b (ptr_chain q)))"
    "\<forall>c \<in> set (chain_tail b (ptr_chain q)). chain_ok c"
    "nat (pos q) + length (drop (pos_in_chain q) (bytes_of (chain_tail b (ptr_chain q)))) = total_len b"
proof -
  have len: "total_len b = length (content b)" using ok by (simp add: buffer_ok_holds)
  have split: "content b = bytes_of (take i (chains b)) @ bytes_of (drop i (chains b))" for i
    by (metis append_take_drop_id bytes_of_simps(3) content_bytes_of)
  show eq: "drop (pos_in_chain q) (bytes_of (chain_tail b (ptr_chain q))) = drop (nat (pos q)) (content b)"
  proof (cases "ptr_chain q")
    case None
    then show ?thesis using p len by (simp add: ptr_ok_def chain_tail_def chain_simps)
  next
    case (Some i)
    then show ?thesis using p unfolding split [of i] by (simp add: ptr_ok_def chain_tail_def)
  qed
  show "chain_tail b (ptr_chain q) \<noteq> [] \<longrightarrow> pos_in_chain q \<le> off (hd (chain_tail b (ptr_chain q)))"
    using p by (cases "ptr_chain q") (auto simp: ptr_ok_def chain_tail_def hd_drop_conv_nth)
  show "\<forall>c \<in> set (chain_tail b (ptr_chain q)). chain_ok c"
    using buffer_okD(1) [OF ok] by (cases "ptr_chain q") (auto simp: chain_tail_def dest: in_set_dropD)
  show "nat (pos q) + length (drop (pos_in_chain q) (bytes_of (chain_tail b (ptr_chain q)))) = total_len b"
    unfolding eq using p len by (simp add: ptr_ok_def)
qed

lemma copyout_from_spec:
  assumes ok: "buffer_ok b" and p: "ptr_ok b q" and n: "n + nat (pos q) \<le> EV_SSIZE_MAX" and f: "\<not> freeze_start b"
  shows "evbuffer_copyout_from b (Some q) n =
    Some (take n (drop (nat (pos q)) (content b)), int (min n (total_len b - nat (pos q))))"
proof -
  note t = ptr_tail [OF ok p]
  define k where "k = min n (total_len b - nat (pos q))"
  have le: "0 \<le> pos q" "nat (pos q) \<le> total_len b" using p by (simp_all add: ptr_ok_def)
  have "copy_loop (chain_tail b (ptr_chain q)) (pos_in_chain q) k = Some (take k (drop (nat (pos q)) (content b)))" if "k \<noteq> 0"
  proof -
    have "pos_in_chain q + k \<le> length (bytes_of (chain_tail b (ptr_chain q)))" using that t(4) by (simp add: k_def) linarith
    then show ?thesis using copy_loop_spec [OF t(3) _ t(2), of k] unfolding t(1) by blast
  qed
  moreover have "take k (drop (nat (pos q)) (content b)) = take n (drop (nat (pos q)) (content b))"
    using buffer_okD(2) [OF ok] by (simp add: k_def min_def)
  moreover have "(if n + nat (pos q) > total_len b then total_len b - nat (pos q) else n) = k" using le by (auto simp: k_def min_def)
  moreover have "\<not> n > EV_SSIZE_MAX - nat (pos q)" using n by linarith
  ultimately show ?thesis using le f
    by (auto simp: evbuffer_copyout_from_def Let_def simp flip: k_def)
qed

lemma copyout_spec:
  assumes ok: "buffer_ok b" and f: "\<not> freeze_start b"
  shows "evbuffer_copyout_from b None n = Some (take n (content b), int (min n (total_len b)))"
proof -
  have len: "total_len b = length (content b)" using ok by (simp add: buffer_ok_holds)
  define k where "k = (if n > total_len b then total_len b else n)"
  have "copy_loop (chains b) 0 k = Some (take k (content b))"
    using copy_loop_spec [of "chains b" 0 k] buffer_okD(1) [OF ok] len by (auto simp: k_def content_bytes_of)
  moreover have "take k (content b) = take n (content b)" "k = min n (total_len b)" using len by (auto simp: k_def)
  ultimately show ?thesis using f by (auto simp: evbuffer_copyout_from_def Let_def simp flip: k_def)
qed

lemma remove_spec:
  assumes ok: "buffer_ok b" and f: "\<not> freeze_start b"
  shows "\<exists>b' r. evbuffer_remove b n = Some (b', take n (content b), r) \<and> buffer_ok b' \<and> content b' = drop n (content b) \<and>
    freeze_start b' = freeze_start b"
proof -
  define k where "k = min n (total_len b)"
  have out: "evbuffer_copyout_from b None n = Some (take n (content b), int k)" using copyout_spec [OF ok f] by (simp add: k_def)
  have len: "total_len b = length (content b)" using ok by (rule buffer_okD)
  show ?thesis
  proof (cases "k = 0")
    case True
    then show ?thesis using out ok len by (auto simp: evbuffer_remove_def k_def min_def split: if_splits)
  next
    case False
    then obtain cs l where d: "evbuffer_drain b k = Some (shrunk b cs l k, 0)" "holds cs l (drop k (content b))"
      using drain_spec(2) [OF ok _ f, of k] by (auto simp: k_def)
    have "drop k (content b) = drop n (content b)" using len by (auto simp: k_def min_def)
    moreover have "length (drop k (content b)) = length (content b) - k" by simp
    ultimately show ?thesis using out d(1) False shrunk_ok [OF ok d(2)] by (simp add: evbuffer_remove_def)
  qed
qed

section \<open>Moving\<close>

text \<open>A list of chains behind another: \<open>last_with_datap\<close> is the one of the second, when it has data.\<close>

lemma lwd_ok_append:
  assumes ok: "lwd_ok ds l" and ne: "off (ds ! l) \<noteq> 0" "l < length ds"
  shows "lwd_ok (cs @ ds) (length cs + l)"
proof (rule lwd_okI)
  show "off ((cs @ ds) ! i) = 0" if "length cs + l < i" "i < length (cs @ ds)" for i
    using that lwd_empty_behind [OF ok, of "i - length cs"] by (simp add: nth_append)
qed (use ne in \<open>auto simp: nth_append\<close>)

lemma holds_append:
  assumes "\<forall>c \<in> set cs. chain_ok c" "holds ds l bs" "bs \<noteq> []"
  shows "holds (cs @ ds) (length cs + l) (bytes_of cs @ bs)"
  using assms lwd_has_data [of ds l] lwd_ok_append [of ds l cs] by (auto simp: holds_def chain_simps)

text \<open>A buffer whose data has been taken by another.\<close>

definition emptied :: "evbuffer \<Rightarrow> evbuffer" where
  "emptied b = shrunk b [] 0 (total_len b)"

lemma emptied_ok: "buffer_ok b \<Longrightarrow> buffer_ok (emptied b)" "content (emptied b) = []"
  using shrunk_ok(1) [of b "[]" 0 "[]" "total_len b"]
  by (simp_all add: emptied_def content_bytes_of chain_simps holds_def lwd_ok_def buffer_ok_holds)

lemma APPEND_CHAIN_spec:
  assumes d: "holds (chains dst) (last_with_datap dst) bs" and s: "holds (chains src) (last_with_datap src) ss"
    and ne: "bs \<noteq> []" "ss \<noteq> []"
  shows "\<exists>cs l. APPEND_CHAIN dst src = Some (dst\<lparr>chains := cs, last_with_datap := l, total_len := total_len dst + total_len src\<rparr>) \<and>
    holds cs l (bs @ ss)"
proof -
  have ok: "lwd_ok (chains dst) (last_with_datap dst)" and bs: "bytes_of (chains dst) = bs" using holdsD [OF d] by simp_all
  then have l: "last_with_datap dst < length (chains dst)" using lwd_has_data(1) [OF ok] ne(1) by simp
  obtain k where k: "evbuffer_free_trailing_empty_chains dst = Some (take k (chains dst))" "bytes_of (take k (chains dst)) = bs"
    using free_trailing_spec [OF ok l] bs by blast
  have "\<forall>c \<in> set (take k (chains dst)). chain_ok c" using d by (auto simp: holds_def dest: in_set_takeD)
  from holds_append [OF this s ne(2)] show ?thesis using k by (auto simp: APPEND_CHAIN_def)
qed

lemma PREPEND_CHAIN_spec:
  assumes d: "holds (chains dst) (last_with_datap dst) bs" and s: "holds (chains src) (last_with_datap src) ss"
    and ne: "bs \<noteq> []"
  shows "\<exists>cs l. PREPEND_CHAIN dst src = dst\<lparr>chains := cs, last_with_datap := l, total_len := total_len dst + total_len src\<rparr> \<and>
    holds cs l (ss @ bs)"
proof -
  have "last_with_datap dst < length (chains dst)"
    using lwd_has_data(1) [of "chains dst" "last_with_datap dst"] holdsD(2,3) [OF d] ne by simp
  moreover have "holds (chains src @ chains dst) (length (chains src) + last_with_datap dst) (ss @ bs)"
    using holds_append [OF _ d ne, of "chains src"] s by (simp add: holds_def)
  ultimately show ?thesis
    by (intro exI [of _ "chains src @ chains dst"] exI [of _ "length (chains src) + last_with_datap dst"]) (simp add: PREPEND_CHAIN_def)
qed

lemma move_buffer_spec:
  assumes o: "buffer_ok outbuf" and i: "buffer_ok inbuf"
    and go: "total_len inbuf \<noteq> 0" "\<not> (if front then freeze_start outbuf else freeze_end outbuf)" "\<not> freeze_start inbuf"
  shows "\<exists>cs l. move_buffer m front False outbuf inbuf = Some (grown outbuf cs l (total_len inbuf), emptied inbuf, 0) \<and>
    holds cs l (if front then content inbuf @ content outbuf else content outbuf @ content inbuf)"
proof -
  have ho: "holds (chains outbuf) (last_with_datap outbuf) (content outbuf)" "total_len outbuf = length (content outbuf)"
    and hi: "holds (chains inbuf) (last_with_datap inbuf) (content inbuf)" "total_len inbuf = length (content inbuf)"
    using o i by (simp_all add: buffer_ok_holds)
  define moved where "moved = (if total_len outbuf = 0 then Some (COPY_CHAIN outbuf inbuf)
    else if front then Some (PREPEND_CHAIN outbuf inbuf) else APPEND_CHAIN outbuf inbuf)"
  have eq: "move_buffer m front False outbuf inbuf = map_option (\<lambda>out1.
      (evbuffer_invoke_callbacks (out1\<lparr>n_add_for_cb := n_add_for_cb out1 + total_len inbuf\<rparr>), emptied inbuf, 0)) moved"
    using go not_pinned [OF i]
    by (simp add: move_buffer_def PRESERVE_PINNED_def RESTORE_PINNED_def ZERO_CHAIN_def emptied_def shrunk_def moved_def)
  have "\<exists>cs l. moved = Some (outbuf\<lparr>chains := cs, last_with_datap := l, total_len := total_len outbuf + total_len inbuf\<rparr>) \<and>
      holds cs l (if front then content inbuf @ content outbuf else content outbuf @ content inbuf)"
  proof (cases "total_len outbuf = 0")
    case True
    then have "content outbuf = []" using ho(2) by simp
    then show ?thesis using True hi(1)
      by (intro exI [of _ "chains inbuf"] exI [of _ "last_with_datap inbuf"]) (simp add: moved_def COPY_CHAIN_def)
  next
    case False
    then have ne: "content outbuf \<noteq> []" "content inbuf \<noteq> []" using ho(2) hi(2) go(1) by auto
    show ?thesis using False APPEND_CHAIN_spec [OF ho(1) hi(1) ne] PREPEND_CHAIN_spec [OF ho(1) hi(1) ne(1)]
      by (cases front) (simp_all add: moved_def)
  qed
  then obtain cs l where "moved = Some (outbuf\<lparr>chains := cs, last_with_datap := l, total_len := total_len outbuf + total_len inbuf\<rparr>)"
    "holds cs l (if front then content inbuf @ content outbuf else content outbuf @ content inbuf)" by blast
  then show ?thesis unfolding eq
    by (intro exI [of _ cs] exI [of _ l]) (simp add: grown_def added_len_def)
qed

text \<open>Moving part of a buffer: whole chains, and a copy of what is left.\<close>

lemma whole_chains_spec:
  "lwd_ok cs l \<Longrightarrow> \<forall>c \<in> set cs. chain_ok c \<Longrightarrow> n < length (bytes_of cs) \<Longrightarrow>
   \<exists>moved c rest l' r. whole_chains first cs l n = Some (moved, c # rest, l', r) \<and> cs = moved @ c # rest \<and> r < off c \<and>
     length (bytes_of moved) + r = n \<and> lwd_ok (c # rest) l'"
proof (induction cs arbitrary: first l n)
  case (Cons c cs)
  have c: "chain_ok c" using Cons.prems by simp
  show ?case
  proof (cases "off c \<le> n")
    case False
    then show ?thesis using Cons.prems(1) by (simp add: chain_simps)
  next
    case True
    then have lt: "n - off c < length (bytes_of cs)" using Cons.prems(3) c by (simp add: chain_simps)
    then have "bytes_of cs \<noteq> []" by auto
    then have l: "0 < l" "lwd_ok cs (l - 1)" using lwd_ok_tl [OF Cons.prems(1)] by simp_all
    obtain moved d rest l' r where "whole_chains False cs (l - 1) (n - off c) = Some (moved, d # rest, l', r)" "cs = moved @ d # rest"
      "r < off d" "length (bytes_of moved) + r = n - off c" "lwd_ok (d # rest) l'"
      using Cons.IH [OF l(2) _ lt, of False] Cons.prems(2) by auto
    then show ?thesis using True l(1) c by (auto simp: chain_simps)
  qed
qed (simp add: chain_simps)

lemma last_data_spec:
  assumes "l < i" "i \<le> length cs" "0 < l \<longrightarrow> off (cs ! l) \<noteq> 0" "\<forall>j. l < j \<and> j < i \<longrightarrow> off (cs ! j) = 0"
  shows "lwd_ok cs (last_data l i (drop i cs))"
  using assms
proof (induction "length cs - i" arbitrary: l i)
  case 0
  then have "drop i cs = []" "i = length cs" by simp_all
  then show ?case using 0 by (auto intro!: lwd_okI)
next
  case (Suc k)
  then have "drop i cs = cs ! i # drop (Suc i) cs" by (simp add: Cons_nth_drop_Suc)
  then have eq: "last_data l i (drop i cs) = last_data (if off (cs ! i) \<noteq> 0 then i else l) (i + 1) (drop (i + 1) cs)" by simp
  have "i < length cs" using Suc.hyps(2) by simp
  then show ?case unfolding eq using Suc.hyps(2) Suc.prems
    by (intro Suc.hyps(1)) (auto simp: less_Suc_eq split: if_splits)
qed

text \<open>\<open>advance_last_with_data\<close> finds the last chain with data.\<close>

lemma advance_spec:
  assumes "chains b = [] \<Longrightarrow> last_with_datap b = 0" "chains b \<noteq> [] \<Longrightarrow> last_with_datap b < length (chains b)"
    "0 < last_with_datap b \<Longrightarrow> off (chains b ! last_with_datap b) \<noteq> 0"
  shows "\<exists>l. advance_last_with_data b = b\<lparr>last_with_datap := l\<rparr> \<and> lwd_ok (chains b) l"
proof (cases "chains b = []")
  case True
  then show ?thesis using assms(1) by (intro exI [of _ "last_with_datap b"]) (simp add: advance_last_with_data_def lwd_ok_def)
next
  case False
  then show ?thesis using assms(2,3) last_data_spec [of "last_with_datap b" "last_with_datap b + 1" "chains b"]
    by (auto simp: advance_last_with_data_def)
qed

lemma remove_buffer_spec:
  assumes m: "malloc_documented m" and s: "buffer_ok src" and d: "buffer_ok dst"
    and go: "\<not> freeze_end dst" "\<not> freeze_start src" "0 < n" "n < total_len src"
    and len: "total_len dst + total_len src \<le> EV_SIZE_MAX"
  shows "\<exists>cs l dst'. evbuffer_remove_buffer m False src dst n = Some (shrunk src cs l n, dst', c_int (int n)) \<and>
    holds cs l (drop n (content src)) \<and> buffer_ok dst' \<and>
    (content dst' = content dst @ take n (content src) \<or>
     (\<exists>k < n. content dst' = content dst @ take k (content src)) \<and> no_room m n)"
proof -
  have hs: "holds (chains src) (last_with_datap src) (content src)" and ls: "total_len src = length (content src)"
    and hd: "holds (chains dst) (last_with_datap dst) (content dst)" and ld: "total_len dst = length (content dst)"
    using s d by (simp_all add: buffer_ok_holds)
  have bs: "bytes_of (chains src) = content src" "bytes_of (chains dst) = content dst" by (simp_all add: content_bytes_of)
  obtain moved c rest l r where w: "whole_chains True (chains src) (last_with_datap src) n = Some (moved, c # rest, l, r)"
    "chains src = moved @ c # rest" "r < off c" "length (bytes_of moved) + r = n" "lwd_ok (c # rest) l"
    using whole_chains_spec [of "chains src" "last_with_datap src" n True] holdsD [OF hs] go(4) ls by metis
  have oks: "\<forall>e \<in> set (moved @ c # rest). chain_ok e" using buffer_okD(1) [OF s] w(2) by auto
  have src_bytes: "content src = bytes_of moved @ payload c @ bytes_of rest" using bs(1) w(2) by (simp add: chain_simps)
  have "holds (c # rest) l (bytes_of (c # rest))" using oks w(5) by (simp add: holds_def)
  from holds_drain_first [OF this w(3)] have hrest: "holds (drain_chain r c # rest) l (drop n (content src))"
    using src_bytes w(4) by (simp add: chain_simps flip: w(4))
  have tk: "take n (content src) = bytes_of moved @ take r (payload c)"
    using src_bytes oks w(3) by (simp flip: w(4))
  define dst1 where "dst1 = (if moved = [] then Some dst else map_option (\<lambda>cs. added_len (sum_list (map off moved))
      (advance_last_with_data (dst\<lparr>chains := cs @ moved\<rparr>))) (evbuffer_free_trailing_empty_chains dst))"
  have "\<exists>d1. dst1 = Some d1 \<and> buffer_ok d1 \<and> content d1 = content dst @ bytes_of moved \<and> freeze_end d1 = freeze_end dst"
  proof (cases "moved = []")
    case True
    then show ?thesis using d by (simp add: dst1_def chain_simps)
  next
    case False
    have ok: "lwd_ok (chains dst) (last_with_datap dst)" using hd by (rule holdsD)
    obtain k where k: "evbuffer_free_trailing_empty_chains dst = Some (take k (chains dst))" "bytes_of (take k (chains dst)) = content dst"
      "last_with_datap dst \<le> k" "k \<le> length (chains dst)" "0 < last_with_datap dst \<longrightarrow> last_with_datap dst < k"
    proof (cases "chains dst = []")
      case True
      then show ?thesis using that [of 0] ok bs by (auto simp: lwd_ok_def evbuffer_free_trailing_empty_chains_def evbuffer_chains_all_empty_def chain_simps)
    next
      case no: False
      then have "last_with_datap dst < length (chains dst)" using ok by (simp add: lwd_ok_def)
      then obtain k where "last_with_datap dst \<le> k" "k \<le> length (chains dst)" "evbuffer_free_trailing_empty_chains dst = Some (take k (chains dst))"
        "off (chains dst ! last_with_datap dst) \<noteq> 0 \<longrightarrow> last_with_datap dst < k" "bytes_of (take k (chains dst)) = bytes_of (chains dst)"
        using free_trailing_spec [OF ok] by blast
      then show ?thesis using that ok bs by (auto simp: lwd_ok_def)
    qed
    define b2 where "b2 = dst\<lparr>chains := take k (chains dst) @ moved\<rparr>"
    have "last_with_datap b2 < length (chains b2)" using k(3-5) False by (cases "last_with_datap dst = 0") (simp_all add: b2_def)
    moreover have "0 < last_with_datap b2 \<Longrightarrow> off (chains b2 ! last_with_datap b2) \<noteq> 0"
      using k(4,5) ok by (auto simp: b2_def lwd_ok_def nth_append)
    moreover have "chains b2 \<noteq> []" using False by (simp add: b2_def)
    ultimately obtain l2 where adv: "advance_last_with_data b2 = b2\<lparr>last_with_datap := l2\<rparr>" "lwd_ok (chains b2) l2"
      using advance_spec [of b2] by metis
    have sum: "sum_list (map off moved) = length (bytes_of moved)" using oks by (subst length_bytes_of) auto
    define d1 where "d1 = added_len (length (bytes_of moved)) (b2\<lparr>last_with_datap := l2\<rparr>)"
    have "dst1 = Some d1" using False k(1) adv(1) sum by (simp add: dst1_def d1_def b2_def)
    moreover have "holds (chains d1) (last_with_datap d1) (content dst @ bytes_of moved)"
      using adv(2) k(2) oks hd by (auto simp: d1_def added_len_def b2_def holds_def chain_simps dest: in_set_takeD)
    moreover have "total_len d1 = length (content dst @ bytes_of moved)" using ld by (simp add: d1_def added_len_def b2_def)
    moreover have "length (content dst @ bytes_of moved) \<le> EV_SIZE_MAX" using len ld ls src_bytes by simp
    moreover have "freeze_end d1 = freeze_end dst" by (simp add: d1_def added_len_def b2_def)
    ultimately show ?thesis using buffer_okI [of d1 "content dst @ bytes_of moved"] by blast
  qed
  then obtain d1 where d1: "dst1 = Some d1" "buffer_ok d1" "content d1 = content dst @ bytes_of moved" "freeze_end d1 = freeze_end dst" by blast
  define data where "data = take r (payload c)"
  have fits: "total_len d1 + length data \<le> EV_SIZE_MAX"
    using buffer_okD(2) [OF d1(2)] d1(3) len ld ls src_bytes oks w(3) by (simp add: data_def)
  obtain d2 res where d2: "evbuffer_add m d1 data = Some (d2, res)" "buffer_ok d2"
    "content d2 = content d1 @ data \<or> content d2 = content d1 \<and> no_room m n"
  proof -
    have "\<not> freeze_end d1" "\<not> total_len d1 + length data > EV_SIZE_MAX" using d1(4) go(1) fits by simp_all
    then consider (ok) cs l' where "evbuffer_add m d1 data = Some (grown d1 cs l' (length data), 0)" "holds cs l' (content d1 @ data)"
      | (fail) "evbuffer_add m d1 data = Some (d1, -1)" "no_room m (length data)"
      using add_spec [OF m d1(2), of data] by blast
    then show ?thesis
    proof cases
      case ok
      have "length (content d1 @ data) \<le> EV_SIZE_MAX" using fits buffer_okD(2) [OF d1(2)] by simp
      then show ?thesis using that [OF ok(1)] grown_ok [OF buffer_okD(2) [OF d1(2)] ok(2)] by simp
    next
      case fail
      moreover have "length data \<le> n" using w(4) by (simp add: data_def)
      ultimately have "no_room m n" by (auto simp: no_room_def)
      then show ?thesis using that fail(1) d1(2) by blast
    qed
  qed
  define dst' where "dst' = evbuffer_invoke_callbacks d2"
  have "evbuffer_remove_buffer m False src dst n = Option.bind dst1 (\<lambda>d1. Option.bind (evbuffer_add m d1 data) (\<lambda>(d2, _).
      Some (shrunk src (drain_chain r c # rest) l n, evbuffer_invoke_callbacks d2, c_int (int n))))"
    using go w(1) unfolding evbuffer_remove_buffer_def dst1_def data_def shrunk_def Let_def by simp
  then have "evbuffer_remove_buffer m False src dst n = Some (shrunk src (drain_chain r c # rest) l n, dst', c_int (int n))"
    using d1(1) d2(1) by (simp add: dst'_def)
  moreover have "buffer_ok dst'" "content dst' = content d2" using d2(2) by (simp_all add: dst'_def buffer_ok_def content_def)
  moreover have "content d2 = content dst @ take n (content src) \<or>
      (\<exists>k < n. content d2 = content dst @ take k (content src)) \<and> no_room m n"
  proof (cases "r = 0")
    case True
    then show ?thesis using d2(3) d1(3) tk by (auto simp: data_def)
  next
    case False
    have "take (length (bytes_of moved)) (content src) = bytes_of moved" using src_bytes by simp
    moreover have "length (bytes_of moved) < n" using False w(4) by simp
    ultimately show ?thesis using d2(3) d1(3) tk by (auto simp: data_def)
  qed
  ultimately show ?thesis using hrest by metis
qed

section \<open>Making contiguous\<close>

lemma pullup_loop_spec:
  "\<forall>c \<in> set cs. chain_ok c \<Longrightarrow> n \<le> length (bytes_of cs) \<Longrightarrow> pullup_loop cs n = (out, rest, r, k) \<Longrightarrow>
   rest = drop k cs \<and> k \<le> length cs \<and> out = bytes_of (take k cs) \<and> length out + r = n \<and>
   (if rest = [] then r = 0 else r < off (hd rest)) \<and> (0 < k \<longrightarrow> off (hd cs) \<le> n) \<and> (cs \<noteq> [] \<and> k = 0 \<longrightarrow> n < off (hd cs))"
proof (induction cs arbitrary: n out rest r k)
  case (Cons c cs)
  have c: "chain_ok c" using Cons.prems(1) by simp
  show ?case
  proof (cases "n \<ge> off c")
    case True
    obtain out' rest' r' k' where p: "pullup_loop cs (n - off c) = (out', rest', r', k')" by (metis prod_cases4)
    have "n - off c \<le> length (bytes_of cs)" using Cons.prems(2) c by (simp add: chain_simps)
    with Cons.IH [OF _ _ p] Cons.prems(1) have
      "rest' = drop k' cs \<and> k' \<le> length cs \<and> out' = bytes_of (take k' cs) \<and> length out' + r' = n - off c \<and>
       (if rest' = [] then r' = 0 else r' < off (hd rest'))" by fastforce
    then show ?thesis using True p Cons.prems(3) c by (auto simp: chain_simps)
  next
    case False
    then show ?thesis using Cons.prems(3) c by (auto simp: chain_simps)
  qed
qed (simp add: chain_simps)

text \<open>
  Where \<open>last_with_datap\<close> ends: the chains behind the first \<open>j\<close> follow the new first one, which
  has data, and the first of them may have lost some.
\<close>

lemma pullup_lwd:
  assumes ok: "lwd_ok cs l" and j: "j \<le> length cs" "0 < j" and t: "off t \<noteq> 0"
    and rest: "rest = drop j cs" "rest' = (case rest of [] \<Rightarrow> [] | c # ds \<Rightarrow> drain_chain r c # ds)" "rest \<noteq> [] \<Longrightarrow> r < off (hd rest)"
  shows "lwd_ok (t # rest') (if l < j then 0 else l - j + 1)"
proof -
  have len: "length rest' = length cs - j"
  proof -
    have "length rest' = length rest" by (cases rest) (simp_all add: rest(2))
    then show ?thesis by (simp add: rest(1))
  qed
  have nth0: "off (rest' ! 0) \<noteq> 0" if "rest \<noteq> []" using that rest(2,3) by (cases rest) (auto simp: drain_chain_def)
  have nth: "off (rest' ! i) = off (cs ! (j + i))" if i: "0 < i" "i < length rest'" for i
  proof -
    have "rest' ! i = rest ! i" using i by (cases rest; cases i) (simp_all add: rest(2))
    then show ?thesis using i len by (simp add: rest(1))
  qed
  define l' where "l' = (if l < j then 0 else l - j + 1)"
  have "lwd_ok (t # rest') l'"
  proof (rule lwd_okI)
    show "l' < length (t # rest')" using ok j len by (auto simp: lwd_ok_def l'_def)
    show "off ((t # rest') ! l') \<noteq> 0"
    proof (cases "l < j")
      case True
      then show ?thesis using t by (simp add: l'_def)
    next
      case False
      then have l: "j \<le> l" "l < length cs" "off (cs ! l) \<noteq> 0" using ok j by (auto simp: lwd_ok_def)
      then have "rest \<noteq> []" by (simp add: rest(1))
      then show ?thesis using l nth0 nth [of "l - j"] len False by (cases "l = j") (auto simp: l'_def)
    qed
    show "off ((t # rest') ! i) = 0" if i: "l' < i" "i < length (t # rest')" for i
    proof -
      have b: "l < j + (i - 1)" "j + (i - 1) < length cs" using i len j(2) by (auto simp: l'_def split: if_splits)
      then have z: "off (cs ! (j + (i - 1))) = 0" using lwd_empty_behind [OF ok] by blast
      have "i - 1 \<noteq> 0"
      proof
        assume "i - 1 = 0"
        then have "rest \<noteq> []" "off (hd rest) = 0" using z b(2) by (simp_all add: rest(1) hd_drop_conv_nth)
        then show False using rest(3) by simp
      qed
      then show ?thesis using z nth [of "i - 1"] i by (simp add: nth_Cons')
    qed
  qed simp
  then show ?thesis by (simp add: l'_def)
qed

text \<open>The end of \<open>evbuffer_pullup\<close>: the new first chain holds the bytes asked for.\<close>

lemma pullup_into_spec:
  assumes h: "holds cs l bs" and b: "chains b = cs" "last_with_datap b = l" and n: "n \<le> length (bytes_of (drop first cs))"
    and first: "first \<le> 1" "first \<le> length cs" "first = 0 \<Longrightarrow> off (hd cs) \<le> n"
    and tmp: "chain_ok tmp" "0 < off tmp" "at + n \<le> buffer_len tmp"
      "\<And>data. length data = n \<Longrightarrow> payload (tmp\<lparr>buffer := put_bytes at data (buffer tmp)\<rparr>) = bytes_of (take first cs) @ data"
  shows "\<exists>t rest l'. pullup_into b tmp at first n = b\<lparr>chains := t # rest, last_with_datap := l'\<rparr> \<and> holds (t # rest) l' bs \<and>
    payload t = take (length (bytes_of (take first cs)) + n) bs"
proof -
  obtain out rest r k where p: "pullup_loop (drop first cs) n = (out, rest, r, k)" by (metis prod_cases4)
  have oks: "\<forall>c \<in> set cs. chain_ok c" and ok: "lwd_ok cs l" and bs: "bytes_of cs = bs" using holdsD [OF h] by blast+
  have dok: "\<forall>c \<in> set (drop first cs). chain_ok c" using oks by (auto dest: in_set_dropD)
  note s = pullup_loop_spec [OF dok n p]
  define j where "j = first + k"
  have rest: "rest = drop j cs" "j \<le> length cs" using s first(2) by (auto simp: j_def add.commute)
  have r: "r < off (hd rest)" if "rest \<noteq> []"
  proof -
    have "if rest = [] then r = 0 else r < off (hd rest)" using s by blast
    then show ?thesis using that by (simp only: if_False)
  qed
  define rest' where "rest' = (case rest of [] \<Rightarrow> [] | c # ds \<Rightarrow> drain_chain r c # ds)"
  define data where "data = out @ (case rest of [] \<Rightarrow> [] | c # _ \<Rightarrow> take r (payload c))"
  define t where "t = tmp\<lparr>buffer := put_bytes at data (buffer tmp)\<rparr>"
  have rok: "\<forall>c \<in> set rest. chain_ok c" using oks rest(1) by (auto dest: in_set_dropD)
  have parts: "bytes_of (drop first cs) = data @ bytes_of rest'" "length data = n" "\<forall>c \<in> set rest'. chain_ok c"
  proof -
    have out: "out = bytes_of (take k (drop first cs))" "rest = drop k (drop first cs)" "length out + r = n" "rest = [] \<longrightarrow> r = 0"
      using s by (blast, blast, blast, presburger)
    have "bytes_of (drop first cs) = out @ bytes_of rest"
      unfolding out(1,2) bytes_of_simps(3) [symmetric] append_take_drop_id by (rule refl)
    then show "bytes_of (drop first cs) = data @ bytes_of rest'" "length data = n" "\<forall>c \<in> set rest'. chain_ok c"
      using out(3,4) r rok drain_chain_ok [of "hd rest" r] by (cases rest; simp add: data_def rest'_def chain_simps)+
  qed
  have bs_split: "bs = bytes_of (take first cs) @ data @ bytes_of rest'"
    using bs parts(1) by (metis append_take_drop_id bytes_of_simps(3))
  have t: "payload t = bytes_of (take first cs) @ data" using tmp(4) [OF parts(2)] by (simp add: t_def)
  have tok: "chain_ok t" "off t \<noteq> 0" using tmp(1-3) parts(2) by (simp_all add: t_def chain_ok_def immutable_def CHAIN_PINNED_def)
  have j0: "0 < j" if "0 < length cs"
  proof (cases "first = 0")
    case True
    then have "cs \<noteq> [] \<and> k = 0 \<longrightarrow> n < off (hd cs)" using s by simp
    then show ?thesis using first(3) that True by (cases "k = 0") (simp_all add: j_def)
  qed (simp add: j_def)
  define l' where "l' = (if first \<le> l \<and> l < first + k then 0
                else if first < l \<and> l \<le> first + k then (if rest' \<noteq> [] \<and> off (hd rest') \<noteq> 0 then 1 else 0)
                else if l = 0 then 0 else if first + k < l then l - (first + k) + 1 else l)"
  have "pullup_into b tmp at first n = b\<lparr>chains := t # rest', last_with_datap := l'\<rparr>"
    unfolding pullup_into_def Let_def b p prod.case l'_def t_def data_def rest'_def by (rule refl)
  moreover have "lwd_ok (t # rest') l'"
  proof (cases "cs = []")
    case True
    then have "l = 0" "rest = []" using ok rest(1) by (auto simp: lwd_ok_def)
    then show ?thesis by (simp add: l'_def rest'_def lwd_ok_def)
  next
    case False
    then have j0: "0 < j" using j0 by simp
    have "off (hd rest') \<noteq> 0 \<and> rest' \<noteq> []" if "rest \<noteq> []"
      using that r by (cases rest) (auto simp: rest'_def drain_chain_def)
    moreover have "rest \<noteq> []" if "j \<le> l" using that ok False rest(1) by (auto simp: lwd_ok_def)
    ultimately have "l' = (if l < j then 0 else l - j + 1)"
      using first(1) j0 unfolding l'_def j_def by (cases "l < first + k"; cases "l = first + k") (auto simp: le_Suc_eq)
    then show ?thesis using pullup_lwd [OF ok rest(2) j0 tok(2) rest(1) rest'_def r] by simp
  qed
  ultimately show ?thesis using tok(1) parts(2,3) bs_split t
    by (intro exI [of _ t] exI [of _ rest'] exI [of _ l']) (simp add: holds_def chain_simps)
qed

lemma pullup_spec:
  assumes m: "malloc_documented m" and ok: "buffer_ok b"
    and n: "n = (if size0 < 0 then total_len b else nat size0)" "0 < n" "n \<le> total_len b"
  shows "(\<exists>t rest l. evbuffer_pullup m b size0 = (b\<lparr>chains := t # rest, last_with_datap := l\<rparr>, Some (take n (content b))) \<and>
      holds (t # rest) l (content b) \<and> take n (payload t) = take n (content b) \<and> n \<le> off t) \<or>
    evbuffer_pullup m b size0 = (b, None) \<and> evbuffer_chain_new m n = None"
proof -
  have h: "holds (chains b) (last_with_datap b) (content b)" and len: "total_len b = length (content b)" using ok by (simp_all add: buffer_ok_holds)
  have "chains b \<noteq> []" using n(2,3) len by (auto simp: content_def)
  then obtain c cs where cs: "chains b = c # cs" by (cases "chains b") auto
  have c: "chain_ok c" and cbs: "content b = payload c @ bytes_of cs" using h by (auto simp: holds_def cs chain_simps)
  define found where "found = (\<lambda>b'::evbuffer. (b', Some (take n (payload (hd (chains b'))))))"
  have found: "found (b\<lparr>chains := t # rest, last_with_datap := l\<rparr>) = (b\<lparr>chains := t # rest, last_with_datap := l\<rparr>, Some (take n (content b)))"
    if "take n (payload t) = take n (content b)" for t rest l using that by (simp add: found_def)
  have n': "\<not> (n = 0 \<or> n > total_len b)" using n(2,3) by simp
  have eq: "evbuffer_pullup m b size0 =
           (if off c \<ge> n then (b, Some (take n (payload c)))
               else if pullup_pinned cs (n - off c) then (b, None)
               else if CHAIN_PINNED c \<and> CHAIN_SPACE_LEN c < n - off c then (b, None)
               else if CHAIN_PINNED c \<or> buffer_len c - misalign c \<ge> n
                     then found (pullup_into b (c\<lparr>off := n\<rparr>) (misalign c + off c) 1 (n - off c))
                     else
                       (case evbuffer_chain_new m n of
                          None \<Rightarrow> (b, None)
                        | Some tmp \<Rightarrow> found (pullup_into b (tmp\<lparr>off := n\<rparr>) 0 0 n)))"
    unfolding evbuffer_pullup_def Let_def n(1) [symmetric] if_not_P [OF n'] cs list.sel found_def by (rule refl)
  have pin: "pullup_pinned ds k \<Longrightarrow> \<exists>c \<in> set ds. CHAIN_PINNED c" for ds k
    by (induction ds k rule: pullup_pinned.induct) (auto split: if_splits)
  consider (there) "off c \<ge> n" | (pinned) "\<not> off c \<ge> n" "pullup_pinned cs (n - off c) \<or> CHAIN_PINNED c \<and> CHAIN_SPACE_LEN c < n - off c"
    | (space) "\<not> off c \<ge> n" "\<not> pullup_pinned cs (n - off c)" "\<not> (CHAIN_PINNED c \<and> CHAIN_SPACE_LEN c < n - off c)" "CHAIN_PINNED c \<or> buffer_len c - misalign c \<ge> n"
    | (new) "\<not> off c \<ge> n" "\<not> pullup_pinned cs (n - off c)" "\<not> (CHAIN_PINNED c \<or> buffer_len c - misalign c \<ge> n)" by blast
  then show ?thesis
  proof cases
    case there
    have "take n (payload c) = take n (content b)" using there c by (simp add: cbs)
    moreover have "b\<lparr>chains := c # cs, last_with_datap := last_with_datap b\<rparr> = b" by (simp flip: cs)
    ultimately show ?thesis using there eq h cs by (intro disjI1 exI [of _ c] exI [of _ cs] exI [of _ "last_with_datap b"]) simp
  next
    case pinned
    then show ?thesis using pin [of cs] chain_ok_unpinned buffer_okD(1) [OF ok] by (auto simp: cs)
  next
    case space
    have room: "misalign c + n \<le> buffer_len c" using space c by (auto simp: CHAIN_SPACE_LEN_def chain_ok_def split: if_splits)
    then have tok: "chain_ok (c\<lparr>off := n\<rparr>)" using c by (simp add: chain_ok_def immutable_def CHAIN_PINNED_def)
    have pay: "payload (c\<lparr>off := n, buffer := put_bytes (misalign c + off c) data (buffer c)\<rparr>) = payload c @ data" if "length data = n - off c" for data
      using payload_append_bytes(1) [OF c, of data] that room space(1) by (simp add: append_bytes_def payload_def)
    have left: "n - off c \<le> length (bytes_of cs)" using n(3) len c by (simp add: cbs)
    have "\<exists>t rest l'. pullup_into b (c\<lparr>off := n\<rparr>) (misalign c + off c) 1 (n - off c) = b\<lparr>chains := t # rest, last_with_datap := l'\<rparr> \<and>
        holds (t # rest) l' (content b) \<and> payload t = take (length (bytes_of (take 1 (chains b))) + (n - off c)) (content b)"
    proof (rule pullup_into_spec [OF h refl refl])
      show "payload (c\<lparr>off := n, buffer := put_bytes (misalign c + off c) data (buffer (c\<lparr>off := n\<rparr>))\<rparr>) = bytes_of (take 1 (chains b)) @ data"
        if "length data = n - off c" for data using pay [OF that] by (simp add: cs chain_simps)
    qed (use left tok room space(1) n(2) in \<open>simp_all add: cs\<close>)
    then obtain t rest l' where "pullup_into b (c\<lparr>off := n\<rparr>) (misalign c + off c) 1 (n - off c) = b\<lparr>chains := t # rest, last_with_datap := l'\<rparr>"
      "holds (t # rest) l' (content b)" "payload t = take n (content b)"
      using space(1) c by (auto simp: cs chain_simps)
    moreover from this have "off t = n" using len n(3) length_payload [of t] by (simp add: holds_def)
    moreover from calculation have "evbuffer_pullup m b size0 = (b\<lparr>chains := t # rest, last_with_datap := l'\<rparr>, Some (take n (content b)))"
      using eq space found [of t l' rest] by auto
    ultimately show ?thesis by (intro disjI1 exI [of _ t] exI [of _ rest] exI [of _ l']) simp
  next
    case new
    show ?thesis
    proof (cases "evbuffer_chain_new m n")
      case None
      then show ?thesis using new eq by simp
    next
      case (Some tmp)
      note tmp = chain_new_ok [OF m Some]
      have pay: "payload (tmp\<lparr>off := n, buffer := put_bytes 0 data (buffer tmp)\<rparr>) = data" if "length data = n" for data
        using new_chain_filled(2) [OF m Some, of data] that by (simp add: payload_def)
      have "\<exists>t rest l'. pullup_into b (tmp\<lparr>off := n\<rparr>) 0 0 n = b\<lparr>chains := t # rest, last_with_datap := l'\<rparr> \<and>
          holds (t # rest) l' (content b) \<and> payload t = take (length (bytes_of (take 0 (chains b))) + n) (content b)"
      proof (rule pullup_into_spec [OF h refl refl])
        show "payload (tmp\<lparr>off := n, buffer := put_bytes 0 data (buffer (tmp\<lparr>off := n\<rparr>))\<rparr>) = bytes_of (take 0 (chains b)) @ data"
          if "length data = n" for data using pay [OF that] by (simp add: chain_simps)
        show "chain_ok (tmp\<lparr>off := n\<rparr>)" using tmp by (simp add: chain_ok_def immutable_def CHAIN_PINNED_def)
        show "n \<le> length (bytes_of (drop 0 (chains b)))" using n(3) len by (simp add: content_bytes_of)
      qed (use new(1) n(2) tmp in \<open>simp_all add: cs\<close>)
      then obtain t rest l' where "pullup_into b (tmp\<lparr>off := n\<rparr>) 0 0 n = b\<lparr>chains := t # rest, last_with_datap := l'\<rparr>"
        "holds (t # rest) l' (content b)" "payload t = take n (content b)"
        by (auto simp: chain_simps)
      moreover from this have "off t = n" using len n(3) length_payload [of t] by (simp add: holds_def)
      moreover from calculation have "evbuffer_pullup m b size0 = (b\<lparr>chains := t # rest, last_with_datap := l'\<rparr>, Some (take n (content b)))"
        using eq new Some found [of t l' rest] by auto
      ultimately show ?thesis by (intro disjI1 exI [of _ t] exI [of _ rest] exI [of _ l']) simp
    qed
  qed
qed

end
