(* ===== verification/Ev_Buffer_Props.thy ===== *)
theory Ev_Buffer_Props
  imports Ev_Buffer_Take
begin

text \<open>
  The properties of the evbuffer operations: each refines the operation its name says on the
  sequence of bytes of the buffer, keeps it well formed, and tells the callbacks.
\<close>

section \<open>What callbacks are told\<close>

text \<open>No change waits to be told, and callbacks are not deferred to the loop.\<close>

definition quiet :: "evbuffer \<Rightarrow> bool" where
  "quiet b \<longleftrightarrow> \<not> deferred_cbs b \<and> n_add_for_cb b = 0 \<and> n_del_for_cb b = 0"

definition enabled_callbacks :: "evbuffer \<Rightarrow> cb_entry list" where
  "enabled_callbacks b = filter (\<lambda>e. cb_flags e AND EVBUFFER_CB_ENABLED \<noteq> 0) (cb_entries b)"

text \<open>Each enabled callback is told once, in order, of the length before and of what came and went.\<close>

definition told :: "evbuffer \<Rightarrow> evbuffer \<Rightarrow> nat \<Rightarrow> nat \<Rightarrow> bool" where
  "told b b' added deleted \<longleftrightarrow> quiet b' \<and>
     cb_calls b' = cb_calls b @
       (if added = 0 \<and> deleted = 0 then []
        else map (\<lambda>e. if cb_flags e AND EVBUFFER_CB_OBSOLETE \<noteq> 0
                  then cb_obsolete (cb_func e) (length (content b)) (length (content b'))
                  else cb_info (cb_func e) (length (content b)) added deleted) (enabled_callbacks b))"

lemma enabled_mask: "(w :: u32) AND EVBUFFER_CB_ENABLED = EVBUFFER_CB_ENABLED \<longleftrightarrow> w AND EVBUFFER_CB_ENABLED \<noteq> 0"
  by (simp add: EVBUFFER_CB_ENABLED_def and_one_eq odd_iff_mod_2_eq_one)

lemma content_frame [chain_simps]:
  "content (b\<lparr>n_add_for_cb := i, n_del_for_cb := j\<rparr>) = content b" "content (b\<lparr>cb_calls := cs\<rparr>) = content b"
  "content (b\<lparr>n_add_for_cb := i, n_del_for_cb := j, cb_calls := cs\<rparr>) = content b"
  by (simp_all add: content_def)

lemma invoke_told:
  assumes q: "quiet b" and b1: "cb_entries b1 = cb_entries b" "deferred_cbs b1 = deferred_cbs b" "cb_calls b1 = cb_calls b"
    "n_add_for_cb b1 = a" "n_del_for_cb b1 = d" "total_len b1 = length (content b1)"
    and len: "length (content b1) + d = length (content b) + a"
  shows "told b (evbuffer_invoke_callbacks b1) a d"
proof -
  have "total_len b1 + d - a = length (content b)" using b1(6) len by simp
  then show ?thesis using q b1
    by (simp add: told_def quiet_def chain_simps enabled_callbacks_def evbuffer_invoke_callbacks_def evbuffer_run_callbacks_def Let_def
        enabled_mask cong: filter_cong)
qed

lemma grown_told:
  assumes "quiet b" "buffer_ok b" "holds cs l bs" "length bs = length (content b) + n"
  shows "told b (grown b cs l n) n 0"
proof -
  define b1 where "b1 = added_len n (b\<lparr>chains := cs, last_with_datap := l\<rparr>)"
  have "content b1 = bs" using assms(3) by (simp add: b1_def added_len_def content_bytes_of holds_def)
  then have "told b (evbuffer_invoke_callbacks b1) n 0"
    using assms by (intro invoke_told) (simp_all add: b1_def added_len_def quiet_def buffer_ok_def)
  then show ?thesis by (simp add: grown_def b1_def)
qed

lemma shrunk_told:
  assumes "quiet b" "buffer_ok b" "holds cs l bs" "length bs = length (content b) - n" "n \<le> total_len b"
  shows "told b (shrunk b cs l n) 0 n"
proof -
  define b1 where "b1 = b\<lparr>chains := cs, last_with_datap := l, total_len := total_len b - n, n_del_for_cb := n_del_for_cb b + n\<rparr>"
  have "content b1 = bs" using assms(3) by (simp add: b1_def content_bytes_of holds_def)
  then have "told b (evbuffer_invoke_callbacks b1) 0 n"
    using assms by (intro invoke_told) (simp_all add: b1_def quiet_def buffer_ok_def)
  then show ?thesis by (simp add: shrunk_def b1_def)
qed

section \<open>Adding and taking\<close>

text \<open>Memory that never runs out, and a buffer with data in two chains, for the witnesses.\<close>

definition zero_malloc :: malloc where
  "zero_malloc n = Some (replicate n 0)"

lemma zero_malloc_documented: "malloc_documented zero_malloc"
  by (simp add: malloc_documented_def zero_malloc_def)

definition sample_chain :: "byte list \<Rightarrow> chain" where
  "sample_chain bs = \<lparr>buffer = [0] @ bs @ [0, 0], misalign = 1, off = length bs, chain_flags = 0\<rparr>"

definition sample_buffer :: evbuffer where
  "sample_buffer = evbuffer_new\<lparr>chains := [sample_chain [72, 73], sample_chain [13, 10, 74]], last_with_datap := 1, total_len := 5,
     cb_entries := [\<lparr>cb_func = 7, cb_flags = EVBUFFER_CB_ENABLED\<rparr>]\<rparr>"

lemma sample_content: "content sample_buffer = [72, 73, 13, 10, 74]"
  by (simp add: sample_buffer_def sample_chain_def content_def payload_def evbuffer_new_def)

lemma sample_ok: "buffer_ok sample_buffer" "quiet sample_buffer" "\<not> freeze_start sample_buffer" "\<not> freeze_end sample_buffer"
  by (simp_all add: buffer_ok_def sample_content)
    (simp_all add: sample_buffer_def sample_chain_def evbuffer_new_def chain_ok_def immutable_def CHAIN_PINNED_def quiet_def lwd_ok_def
      EVBUFFER_CHAIN_MAX_def EVBUFFER_CHAIN_SIZE_def EV_SSIZE_MAX_def EV_SIZE_MAX_def)

lemma sample_room: "n \<le> 1000 \<Longrightarrow> \<not> no_room zero_malloc n"
  by (auto simp: no_room_def zero_malloc_def sample_buffer_def sample_chain_def EVBUFFER_CHAIN_MAX_def EV_SSIZE_MAX_def EVBUFFER_CHAIN_SIZE_def)

text \<open>
  C31. \<open>evbuffer_add\<close> appends the data to the content of the buffer, whatever the state of its
  last chain (room behind the data, room after moving it, immutable, full), keeps the buffer
  well formed and tells the callbacks; or it fails with -1 and nothing changes, which happens
  only when the end is frozen, the length would overflow or there is no memory.
\<close>

theorem evbuffer_add_correct:
  assumes m: "malloc_documented m" and ok: "buffer_ok b"
  shows "\<exists>b' r. evbuffer_add m b data = Some (b', r) \<and> buffer_ok b' \<and>
    (r = 0 \<and> content b' = content b @ data \<and> (quiet b \<longrightarrow> told b b' (length data) 0) \<or>
     r = -1 \<and> b' = b \<and>
       (freeze_end b \<or> total_len b + length data > EV_SIZE_MAX \<or> no_room m (length data)))"
  using add_spec [OF m ok, of data]
proof (elim disjE exE conjE)
  fix cs l
  assume a: "evbuffer_add m b data = Some (grown b cs l (length data), 0)" "holds cs l (content b @ data)"
    "total_len b + length data \<le> EV_SIZE_MAX"
  have "length (content b @ data) \<le> EV_SIZE_MAX" using a(3) buffer_okD(2) [OF ok] by simp
  then show ?thesis using a(1) grown_ok [OF buffer_okD(2) [OF ok] a(2)] grown_told [OF _ ok a(2)] by auto
qed (use ok in auto)

theorem evbuffer_add_correct_witness:
  "\<exists>b' r. evbuffer_add zero_malloc sample_buffer [65] = Some (b', r) \<and> buffer_ok b' \<and>
    (r = 0 \<and> content b' = [72, 73, 13, 10, 74, 65] \<and> told sample_buffer b' 1 0)"
proof -
  have "\<not> (total_len sample_buffer + length [65 :: byte] > EV_SIZE_MAX)"
    by (simp add: sample_buffer_def EV_SIZE_MAX_def)
  then show ?thesis using evbuffer_add_correct [OF zero_malloc_documented sample_ok(1), of "[65]"] sample_ok(2,4) sample_room [of 1]
    by (auto simp: sample_content)
qed

text \<open>
  C32. \<open>evbuffer_prepend\<close> puts the data in front of the content. When it fails with -1 the
  start is frozen or the length would overflow, and nothing changes, or there is no memory: then
  a tail of the data may stand in front of the content, what fitted before the first chain's
  data.
\<close>

theorem evbuffer_prepend_correct:
  assumes m: "malloc_documented m" and ok: "buffer_ok b"
  shows "\<exists>b' r. evbuffer_prepend m b data = Some (b', r) \<and> buffer_ok b' \<and>
    (r = 0 \<and> content b' = data @ content b \<and> (quiet b \<and> data \<noteq> [] \<longrightarrow> told b b' (length data) 0) \<or>
     r = -1 \<and> (\<exists>k \<le> length data. content b' = drop k data @ content b) \<and>
       (freeze_start b \<or> total_len b + length data > EV_SIZE_MAX \<or> no_room m (length data)) \<and>
       (freeze_start b \<or> total_len b + length data > EV_SIZE_MAX \<longrightarrow> b' = b))"
proof (cases "data = []")
  case True
  then show ?thesis using ok by (simp add: evbuffer_prepend_def)
next
  case False
  have len: "total_len b = length (content b)" using ok by (rule buffer_okD)
  show ?thesis using prepend_spec [OF m ok False]
  proof (elim disjE exE conjE)
    fix cs l
    assume a: "evbuffer_prepend m b data = Some (grown b cs l (length data), 0)" "holds cs l (data @ content b)"
      "total_len b + length data \<le> EV_SIZE_MAX"
    have "length (data @ content b) \<le> EV_SIZE_MAX" using a(3) len by simp
    then show ?thesis using a(1) grown_ok [OF len a(2)] grown_told [OF _ ok a(2)] by auto
  next
    assume "evbuffer_prepend m b data = Some (b, -1)" "no_room m (length data)"
    then show ?thesis using ok by (auto intro!: exI [of _ "length data"])
  next
    assume "evbuffer_prepend m b data = Some (b, -1)" "freeze_start b"
    then show ?thesis using ok by (auto intro!: exI [of _ "length data"])
  next
    assume "evbuffer_prepend m b data = Some (b, -1)" "total_len b + length data > EV_SIZE_MAX"
    then show ?thesis using ok by (auto intro!: exI [of _ "length data"])
  next
    fix b' assume a: "evbuffer_prepend m b data = Some (b', -1)" "part_prepended b data (content b) b'" "\<not> freeze_start b"
      "total_len b + length data \<le> EV_SIZE_MAX" "no_room m (length data)"
    obtain cs n where p: "b' = added_len n (b\<lparr>chains := cs\<rparr>)" "n < length data" "holds cs (last_with_datap b) (drop (length data - n) data @ content b)"
      using a(2) by (auto simp: part_prepended_def)
    have "length (drop (length data - n) data @ content b) \<le> EV_SIZE_MAX" using p(2) a(4) len by simp
    then have "buffer_ok b' \<and> content b' = drop (length data - n) data @ content b"
      using p len by (intro buffer_okI) (simp_all add: added_len_def)
    then show ?thesis using a by (auto intro!: exI [of _ "length data - n"])
  qed
qed

theorem evbuffer_prepend_correct_witness:
  "\<exists>b' r. evbuffer_prepend zero_malloc sample_buffer [65, 66] = Some (b', r) \<and> buffer_ok b' \<and>
    r = 0 \<and> content b' = [65, 66, 72, 73, 13, 10, 74] \<and> told sample_buffer b' 2 0"
proof -
  have "\<not> (total_len sample_buffer + length [65 :: byte, 66] > EV_SIZE_MAX)"
    by (simp add: sample_buffer_def EV_SIZE_MAX_def)
  then show ?thesis
    using evbuffer_prepend_correct [OF zero_malloc_documented sample_ok(1), of "[65, 66]"] sample_ok(2,3) sample_room [of 2]
    by (auto simp: sample_content numeral_2_eq_2)
qed

text \<open>
  C33. \<open>evbuffer_remove\<close> gives the first bytes of the buffer, as many as there are up to the number
  asked for, takes exactly them out and tells the callbacks; from a buffer frozen at the start
  it takes nothing and returns -1. What it returns is the number of bytes as an \<open>int\<close>.
\<close>

theorem evbuffer_remove_correct:
  assumes ok: "buffer_ok b" and n: "n \<le> EV_SSIZE_MAX"
  defines "k \<equiv> min n (total_len b)"
  shows "\<exists>b' out r. evbuffer_remove b n = Some (b', out, r) \<and> buffer_ok b' \<and>
    (if k = 0 then b' = b \<and> out = [] \<and> r = 0
     else if freeze_start b then b' = b \<and> out = [] \<and> r = -1
     else out = take n (content b) \<and> content b' = drop n (content b) \<and> (quiet b \<longrightarrow> told b b' 0 k) \<and>
       r = c_int (int k) \<and> (k \<le> INT_MAX \<longrightarrow> r = int (length out)))"
proof -
  have len: "total_len b = length (content b)" using ok by (rule buffer_okD)
  note small = c_int_small
  consider (none) "k = 0" | (frozen) "k \<noteq> 0" "freeze_start b" | (go) "k \<noteq> 0" "\<not> freeze_start b" by blast
  then show ?thesis
  proof cases
    case none
    then have "evbuffer_copyout_from b None n = Some ([], 0)" by (auto simp: evbuffer_copyout_from_def Let_def k_def min_def)
    then show ?thesis using none ok small [of 0] by (simp add: evbuffer_remove_def)
  next
    case frozen
    then have "evbuffer_copyout_from b None n = Some ([], -1)" by (auto simp: evbuffer_copyout_from_def Let_def k_def min_def)
    moreover have "c_int (-1) = -1" by (simp add: c_int_def)
    ultimately show ?thesis using frozen ok by (simp add: evbuffer_remove_def)
  next
    case go
    have out: "evbuffer_copyout_from b None n = Some (take n (content b), int k)" using copyout_spec [OF ok go(2)] by (simp add: k_def)
    obtain cs l where d: "evbuffer_drain b k = Some (shrunk b cs l k, 0)" "holds cs l (drop k (content b))"
      using drain_spec(2) [OF ok _ go(2), of k] go(1) by (auto simp: k_def)
    have eq: "drop k (content b) = drop n (content b)" "length (take n (content b)) = k" using len by (auto simp: k_def min_def)
    have "evbuffer_remove b n = Some (shrunk b cs l k, take n (content b), c_int (int k))"
      using out d(1) go(1) by (simp add: evbuffer_remove_def)
    moreover have "length (drop k (content b)) = length (content b) - k" by simp
    moreover from this have "quiet b \<longrightarrow> told b (shrunk b cs l k) 0 k" using shrunk_told [OF _ ok d(2)] by (simp add: k_def)
    ultimately show ?thesis using go shrunk_ok [OF ok d(2), of k] eq small [of k] by simp
  qed
qed

theorem evbuffer_remove_correct_witness:
  "\<exists>b'. evbuffer_remove sample_buffer 3 = Some (b', [72, 73, 13], 3) \<and> buffer_ok b' \<and> content b' = [10, 74] \<and> told sample_buffer b' 0 3"
  using evbuffer_remove_correct [OF sample_ok(1), of 3] sample_ok(2,3)
  by (auto simp: sample_content EV_SSIZE_MAX_def INT_MAX_def numeral_3_eq_3 buffer_okD(2) [OF sample_ok(1)])

section \<open>Moving and pulling up\<close>

text \<open>
  C34. \<open>evbuffer_add_buffer\<close> and \<open>evbuffer_prepend_buffer\<close> move all data of a buffer to the end, or
  the front, of another without changing its order: the source is empty afterwards, both
  buffers stay well formed and both tell their callbacks. When the source is empty, or both are
  the same buffer, nothing happens; when a side concerned is frozen, nothing but -1.
\<close>

theorem evbuffer_move_correct:
  assumes o: "buffer_ok outbuf" and i: "buffer_ok inbuf" and len: "total_len outbuf + total_len inbuf \<le> EV_SIZE_MAX"
  shows "\<exists>out' in' r. (if front then evbuffer_prepend_buffer m same outbuf inbuf else evbuffer_add_buffer m same outbuf inbuf) = Some (out', in', r) \<and>
    (if total_len inbuf = 0 \<or> same then out' = outbuf \<and> in' = inbuf \<and> r = 0
     else if (if front then freeze_start outbuf else freeze_end outbuf) \<or> freeze_start inbuf then out' = outbuf \<and> in' = inbuf \<and> r = -1
     else r = 0 \<and> buffer_ok out' \<and> buffer_ok in' \<and> content in' = [] \<and>
       content out' = (if front then content inbuf @ content outbuf else content outbuf @ content inbuf) \<and>
       (quiet outbuf \<longrightarrow> told outbuf out' (total_len inbuf) 0) \<and> (quiet inbuf \<longrightarrow> told inbuf in' 0 (total_len inbuf)))"
proof -
  define f where "f = (if front then freeze_start outbuf else freeze_end outbuf)"
  have move: "(if front then evbuffer_prepend_buffer m same outbuf inbuf else evbuffer_add_buffer m same outbuf inbuf) = move_buffer m front same outbuf inbuf"
    by (simp add: evbuffer_prepend_buffer_def evbuffer_add_buffer_def)
  consider (none) "total_len inbuf = 0 \<or> same" | (frozen) "\<not> (total_len inbuf = 0 \<or> same)" "f \<or> freeze_start inbuf"
    | (go) "\<not> (total_len inbuf = 0 \<or> same)" "\<not> f" "\<not> freeze_start inbuf" by blast
  then show ?thesis
  proof cases
    case none
    then show ?thesis unfolding move by (simp add: move_buffer_def)
  next
    case frozen
    then show ?thesis unfolding move f_def [symmetric] by (simp add: move_buffer_def flip: f_def)
  next
    case go
    have lo: "total_len outbuf = length (content outbuf)" and li: "total_len inbuf = length (content inbuf)" using o i by (simp_all add: buffer_okD)
    define bs where "bs = (if front then content inbuf @ content outbuf else content outbuf @ content inbuf)"
    obtain cs l where mv: "move_buffer m front False outbuf inbuf = Some (grown outbuf cs l (total_len inbuf), emptied inbuf, 0)" "holds cs l bs"
      using move_buffer_spec [OF o i, of front m] go by (auto simp: f_def bs_def)
    have bl: "length bs = length (content outbuf) + total_len inbuf" "length bs \<le> EV_SIZE_MAX" using lo li len by (simp_all add: bs_def)
    have "holds [] 0 []" by (simp add: holds_def lwd_ok_def chain_simps)
    then have "quiet inbuf \<longrightarrow> told inbuf (emptied inbuf) 0 (total_len inbuf)"
      using shrunk_told [OF _ i, of "[]" 0 "[]" "total_len inbuf"] li by (simp add: emptied_def)
    then show ?thesis
      using go mv(1) grown_ok [OF lo mv(2) bl] grown_told [OF _ o mv(2) bl(1)] emptied_ok(1) [OF i] emptied_ok(2) unfolding move f_def [symmetric] bs_def [symmetric]
      by simp
  qed
qed

definition sample_rest :: evbuffer where
  "sample_rest = evbuffer_new\<lparr>chains := [sample_chain [90]], total_len := 1\<rparr>"

lemma sample_rest_ok: "buffer_ok sample_rest" "content sample_rest = [90]" "quiet sample_rest" "\<not> freeze_start sample_rest" "\<not> freeze_end sample_rest"
  "total_len sample_rest = 1"
  by (simp_all add: buffer_ok_def sample_rest_def sample_chain_def evbuffer_new_def chain_ok_def immutable_def CHAIN_PINNED_def quiet_def lwd_ok_def
      content_def payload_def EVBUFFER_CHAIN_MAX_def EVBUFFER_CHAIN_SIZE_def EV_SSIZE_MAX_def EV_SIZE_MAX_def)

theorem evbuffer_move_correct_witness:
  "\<exists>out' in'. evbuffer_prepend_buffer zero_malloc False sample_rest sample_buffer = Some (out', in', 0) \<and> buffer_ok out' \<and> buffer_ok in' \<and>
    content in' = [] \<and> content out' = [72, 73, 13, 10, 74, 90] \<and> told sample_rest out' 5 0 \<and> told sample_buffer in' 0 5"
proof -
  have l: "total_len sample_buffer = 5" by (simp add: sample_buffer_def)
  have "total_len sample_rest + total_len sample_buffer \<le> EV_SIZE_MAX" by (simp add: sample_rest_ok l EV_SIZE_MAX_def)
  from evbuffer_move_correct [OF sample_rest_ok(1) sample_ok(1) this, of True zero_malloc False]
  show ?thesis using sample_rest_ok sample_ok l by (auto simp: sample_content)
qed

text \<open>
  C35. \<open>evbuffer_remove_buffer\<close> moves the first bytes of a buffer to the end of another, whole
  chains where it can, and copies what is left: the source always loses them, and the
  destination has them unless memory runs out while copying, when it has only those of the
  whole chains. Both buffers stay well formed.
\<close>

theorem evbuffer_remove_buffer_correct:
  assumes m: "malloc_documented m" and s: "buffer_ok src" and d: "buffer_ok dst"
    and go: "\<not> freeze_end dst" "\<not> freeze_start src" "0 < n" "n < total_len src"
    and len: "total_len dst + total_len src \<le> EV_SIZE_MAX"
  shows "\<exists>src' dst'. evbuffer_remove_buffer m False src dst n = Some (src', dst', c_int (int n)) \<and>
    buffer_ok src' \<and> buffer_ok dst' \<and> content src' = drop n (content src) \<and> (quiet src \<longrightarrow> told src src' 0 n) \<and>
    (content dst' = content dst @ take n (content src) \<or>
     (\<exists>k < n. content dst' = content dst @ take k (content src)) \<and> no_room m n)"
proof -
  obtain cs l dst' where r: "evbuffer_remove_buffer m False src dst n = Some (shrunk src cs l n, dst', c_int (int n))"
    "holds cs l (drop n (content src))" "buffer_ok dst'"
    "content dst' = content dst @ take n (content src) \<or>
     (\<exists>k < n. content dst' = content dst @ take k (content src)) \<and> no_room m n"
    using remove_buffer_spec [OF m s d go len] by blast
  have l: "length (drop n (content src)) = length (content src) - n" by simp
  show ?thesis using r shrunk_ok [OF s r(2) l] shrunk_told [OF _ s r(2) l] go(4)
    by (intro exI [of _ "shrunk src cs l n"] exI [of _ dst']) simp
qed

theorem evbuffer_remove_buffer_correct_witness:
  "\<exists>src' dst'. evbuffer_remove_buffer zero_malloc False sample_buffer sample_rest 3 = Some (src', dst', 3) \<and>
    buffer_ok src' \<and> buffer_ok dst' \<and> content src' = [10, 74] \<and> content dst' = [90, 72, 73, 13] \<and> told sample_buffer src' 0 3"
proof -
  have l: "total_len sample_buffer = 5" by (simp add: sample_buffer_def)
  have len: "total_len sample_rest + total_len sample_buffer \<le> EV_SIZE_MAX" by (simp add: sample_rest_ok l EV_SIZE_MAX_def)
  have c: "c_int 3 = 3" using c_int_small [of 3] by (simp add: INT_MAX_def)
  have "\<not> no_room zero_malloc 3" using sample_room [of 3] by simp
  then show ?thesis
    using evbuffer_remove_buffer_correct [OF zero_malloc_documented sample_ok(1) sample_rest_ok(1) sample_rest_ok(5) sample_ok(3) _ _ len, of 3]
      sample_ok(2) sample_rest_ok(2) l c by (auto simp: sample_content numeral_3_eq_3)
qed

text \<open>
  C36. \<open>evbuffer_pullup\<close> changes neither the content nor the length of the buffer; it returns the
  first bytes asked for (all for a negative size), which then lie in the memory of the first
  chain, and returns the null pointer exactly when there are none, too few, or no memory for them.
\<close>

theorem evbuffer_pullup_correct:
  fixes size0 :: int
  assumes m: "malloc_documented m" and ok: "buffer_ok b"
  defines "n \<equiv> (if size0 < 0 then total_len b else nat size0)"
  shows "\<exists>b' r. evbuffer_pullup m b size0 = (b', r) \<and> buffer_ok b' \<and> content b' = content b \<and>
    total_len b' = total_len b \<and> cb_calls b' = cb_calls b \<and>
    (case r of
       None \<Rightarrow> b' = b \<and> (n = 0 \<or> n > total_len b \<or> evbuffer_chain_new m n = None)
     | Some out \<Rightarrow> 0 < n \<and> n \<le> total_len b \<and> out = take n (content b) \<and>
         n \<le> evbuffer_get_contiguous_space b' \<and> take n (payload (hd (chains b'))) = out)"
proof (cases "0 < n \<and> n \<le> total_len b")
  case False
  then have "evbuffer_pullup m b size0 = (b, None)" by (auto simp: evbuffer_pullup_def Let_def n_def)
  then show ?thesis using False ok by auto
next
  case True
  have n: "n = (if size0 < 0 then total_len b else nat size0)" by (simp add: n_def)
  from pullup_spec [OF m ok n conjunct1 [OF True] conjunct2 [OF True]] show ?thesis
  proof (elim disjE exE conjE)
    fix t rest l assume a: "evbuffer_pullup m b size0 = (b\<lparr>chains := t # rest, last_with_datap := l\<rparr>, Some (take n (content b)))"
      "holds (t # rest) l (content b)" "take n (payload t) = take n (content b)" "n \<le> off t"
    have "buffer_ok (b\<lparr>chains := t # rest, last_with_datap := l\<rparr>) \<and> content (b\<lparr>chains := t # rest, last_with_datap := l\<rparr>) = content b"
      using a(2) buffer_okD(2,3) [OF ok] by (intro buffer_okI) simp_all
    then show ?thesis using a True by (simp add: evbuffer_get_contiguous_space_def)
  qed (use True ok in auto)
qed

theorem evbuffer_pullup_correct_witness:
  "\<exists>b'. evbuffer_pullup zero_malloc sample_buffer 4 = (b', Some [72, 73, 13, 10]) \<and> buffer_ok b' \<and> content b' = [72, 73, 13, 10, 74] \<and>
    4 \<le> evbuffer_get_contiguous_space b'"
proof -
  have "total_len sample_buffer = 5" by (simp add: sample_buffer_def)
  moreover have "evbuffer_chain_new zero_malloc 4 \<noteq> None"
    by (simp add: evbuffer_chain_new_def zero_malloc_def Let_def EVBUFFER_CHAIN_MAX_def EV_SSIZE_MAX_def EVBUFFER_CHAIN_SIZE_def)
  ultimately show ?thesis
    using evbuffer_pullup_correct [OF zero_malloc_documented sample_ok(1), of 4]
    by (auto simp: sample_content split: option.splits)
qed

end
