(* ===== verification/Ev_Search.thy ===== *)
theory Ev_Search
  imports Ev_Buffer_Take
begin

text \<open>
  Positions in a buffer and searching: \<open>evbuffer_ptr_set\<close>, \<open>evbuffer_search_range\<close>, the ends of
  lines and \<open>evbuffer_readln\<close> of \<open>buffer.c\<close>.
\<close>

section \<open>Positions\<close>

definition PTR_NOT_FOUND :: evbuffer_ptr where
  "PTR_NOT_FOUND = \<lparr>pos = -1, ptr_chain = None, pos_in_chain = 0\<rparr>"

datatype evbuffer_ptr_how = EVBUFFER_PTR_SET | EVBUFFER_PTR_ADD

text \<open>The loop over the chains, from chain \<open>k\<close> on; \<open>None\<close> when the position is behind the end.\<close>

fun ptr_set_loop :: "chain list \<Rightarrow> nat \<Rightarrow> nat \<Rightarrow> nat \<Rightarrow> (nat option \<times> nat) option" where
  "ptr_set_loop [] k position left = (if left = 0 then Some (None, 0) else None)"
| "ptr_set_loop (c # cs) k position left =
     (if position + left \<ge> off c then ptr_set_loop cs (k + 1) 0 (left + position - off c)
      else Some (Some k, position + left))"

definition evbuffer_ptr_set :: "evbuffer \<Rightarrow> evbuffer_ptr \<Rightarrow> nat \<Rightarrow> evbuffer_ptr_how \<Rightarrow> (evbuffer_ptr \<times> int) option" where
  "evbuffer_ptr_set b p position how =
     (if how = EVBUFFER_PTR_ADD \<and> (pos p < 0 \<or> EV_SIZE_MAX - position < nat (pos p)) then Some (p, -1)
      else
        (let (start, new_pos, from) =
               (case how of EVBUFFER_PTR_SET \<Rightarrow> (if chains b = [] then None else Some 0, int position, 0)
                | EVBUFFER_PTR_ADD \<Rightarrow> (ptr_chain p, pos p + int position, pos_in_chain p));
             k = (case start of None \<Rightarrow> 0 | Some k \<Rightarrow> k)
         in if \<not> EV_SIZE_MAX - position \<ge> from then None
            else
              (case ptr_set_loop (chain_tail b start) k from position of
                 Some (c, i) \<Rightarrow> Some (\<lparr>pos = new_pos, ptr_chain = c, pos_in_chain = i\<rparr>, 0)
               | None \<Rightarrow> Some (PTR_NOT_FOUND, -1))))"

definition evbuffer_ptr_subtract :: "evbuffer \<Rightarrow> evbuffer_ptr \<Rightarrow> nat \<Rightarrow> (evbuffer_ptr \<times> int) option" where
  "evbuffer_ptr_subtract b p howfar =
     (if pos p < 0 then Some (p, -1)
      else if howfar > nat (pos p) then Some (p, -1)
      else if ptr_chain p \<noteq> None \<and> howfar \<le> pos_in_chain p
      then Some (p\<lparr>pos_in_chain := pos_in_chain p - howfar, pos := pos p - int howfar\<rparr>, 0)
      else evbuffer_ptr_set b p (nat (pos p) - howfar) EVBUFFER_PTR_SET)"

section \<open>Searching bytes\<close>

text \<open>\<open>memchr\<close> and \<open>memcmp\<close> of C: the offset of the first such byte, and the order of the first difference.\<close>

fun memchr :: "byte \<Rightarrow> byte list \<Rightarrow> nat option" where
  "memchr x [] = None"
| "memchr x (y # ys) = (if y = x then Some 0 else map_option Suc (memchr x ys))"

fun memcmp :: "byte list \<Rightarrow> byte list \<Rightarrow> int" where
  "memcmp (x # xs) (y # ys) = (if x = y then memcmp xs ys else if x < y then -1 else 1)"
| "memcmp _ _ = 0"

text \<open>The loop of \<open>evbuffer_strchr\<close> and \<open>evbuffer_find_eol_char\<close>, for what they look for in one chain.\<close>

fun scan_loop :: "(byte list \<Rightarrow> nat option) \<Rightarrow> chain list \<Rightarrow> nat \<Rightarrow> nat \<Rightarrow> int \<Rightarrow> evbuffer_ptr option" where
  "scan_loop f [] k i p = None"
| "scan_loop f (c # cs) k i p =
     (case f (drop i (payload c)) of
        Some j \<Rightarrow> Some \<lparr>pos = p + int j, ptr_chain = Some k, pos_in_chain = i + j\<rparr>
      | None \<Rightarrow> scan_loop f cs (k + 1) 0 (p + int (off c) - int i))"

definition scan :: "(byte list \<Rightarrow> nat option) \<Rightarrow> evbuffer \<Rightarrow> evbuffer_ptr \<Rightarrow> evbuffer_ptr option" where
  "scan f b it = scan_loop f (chain_tail b (ptr_chain it)) (case ptr_chain it of None \<Rightarrow> 0 | Some k \<Rightarrow> k) (pos_in_chain it) (pos it)"

definition evbuffer_strchr :: "evbuffer \<Rightarrow> evbuffer_ptr \<Rightarrow> byte \<Rightarrow> evbuffer_ptr option" where
  "evbuffer_strchr b it ch = scan (memchr ch) b it"

definition CR :: byte where "CR = 13"
definition LF :: byte where "LF = 10"

text \<open>\<open>find_eol_char\<close> looks at 128 bytes at a time.\<close>

function find_eol_char :: "byte list \<Rightarrow> nat option" where
  "find_eol_char s =
     (if s = [] then None
      else
        (let chunk = (if 128 < length s then 128 else length s)
         in case memchr CR (take chunk s) of
              Some cr \<Rightarrow> (case memchr LF (take chunk s) of Some lf \<Rightarrow> if lf < cr then Some lf else Some cr | None \<Rightarrow> Some cr)
            | None \<Rightarrow> (case memchr LF (take chunk s) of Some lf \<Rightarrow> Some lf | None \<Rightarrow> map_option ((+) 128) (find_eol_char (drop 128 s)))))"
  by pat_completeness auto
termination by (relation "measure length") auto

declare find_eol_char.simps [simp del]

definition evbuffer_find_eol_char :: "evbuffer \<Rightarrow> evbuffer_ptr \<Rightarrow> evbuffer_ptr option" where
  "evbuffer_find_eol_char b it = scan find_eol_char b it"

text \<open>The loop of \<open>evbuffer_strspn\<close>: where it ends, and the count.\<close>

fun span_loop :: "byte list \<Rightarrow> chain list \<Rightarrow> nat \<Rightarrow> nat \<Rightarrow> nat \<Rightarrow> nat \<times> nat \<times> nat" where
  "span_loop chrset [] k i cnt = (k, i, cnt)"
| "span_loop chrset (c # cs) k i cnt =
     (let n = length (takeWhile (\<lambda>x. x \<in> set chrset) (drop i (payload c)))
      in if i + n < off c then (k, i + n, cnt + n)
         else if cs = [] then (k, 0, cnt + n)
         else span_loop chrset cs (k + 1) 0 (cnt + n))"

definition evbuffer_strspn :: "evbuffer \<Rightarrow> evbuffer_ptr \<Rightarrow> byte list \<Rightarrow> evbuffer_ptr \<times> nat" where
  "evbuffer_strspn b p chrset =
     (case ptr_chain p of
        None \<Rightarrow> (p, 0)
      | Some k \<Rightarrow>
          (case span_loop chrset (drop k (chains b)) k (pos_in_chain p) 0 of
             (k', i, cnt) \<Rightarrow> (\<lparr>pos = pos p + int cnt, ptr_chain = Some k', pos_in_chain = i\<rparr>, cnt)))"

text \<open>\<open>None\<close> when the byte is not in the memory of the chain.\<close>

definition evbuffer_getchr :: "evbuffer \<Rightarrow> evbuffer_ptr \<Rightarrow> int option" where
  "evbuffer_getchr b it =
     (case ptr_chain it of
        None \<Rightarrow> Some (-1)
      | Some k \<Rightarrow>
          (let c = chains b ! k; i = misalign c + pos_in_chain it
           in if k < length (chains b) \<and> i < buffer_len c then Some (uint (buffer c ! i)) else None))"

text \<open>The loop of \<open>evbuffer_ptr_memcmp\<close>.\<close>

fun memcmp_loop :: "chain list \<Rightarrow> nat \<Rightarrow> byte list \<Rightarrow> int" where
  "memcmp_loop [] position mem = 0"
| "memcmp_loop (c # cs) position mem =
     (if mem = [] then 0
      else
        (let n = (if length mem + position > off c then off c - position else length mem);
             r = memcmp (take n (drop position (payload c))) (take n mem)
         in if r \<noteq> 0 then r else memcmp_loop cs 0 (drop n mem)))"

definition evbuffer_ptr_memcmp :: "evbuffer \<Rightarrow> evbuffer_ptr \<Rightarrow> byte list \<Rightarrow> int" where
  "evbuffer_ptr_memcmp b p mem =
     (if pos p < 0 \<or> EV_SIZE_MAX - length mem < nat (pos p) \<or> nat (pos p) + length mem > total_len b then -1
      else memcmp_loop (chain_tail b (ptr_chain p)) (pos_in_chain p) mem)"

text \<open>The loop of \<open>evbuffer_search_range\<close>: at chain \<open>k\<close> (the first of the list), offset \<open>i\<close> and position \<open>p\<close>.\<close>

lemma memchr_Some: "memchr x xs = Some j \<Longrightarrow> j < length xs \<and> xs ! j = x \<and> (\<forall>m < j. xs ! m \<noteq> x)"
proof (induction xs arbitrary: j)
  case (Cons y ys)
  show ?case
  proof (cases "y = x")
    case True
    then show ?thesis using Cons.prems by simp
  next
    case False
    then obtain i where i: "memchr x ys = Some i" "j = Suc i" using Cons.prems by auto
    then have "(y # ys) ! m \<noteq> x" if "m < j" for m using Cons.IH [OF i(1)] that False by (cases m) auto
    then show ?thesis using Cons.IH [OF i(1)] i(2) by simp
  qed
qed simp

lemma memchr_None: "memchr x xs = None \<Longrightarrow> x \<notin> set xs"
  by (induction xs) (auto split: if_splits)

function search_loop :: "evbuffer \<Rightarrow> byte list \<Rightarrow> evbuffer_ptr option \<Rightarrow> chain list \<Rightarrow> nat \<Rightarrow> nat \<Rightarrow> int \<Rightarrow> evbuffer_ptr option" where
  "search_loop b what e [] k i p = None"
| "search_loop b what e (c # cs) k i p =
     (case memchr (hd what) (drop i (payload c)) of
        Some j \<Rightarrow>
          (let q = \<lparr>pos = p + int j, ptr_chain = Some k, pos_in_chain = i + j\<rparr>
           in if evbuffer_ptr_memcmp b q what = 0
              then (if e \<noteq> None \<and> pos q + int (length what) > pos (the e) then None else Some q)
              else if i + j + 1 = off c then search_loop b what e cs (k + 1) 0 (p + int j + 1)
              else search_loop b what e (c # cs) k (i + j + 1) (p + int j + 1))
      | None \<Rightarrow>
          if e \<noteq> None \<and> ptr_chain (the e) = Some k then None
          else search_loop b what e cs (k + 1) 0 (p + int (off c) - int i))"
  by pat_completeness auto
termination
  by (relation "measures [\<lambda>(b, what, e, cs, k, i, p). length cs, \<lambda>(b, what, e, cs, k, i, p). length (drop i (payload (hd cs)))]")
    (auto dest!: memchr_Some)

declare search_loop.simps [simp del]

definition evbuffer_search_range :: "evbuffer \<Rightarrow> byte list \<Rightarrow> evbuffer_ptr option \<Rightarrow> evbuffer_ptr option \<Rightarrow> evbuffer_ptr" where
  "evbuffer_search_range b what start e =
     (let p = (case start of Some p \<Rightarrow> p
               | None \<Rightarrow> \<lparr>pos = 0, ptr_chain = (if chains b = [] then None else Some 0), pos_in_chain = 0\<rparr>)
      in if what = [] \<or> length what > EV_SSIZE_MAX then p
         else (case search_loop b what e (chain_tail b (ptr_chain p)) (case ptr_chain p of None \<Rightarrow> 0 | Some k \<Rightarrow> k) (pos_in_chain p) (pos p) of
                 Some q \<Rightarrow> q | None \<Rightarrow> PTR_NOT_FOUND))"

definition evbuffer_search :: "evbuffer \<Rightarrow> byte list \<Rightarrow> evbuffer_ptr option \<Rightarrow> evbuffer_ptr" where
  "evbuffer_search b what start = evbuffer_search_range b what start None"

text \<open>The buffer after the call, and the bytes from the match on, if there is one.\<close>

definition evbuffer_find :: "malloc \<Rightarrow> evbuffer \<Rightarrow> byte list \<Rightarrow> evbuffer \<times> byte list option" where
  "evbuffer_find m b what =
     (let p = evbuffer_search b what None
      in if pos p < 0 then (b, None)
         else (case evbuffer_pullup m b (pos p + int (length what)) of
                 (b', r) \<Rightarrow> (b', map_option (drop (nat (pos p))) r)))"

section \<open>Lines\<close>

datatype evbuffer_eol_style = EVBUFFER_EOL_ANY | EVBUFFER_EOL_CRLF | EVBUFFER_EOL_CRLF_STRICT | EVBUFFER_EOL_LF | EVBUFFER_EOL_NUL

text \<open>The position of the end of the line with its length; \<open>None\<close> when memory is read that is not there.\<close>

definition evbuffer_search_eol :: "evbuffer \<Rightarrow> evbuffer_ptr option \<Rightarrow> evbuffer_eol_style \<Rightarrow> (evbuffer_ptr \<times> nat) option" where
  "evbuffer_search_eol b start style =
     (if start \<noteq> None \<and> ptr_chain (the start) = None then Some (PTR_NOT_FOUND, 0)
      else
        (let it = (case start of Some p \<Rightarrow> p
                   | None \<Rightarrow> \<lparr>pos = 0, ptr_chain = (if chains b = [] then None else Some 0), pos_in_chain = 0\<rparr>);
             chr = (\<lambda>ch. case evbuffer_strchr b it ch of None \<Rightarrow> Some (PTR_NOT_FOUND, 0) | Some q \<Rightarrow> Some (q, 1))
         in case style of
              EVBUFFER_EOL_ANY \<Rightarrow>
                (case evbuffer_find_eol_char b it of
                   None \<Rightarrow> Some (PTR_NOT_FOUND, 0)
                 | Some q \<Rightarrow> Some (q, snd (evbuffer_strspn b q [CR, LF])))
            | EVBUFFER_EOL_CRLF_STRICT \<Rightarrow>
                (let q = evbuffer_search b [CR, LF] (Some it)
                 in if pos q < 0 then Some (PTR_NOT_FOUND, 0) else Some (q, 2))
            | EVBUFFER_EOL_CRLF \<Rightarrow>
                (case evbuffer_strchr b it LF of
                   None \<Rightarrow> Some (PTR_NOT_FOUND, 0)
                 | Some q \<Rightarrow>
                     if pos q = pos it then Some (q, 1)
                     else
                       Option.bind (evbuffer_ptr_subtract b q 1) (\<lambda>(q2, r).
                         if r < 0 then Some (q, 1)
                         else map_option (\<lambda>ch. if ch = uint CR then (q2, 2) else (q, 1)) (evbuffer_getchr b q2)))
            | EVBUFFER_EOL_LF \<Rightarrow> chr LF
            | EVBUFFER_EOL_NUL \<Rightarrow> chr 0))"

text \<open>The line, if there is one and memory for it, without its end, which is also taken out of the buffer.\<close>

definition evbuffer_readln :: "malloc \<Rightarrow> evbuffer \<Rightarrow> evbuffer_eol_style \<Rightarrow> (evbuffer \<times> byte list option \<times> nat) option" where
  "evbuffer_readln m b style =
     (if freeze_start b then Some (b, None, 0)
      else
        Option.bind (evbuffer_search_eol b None style) (\<lambda>(it, extra_drain).
          if pos it < 0 then Some (b, None, 0)
          else if m (nat (pos it) + 1) = None then Some (b, None, 0)
          else
            Option.bind (evbuffer_remove b (nat (pos it))) (\<lambda>(b1, line, _).
              map_option (\<lambda>(b2, _). (b2, Some line, nat (pos it))) (evbuffer_drain b1 extra_drain))))"

definition evbuffer_readline :: "malloc \<Rightarrow> evbuffer \<Rightarrow> (evbuffer \<times> byte list option \<times> nat) option" where
  "evbuffer_readline m b = evbuffer_readln m b EVBUFFER_EOL_ANY"

text \<open>
  \<open>evbuffer_peek\<close>: the bytes the vectors point to (at most \<open>n_vec\<close> of them), and the number of
  vectors the length needs.
\<close>

fun peek_loop :: "chain list \<Rightarrow> int \<Rightarrow> nat \<Rightarrow> nat \<Rightarrow> int \<Rightarrow> byte list list \<times> nat" where
  "peek_loop [] len n_vec idx len_so_far = ([], idx)"
| "peek_loop (c # cs) len n_vec idx len_so_far =
     (if len \<ge> 0 \<and> len_so_far \<ge> len then ([], idx)
      else if \<not> idx < n_vec \<and> len < 0 then ([], idx)
      else (case peek_loop cs len n_vec (idx + 1) (len_so_far + int (off c)) of
              (vs, n) \<Rightarrow> (if idx < n_vec then payload c # vs else vs, n)))"

definition evbuffer_peek :: "evbuffer \<Rightarrow> int \<Rightarrow> evbuffer_ptr option \<Rightarrow> nat \<Rightarrow> byte list list \<times> nat" where
  "evbuffer_peek b len0 start_at n_vec =
     (let len = (if n_vec = 0 \<and> len0 < 0 then int (total_len b) - (case start_at of None \<Rightarrow> 0 | Some p \<Rightarrow> pos p) else len0)
      in case start_at of
           None \<Rightarrow> peek_loop (chains b) len n_vec 0 0
         | Some p \<Rightarrow>
             (case chain_tail b (ptr_chain p) of
                [] \<Rightarrow> ([], 0)
              | c # cs \<Rightarrow>
                  (case peek_loop cs len n_vec 1 (int (off c) - int (pos_in_chain p)) of
                     (vs, n) \<Rightarrow> (if 0 < n_vec then drop (pos_in_chain p) (payload c) # vs else vs, n))))"

end
