(* ===== verification/Ev_Search_Spec.thy ===== *)
theory Ev_Search_Spec
  imports Ev_Search
begin

text \<open>
  What positions and searches mean for the content of a buffer: the loops over chains find what
  a search of the sequence of bytes finds.
\<close>

section \<open>Searching a sequence\<close>

fun first_index :: "('a \<Rightarrow> bool) \<Rightarrow> 'a list \<Rightarrow> nat option" where
  "first_index P [] = None"
| "first_index P (x # xs) = (if P x then Some 0 else map_option Suc (first_index P xs))"

lemma first_index_append:
  "first_index P (xs @ ys) = (case first_index P xs of Some j \<Rightarrow> Some j | None \<Rightarrow> map_option ((+) (length xs)) (first_index P ys))"
proof (induction xs)
  case Nil
  then show ?case by (cases "first_index P ys") simp_all
next
  case (Cons x xs)
  then show ?case by (cases "first_index P xs"; cases "first_index P ys") simp_all
qed

lemma first_index_None: "first_index P xs = None \<longleftrightarrow> (\<forall>x \<in> set xs. \<not> P x)"
  by (induction xs) auto

lemma first_index_Some: "first_index P xs = Some j \<longleftrightarrow> j < length xs \<and> P (xs ! j) \<and> (\<forall>m < j. \<not> P (xs ! m))"
proof (induction xs arbitrary: j)
  case (Cons y ys)
  show ?case
  proof (cases j)
    case 0
    then show ?thesis by auto
  next
    case (Suc i)
    have "(\<forall>m < Suc i. \<not> P ((y # ys) ! m)) \<longleftrightarrow> \<not> P y \<and> (\<forall>m < i. \<not> P (ys ! m))" by (simp add: All_less_Suc2)
    then show ?thesis using Suc Cons.IH [of i] by auto
  qed
qed simp

lemma memchr_first_index: "memchr x xs = first_index (\<lambda>y. y = x) xs"
  by (induction xs) auto

definition is_eol :: "byte \<Rightarrow> bool" where
  "is_eol x \<longleftrightarrow> x = CR \<or> x = LF"

text \<open>The chunks of \<open>find_eol_char\<close> make no difference.\<close>

lemma first_index_either:
  "first_index is_eol xs =
     (case first_index (\<lambda>y. y = CR) xs of
        Some cr \<Rightarrow> (case first_index (\<lambda>y. y = LF) xs of Some lf \<Rightarrow> if lf < cr then Some lf else Some cr | None \<Rightarrow> Some cr)
      | None \<Rightarrow> first_index (\<lambda>y. y = LF) xs)"
  by (induction xs) (auto simp: is_eol_def CR_def LF_def split: option.splits)

lemma find_eol_char_first_index: "find_eol_char s = first_index is_eol s"
proof (induction s rule: find_eol_char.induct)
  case (1 s)
  show ?case
  proof (cases "s = []")
    case True
    then show ?thesis by (simp add: find_eol_char.simps)
  next
    case False
    define chunk where "chunk = (if 128 < length s then 128 else length s)"
    have chunk: "take chunk s = take 128 s" by (simp add: chunk_def)
    have IH: "find_eol_char (drop 128 s) = first_index is_eol (drop 128 s)" if "first_index is_eol (take 128 s) = None"
    proof -
      have "memchr CR (take chunk s) = None" "memchr LF (take chunk s) = None"
        using that by (auto simp: memchr_first_index chunk first_index_None is_eol_def)
      then show ?thesis using 1 [OF False refl] by (simp add: chunk_def)
    qed
    have "first_index is_eol s = first_index is_eol (take 128 s @ drop 128 s)" by simp
    also have "\<dots> = (case first_index is_eol (take 128 s) of Some j \<Rightarrow> Some j
        | None \<Rightarrow> map_option ((+) 128) (first_index is_eol (drop 128 s)))"
      by (subst first_index_append, cases "length s \<le> 128") (auto split: option.splits)
    finally have eq: "first_index is_eol s = (case first_index is_eol (take 128 s) of Some j \<Rightarrow> Some j
        | None \<Rightarrow> map_option ((+) 128) (first_index is_eol (drop 128 s)))" .
    have "find_eol_char s = (case first_index is_eol (take 128 s) of Some j \<Rightarrow> Some j
        | None \<Rightarrow> map_option ((+) 128) (find_eol_char (drop 128 s)))"
      using False by (subst find_eol_char.simps)
        (simp add: Let_def chunk_def [symmetric] chunk memchr_first_index first_index_either split: option.splits)
    then show ?thesis using IH eq by (cases "first_index is_eol (take 128 s)") simp_all
  qed
qed

section \<open>Positions\<close>

text \<open>A loop over chains is at the chains \<open>cs\<close>, from chain \<open>k\<close> on, offset \<open>i\<close> and position \<open>p\<close>.\<close>

definition chain_base :: "evbuffer \<Rightarrow> nat \<Rightarrow> nat" where
  "chain_base b k = length (bytes_of (take k (chains b)))"

definition cursor :: "evbuffer \<Rightarrow> chain list \<Rightarrow> nat \<Rightarrow> nat \<Rightarrow> int \<Rightarrow> bool" where
  "cursor b cs k i p \<longleftrightarrow> 0 \<le> p \<and> nat p \<le> length (content b) \<and> drop i (bytes_of cs) = drop (nat p) (content b) \<and>
     (\<forall>c \<in> set cs. chain_ok c) \<and>
     (cs \<noteq> [] \<longrightarrow> cs = drop k (chains b) \<and> i \<le> off (hd cs) \<and> p = int (chain_base b k + i))"

lemma chain_base_Suc:
  "buffer_ok b \<Longrightarrow> k < length (chains b) \<Longrightarrow> chain_base b (Suc k) = chain_base b k + off (chains b ! k)"
  using buffer_okD(1) [of b "chains b ! k"] by (simp add: chain_base_def take_Suc_conv_app_nth chain_simps)

lemma cursor_start:
  assumes ok: "buffer_ok b" and p: "ptr_ok b q"
  shows "cursor b (chain_tail b (ptr_chain q)) (case ptr_chain q of None \<Rightarrow> 0 | Some k \<Rightarrow> k) (pos_in_chain q) (pos q)"
proof -
  note t = ptr_tail [OF ok p]
  have "0 \<le> pos q" "nat (pos q) \<le> length (content b)" using p buffer_okD(2) [OF ok] by (simp_all add: ptr_ok_def)
  moreover have "chain_tail b (ptr_chain q) = drop (case ptr_chain q of None \<Rightarrow> 0 | Some k \<Rightarrow> k) (chains b)"
    "pos q = int (chain_base b (case ptr_chain q of None \<Rightarrow> 0 | Some k \<Rightarrow> k) + pos_in_chain q)" if "chain_tail b (ptr_chain q) \<noteq> []"
    using that p by (auto simp: chain_tail_def ptr_ok_def chain_base_def split: option.splits)
  ultimately show ?thesis using t unfolding cursor_def by blast
qed

lemma cursor_ConsD:
  assumes ok: "buffer_ok b" and c: "cursor b (c # cs) k i p"
  shows "chain_ok c" "k < length (chains b)" "chains b ! k = c" "cs = drop (Suc k) (chains b)" "i \<le> off c" "p = int (chain_base b k + i)"
    "drop (nat p) (content b) = drop i (payload c) @ bytes_of cs" "nat p + (off c - i) \<le> length (content b)" "0 \<le> p" "nat p = chain_base b k + i"
proof -
  have eq: "c # cs = drop k (chains b)" and i: "i \<le> off c" and p: "p = int (chain_base b k + i)" "0 \<le> p"
    and d: "drop i (bytes_of (c # cs)) = drop (nat p) (content b)" and c: "chain_ok c" using c by (auto simp: cursor_def)
  show "chain_ok c" "i \<le> off c" "p = int (chain_base b k + i)" "0 \<le> p" "nat p = chain_base b k + i" using c i p by simp_all
  show k: "k < length (chains b)" using eq by (metis drop_eq_Nil linorder_not_le list.distinct(1))
  then show "chains b ! k = c" "cs = drop (Suc k) (chains b)" using eq by (metis Cons_nth_drop_Suc list.inject)+
  show e: "drop (nat p) (content b) = drop i (payload c) @ bytes_of cs" using d i c by (simp add: chain_simps)
  have "length (drop (nat p) (content b)) = (off c - i) + length (bytes_of cs)" unfolding e using c by simp
  then show "nat p + (off c - i) \<le> length (content b)" using c assms(2) by (simp add: cursor_def) linarith
qed

lemma cursor_next:
  assumes ok: "buffer_ok b" and c: "cursor b (c # cs) k i p"
  shows "cursor b cs (k + 1) 0 (p + int (off c) - int i)"
proof -
  note d = cursor_ConsD [OF ok c]
  have n: "nat (p + int (off c) - int i) = nat p + (off c - i)" using d(5,9) by linarith
  have "drop (nat p + (off c - i)) (content b) = drop (off c - i) (drop (nat p) (content b))" by (simp add: add.commute)
  also have "\<dots> = bytes_of cs" unfolding d(7) using d(1,5) by simp
  finally have "drop 0 (bytes_of cs) = drop (nat (p + int (off c) - int i)) (content b)" using n by simp
  moreover have "p + int (off c) - int i = int (chain_base b (k + 1) + 0)" using chain_base_Suc [OF ok d(2)] d(3,6) by simp
  moreover have "\<forall>c \<in> set cs. chain_ok c" using c by (simp add: cursor_def)
  moreover have "0 \<le> p + int (off c) - int i" "nat (p + int (off c) - int i) \<le> length (content b)" using n d(5,8,9) by linarith+
  ultimately show ?thesis using d(4) unfolding cursor_def by simp
qed

text \<open>Staying in a chain.\<close>

lemma cursor_within:
  assumes ok: "buffer_ok b" and c: "cursor b (c # cs) k i p" and j: "i + j \<le> off c"
  shows "cursor b (c # cs) k (i + j) (p + int j)"
    "i + j \<le> off c \<Longrightarrow> ptr_ok b \<lparr>pos = p + int j, ptr_chain = Some k, pos_in_chain = i + j\<rparr>"
proof -
  note d = cursor_ConsD [OF ok c]
  have n: "nat (p + int j) = nat p + j" using d(9) by simp
  have "drop (nat p + j) (content b) = drop j (drop (nat p) (content b))" by (simp add: add.commute)
  also have "\<dots> = drop (i + j) (bytes_of (c # cs))" unfolding d(7) using d(1) j by (simp add: chain_simps add.commute)
  finally have dr: "drop (nat p + j) (content b) = drop (i + j) (bytes_of (c # cs))" .
  show "cursor b (c # cs) k (i + j) (p + int j)"
  proof -
    have eq: "c # cs = drop k (chains b)" "\<forall>c \<in> set (c # cs). chain_ok c"
      using c unfolding cursor_def by (metis list.distinct(1), blast)
    have "nat (p + int j) \<le> length (content b)" "0 \<le> p + int j" using n d(8,9) j by linarith+
    moreover have "drop (i + j) (bytes_of (c # cs)) = drop (nat (p + int j)) (content b)" unfolding n dr by (rule refl)
    moreover have "p + int j = int (chain_base b k + (i + j))" using d(6) by simp
    ultimately show ?thesis unfolding cursor_def using eq j by (metis list.sel(1))
  qed
  show "ptr_ok b \<lparr>pos = p + int j, ptr_chain = Some k, pos_in_chain = i + j\<rparr>"
  proof -
    have "nat (p + int j) = chain_base b k + (i + j)" "0 \<le> p + int j" "chain_base b k + (i + j) \<le> total_len b"
      using n d(5,8,9,10) j buffer_okD(2) [OF ok] by linarith+
    then show ?thesis using d(2,3) j by (simp add: ptr_ok_def chain_base_def)
  qed
qed

lemma scan_loop_spec:
  assumes ok: "buffer_ok b" and f: "\<And>xs. f xs = first_index P xs"
  shows "cursor b cs k i p \<Longrightarrow>
    (case first_index P (drop (nat p) (content b)) of
       None \<Rightarrow> scan_loop f cs k i p = None
     | Some n \<Rightarrow> \<exists>q c. scan_loop f cs k i p = Some q \<and> pos q = p + int n \<and> ptr_ok b q \<and> ptr_chain q = Some c \<and>
         pos_in_chain q < off (chains b ! c))"
proof (induction cs arbitrary: k i p)
  case Nil
  then have "drop (nat p) (content b) = []" by (simp add: cursor_def chain_simps)
  then show ?case by simp
next
  case (Cons c cs)
  note d = cursor_ConsD [OF ok Cons.prems]
  show ?case
  proof (cases "first_index P (drop i (payload c))")
    case (Some j)
    then have j: "i + j < off c" using d(1) by (auto simp: first_index_Some)
    have "scan_loop f (c # cs) k i p = Some \<lparr>pos = p + int j, ptr_chain = Some k, pos_in_chain = i + j\<rparr>" using Some f by simp
    moreover have "first_index P (drop (nat p) (content b)) = Some j" unfolding d(7) using Some by (simp add: first_index_append)
    ultimately show ?thesis using cursor_within(2) [OF ok Cons.prems, of j] j d(3) by auto
  next
    case None
    define p' where "p' = p + int (off c) - int i"
    have "scan_loop f (c # cs) k i p = scan_loop f cs (k + 1) 0 p'" using None f by (simp add: p'_def)
    moreover have "drop (nat p') (content b) = bytes_of cs"
      using cursor_next [OF ok Cons.prems] by (simp add: cursor_def p'_def)
    moreover have "first_index P (drop (nat p) (content b)) = map_option ((+) (off c - i)) (first_index P (bytes_of cs))"
      unfolding d(7) using None d(1) by (simp add: first_index_append)
    moreover have "p' = p + int (off c - i)" using d(5) by (simp add: p'_def)
    ultimately show ?thesis using Cons.IH [OF cursor_next [OF ok Cons.prems]]
      by (cases "first_index P (bytes_of cs)") (auto simp: p'_def)
  qed
qed

lemma scan_spec:
  fixes q :: evbuffer_ptr
  assumes ok: "buffer_ok b" and f: "\<And>xs. f xs = first_index P xs" and q: "ptr_ok b q"
  shows "case first_index P (drop (nat (pos q)) (content b)) of
       None \<Rightarrow> scan f b q = None
     | Some n \<Rightarrow> \<exists>r c. scan f b q = Some r \<and> pos r = pos q + int n \<and> ptr_ok b r \<and> ptr_chain r = Some c \<and>
         pos_in_chain r < off (chains b ! c)"
  using scan_loop_spec [OF ok f cursor_start [OF ok q]] unfolding scan_def by blast

section \<open>Comparing and searching a string\<close>

lemma memcmp_zero: "length xs = length ys \<Longrightarrow> memcmp xs ys = 0 \<longleftrightarrow> xs = ys"
  by (induction xs ys rule: list_induct2) auto

lemma memcmp_loop_spec:
  "\<forall>c \<in> set cs. chain_ok c \<Longrightarrow> (cs \<noteq> [] \<longrightarrow> position \<le> off (hd cs)) \<Longrightarrow> position + length mem \<le> length (bytes_of cs) \<Longrightarrow>
   memcmp_loop cs position mem = 0 \<longleftrightarrow> take (length mem) (drop position (bytes_of cs)) = mem"
proof (induction cs arbitrary: position mem)
  case Nil
  then show ?case by (simp add: chain_simps)
next
  case (Cons c cs)
  have c: "chain_ok c" and pos: "position \<le> off c" using Cons.prems by auto
  show ?case
  proof (cases "length mem + position > off c")
    case False
    then have "take (length mem) (drop position (bytes_of (c # cs))) = take (length mem) (drop position (payload c))"
      using c by (simp add: chain_simps)
    moreover have "length (take (length mem) (drop position (payload c))) = length mem" using False c by simp
    moreover have "memcmp_loop cs 0 [] = 0" by (cases cs) simp_all
    ultimately show ?thesis using False memcmp_zero [of "take (length mem) (drop position (payload c))" mem]
      by (simp add: Let_def)
  next
    case True
    define n where "n = off c - position"
    have n: "n \<le> length mem" using True by (simp add: n_def)
    have first: "length (drop position (payload c)) = n" using c by (simp add: n_def)
    have "take (length mem) (drop position (bytes_of (c # cs))) = drop position (payload c) @ take (length (drop n mem)) (bytes_of cs)"
      using c pos n first by (simp add: chain_simps n_def)
    moreover have "mem = take n mem @ drop n mem" by simp
    ultimately have eq: "take (length mem) (drop position (bytes_of (c # cs))) = mem \<longleftrightarrow>
        drop position (payload c) = take n mem \<and> take (length (drop n mem)) (bytes_of cs) = drop n mem"
      using first n by (metis append_eq_append_conv length_take min.absorb2)
    have "memcmp_loop cs 0 (drop n mem) = 0 \<longleftrightarrow> take (length (drop n mem)) (drop 0 (bytes_of cs)) = drop n mem"
      using Cons.prems c pos by (intro Cons.IH) (auto simp: chain_simps n_def)
    moreover have "memcmp (drop position (payload c)) (take n mem) = 0 \<longleftrightarrow> drop position (payload c) = take n mem"
      using first n by (intro memcmp_zero) simp
    moreover have "mem \<noteq> []" using True pos by auto
    ultimately show ?thesis using True eq first by (auto simp: Let_def simp flip: n_def)
  qed
qed

definition match_at :: "byte list \<Rightarrow> byte list \<Rightarrow> nat \<Rightarrow> bool" where
  "match_at what bs s \<longleftrightarrow> s + length what \<le> length bs \<and> take (length what) (drop s bs) = what"

lemma match_at_first: "match_at what bs s \<Longrightarrow> what \<noteq> [] \<Longrightarrow> s < length bs \<and> bs ! s = hd what"
  by (cases what) (auto simp: match_at_def take_Suc_conv_app_nth Cons_nth_drop_Suc [symmetric] simp del: Cons_nth_drop_Suc)

lemma ptr_memcmp_spec:
  assumes ok: "buffer_ok b" and q: "ptr_ok b q"
  shows "evbuffer_ptr_memcmp b q mem = 0 \<longleftrightarrow> match_at mem (content b) (nat (pos q))"
proof (cases "nat (pos q) + length mem > total_len b")
  case True
  then show ?thesis using q buffer_okD(2) [OF ok] by (simp add: evbuffer_ptr_memcmp_def match_at_def)
next
  case False
  note t = ptr_tail [OF ok q]
  have lim: "\<not> EV_SIZE_MAX - length mem < nat (pos q)" "0 \<le> pos q" using False q buffer_okD(3) [OF ok] by (auto simp: ptr_ok_def)
  show ?thesis
  proof (cases "mem = []")
    case True
    then have "memcmp_loop cs i mem = 0" for cs i by (cases cs) simp_all
    then show ?thesis using True False lim buffer_okD(2) [OF ok] by (simp add: evbuffer_ptr_memcmp_def match_at_def)
  next
    case mem: False
    have "nat (pos q) + length (drop (pos_in_chain q) (bytes_of (chain_tail b (ptr_chain q)))) = total_len b" by (rule t(4))
    then have "pos_in_chain q + length mem \<le> length (bytes_of (chain_tail b (ptr_chain q)))" using False mem by (cases mem) auto
    from memcmp_loop_spec [OF t(3,2) this] show ?thesis
      using False lim buffer_okD(2) [OF ok] unfolding t(1) by (simp add: evbuffer_ptr_memcmp_def match_at_def)
  qed
qed

text \<open>The limit an end position sets; without one it is the length of the buffer.\<close>

definition search_limit :: "evbuffer \<Rightarrow> evbuffer_ptr option \<Rightarrow> nat" where
  "search_limit b e = (case e of None \<Rightarrow> total_len b | Some q \<Rightarrow> nat (pos q))"

definition found_first :: "evbuffer \<Rightarrow> byte list \<Rightarrow> evbuffer_ptr option \<Rightarrow> int \<Rightarrow> evbuffer_ptr option \<Rightarrow> bool" where
  "found_first b what e p r \<longleftrightarrow>
     (case r of
        None \<Rightarrow> \<forall>s. nat p \<le> s \<and> s + length what \<le> search_limit b e \<longrightarrow> \<not> match_at what (content b) s
      | Some q \<Rightarrow> ptr_ok b q \<and> p \<le> pos q \<and> nat (pos q) + length what \<le> search_limit b e \<and> match_at what (content b) (nat (pos q)) \<and>
          (\<forall>s. nat p \<le> s \<and> s < nat (pos q) \<longrightarrow> \<not> match_at what (content b) s))"

text \<open>Nothing is found in a stretch of the buffer without the first byte.\<close>

lemma found_first_skip:
  assumes "found_first b what e (p + int n) r" "0 \<le> p" "\<And>s. nat p \<le> s \<Longrightarrow> s < nat p + n \<Longrightarrow> \<not> match_at what (content b) s"
  shows "found_first b what e p r"
proof -
  have "\<not> match_at what (content b) s" if "nat p \<le> s" "nat (p + int n) \<le> s \<Longrightarrow> \<not> match_at what (content b) s" for s
    using that assms(2) assms(3) [of s] by (cases "s < nat p + n") auto
  then show ?thesis using assms(1) unfolding found_first_def by (cases r) force+
qed

lemma cursor_byte:
  assumes ok: "buffer_ok b" and c: "cursor b (c # cs) k i p" and m: "m < off c - i"
  shows "content b ! (nat p + m) = drop i (payload c) ! m"
proof -
  note d = cursor_ConsD [OF ok c]
  have "content b ! (nat p + m) = drop (nat p) (content b) ! m" using d(8) m by simp
  also have "\<dots> = drop i (payload c) ! m" unfolding d(7) using m d(1) by (simp add: nth_append)
  finally show ?thesis .
qed

lemma no_match_before:
  assumes ok: "buffer_ok b" and c: "cursor b (c # cs) k i p" and what: "what \<noteq> []"
    and n: "n \<le> off c - i" "\<And>m. m < n \<Longrightarrow> drop i (payload c) ! m \<noteq> hd what" and s: "nat p \<le> s" "s < nat p + n"
  shows "\<not> match_at what (content b) s"
proof
  assume "match_at what (content b) s"
  then have "content b ! s = hd what" using what by (simp add: match_at_first)
  moreover have "s = nat p + (s - nat p)" "s - nat p < n" using s by simp_all
  moreover from this have "content b ! (nat p + (s - nat p)) = drop i (payload c) ! (s - nat p)"
    using n(1) by (intro cursor_byte [OF ok c]) simp
  ultimately show False using n(2) by metis
qed

lemma search_loop_spec:
  "buffer_ok b \<Longrightarrow> what \<noteq> [] \<Longrightarrow> (e \<noteq> None \<Longrightarrow> ptr_ok b (the e)) \<Longrightarrow> cursor b cs k i p \<Longrightarrow>
   found_first b what e p (search_loop b what e cs k i p)"
proof (induction b what e cs k i p rule: search_loop.induct)
  case (1 b what e k i p)
  then have "length (content b) \<le> nat p" by (simp add: cursor_def chain_simps)
  then show ?case using match_at_first [of what "content b"] 1(2) by (fastforce simp: found_first_def search_loop.simps)
next
  case (2 b what e c cs k i p)
  note ok = 2(4) and what = 2(5) and e = 2(6) and cur = 2(7)
  note d = cursor_ConsD [OF ok cur]
  have len: "0 < length what" using what by simp
  show ?case
  proof (cases "memchr (hd what) (drop i (payload c))")
    case None
    have none: "\<not> match_at what (content b) s" if "nat p \<le> s" "s < nat p + (off c - i)" for s
    proof (rule no_match_before [OF ok cur what order_refl _ that])
      show "drop i (payload c) ! m \<noteq> hd what" if "m < off c - i" for m
        using that memchr_None [OF None] d(1) by (metis length_drop length_payload nth_mem)
    qed
    show ?thesis
    proof (cases "e \<noteq> None \<and> ptr_chain (the e) = Some k")
      case True
      then obtain q where q: "e = Some q" "ptr_chain q = Some k" by auto
      then have "nat (pos q) \<le> nat p + (off c - i)" using e d(3,5,10) by (auto simp: ptr_ok_def chain_base_def)
      then have "\<not> match_at what (content b) s" if "nat p \<le> s" "s + length what \<le> nat (pos q)" for s
        using that len by (intro none) linarith+
      then have "found_first b what e p None" using q(1) by (simp add: found_first_def search_limit_def)
      then show ?thesis using None True by (subst search_loop.simps) simp
    next
      case False
      define p' where "p' = p + int (off c) - int i"
      have p': "p + int (off c - i) = p'" using d(5) by (simp add: p'_def)
      have "found_first b what e p' (search_loop b what e cs (k + 1) 0 p')"
        unfolding p'_def by (rule 2(1) [OF None False ok what e cursor_next [OF ok cur]])
      then have "found_first b what e p (search_loop b what e cs (k + 1) 0 p')"
        using found_first_skip [of b what e p "off c - i", OF _ d(9) none] unfolding p' by blast
      then show ?thesis using None False by (subst search_loop.simps) (auto simp: p'_def)
    qed
  next
    case (Some j)
    have j: "j < off c - i" "drop i (payload c) ! j = hd what" "\<forall>m < j. drop i (payload c) ! m \<noteq> hd what"
      using memchr_Some [OF Some] d(1) by simp_all
    define q where "q = \<lparr>pos = p + int j, ptr_chain = Some k, pos_in_chain = i + j\<rparr>"
    have q: "ptr_ok b q" "nat (pos q) = nat p + j" "pos q = p + int j" using cursor_within(2) [OF ok cur, of j] j(1) d(9) by (simp_all add: q_def)
    have before: "\<not> match_at what (content b) s" if "nat p \<le> s" "s < nat p + j" for s
      using no_match_before [OF ok cur what _ _ that] j by simp
    show ?thesis
    proof (cases "evbuffer_ptr_memcmp b q what = 0")
      case True
      then have m: "match_at what (content b) (nat p + j)" using ptr_memcmp_spec [OF ok q(1)] q(2) by simp
      then have tot: "nat p + j + length what \<le> total_len b" using buffer_okD(2) [OF ok] by (simp add: match_at_def)
      show ?thesis
      proof (cases "e \<noteq> None \<and> pos q + int (length what) > pos (the e)")
        case out: True
        then obtain y where y: "e = Some y" "pos y < int (nat p + j + length what)" using q(3) d(9) by auto
        then have "nat (pos y) < nat p + j + length what" using len by linarith
        then have "search_limit b e < nat p + j + length what" using y(1) by (simp add: search_limit_def)
        then have "found_first b what e p None" using before by (auto simp: found_first_def)
        then show ?thesis using Some True out by (subst search_loop.simps) (simp add: q_def)
      next
        case False
        have "nat (pos q) + length what \<le> search_limit b e"
        proof (cases e)
          case None
          then show ?thesis using tot q(2) by (simp add: search_limit_def)
        next
          case (Some x)
          then show ?thesis using False q(2,3) d(9) by (simp add: search_limit_def)
        qed
        then have "found_first b what e p (Some q)" using before m q by (auto simp: found_first_def)
        moreover have "search_loop b what e (c # cs) k i p = Some q" using Some True False by (subst search_loop.simps) (simp add: q_def)
        ultimately show ?thesis by simp
      qed
    next
      case False
      then have "\<not> match_at what (content b) (nat p + j)" using ptr_memcmp_spec [OF ok q(1)] q(2) by simp
      then have none: "\<not> match_at what (content b) s" if "nat p \<le> s" "s < nat p + (j + 1)" for s
        using that before [of s] by (cases "s = nat p + j") auto
      have skip: "found_first b what e (p + int j + 1) r \<Longrightarrow> found_first b what e p r" for r
        using found_first_skip [of b what e p "j + 1" r, OF _ d(9) none] by (simp add: ac_simps)
      show ?thesis
      proof (cases "i + j + 1 = off c")
        case True
        have at: "p + int j + 1 = p + int (off c) - int i" using True by linarith
        have "cursor b cs (k + 1) 0 (p + int j + 1)" unfolding at by (rule cursor_next [OF ok cur])
        from 2(2) [OF Some q_def False True ok what e this] have
          "found_first b what e (p + int j + 1) (search_loop b what e cs (k + 1) 0 (p + int j + 1))" by simp
        from skip [OF this] show ?thesis using Some False True by (subst search_loop.simps) (simp add: q_def)
      next
        case more: False
        have "cursor b (c # cs) k (i + j + 1) (p + int j + 1)"
          using cursor_within(1) [OF ok cur, of "j + 1"] j(1) by (simp add: add.assoc add.commute [of 1])
        from 2(3) [OF Some q_def False more ok what e this] have
          "found_first b what e (p + int j + 1) (search_loop b what e (c # cs) k (i + j + 1) (p + int j + 1))" by simp
        from skip [OF this] show ?thesis using Some False more by (subst search_loop.simps) (simp add: q_def)
      qed
    qed
  qed
qed

lemma start_ok:
  "buffer_ok b \<Longrightarrow> ptr_ok b \<lparr>pos = 0, ptr_chain = (if chains b = [] then None else Some 0), pos_in_chain = 0\<rparr>"
  by (auto simp: ptr_ok_def chain_simps buffer_ok_def content_def)

lemma search_range_spec:
  assumes ok: "buffer_ok b" and what: "what \<noteq> []" "length what \<le> EV_SSIZE_MAX"
    and start: "start \<noteq> None \<Longrightarrow> ptr_ok b (the start)" and e: "e \<noteq> None \<Longrightarrow> ptr_ok b (the e)"
  defines "from \<equiv> (case start of None \<Rightarrow> 0 | Some p \<Rightarrow> pos p)" and "r \<equiv> evbuffer_search_range b what start e"
  shows "0 \<le> from" "found_first b what e from (if pos r < 0 then None else Some r)" "pos r < 0 \<Longrightarrow> r = PTR_NOT_FOUND"
proof -
  define p where "p = (case start of Some p \<Rightarrow> p
               | None \<Rightarrow> \<lparr>pos = 0, ptr_chain = (if chains b = [] then None else Some 0), pos_in_chain = 0\<rparr>)"
  have p: "ptr_ok b p" "pos p = from" using start start_ok [OF ok] by (auto simp: p_def from_def split: option.splits)
  define s where "s = search_loop b what e (chain_tail b (ptr_chain p)) (case ptr_chain p of None \<Rightarrow> 0 | Some k \<Rightarrow> k) (pos_in_chain p) (pos p)"
  have found: "found_first b what e from s"
    using search_loop_spec [OF ok what(1) e cursor_start [OF ok p(1)]] p(2) by (simp add: s_def)
  have r: "r = (case s of Some q \<Rightarrow> q | None \<Rightarrow> PTR_NOT_FOUND)"
    using what by (simp add: r_def evbuffer_search_range_def Let_def s_def flip: p_def)
  show "0 \<le> from" using p(1) unfolding p(2) [symmetric] ptr_ok_def by blast
  have "0 \<le> pos q" if "s = Some q" for q using found that by (simp add: found_first_def ptr_ok_def)
  then show "found_first b what e from (if pos r < 0 then None else Some r)" "pos r < 0 \<Longrightarrow> r = PTR_NOT_FOUND"
    using found r by (auto simp: PTR_NOT_FOUND_def split: option.splits)
qed

section \<open>Setting a position\<close>

lemma ptr_set_loop_spec:
  assumes ok: "buffer_ok b"
  shows "cs = drop k (chains b) \<Longrightarrow> position + left = n \<Longrightarrow> (cs = [] \<longrightarrow> position = 0) \<Longrightarrow>
    (if n > length (bytes_of cs) then ptr_set_loop cs k position left = None
     else \<exists>c i. ptr_set_loop cs k position left = Some (c, i) \<and>
       (case c of None \<Rightarrow> n = length (bytes_of cs) \<and> i = 0
        | Some j \<Rightarrow> j < length (chains b) \<and> i < off (chains b ! j) \<and> chain_base b j + i = chain_base b k + n))"
proof (induction cs arbitrary: k position left n)
  case Nil
  then show ?case by (auto simp: chain_simps)
next
  case (Cons c cs)
  have k: "k < length (chains b)" using Cons.prems(1) by (metis drop_eq_Nil linorder_not_le list.distinct(1))
  then have c: "chains b ! k = c" "cs = drop (Suc k) (chains b)" using Cons.prems(1) by (metis Cons_nth_drop_Suc list.inject)+
  have ok_c: "chain_ok c" using buffer_okD(1) [OF ok, of c] k c(1) by (metis nth_mem)
  show ?case
  proof (cases "position + left \<ge> off c")
    case False
    then show ?thesis using Cons.prems(2) k c(1) ok_c by (auto simp: chain_simps)
  next
    case True
    define l' where "l' = left + position - off c"
    have eq: "ptr_set_loop (c # cs) k position left = ptr_set_loop cs (k + 1) 0 l'" using True by (simp add: l'_def)
    have len: "length (bytes_of (c # cs)) = off c + length (bytes_of cs)" using ok_c by (simp add: chain_simps)
    have n: "n = off c + l'" using True Cons.prems(2) by (simp add: l'_def)
    have base: "chain_base b (k + 1) + l' = chain_base b k + n" using chain_base_Suc [OF ok k] c(1) n by simp
    have "if l' > length (bytes_of cs) then ptr_set_loop cs (k + 1) 0 l' = None
      else \<exists>d i. ptr_set_loop cs (k + 1) 0 l' = Some (d, i) \<and>
        (case d of None \<Rightarrow> l' = length (bytes_of cs) \<and> i = 0
         | Some j \<Rightarrow> j < length (chains b) \<and> i < off (chains b ! j) \<and> chain_base b j + i = chain_base b (k + 1) + l')"
      by (rule Cons.IH) (simp_all add: c(2))
    then show ?thesis unfolding eq len base
    proof (cases "l' > length (bytes_of cs)")
      case False
      assume "if l' > length (bytes_of cs) then ptr_set_loop cs (k + 1) 0 l' = None
        else \<exists>d i. ptr_set_loop cs (k + 1) 0 l' = Some (d, i) \<and>
          (case d of None \<Rightarrow> l' = length (bytes_of cs) \<and> i = 0
           | Some j \<Rightarrow> j < length (chains b) \<and> i < off (chains b ! j) \<and> chain_base b j + i = chain_base b k + n)"
      then obtain d i where "ptr_set_loop cs (k + 1) 0 l' = Some (d, i)" "case d of None \<Rightarrow> l' = length (bytes_of cs) \<and> i = 0
          | Some j \<Rightarrow> j < length (chains b) \<and> i < off (chains b ! j) \<and> chain_base b j + i = chain_base b k + n"
        using False by auto
      then show "if n > off c + length (bytes_of cs) then ptr_set_loop cs (k + 1) 0 l' = None
        else \<exists>d i. ptr_set_loop cs (k + 1) 0 l' = Some (d, i) \<and>
          (case d of None \<Rightarrow> n = off c + length (bytes_of cs) \<and> i = 0
           | Some j \<Rightarrow> j < length (chains b) \<and> i < off (chains b ! j) \<and> chain_base b j + i = chain_base b k + n)"
        using False n by (cases d) auto
    qed (simp add: n)
  qed
qed

lemma ptr_set_spec:
  assumes ok: "buffer_ok b"
  shows "if n > total_len b then n \<le> EV_SIZE_MAX \<longrightarrow> evbuffer_ptr_set b p n EVBUFFER_PTR_SET = Some (PTR_NOT_FOUND, -1)
    else \<exists>q. evbuffer_ptr_set b p n EVBUFFER_PTR_SET = Some (q, 0) \<and> ptr_ok b q \<and> pos q = int n \<and>
      (n < total_len b \<longrightarrow> (\<exists>j. ptr_chain q = Some j \<and> pos_in_chain q < off (chains b ! j)))"
proof -
  have len: "total_len b = length (bytes_of (chains b))" using ok by (simp add: buffer_ok_def content_bytes_of)
  define start where "start = (if chains b = [] then None else Some (0::nat))"
  have tail: "chain_tail b start = chains b" by (simp add: start_def chain_tail_def)
  have k: "(case start of None \<Rightarrow> 0 | Some k \<Rightarrow> k) = 0" by (simp add: start_def)
  have eq: "evbuffer_ptr_set b p n EVBUFFER_PTR_SET = (case ptr_set_loop (chains b) 0 0 n of
      Some (c, i) \<Rightarrow> Some (\<lparr>pos = int n, ptr_chain = c, pos_in_chain = i\<rparr>, 0) | None \<Rightarrow> Some (PTR_NOT_FOUND, -1))"
    unfolding evbuffer_ptr_set_def by (simp add: Let_def k tail flip: start_def)
  have base0: "chain_base b 0 = 0" by (simp add: chain_base_def chain_simps)
  have "if n > length (bytes_of (chains b)) then ptr_set_loop (chains b) 0 0 n = None
     else \<exists>c i. ptr_set_loop (chains b) 0 0 n = Some (c, i) \<and>
       (case c of None \<Rightarrow> n = length (bytes_of (chains b)) \<and> i = 0
        | Some j \<Rightarrow> j < length (chains b) \<and> i < off (chains b ! j) \<and> chain_base b j + i = chain_base b 0 + n)"
    by (rule ptr_set_loop_spec [OF ok]) simp_all
  then have loop: "if n > total_len b then ptr_set_loop (chains b) 0 0 n = None
     else \<exists>c i. ptr_set_loop (chains b) 0 0 n = Some (c, i) \<and>
       (case c of None \<Rightarrow> n = total_len b \<and> i = 0
        | Some j \<Rightarrow> j < length (chains b) \<and> i < off (chains b ! j) \<and> chain_base b j + i = n)"
    unfolding len base0 add_0 .
  show ?thesis
  proof (cases "n > total_len b")
    case True
    then show ?thesis using loop eq by simp
  next
    case False
    then obtain c i where c: "ptr_set_loop (chains b) 0 0 n = Some (c, i)" "case c of None \<Rightarrow> n = total_len b \<and> i = 0
        | Some j \<Rightarrow> j < length (chains b) \<and> i < off (chains b ! j) \<and> chain_base b j + i = n" using loop by auto
    then show ?thesis using False eq by (cases c) (auto simp: ptr_ok_def chain_base_def)
  qed
qed

lemma getchr_spec:
  assumes ok: "buffer_ok b" and q: "ptr_ok b q" "ptr_chain q = Some k" "pos_in_chain q < off (chains b ! k)"
  shows "evbuffer_getchr b q = Some (uint (content b ! nat (pos q)))" "nat (pos q) < length (content b)"
proof -
  define c where "c = chains b ! k"
  have k: "k < length (chains b)" and p: "nat (pos q) = length (bytes_of (take k (chains b))) + pos_in_chain q" using q by (simp_all add: ptr_ok_def)
  have c: "chain_ok c" using buffer_okD(1) [OF ok] k by (simp add: c_def)
  have split: "content b = bytes_of (take k (chains b)) @ payload c @ bytes_of (drop (Suc k) (chains b))"
    using bytes_of_nth [OF k] by (simp add: content_bytes_of c_def)
  have lt: "pos_in_chain q < length (payload c)" using q(3) c by (simp add: c_def)
  then have "content b ! nat (pos q) = payload c ! pos_in_chain q" unfolding split p by (simp add: nth_append)
  also have "\<dots> = buffer c ! (misalign c + pos_in_chain q)" using q(3) c by (simp add: payload_def c_def chain_ok_def)
  finally show "evbuffer_getchr b q = Some (uint (content b ! nat (pos q)))"
    using q(2,3) k c by (simp add: evbuffer_getchr_def Let_def chain_ok_def flip: c_def)
  show "nat (pos q) < length (content b)" unfolding p split using lt by simp
qed

lemma ptr_subtract_spec:
  assumes ok: "buffer_ok b" and q: "ptr_ok b q" "0 < pos q"
  shows "\<exists>r k. evbuffer_ptr_subtract b q 1 = Some (r, 0) \<and> ptr_ok b r \<and> pos r = pos q - 1 \<and>
    ptr_chain r = Some k \<and> pos_in_chain r < off (chains b ! k)"
proof (cases "ptr_chain q \<noteq> None \<and> 1 \<le> pos_in_chain q")
  case True
  then obtain k where k: "ptr_chain q = Some k" by auto
  then show ?thesis using True q by (auto simp: evbuffer_ptr_subtract_def ptr_ok_def nat_diff_distrib)
next
  case False
  have "nat (pos q) \<le> total_len b" "0 < nat (pos q)" using q by (simp_all add: ptr_ok_def)
  then have "nat (pos q) - 1 < total_len b" by linarith
  then obtain r j where "evbuffer_ptr_set b q (nat (pos q) - 1) EVBUFFER_PTR_SET = Some (r, 0)" "ptr_ok b r"
    "pos r = int (nat (pos q) - 1)" "ptr_chain r = Some j" "pos_in_chain r < off (chains b ! j)"
    using ptr_set_spec [OF ok, of "nat (pos q) - 1" q] by auto
  moreover from this have "pos r = pos q - 1" using q(2) by simp
  ultimately show ?thesis using False q(2) by (auto simp: evbuffer_ptr_subtract_def)
qed

section \<open>Spans\<close>

lemma span_loop_spec:
  assumes ok: "buffer_ok b"
  shows "cursor b cs k i p \<Longrightarrow> cs \<noteq> [] \<Longrightarrow>
    snd (snd (span_loop chrset cs k i cnt)) = cnt + length (takeWhile (\<lambda>x. x \<in> set chrset) (drop (nat p) (content b)))"
proof (induction cs arbitrary: k i p cnt)
  case (Cons c cs)
  note d = cursor_ConsD [OF ok Cons.prems(1)]
  define n where "n = length (takeWhile (\<lambda>x. x \<in> set chrset) (drop i (payload c)))"
  have len: "length (drop i (payload c)) = off c - i" using d(1) by simp
  show ?case
  proof (cases "i + n < off c")
    case True
    have "takeWhile (\<lambda>x. x \<in> set chrset) (drop i (payload c)) \<noteq> drop i (payload c)" using True len by (metis add_diff_inverse_nat d(5) linorder_not_le n_def nat_neq_iff)
    then have "takeWhile (\<lambda>x. x \<in> set chrset) (drop (nat p) (content b)) = takeWhile (\<lambda>x. x \<in> set chrset) (drop i (payload c))"
      unfolding d(7) by (metis takeWhile_append1 takeWhile_eq_all_conv)
    then show ?thesis using True by (simp add: Let_def n_def)
  next
    case False
    have "n \<le> off c - i" using length_takeWhile_le [of _ "drop i (payload c)"] len by (simp add: n_def)
    then have n: "n = off c - i" using False d(5) by linarith
    then have all: "takeWhile (\<lambda>x. x \<in> set chrset) (drop i (payload c)) = drop i (payload c)"
      using len by (metis n_def takeWhile_eq_take take_all_iff order_refl)
    then have tw: "takeWhile (\<lambda>x. x \<in> set chrset) (drop (nat p) (content b)) = drop i (payload c) @ takeWhile (\<lambda>x. x \<in> set chrset) (bytes_of cs)"
      unfolding d(7) by (metis takeWhile_append2 takeWhile_eq_all_conv)
    show ?thesis
    proof (cases "cs = []")
      case True
      then show ?thesis using False tw n len by (simp add: Let_def chain_simps flip: n_def)
    next
      case more: False
      have next_at: "drop (nat (p + int (off c) - int i)) (content b) = bytes_of cs"
        using cursor_next [OF ok Cons.prems(1)] by (simp add: cursor_def)
      have "span_loop chrset (c # cs) k i cnt = span_loop chrset cs (k + 1) 0 (cnt + n)" using False more by (simp add: Let_def flip: n_def)
      then show ?thesis using Cons.IH [OF cursor_next [OF ok Cons.prems(1)] more, of "cnt + n"] tw n len unfolding next_at by simp
    qed
  qed
qed simp

lemma strspn_spec:
  assumes ok: "buffer_ok b" and q: "ptr_ok b q" "ptr_chain q = Some k"
  shows "snd (evbuffer_strspn b q chrset) = length (takeWhile (\<lambda>x. x \<in> set chrset) (drop (nat (pos q)) (content b)))"
proof -
  have cur: "cursor b (drop k (chains b)) k (pos_in_chain q) (pos q)" using cursor_start [OF ok q(1)] q(2) by (simp add: chain_tail_def)
  have "drop k (chains b) \<noteq> []" using q by (simp add: ptr_ok_def)
  from span_loop_spec [OF ok cur this, of chrset 0] show ?thesis
    using q(2) by (simp add: evbuffer_strspn_def split_beta)
qed

end
