(* ===== verification/Ev_Search_Props.thy ===== *)
theory Ev_Search_Props
  imports Ev_Search_Spec Ev_Buffer_Props
begin

text \<open>
  The properties of searching and of reading lines: what they find in the chains is what a
  search of the bytes finds.
\<close>

section \<open>Searching\<close>

text \<open>The sample buffer has its second chain at position 2.\<close>

definition sample_end :: evbuffer_ptr where
  "sample_end = \<lparr>pos = 4, ptr_chain = Some 1, pos_in_chain = 2\<rparr>"

lemma sample_end_ok: "ptr_ok sample_buffer sample_end"
  by (simp add: ptr_ok_def sample_end_def sample_buffer_def sample_chain_def bytes_of_def payload_def)

text \<open>
  C37. \<open>evbuffer_search_range\<close> finds the first occurrence of a string at or behind the start
  position that ends before the end position, also one that spans several chains, and gives a
  position that denotes it; it returns the position for not found exactly when there is none.
\<close>

theorem evbuffer_search_correct:
  assumes ok: "buffer_ok b" and what: "what \<noteq> []" "length what \<le> EV_SSIZE_MAX"
    and start: "start \<noteq> None \<Longrightarrow> ptr_ok b (the start)" and e: "e \<noteq> None \<Longrightarrow> ptr_ok b (the e)"
  defines "from \<equiv> (case start of None \<Rightarrow> 0 | Some p \<Rightarrow> nat (pos p))"
    and "limit \<equiv> (case e of None \<Rightarrow> total_len b | Some q \<Rightarrow> nat (pos q))"
    and "r \<equiv> evbuffer_search_range b what start e"
  shows "if \<exists>s \<ge> from. s + length what \<le> limit \<and> match_at what (content b) s
    then ptr_ok b r \<and> nat (pos r) = (LEAST s. from \<le> s \<and> match_at what (content b) s) \<and> nat (pos r) + length what \<le> limit
    else r = PTR_NOT_FOUND"
proof -
  define p where "p = (case start of None \<Rightarrow> 0 | Some p \<Rightarrow> pos p)"
  note s = search_range_spec [OF ok what start e, folded p_def, folded r_def]
  have p: "nat p = from" by (simp add: p_def from_def split: option.split)
  have lim: "search_limit b e = limit" by (simp add: search_limit_def limit_def)
  show ?thesis
  proof (cases "pos r < 0")
    case True
    then show ?thesis using s(2,3) p lim by (auto simp: found_first_def)
  next
    case False
    then have f: "ptr_ok b r" "p \<le> pos r" "nat (pos r) + length what \<le> limit" "match_at what (content b) (nat (pos r))"
      "\<And>t. from \<le> t \<Longrightarrow> t < nat (pos r) \<Longrightarrow> \<not> match_at what (content b) t"
      using s(2) p lim by (auto simp: found_first_def)
    have ge: "from \<le> nat (pos r)" using f(2) p by (metis nat_mono)
    have "(LEAST t. from \<le> t \<and> match_at what (content b) t) = nat (pos r)"
      using ge f(4,5) by (intro Least_equality) (auto intro: leI)
    then show ?thesis using f ge by auto
  qed
qed

theorem evbuffer_search_correct_witness:
  "nat (pos (evbuffer_search_range sample_buffer [73, 13, 10] None (Some sample_end))) = 1 \<and>
    ptr_ok sample_buffer (evbuffer_search_range sample_buffer [73, 13, 10] None (Some sample_end))"
proof -
  have m: "match_at [73, 13, 10] (content sample_buffer) 1" by (simp add: match_at_def sample_content)
  have "\<not> match_at [73, 13, 10] (content sample_buffer) 0" by (simp add: match_at_def sample_content)
  then have "(LEAST s. 0 \<le> s \<and> match_at [73, 13, 10] (content sample_buffer) s) = 1"
    using m by (intro Least_equality) (auto simp: Suc_le_eq intro: gr0I)
  moreover have "length [73, 13, 10 :: byte] \<le> EV_SSIZE_MAX" by (simp add: EV_SSIZE_MAX_def)
  ultimately show ?thesis
    using evbuffer_search_correct [OF sample_ok(1), of "[73, 13, 10]" None "Some sample_end"] sample_end_ok m
    by (auto simp: sample_end_def split: if_splits)
qed

section \<open>Lines\<close>

text \<open>Where the first line of a sequence of bytes ends, with the length of what ends it.\<close>

fun first_match :: "byte list \<Rightarrow> byte list \<Rightarrow> nat option" where
  "first_match what [] = None"
| "first_match what (x # xs) = (if take (length what) (x # xs) = what then Some 0 else map_option Suc (first_match what xs))"

fun line_end :: "evbuffer_eol_style \<Rightarrow> byte list \<Rightarrow> (nat \<times> nat) option" where
  "line_end EVBUFFER_EOL_ANY bs =
     map_option (\<lambda>n. (n, length (takeWhile is_eol (drop n bs)))) (first_index is_eol bs)"
| "line_end EVBUFFER_EOL_CRLF_STRICT bs = map_option (\<lambda>n. (n, 2)) (first_match [CR, LF] bs)"
| "line_end EVBUFFER_EOL_CRLF bs =
     map_option (\<lambda>n. if 0 < n \<and> bs ! (n - 1) = CR then (n - 1, 2) else (n, 1)) (first_index (\<lambda>x. x = LF) bs)"
| "line_end EVBUFFER_EOL_LF bs = map_option (\<lambda>n. (n, 1)) (first_index (\<lambda>x. x = LF) bs)"
| "line_end EVBUFFER_EOL_NUL bs = map_option (\<lambda>n. (n, 1)) (first_index (\<lambda>x. x = 0) bs)"

lemma match_at_Cons: "what \<noteq> [] \<Longrightarrow> match_at what (x # xs) 0 \<longleftrightarrow> take (length what) (x # xs) = what"
  by (auto simp: match_at_def) (metis length_Cons length_take min.cobounded1)

lemma match_at_Suc: "match_at what (x # xs) (Suc s) \<longleftrightarrow> match_at what xs s"
  by (simp add: match_at_def)

lemma first_match_Some:
  assumes what: "what \<noteq> []"
  shows "first_match what bs = Some n \<longleftrightarrow> match_at what bs n \<and> (\<forall>m < n. \<not> match_at what bs m)"
proof (induction bs arbitrary: n)
  case Nil
  then show ?case using what by (simp add: match_at_def)
next
  case (Cons x xs)
  show ?case
  proof (cases n)
    case 0
    then show ?thesis using match_at_Cons [OF what] by simp
  next
    case (Suc i)
    have "(\<forall>m < Suc i. \<not> match_at what (x # xs) m) \<longleftrightarrow> \<not> match_at what (x # xs) 0 \<and> (\<forall>m < i. \<not> match_at what xs m)"
      by (simp add: All_less_Suc2 match_at_Suc)
    then show ?thesis using Suc Cons.IH [of i] match_at_Cons [OF what, of x xs] by (auto simp: match_at_Suc)
  qed
qed

lemma first_match_None:
  assumes what: "what \<noteq> []"
  shows "first_match what bs = None \<longleftrightarrow> (\<forall>n. \<not> match_at what bs n)"
proof -
  have "\<exists>m. first_match what bs = Some m" if "match_at what bs n" for n
    using that exists_least_iff [of "match_at what bs"] first_match_Some [OF what, of bs] by blast
  then show ?thesis using first_match_Some [OF what, of bs] by (metis not_Some_eq)
qed

text \<open>The length of what ends the line lies in the buffer.\<close>

lemma line_end_bounds:
  assumes "line_end style bs = Some (n, k)"
  shows "n < length bs" "0 < k" "n + k \<le> length bs"
proof -
  have "n < length bs \<and> 0 < k \<and> n + k \<le> length bs"
  proof (cases style)
    case EVBUFFER_EOL_ANY
    then have n: "first_index is_eol bs = Some n" "k = length (takeWhile is_eol (drop n bs))" using assms by auto
    then have "n < length bs" "is_eol (bs ! n)" by (simp_all add: first_index_Some)
    then have "takeWhile is_eol (drop n bs) \<noteq> []" by (simp add: takeWhile_eq_Nil_iff hd_drop_conv_nth)
    moreover have "k \<le> length (drop n bs)" unfolding n(2) by (rule length_takeWhile_le)
    ultimately show ?thesis using n(2) \<open>n < length bs\<close> by simp
  next
    case EVBUFFER_EOL_CRLF
    then obtain j where j: "first_index (\<lambda>x. x = LF) bs = Some j" "(n, k) = (if 0 < j \<and> bs ! (j - 1) = CR then (j - 1, 2) else (j, 1))"
      using assms by auto
    then show ?thesis by (auto simp: first_index_Some split: if_splits)
  next
    case EVBUFFER_EOL_CRLF_STRICT
    then have "first_match [CR, LF] bs = Some n" "k = 2" using assms by auto
    then show ?thesis by (simp add: first_match_Some match_at_def)
  qed (use assms in \<open>auto simp: first_index_Some\<close>)
  then show "n < length bs" "0 < k" "n + k \<le> length bs" by simp_all
qed

lemma search_eol_spec:
  assumes ok: "buffer_ok b"
  shows "case line_end style (content b) of
      None \<Rightarrow> evbuffer_search_eol b None style = Some (PTR_NOT_FOUND, 0)
    | Some (n, k) \<Rightarrow> \<exists>q. evbuffer_search_eol b None style = Some (q, k) \<and> pos q = int n \<and> ptr_ok b q"
proof -
  define it where "it = \<lparr>pos = 0, ptr_chain = (if chains b = [] then None else Some (0::nat)), pos_in_chain = 0\<rparr>"
  have it: "ptr_ok b it" "pos it = 0" using start_ok [OF ok] by (simp_all add: it_def)
  note eq = evbuffer_search_eol_def [of b None style, unfolded Let_def option.case it_def [symmetric]]
  have chr: "case first_index (\<lambda>x. x = ch) (content b) of None \<Rightarrow> evbuffer_strchr b it ch = None
      | Some n \<Rightarrow> \<exists>q. evbuffer_strchr b it ch = Some q \<and> pos q = int n \<and> ptr_ok b q" for ch
    using scan_spec [OF ok, of "memchr ch" "\<lambda>x. x = ch", OF memchr_first_index it(1)] it(2)
    by (auto simp: evbuffer_strchr_def split: option.splits)
  show ?thesis
  proof (cases style)
    case EVBUFFER_EOL_ANY
    have s: "case first_index is_eol (content b) of None \<Rightarrow> evbuffer_find_eol_char b it = None
        | Some n \<Rightarrow> \<exists>q c. evbuffer_find_eol_char b it = Some q \<and> pos q = int n \<and> ptr_ok b q \<and> ptr_chain q = Some c"
      using scan_spec [OF ok, of find_eol_char is_eol, OF find_eol_char_first_index it(1)] it(2)
      by (auto simp: evbuffer_find_eol_char_def split: option.splits)
    have set: "(\<lambda>x. x \<in> set [CR, LF]) = is_eol" by (auto simp: is_eol_def)
    have "snd (evbuffer_strspn b q [CR, LF]) = length (takeWhile is_eol (drop n (content b)))"
      if "ptr_ok b q" "pos q = int n" "ptr_chain q = Some c" for q n c
      using strspn_spec [OF ok that(1,3), of "[CR, LF]"] that(2) unfolding set by simp
    then show ?thesis using s EVBUFFER_EOL_ANY eq by (cases "first_index is_eol (content b)") auto
  next
    case EVBUFFER_EOL_CRLF_STRICT
    have len: "length [CR, LF] \<le> EV_SSIZE_MAX" by (simp add: EV_SSIZE_MAX_def)
    define r where "r = evbuffer_search b [CR, LF] (Some it)"
    have r: "r = evbuffer_search_range b [CR, LF] (Some it) None" by (simp add: r_def evbuffer_search_def)
    have f: "found_first b [CR, LF] None 0 (if pos r < 0 then None else Some r)"
      using search_range_spec(2) [OF ok _ len, of "Some it" None, folded r] it by simp
    show ?thesis
    proof (cases "pos r < 0")
      case True
      then have "\<forall>n. \<not> match_at [CR, LF] (content b) n" using f buffer_okD(2) [OF ok] by (auto simp: found_first_def search_limit_def match_at_def)
      then have "first_match [CR, LF] (content b) = None" by (simp add: first_match_None)
      then show ?thesis using True EVBUFFER_EOL_CRLF_STRICT eq by (simp flip: r_def)
    next
      case False
      then have "match_at [CR, LF] (content b) (nat (pos r)) \<and> (\<forall>m < nat (pos r). \<not> match_at [CR, LF] (content b) m)" "ptr_ok b r"
        using f by (auto simp: found_first_def)
      then have "first_match [CR, LF] (content b) = Some (nat (pos r))" "ptr_ok b r" by (simp_all add: first_match_Some)
      then show ?thesis using False EVBUFFER_EOL_CRLF_STRICT eq by (simp flip: r_def)
    qed
  next
    case EVBUFFER_EOL_CRLF
    show ?thesis
    proof (cases "first_index (\<lambda>x. x = LF) (content b)")
      case None
      then show ?thesis using chr [of LF] EVBUFFER_EOL_CRLF eq by simp
    next
      case (Some n)
      then obtain q where q: "evbuffer_strchr b it LF = Some q" "pos q = int n" "ptr_ok b q" using chr [of LF] by auto
      show ?thesis
      proof (cases "n = 0")
        case True
        then show ?thesis using Some q EVBUFFER_EOL_CRLF eq it(2) by simp
      next
        case False
        then obtain r k where r: "evbuffer_ptr_subtract b q 1 = Some (r, 0)" "ptr_ok b r" "pos r = int n - 1"
          "ptr_chain r = Some k" "pos_in_chain r < off (chains b ! k)"
          using ptr_subtract_spec [OF ok q(3)] q(2) by auto
        have "nat (pos r) = n - 1" using r(3) False by simp
        then have "evbuffer_getchr b r = Some (uint (content b ! (n - 1)))" using getchr_spec(1) [OF ok r(2,4,5)] by simp
        moreover have "uint (content b ! (n - 1)) = uint CR \<longleftrightarrow> content b ! (n - 1) = CR" by (simp only: word_uint_eq_iff)
        moreover have "int (n - 1) = int n - 1" using False by simp
        ultimately show ?thesis using Some q r False EVBUFFER_EOL_CRLF eq it(2) by (auto simp: of_nat_diff)
      qed
    qed
  next
    case EVBUFFER_EOL_LF
    then show ?thesis using chr [of LF] eq by (cases "first_index (\<lambda>x. x = LF) (content b)") auto
  next
    case EVBUFFER_EOL_NUL
    then show ?thesis using chr [of 0] eq by (cases "first_index (\<lambda>x. x = 0) (content b)") auto
  qed
qed

text \<open>
  C38. \<open>evbuffer_readln\<close> reads what a reader of the bytes would: for each style, the bytes before
  the first end of line, which it takes out of the buffer together with the end of line. It
  returns no line, and leaves the buffer alone, exactly when there is no end of line, no memory
  for the line, or the start of the buffer is frozen.
\<close>

theorem evbuffer_readln_correct:
  assumes ok: "buffer_ok b"
  shows "case line_end style (content b) of
      None \<Rightarrow> evbuffer_readln m b style = Some (b, None, 0)
    | Some (n, k) \<Rightarrow>
        if freeze_start b \<or> m (n + 1) = None then evbuffer_readln m b style = Some (b, None, 0)
        else \<exists>b'. evbuffer_readln m b style = Some (b', Some (take n (content b)), n) \<and> buffer_ok b' \<and>
          content b' = drop (n + k) (content b) \<and> n + k \<le> length (content b) \<and> freeze_start b' = freeze_start b"
proof (cases "freeze_start b")
  case True
  then show ?thesis by (auto simp: evbuffer_readln_def split: option.split)
next
  case live: False
  show ?thesis
  proof (cases "line_end style (content b)")
    case None
    then have "evbuffer_search_eol b None style = Some (PTR_NOT_FOUND, 0)" using search_eol_spec [OF ok, of style] by simp
    then show ?thesis using None live by (simp add: evbuffer_readln_def PTR_NOT_FOUND_def)
  next
    case (Some nk)
    obtain n k where nk: "nk = (n, k)" by (cases nk)
    then obtain q where q: "evbuffer_search_eol b None style = Some (q, k)" "pos q = int n"
      using search_eol_spec [OF ok, of style] Some by auto
    note le = line_end_bounds [OF Some [unfolded nk]]
    obtain b1 r where b1: "evbuffer_remove b n = Some (b1, take n (content b), r)" "buffer_ok b1" "content b1 = drop n (content b)"
      "freeze_start b1 = freeze_start b" using remove_spec [OF ok live, of n] by blast
    have "total_len b1 \<noteq> 0" "\<not> freeze_start b1" using buffer_okD(2) [OF b1(2)] b1(3,4) le live by simp_all
    then obtain cs l where d: "evbuffer_drain b1 k = Some (shrunk b1 cs l (min k (total_len b1)), 0)" "holds cs l (drop k (content b1))"
      using drain_spec(2) [OF b1(2), of k] by blast
    have "k \<le> total_len b1" using buffer_okD(2) [OF b1(2)] b1(3) le by simp
    then have b2: "buffer_ok (shrunk b1 cs l (min k (total_len b1)))" "content (shrunk b1 cs l (min k (total_len b1))) = drop (n + k) (content b)"
      using shrunk_ok [OF b1(2) d(2), of "min k (total_len b1)"] b1(3) by (simp_all add: add.commute)
    show ?thesis
    proof (cases "m (n + 1)")
      case None
      then show ?thesis using Some nk live q by (simp add: evbuffer_readln_def)
    next
      case mem: (Some x)
      then have "evbuffer_readln m b style = Some (shrunk b1 cs l (min k (total_len b1)), Some (take n (content b)), n)"
        using live q b1(1) d(1) by (simp add: evbuffer_readln_def)
      then show ?thesis using Some nk live b2 b1(4) le mem by simp
    qed
  qed
qed

theorem evbuffer_readln_correct_witness:
  "\<exists>b'. evbuffer_readln zero_malloc sample_buffer EVBUFFER_EOL_CRLF = Some (b', Some [72, 73], 2) \<and> buffer_ok b' \<and> content b' = [74]"
proof -
  have "line_end EVBUFFER_EOL_CRLF (content sample_buffer) = Some (2, 2)" unfolding sample_content by code_simp
  then show ?thesis
    using evbuffer_readln_correct [where style = EVBUFFER_EOL_CRLF and m = zero_malloc, OF sample_ok(1)] sample_ok(3)
    by (auto simp: zero_malloc_def sample_content simp del: line_end.simps)
qed

end
