(* ===== verification/Ev_Tagging.thy ===== *)
theory Ev_Tagging
  imports Ev_Buffer_Take
begin

text \<open>
  \<open>event_tagging.c\<close>: integers, tags and tagged data as sequences of bytes in an evbuffer. The
  results of \<open>evbuffer_add\<close> and \<open>evbuffer_drain\<close> are ignored where the code ignores them; \<open>None\<close> is an
  undefined step: memory read that is not there, or the null pointer followed.
\<close>

section \<open>Encoding\<close>

text \<open>
  The macro \<open>ENCODE_INT_INTERNAL\<close>, for a number of any width: the loop with the array and \<open>off\<close> (\<open>ofs\<close>),
  the index of the next half byte.
\<close>

function encode_loop :: "byte list \<Rightarrow> nat \<Rightarrow> 'a::len word \<Rightarrow> byte list \<times> nat" where
  "encode_loop data ofs number =
     (if number = 0 then (data, ofs)
      else
        (let d = data ! (ofs div 2); nibble = ucast (number AND 0x0f)
         in encode_loop
              (data[ofs div 2 := (if odd ofs then (d AND 0xf0) OR nibble else (d AND 0x0f) OR push_bit 4 nibble)])
              (ofs + 1) (drop_bit 4 number)))"
  by pat_completeness auto
termination
proof (relation "measure (\<lambda>(data, ofs, number). unat number)")
  fix number :: "'a word"
  assume "number \<noteq> 0"
  then have "unat number div 2 ^ 4 < unat number" by (intro div_less_dividend) (simp_all add: unat_gt_0)
  then show "((x, y, drop_bit 4 number), data, ofs, number) \<in> measure (\<lambda>(data, ofs, number). unat number)" for x y and data :: "byte list" and ofs :: nat
    by (simp only: in_measure prod.case unat_drop_bit_eq) (simp add: drop_bit_eq_div)
qed simp

declare encode_loop.simps [simp del]

definition encode_int_internal :: "'a::len word \<Rightarrow> byte list" where
  "encode_int_internal number =
     (let (data, ofs) = encode_loop (replicate (LENGTH('a) div 8 + 1) 0) 1 number;
          nibbles = (if ofs > 2 then ofs - 2 else 0);
          data = data[0 := (data ! 0 AND 0x0f) OR push_bit 4 (of_nat nibbles AND 0x0f)]
      in take ((ofs + 1) div 2) data)"

text \<open>The bytes of a tag, least significant first, 7 bits in each.\<close>

function tag_bytes :: "u32 \<Rightarrow> byte list" where
  "tag_bytes tag =
     (let lower = ucast (tag AND 0x7f); tag' = drop_bit 7 tag
      in if tag' \<noteq> 0 then (lower OR 0x80) # tag_bytes tag' else [lower])"
  by pat_completeness auto
termination
proof (relation "measure unat")
  fix x and tag y :: u32
  assume "y = drop_bit 7 tag" "y \<noteq> 0"
  then have "tag \<noteq> 0" by auto
  then have "unat tag div 2 ^ 7 < unat tag" by (intro div_less_dividend) (simp_all add: unat_gt_0)
  then show "(y, tag) \<in> measure unat" using \<open>y = _\<close> by (simp only: in_measure prod.case unat_drop_bit_eq) (simp add: drop_bit_eq_div)
qed simp

declare tag_bytes.simps [simp del]

text \<open>\<open>evbuffer_add\<close> with its result ignored.\<close>

definition add_ignoring :: "malloc \<Rightarrow> evbuffer \<Rightarrow> byte list \<Rightarrow> evbuffer option" where
  "add_ignoring m b data = map_option fst (evbuffer_add m b data)"

definition drain_ignoring :: "evbuffer \<Rightarrow> nat \<Rightarrow> evbuffer option" where
  "drain_ignoring b n = map_option fst (evbuffer_drain b n)"

definition evtag_encode_int :: "malloc \<Rightarrow> evbuffer \<Rightarrow> u32 \<Rightarrow> evbuffer option" where
  "evtag_encode_int m b number = add_ignoring m b (encode_int_internal number)"

definition evtag_encode_int64 :: "malloc \<Rightarrow> evbuffer \<Rightarrow> u64 \<Rightarrow> evbuffer option" where
  "evtag_encode_int64 m b number = add_ignoring m b (encode_int_internal number)"

text \<open>For a buffer; the null pointer, for which only the length is computed, is not modelled.\<close>

definition evtag_encode_tag :: "malloc \<Rightarrow> evbuffer \<Rightarrow> u32 \<Rightarrow> (evbuffer \<times> nat) option" where
  "evtag_encode_tag m b tag = map_option (\<lambda>b'. (b', length (tag_bytes tag))) (add_ignoring m b (tag_bytes tag))"

definition evtag_marshal :: "malloc \<Rightarrow> evbuffer \<Rightarrow> u32 \<Rightarrow> byte list \<Rightarrow> evbuffer option" where
  "evtag_marshal m b tag data =
     Option.bind (evtag_encode_tag m b tag) (\<lambda>(b1, _).
     Option.bind (evtag_encode_int m b1 (of_nat (length data))) (\<lambda>b2.
       add_ignoring m b2 data))"

definition evtag_marshal_buffer :: "malloc \<Rightarrow> bool \<Rightarrow> evbuffer \<Rightarrow> u32 \<Rightarrow> evbuffer \<Rightarrow> (evbuffer \<times> evbuffer) option" where
  "evtag_marshal_buffer m same b tag data =
     Option.bind (evtag_encode_tag m b tag) (\<lambda>(b1, _).
     Option.bind (evtag_encode_int m b1 (of_nat (evbuffer_get_length data))) (\<lambda>b2.
       map_option (\<lambda>(b3, data', _). (b3, data')) (evbuffer_add_buffer m same b2 data)))"

definition evtag_marshal_int :: "malloc \<Rightarrow> evbuffer \<Rightarrow> u32 \<Rightarrow> u32 \<Rightarrow> evbuffer option" where
  "evtag_marshal_int m b tag integer =
     (let data = encode_int_internal integer
      in Option.bind (evtag_encode_tag m b tag) (\<lambda>(b1, _).
         Option.bind (evtag_encode_int m b1 (of_nat (length data))) (\<lambda>b2. add_ignoring m b2 data)))"

definition evtag_marshal_int64 :: "malloc \<Rightarrow> evbuffer \<Rightarrow> u32 \<Rightarrow> u64 \<Rightarrow> evbuffer option" where
  "evtag_marshal_int64 m b tag integer =
     (let data = encode_int_internal integer
      in Option.bind (evtag_encode_tag m b tag) (\<lambda>(b1, _).
         Option.bind (evtag_encode_int m b1 (of_nat (length data))) (\<lambda>b2. add_ignoring m b2 data)))"

text \<open>A string is its bytes without the final 0.\<close>

definition evtag_marshal_string :: "malloc \<Rightarrow> evbuffer \<Rightarrow> u32 \<Rightarrow> byte list \<Rightarrow> evbuffer option" where
  "evtag_marshal_string m b tag string = evtag_marshal m b tag string"

text \<open>Seconds and microseconds are cut to 32 bits.\<close>

definition evtag_marshal_timeval :: "malloc \<Rightarrow> evbuffer \<Rightarrow> u32 \<Rightarrow> int \<times> int \<Rightarrow> evbuffer option" where
  "evtag_marshal_timeval m b tag tv =
     evtag_marshal m b tag (encode_int_internal (word_of_int (fst tv) :: u32) @ encode_int_internal (word_of_int (snd tv) :: u32))"

section \<open>Decoding\<close>

text \<open>
  The loop of \<open>decode_tag_internal\<close>, reading from the memory that starts at the data. It reads a
  byte before it looks at \<open>shift\<close>, so the memory must hold the byte after the fifth as well.
\<close>

fun tag_loop :: "byte list \<Rightarrow> nat \<Rightarrow> nat \<Rightarrow> nat \<Rightarrow> u32 \<Rightarrow> (nat \<times> u32) option option" where
  "tag_loop data cnt len shift number =
     (if \<not> cnt < len then Some None
      else
        (case data of
           [] \<Rightarrow> None
         | lower # rest \<Rightarrow>
             if shift \<ge> 28 \<and> (shift > 28 \<or> lower AND 0x7f > 15) then Some None
             else
               (let number' = number OR push_bit shift (ucast (lower AND 0x7f))
                in if lower AND 0x80 = 0 then Some (Some (cnt + 1, number'))
                   else tag_loop rest (cnt + 1) len (shift + 7) number')))"

declare tag_loop.simps [simp del]

text \<open>The tag is only given with a result that is not -1.\<close>

definition decode_tag_internal :: "malloc \<Rightarrow> evbuffer \<Rightarrow> bool \<Rightarrow> (evbuffer \<times> int \<times> u32) option" where
  "decode_tag_internal m b dodrain =
     (let len = evbuffer_get_length b
      in case evbuffer_pullup m b (int (if len < 5 then len else 5)) of
           (b1, None) \<Rightarrow> Some (b1, -1, 0)
         | (b1, Some _) \<Rightarrow>
             (let c = hd (chains b1)
              in Option.bind (tag_loop (drop (misalign c) (buffer c)) 0 len 0 0) (\<lambda>r.
                   case r of
                     None \<Rightarrow> Some (b1, -1, 0)
                   | Some (cnt, number) \<Rightarrow>
                       map_option (\<lambda>b2. (b2, int (min cnt INT_MAX), number)) (if dodrain then drain_ignoring b1 cnt else Some b1))))"

definition evtag_decode_tag :: "malloc \<Rightarrow> evbuffer \<Rightarrow> (evbuffer \<times> int \<times> u32) option" where
  "evtag_decode_tag m b = decode_tag_internal m b True"

text \<open>The loop of \<open>DECODE_INT_INTERNAL\<close>.\<close>

fun decode_loop :: "byte list \<Rightarrow> nat \<Rightarrow> 'a::len word \<Rightarrow> 'a word" where
  "decode_loop data 0 number = number"
| "decode_loop data (Suc k) number =
     decode_loop data k
       (push_bit 4 number OR
        (if odd (Suc k) then ucast (data ! (Suc k div 2) AND 0x0f) else ucast (drop_bit 4 (data ! (Suc k div 2) AND 0xf0))))"

text \<open>
  The macro, for a width and the number of nibbles it allows. The pointer is compared with null
  after the offset has been added: at offset 0 only can that find anything.
\<close>

definition decode_int_internal :: "malloc \<Rightarrow> evbuffer \<Rightarrow> nat \<Rightarrow> nat \<Rightarrow> (evbuffer \<times> int \<times> 'a::len word) option" where
  "decode_int_internal m b maxnibbles offset =
     (let len = int (evbuffer_get_length b) - int offset
      in if len \<le> 0 then Some (b, -1, 0)
         else
           (case evbuffer_pullup m b (int offset + 1) of
              (b1, None) \<Rightarrow> if offset = 0 then Some (b1, -1, 0) else None
            | (b1, Some data) \<Rightarrow>
                (let nibbles = unat (drop_bit 4 (data ! offset AND 0xf0)) + 1; n = nibbles div 2 + 1
                 in if nibbles > maxnibbles \<or> int n > len then Some (b1, -1, 0)
                    else
                      (case evbuffer_pullup m b1 (int offset + int n) of
                         (b2, None) \<Rightarrow> if offset = 0 then Some (b2, -1, 0) else None
                       | (b2, Some data2) \<Rightarrow> Some (b2, int n, decode_loop (drop offset data2) nibbles 0)))))"

abbreviation decode_int32_internal :: "malloc \<Rightarrow> evbuffer \<Rightarrow> nat \<Rightarrow> (evbuffer \<times> int \<times> u32) option" where
  "decode_int32_internal m b offset \<equiv> decode_int_internal m b 8 offset"

abbreviation decode_int64_internal :: "malloc \<Rightarrow> evbuffer \<Rightarrow> nat \<Rightarrow> (evbuffer \<times> int \<times> u64) option" where
  "decode_int64_internal m b offset \<equiv> decode_int_internal m b 16 offset"

text \<open>Draining what was decoded.\<close>

definition drain_decoded :: "evbuffer \<times> int \<times> 'a::len word \<Rightarrow> (evbuffer \<times> int \<times> 'a word) option" where
  "drain_decoded r =
     (case r of (b, res, number) \<Rightarrow>
        if res \<noteq> -1 then map_option (\<lambda>b1. (b1, 0, number)) (drain_ignoring b (nat res)) else Some (b, -1, number))"

definition evtag_decode_int :: "malloc \<Rightarrow> evbuffer \<Rightarrow> (evbuffer \<times> int \<times> u32) option" where
  "evtag_decode_int m b = Option.bind (decode_int32_internal m b 0) drain_decoded"

definition evtag_decode_int64 :: "malloc \<Rightarrow> evbuffer \<Rightarrow> (evbuffer \<times> int \<times> u64) option" where
  "evtag_decode_int64 m b = Option.bind (decode_int64_internal m b 0) drain_decoded"

definition evtag_peek :: "malloc \<Rightarrow> evbuffer \<Rightarrow> (evbuffer \<times> int \<times> u32) option" where
  "evtag_peek m b = decode_tag_internal m b False"

text \<open>The length of a tagged item with its header, or of its payload.\<close>

definition evtag_payload_length :: "malloc \<Rightarrow> evbuffer \<Rightarrow> (evbuffer \<times> int \<times> u32) option" where
  "evtag_payload_length m b =
     Option.bind (decode_tag_internal m b False) (\<lambda>(b1, len, _).
       if len = -1 then Some (b1, -1, 0)
       else map_option (\<lambda>(b2, res, n). if res = -1 then (b2, -1, 0) else (b2, 0, n)) (decode_int32_internal m b1 (nat len)))"

definition evtag_peek_length :: "malloc \<Rightarrow> evbuffer \<Rightarrow> (evbuffer \<times> int \<times> u32) option" where
  "evtag_peek_length m b =
     Option.bind (decode_tag_internal m b False) (\<lambda>(b1, len, _).
       if len = -1 then Some (b1, -1, 0)
       else map_option (\<lambda>(b2, res, n). if res = -1 then (b2, -1, 0) else (b2, 0, n + word_of_int (res + len)))
              (decode_int32_internal m b1 (nat len)))"

text \<open>The result is the length as an \<open>int\<close>.\<close>

definition evtag_unmarshal_header :: "malloc \<Rightarrow> evbuffer \<Rightarrow> (evbuffer \<times> int \<times> u32) option" where
  "evtag_unmarshal_header m b =
     Option.bind (decode_tag_internal m b True) (\<lambda>(b1, res, tag).
       if res = -1 then Some (b1, -1, tag)
       else
         map_option (\<lambda>(b2, res, len).
             if res = -1 then (b2, -1, tag)
             else if evbuffer_get_length b2 < unat len then (b2, -1, tag)
             else (b2, c_int (uint len), tag))
           (evtag_decode_int m b1))"

text \<open>A length is converted to \<open>size_t\<close>; a negative one would be larger than any buffer.\<close>

definition size_of_int :: "int \<Rightarrow> nat" where
  "size_of_int n = unat (word_of_int n :: u64)"

definition evtag_consume :: "malloc \<Rightarrow> evbuffer \<Rightarrow> (evbuffer \<times> int) option" where
  "evtag_consume m b =
     Option.bind (evtag_unmarshal_header m b) (\<lambda>(b1, len, _).
       if len = -1 then Some (b1, -1) else map_option (\<lambda>b2. (b2, 0)) (drain_ignoring b1 (size_of_int len)))"

text \<open>
  The source and the destination are different buffers. A null pointer with nothing to copy is
  harmless; a negative length is more than \<open>evbuffer_add\<close> can find room for.
\<close>

definition evtag_unmarshal :: "malloc \<Rightarrow> evbuffer \<Rightarrow> evbuffer \<Rightarrow> (evbuffer \<times> evbuffer \<times> int \<times> u32) option" where
  "evtag_unmarshal m src dst =
     Option.bind (evtag_unmarshal_header m src) (\<lambda>(s1, len, tag).
       if len = -1 then Some (s1, dst, -1, tag)
       else
         (case evbuffer_pullup m s1 len of
            (s2, r) \<Rightarrow>
              if len < 0 then Some (s2, dst, -1, tag)
              else if r = None \<and> len \<noteq> 0 then None
              else
                Option.bind (evbuffer_add m dst (case r of None \<Rightarrow> [] | Some data \<Rightarrow> data)) (\<lambda>(d1, res).
                  if res = -1 then Some (s2, d1, -1, tag)
                  else map_option (\<lambda>s3. (s3, d1, len, tag)) (drain_ignoring s2 (size_of_int len)))))"

text \<open>The two functions for tagged integers, with the decoder of the width.\<close>

definition unmarshal_int :: "(malloc \<Rightarrow> evbuffer \<Rightarrow> nat \<Rightarrow> (evbuffer \<times> int \<times> 'a::len word) option) \<Rightarrow>
    malloc \<Rightarrow> evbuffer \<Rightarrow> u32 \<Rightarrow> (evbuffer \<times> int \<times> 'a word) option" where
  "unmarshal_int decode m b need_tag =
     Option.bind (decode_tag_internal m b True) (\<lambda>(b1, res, tag).
       if res = -1 then Some (b1, -1, 0)
       else if need_tag \<noteq> tag then Some (b1, -1, 0)
       else
         Option.bind (evtag_decode_int m b1) (\<lambda>(b2, res, len).
           if res = -1 then Some (b2, -1, 0)
           else if evbuffer_get_length b2 < unat len then Some (b2, -1, 0)
           else
             Option.bind (decode m b2 0) (\<lambda>(b3, result, integer).
               map_option (\<lambda>b4. if result < 0 \<or> nat result > unat len then (b4, -1, integer) else (b4, result, integer))
                 (drain_ignoring b3 (unat len)))))"

definition evtag_unmarshal_int :: "malloc \<Rightarrow> evbuffer \<Rightarrow> u32 \<Rightarrow> (evbuffer \<times> int \<times> u32) option" where
  "evtag_unmarshal_int m b need_tag = unmarshal_int (\<lambda>m b. decode_int32_internal m b) m b need_tag"

definition evtag_unmarshal_int64 :: "malloc \<Rightarrow> evbuffer \<Rightarrow> u32 \<Rightarrow> (evbuffer \<times> int \<times> u64) option" where
  "evtag_unmarshal_int64 m b need_tag = unmarshal_int (\<lambda>m b. decode_int64_internal m b) m b need_tag"

text \<open>The bytes with the result.\<close>

definition evtag_unmarshal_fixed :: "malloc \<Rightarrow> evbuffer \<Rightarrow> u32 \<Rightarrow> nat \<Rightarrow> (evbuffer \<times> byte list \<times> int) option" where
  "evtag_unmarshal_fixed m src need_tag len =
     Option.bind (evtag_unmarshal_header m src) (\<lambda>(b1, tag_len, tag).
       if tag_len < 0 \<or> tag \<noteq> need_tag then Some (b1, [], -1)
       else if size_of_int tag_len \<noteq> len then Some (b1, [], -1)
       else map_option (\<lambda>(b2, out, _). (b2, out, 0)) (evbuffer_remove b1 len))"

definition evtag_unmarshal_string :: "malloc \<Rightarrow> evbuffer \<Rightarrow> u32 \<Rightarrow> (evbuffer \<times> byte list option \<times> int) option" where
  "evtag_unmarshal_string m b need_tag =
     Option.bind (evtag_unmarshal_header m b) (\<lambda>(b1, tag_len, tag).
       if tag_len = -1 \<or> tag \<noteq> need_tag then Some (b1, None, -1)
       else if m (size_of_int (c_int (tag_len + 1))) = None then Some (b1, None, -1)
       else map_option (\<lambda>(b2, out, _). (b2, Some out, 0)) (evbuffer_remove b1 (size_of_int tag_len)))"

text \<open>Seconds and microseconds are given as far as they were decoded.\<close>

definition evtag_unmarshal_timeval :: "malloc \<Rightarrow> evbuffer \<Rightarrow> u32 \<Rightarrow> (evbuffer \<times> (int option \<times> int option) \<times> int) option" where
  "evtag_unmarshal_timeval m b need_tag =
     Option.bind (evtag_unmarshal_header m b) (\<lambda>(b1, len, tag).
       let finish = (\<lambda>b tv r. map_option (\<lambda>b'. (b', tv, r)) (drain_ignoring b (size_of_int len)))
       in if len = -1 then Some (b1, (None, None), -1)
          else if tag \<noteq> need_tag then finish b1 (None, None) (-1)
          else
            Option.bind (decode_int32_internal m b1 0) (\<lambda>(b2, n, sec).
              if n = -1 then finish b2 (None, None) (-1)
              else
                Option.bind (decode_int32_internal m b2 (nat n)) (\<lambda>(b3, n2, usec).
                  if n2 = -1 then finish b3 (Some (uint sec), None) (-1)
                  else finish b3 (Some (uint sec), Some (uint usec)) (if n + n2 > len then -1 else 0))))"

end
