(* ===== verification/Ev_Tagging_Spec.thy ===== *)
theory Ev_Tagging_Spec
  imports Ev_Tagging
begin

text \<open>
  The encodings of \<open>event_tagging.c\<close> as codes of sequences of bytes: each is decoded to what was
  encoded whatever follows it, so that items can stand one after the other.
\<close>

section \<open>Codes\<close>

text \<open>Decoding a number of items, with what is left.\<close>

fun decode_all :: "(byte list \<Rightarrow> ('a \<times> byte list) option) \<Rightarrow> nat \<Rightarrow> byte list \<Rightarrow> ('a list \<times> byte list) option" where
  "decode_all dec 0 bs = Some ([], bs)"
| "decode_all dec (Suc n) bs =
     Option.bind (dec bs) (\<lambda>(x, bs'). map_option (\<lambda>(xs, rest). (x # xs, rest)) (decode_all dec n bs'))"

locale byte_code =
  fixes valid :: "'a \<Rightarrow> bool" and enc :: "'a \<Rightarrow> byte list" and dec :: "byte list \<Rightarrow> ('a \<times> byte list) option"
  assumes dec_enc: "valid x \<Longrightarrow> dec (enc x @ rest) = Some (x, rest)"
begin

lemma decode_sequence:
  "list_all valid xs \<Longrightarrow> decode_all dec (length xs) (concat (map enc xs) @ rest) = Some (xs, rest)"
  by (induction xs) (simp_all add: dec_enc)

text \<open>No encoding is the beginning of another.\<close>

lemma prefix_free: "valid x \<Longrightarrow> valid y \<Longrightarrow> enc x @ u = enc y @ v \<Longrightarrow> x = y \<and> u = v"
  by (metis dec_enc option.inject prod.inject)

lemma injective: "valid x \<Longrightarrow> valid y \<Longrightarrow> enc x = enc y \<Longrightarrow> x = y"
  using prefix_free [of x y "[]" "[]"] by simp

end

section \<open>Nibbles\<close>

definition nibble_at :: "byte list \<Rightarrow> nat \<Rightarrow> byte" where
  "nibble_at data j = (if odd j then data ! (j div 2) AND 0x0f else drop_bit 4 (data ! (j div 2)))"

definition nibble_of :: "'a::len word \<Rightarrow> nat \<Rightarrow> byte" where
  "nibble_of n i = ucast (drop_bit (4 * i) n AND 0x0f)"

function nibbles :: "'a::len word \<Rightarrow> nat" where
  "nibbles n = (if n = 0 then 0 else Suc (nibbles (drop_bit 4 n)))"
  by pat_completeness auto
termination
proof (relation "measure unat")
  fix n :: "'a word"
  assume "n \<noteq> 0"
  then have "unat n div 2 ^ 4 < unat n" by (intro div_less_dividend) (simp_all add: unat_gt_0)
  then show "(drop_bit 4 n, n) \<in> measure unat" by (simp only: in_measure unat_drop_bit_eq) (simp add: drop_bit_eq_div)
qed simp

declare nibbles.simps [simp del]

lemma nibbles_0 [simp]: "nibbles 0 = 0"
  by (simp add: nibbles.simps)

lemma nibble_of_Suc: "nibble_of n (Suc i) = nibble_of (drop_bit 4 n) i"
  by (simp add: nibble_of_def drop_bit_drop_bit add.commute)

lemma drop_nibbles: "drop_bit (4 * nibbles n) n = 0"
proof (induction n rule: nibbles.induct)
  case (1 n)
  show ?case
  proof (cases "n = 0")
    case False
    then have "nibbles n = Suc (nibbles (drop_bit 4 n))" by (simp add: nibbles.simps)
    then show ?thesis using 1 [OF False] by (simp add: drop_bit_drop_bit add.commute)
  qed simp
qed

lemma nibbles_bound: "drop_bit (4 * k) n = 0 \<Longrightarrow> nibbles n \<le> k"
proof (induction k arbitrary: n)
  case 0
  then show ?case by simp
next
  case (Suc k)
  show ?case
  proof (cases "n = 0")
    case False
    have "drop_bit (4 * k) (drop_bit 4 n) = 0" using Suc.prems by (simp add: drop_bit_drop_bit add.commute)
    then show ?thesis using Suc.IH False by (simp add: nibbles.simps [of n])
  qed simp
qed

text \<open>Writing one half of a byte leaves the other.\<close>

lemma low_mask: "(0x0f :: 'a::len word) = mask 4"
  by (simp add: mask_eq_exp_minus_1)

lemma high_mask: "(0xf0 :: byte) = push_bit 4 (mask 4)"
  by (simp add: mask_eq_exp_minus_1 push_bit_eq_mult)

lemma write_low: "((d AND 0xf0) OR ucast (x AND 0x0f)) AND 0x0f = ucast (x AND 0x0f)"
  "drop_bit 4 ((d AND 0xf0) OR ucast (x AND 0x0f)) = drop_bit 4 (d :: byte)" for x :: "'a::len word"
  unfolding low_mask high_mask by (rule bit_word_eqI, auto simp: bit_simps dest: bit_imp_le_length)+

lemma write_high: "((d AND 0x0f) OR push_bit 4 (ucast (x AND 0x0f))) AND 0x0f = (d :: byte) AND 0x0f"
  "drop_bit 4 ((d AND 0x0f) OR push_bit 4 (ucast (x AND 0x0f) :: byte)) = ucast (x AND 0x0f)" for x :: "'a::len word"
  unfolding low_mask by (rule bit_word_eqI, auto simp: bit_simps)+

definition put_nibble :: "byte list \<Rightarrow> nat \<Rightarrow> byte \<Rightarrow> byte list" where
  "put_nibble data j v =
     data[j div 2 := (if odd j then (data ! (j div 2) AND 0xf0) OR v else (data ! (j div 2) AND 0x0f) OR push_bit 4 v)]"

lemma length_put_nibble [simp]: "length (put_nibble data j v) = length data"
  by (simp add: put_nibble_def)

lemma half_eq: "odd i = odd j \<Longrightarrow> i div 2 = j div 2 \<Longrightarrow> i = j" for i j :: nat
  by presburger

lemma nibble_at_put:
  fixes x :: "'a::len word"
  assumes "j < 2 * length data"
  shows "nibble_at (put_nibble data j (ucast (x AND 0x0f))) i = (if i = j then ucast (x AND 0x0f) else nibble_at data i)"
proof (cases "i div 2 = j div 2")
  case True
  have b: "j div 2 < length data" using assms by simp
  let ?d = "put_nibble data j (ucast (x AND 0x0f)) ! (j div 2)"
  have odd: "odd j \<Longrightarrow> ?d = (data ! (j div 2) AND 0xf0) OR ucast (x AND 0x0f)"
    and even: "even j \<Longrightarrow> ?d = (data ! (j div 2) AND 0x0f) OR push_bit 4 (ucast (x AND 0x0f))"
    using b by (simp_all add: put_nibble_def)
  have halves: "?d AND 0x0f = (if odd j then ucast (x AND 0x0f) else data ! (j div 2) AND 0x0f)"
    "drop_bit 4 ?d = (if odd j then drop_bit 4 (data ! (j div 2)) else ucast (x AND 0x0f))"
    using odd even write_low [of _ x] write_high [of _ x] by presburger+
  have "i = j \<longleftrightarrow> odd i = odd j" using half_eq [OF _ True] by blast
  then show ?thesis unfolding nibble_at_def True halves by presburger
qed (auto simp: nibble_at_def put_nibble_def)

lemma encode_loop_spec:
  fixes n :: "'a::len word"
  assumes "ofs + nibbles n \<le> 2 * length data"
  shows "\<exists>data'. encode_loop data ofs n = (data', ofs + nibbles n) \<and> length data' = length data \<and>
    (\<forall>j<ofs. nibble_at data' j = nibble_at data j) \<and> (\<forall>i<nibbles n. nibble_at data' (ofs + i) = nibble_of n i)"
  using assms
proof (induction data ofs n rule: encode_loop.induct)
  case (1 data ofs n)
  show ?case
  proof (cases "n = 0")
    case True
    then show ?thesis by (simp add: encode_loop.simps)
  next
    case False
    then have k: "nibbles n = Suc (nibbles (drop_bit 4 n))" by (simp add: nibbles.simps)
    let ?d = "put_nibble data ofs (ucast (n AND 0x0f))"
    have step: "encode_loop data ofs n = encode_loop ?d (ofs + 1) (drop_bit 4 n)"
      using False by (subst encode_loop.simps) (simp add: Let_def put_nibble_def)
    have ofs: "ofs < 2 * length data" using 1(2) k by simp
    have "\<exists>data'. encode_loop ?d (ofs + 1) (drop_bit 4 n) = (data', ofs + 1 + nibbles (drop_bit 4 n)) \<and> length data' = length ?d \<and>
        (\<forall>j<ofs + 1. nibble_at data' j = nibble_at ?d j) \<and>
        (\<forall>i<nibbles (drop_bit 4 n). nibble_at data' (ofs + 1 + i) = nibble_of (drop_bit 4 n) i)"
      using 1(1) [OF False refl refl] 1(2) k by (simp add: put_nibble_def)
    then obtain data' where data': "encode_loop ?d (ofs + 1) (drop_bit 4 n) = (data', ofs + 1 + nibbles (drop_bit 4 n))"
      "length data' = length ?d" "\<forall>j<ofs + 1. nibble_at data' j = nibble_at ?d j"
      "\<forall>i<nibbles (drop_bit 4 n). nibble_at data' (ofs + 1 + i) = nibble_of (drop_bit 4 n) i" by blast
    have "nibble_at data' (ofs + i) = nibble_of n i" if "i < nibbles n" for i
    proof (cases i)
      case 0
      then show ?thesis using data'(3) nibble_at_put [OF ofs, of n] by (simp add: nibble_of_def)
    next
      case (Suc i')
      then have "nibble_at data' (ofs + 1 + i') = nibble_of (drop_bit 4 n) i'" using data'(4) that k by simp
      then show ?thesis using Suc by (simp add: nibble_of_Suc)
    qed
    moreover have "\<forall>j<ofs. nibble_at data' j = nibble_at data j" using data'(3) nibble_at_put [OF ofs, of n] by simp
    ultimately show ?thesis using data'(1,2) step k by simp
  qed
qed

lemma high_half: "drop_bit 4 (d AND 0xf0) = drop_bit 4 (d :: byte)"
  unfolding high_mask by (rule bit_word_eqI) (auto simp: bit_simps dest: bit_imp_le_length)

lemma decode_loop_spec:
  fixes n :: "'a::len word"
  assumes "\<And>i. i < k \<Longrightarrow> nibble_at data (Suc i) = nibble_of n i"
  shows "decode_loop data k acc = push_bit (4 * k) acc OR take_bit (4 * k) n"
  using assms
proof (induction k arbitrary: acc)
  case (Suc k)
  have d: "(if odd (Suc k) then ucast (data ! (Suc k div 2) AND 0x0f) else ucast (drop_bit 4 (data ! (Suc k div 2) AND 0xf0)))
      = (ucast (nibble_of n k) :: 'a word)"
    unfolding Suc.prems [of k, OF lessI, symmetric] nibble_at_def high_half by presburger
  have "decode_loop data (Suc k) acc = push_bit (4 * k) (push_bit 4 acc OR ucast (nibble_of n k)) OR take_bit (4 * k) n"
    by (subst decode_loop.simps, subst d, rule Suc.IH) (use Suc.prems in simp)
  also have "\<dots> = push_bit (4 * Suc k) acc OR take_bit (4 * Suc k) n"
    unfolding nibble_of_def low_mask by (rule bit_word_eqI) (auto simp: bit_simps add.commute [of 4])
  finally show ?case .
qed simp

lemma decode_loop_cong:
  assumes "\<And>j. j \<le> k div 2 \<Longrightarrow> xs ! j = ys ! j"
  shows "decode_loop xs k acc = decode_loop ys k acc"
  using assms
proof (induction k arbitrary: acc)
  case (Suc k)
  have "xs ! (Suc k div 2) = ys ! (Suc k div 2)" "\<And>j. j \<le> k div 2 \<Longrightarrow> xs ! j = ys ! j" using Suc.prems by simp_all
  then show ?case by (simp only: decode_loop.simps Suc.IH)
qed simp


section \<open>The code of integers\<close>

text \<open>A decoder of a list, with the nibbles it allows.\<close>

definition int_dec :: "nat \<Rightarrow> byte list \<Rightarrow> ('a::len word \<times> byte list) option" where
  "int_dec maxnibbles bs =
     (if bs = [] then None
      else
        (let k = unat (drop_bit 4 (hd bs)) + 1; n = k div 2 + 1
         in if k > maxnibbles \<or> n > length bs then None else Some (decode_loop bs k 0, drop n bs)))"

lemma nibbles_width: "LENGTH('a) \<le> 4 * k \<Longrightarrow> nibbles (n :: 'a::len word) \<le> k"
  by (rule nibbles_bound) (simp add: drop_bit_eq_zero_iff_not_bit_last bit_eq_iff bit_simps)

lemma encode_int_shape:
  fixes n :: "'a::len word"
  assumes "8 dvd LENGTH('a)" "LENGTH('a) \<le> 64"
  obtains k where "k = max 1 (nibbles n)" "length (encode_int_internal n) = k div 2 + 1"
    "unat (drop_bit 4 (encode_int_internal n ! 0)) + 1 = k" "k \<le> LENGTH('a) div 4"
    "\<And>i. i < k \<Longrightarrow> nibble_at (encode_int_internal n) (Suc i) = nibble_of n i" "drop_bit (4 * k) n = 0"
proof -
  let ?k = "max 1 (nibbles n)" let ?z = "replicate (LENGTH('a) div 8 + 1) (0 :: byte)"
  obtain q where q: "LENGTH('a) = 8 * q" using assms(1) by (rule dvdE)
  have w: "nibbles n \<le> 2 * q" by (rule nibbles_width) (simp add: q)
  have q1: "0 < q" using q len_gt_0 [where 'a = 'a] by linarith
  have fits: "1 + nibbles n \<le> 2 * length ?z" using w q by simp
  obtain d where d: "encode_loop ?z 1 n = (d, 1 + nibbles n)" "length d = q + 1"
    "\<forall>j<1. nibble_at d j = nibble_at ?z j" "\<forall>i<nibbles n. nibble_at d (1 + i) = nibble_of n i"
    using encode_loop_spec [OF fits] q by auto
  let ?d = "put_nibble d 0 (ucast (of_nat (nibbles n - 1) AND (0x0f :: byte)))"
  have "(if 1 + nibbles n > 2 then 1 + nibbles n - 2 else 0) = nibbles n - 1" "(1 + nibbles n + 1) div 2 = nibbles n div 2 + 1" by simp_all
  then have e: "encode_int_internal n = take (nibbles n div 2 + 1) ?d"
    unfolding encode_int_internal_def d(1) Let_def prod.case put_nibble_def by (simp only: div_0 ucast_id even_zero not_True_eq_False if_False)
  have len: "nibbles n div 2 + 1 \<le> length ?d" using w d(2) by simp
  have kd: "?k div 2 = nibbles n div 2" by (simp add: max_def)
  have z: "0 < 2 * length d" using d(2) by simp
  have at: "nibble_at (encode_int_internal n) j = nibble_at ?d j" if "j \<le> ?k" for j
  proof -
    have "j div 2 \<le> nibbles n div 2" using that kd by (metis div_le_mono)
    then show ?thesis by (simp add: e nibble_at_def)
  qed
  have head: "drop_bit 4 (encode_int_internal n ! 0) = ucast (of_nat (nibbles n - 1) AND (0x0f :: byte))"
    using at [of 0] nibble_at_put [OF z, of "of_nat (nibbles n - 1) :: byte" 0] by (simp add: nibble_at_def)
  have "nibbles n - 1 < 16" using w q assms(2) by linarith
  then have "unat (of_nat (nibbles n - 1) AND (0x0f :: byte)) = nibbles n - 1"
    by (simp add: low_mask take_bit_eq_mask [symmetric] unsigned_take_bit_eq unat_of_nat take_bit_nat_eq_self del: mask_numeral)
  then have 3: "unat (drop_bit 4 (encode_int_internal n ! 0)) + 1 = ?k" unfolding head by simp
  have 5: "nibble_at (encode_int_internal n) (Suc i) = nibble_of n i" if "i < ?k" for i
  proof -
    have "nibble_at (encode_int_internal n) (Suc i) = nibble_at d (Suc i)"
      using at [of "Suc i"] that nibble_at_put [OF z, of "of_nat (nibbles n - 1) :: byte" "Suc i"] by simp
    also have "\<dots> = nibble_of n i"
    proof (cases "n = 0")
      case True
      then have "i = 0" "d = ?z" using that d(1) by (simp_all add: encode_loop.simps)
      then show ?thesis using True by (simp add: nibble_at_def nibble_of_def)
    next
      case False
      then have "i < nibbles n" using that by (simp add: nibbles.simps [of n] max_def)
      then show ?thesis using d(4) by simp
    qed
    finally show ?thesis .
  qed
  have "drop_bit (4 * ?k) n = 0"
    using drop_nibbles [of n] by (cases "nibbles n") (simp_all add: max_def)
  then show ?thesis using that [OF refl] len e kd 3 5 w q q1 by simp
qed

lemma int_dec_enc:
  fixes n :: "'a::len word"
  assumes "8 dvd LENGTH('a)" "LENGTH('a) \<le> 64"
  shows "int_dec (LENGTH('a) div 4) (encode_int_internal n @ rest) = Some (n, rest)"
proof -
  obtain k where k: "length (encode_int_internal n) = k div 2 + 1" "unat (drop_bit 4 (encode_int_internal n ! 0)) + 1 = k"
    "k \<le> LENGTH('a) div 4" "\<And>i. i < k \<Longrightarrow> nibble_at (encode_int_internal n) (Suc i) = nibble_of n i" "drop_bit (4 * k) n = 0"
    using encode_int_shape [OF assms, of n] by metis
  have ne: "encode_int_internal n \<noteq> []" using k(1) by auto
  then have hd: "hd (encode_int_internal n @ rest) = encode_int_internal n ! 0" by (simp add: hd_append hd_conv_nth)
  have "decode_loop (encode_int_internal n @ rest) k 0 = decode_loop (encode_int_internal n) k 0"
    by (rule decode_loop_cong) (simp add: nth_append k(1))
  also have "\<dots> = take_bit (4 * k) n" using decode_loop_spec [OF k(4), where acc = 0] by simp
  also have "\<dots> = n" using k(5) by (metis bits_ident push_bit_of_0 add_0)
  finally show ?thesis using k(1-3) ne hd by (simp add: int_dec_def Let_def)
qed

lemma encode_int_length:
  fixes n :: "'a::len word"
  assumes "8 dvd LENGTH('a)" "LENGTH('a) \<le> 64"
  shows "0 < length (encode_int_internal n)" "length (encode_int_internal n) \<le> LENGTH('a) div 8 + 1"
proof -
  obtain k where k: "length (encode_int_internal n) = k div 2 + 1" "k \<le> LENGTH('a) div 4"
    using encode_int_shape [OF assms, of n] by metis
  have "k div 2 \<le> LENGTH('a) div 4 div 2" using k(2) by (rule div_le_mono)
  then show "0 < length (encode_int_internal n)" "length (encode_int_internal n) \<le> LENGTH('a) div 8 + 1"
    using k(1) by (simp_all add: div_mult2_eq [symmetric])
qed

interpretation int32_code: byte_code "\<lambda>_ :: u32. True" encode_int_internal "int_dec 8"
  by unfold_locales (use int_dec_enc [where 'a = 32] in simp)

interpretation int64_code: byte_code "\<lambda>_ :: u64. True" encode_int_internal "int_dec 16"
  by unfold_locales (use int_dec_enc [where 'a = 64] in simp)

section \<open>The code of tags\<close>

definition tag_dec :: "byte list \<Rightarrow> (u32 \<times> byte list) option" where
  "tag_dec bs = Option.bind (tag_loop bs 0 (length bs) 0 0) (map_option (\<lambda>(cnt, number). (number, drop cnt bs)))"

lemma bit_128: "bit (0x80 :: int) n \<longleftrightarrow> n = 7"
proof -
  have "(0x80 :: int) = 2 ^ 7" by simp
  then show ?thesis by (simp only: bit_exp_iff) auto
qed

lemma tag_bits:
  fixes t :: u32
  shows "(ucast (t AND 0x7f) OR 0x80) AND 0x7f = (ucast (t AND 0x7f) :: byte)" "ucast (t AND 0x7f) AND 0x7f = (ucast (t AND 0x7f) :: byte)"
    "(ucast (t AND 0x7f) OR 0x80) AND 0x80 \<noteq> (0 :: byte)" "ucast (t AND 0x7f) AND 0x80 = (0 :: byte)"
    "ucast (ucast (t AND 0x7f) :: byte) = t AND 0x7f"
proof -
  have m: "(0x7f :: u32) = mask 7" "(0x7f :: byte) = mask 7" by (simp_all add: mask_eq_exp_minus_1)
  show low: "ucast (t AND 0x7f) AND 0x7f = (ucast (t AND 0x7f) :: byte)"
    unfolding m by (rule bit_word_eqI) (auto simp: bit_simps)
  have "(0x80 :: byte) AND 0x7f = 0" by simp
  then show "(ucast (t AND 0x7f) OR 0x80) AND 0x7f = (ucast (t AND 0x7f) :: byte)"
    by (simp only: bit.conj_disj_distrib2 low or.right_neutral)
  show "ucast (t AND 0x7f) AND 0x80 = (0 :: byte)"
    unfolding m by (rule bit_word_eqI) (auto simp: bit_simps bit_128)
  show "ucast (ucast (t AND 0x7f) :: byte) = t AND 0x7f"
    unfolding m by (rule bit_word_eqI) (auto simp: bit_simps)
  have "bit ((ucast (t AND 0x7f) OR 0x80) AND 0x80 :: byte) 7" unfolding m by (simp add: bit_simps bit_128)
  then show "(ucast (t AND 0x7f) OR 0x80) AND 0x80 \<noteq> (0 :: byte)" by auto
qed

lemma tag_step: "drop_bit 7 t = 0 \<Longrightarrow> t AND 0x7f = t" "(t AND 0x7f) OR push_bit 7 (drop_bit 7 t) = t" for t :: u32
proof -
  have m: "(0x7f :: u32) = mask 7" by (simp add: mask_eq_exp_minus_1)
  have "bit ((t AND 0x7f) OR push_bit 7 (drop_bit 7 t)) n = bit t n" if "n < 32" for n
    using that unfolding m by (cases "n < 7") (simp_all add: bit_simps)
  then show b: "(t AND 0x7f) OR push_bit 7 (drop_bit 7 t) = t" by (intro bit_word_eqI) simp
  show "t AND 0x7f = t" if "drop_bit 7 t = 0" using b that by simp
qed

lemma small_word: "drop_bit 4 t = 0 \<Longrightarrow> unat t < 16" for t :: u32
proof -
  assume "drop_bit 4 t = 0"
  then have "drop_bit 4 (unat t) = 0" by (simp only: unat_drop_bit_eq [symmetric]) simp
  then show "unat t < 16" by (simp add: drop_bit_eq_div div_eq_0_iff)
qed

lemma unat_wider: "unat (ucast b :: u32) = unat b" for b :: byte
  using unsigned_less [of b, where 'a = nat] by (simp add: unsigned_ucast_eq take_bit_nat_eq_self)

lemma push_or: "push_bit n (a OR b) = push_bit n a OR push_bit n (b :: 'a::len word)"
  by (rule bit_word_eqI) (auto simp: bit_simps)

lemma tag_loop_byte:
  assumes "cnt < len" "shift \<ge> 28 \<Longrightarrow> shift = 28 \<and> \<not> low AND 0x7f > 15"
  shows "tag_loop (low # rest) cnt len shift number =
    (let number' = number OR push_bit shift (ucast (low AND 0x7f))
     in if low AND 0x80 = 0 then Some (Some (cnt + 1, number')) else tag_loop rest (cnt + 1) len (shift + 7) number')"
  using assms by (subst tag_loop.simps) (simp only: Let_def list.case not_True_eq_False if_False, cases "28 \<le> shift"; simp)

lemma tag_loop_spec:
  assumes "shift \<in> {0, 7, 14, 21, 28}" "drop_bit (32 - shift) t = 0" "cnt + length (tag_bytes t) \<le> len"
  shows "tag_loop (tag_bytes t @ rest) cnt len shift number = Some (Some (cnt + length (tag_bytes t), number OR push_bit shift t))"
  using assms
proof (induction t arbitrary: shift cnt number rule: tag_bytes.induct)
  case (1 t)
  let ?low = "ucast (t AND 0x7f) :: byte"
  show ?case
  proof (cases "drop_bit 7 t = 0")
    case True
    then have e: "tag_bytes t = [?low]" by (simp add: tag_bytes.simps)
    have "\<not> ?low > 15" if "shift = 28"
    proof -
      have "unat t < 16" using small_word 1(3) that by simp
      moreover have "unat ?low = unat (ucast ?low :: u32)" by (rule unat_wider [symmetric])
      ultimately show ?thesis using tag_step(1) [OF True] tag_bits(5) [of t] by (simp add: word_less_nat_alt)
    qed
    then have "tag_loop (?low # rest) cnt len shift number = Some (Some (cnt + 1, number OR push_bit shift (t AND 0x7f)))"
      using 1(2,4) by (subst tag_loop_byte) (auto simp only: e Let_def tag_bits if_True list.size simp_thms)
    then show ?thesis using e tag_step(1) [OF True] by simp
  next
    case False
    then have e: "tag_bytes t = (?low OR 0x80) # tag_bytes (drop_bit 7 t)" by (simp add: tag_bytes.simps [of t])
    have "shift \<noteq> 28"
    proof
      assume "shift = 28"
      then have "drop_bit 4 t = 0" using 1(3) by simp
      then have "drop_bit 3 (drop_bit 4 t) = 0" by simp
      then show False using False by (simp only: drop_bit_drop_bit) simp
    qed
    then have s: "shift + 7 \<in> {0, 7, 14, 21, 28}" "shift < 28" "32 - (shift + 7) + 7 = 32 - shift" using 1(2) by auto
    have d: "drop_bit (32 - (shift + 7)) (drop_bit 7 t) = 0" using 1(3) unfolding drop_bit_drop_bit s(3) .
    have c: "Suc cnt + length (tag_bytes (drop_bit 7 t)) \<le> len" using 1(4) by (simp add: e)
    have n: "(number OR push_bit shift (t AND 0x7f)) OR push_bit (shift + 7) (drop_bit 7 t) = number OR push_bit shift t"
      using push_or [of shift "t AND 0x7f" "push_bit 7 (drop_bit 7 t)"] unfolding tag_step(2) push_bit_push_bit by (simp only: or.assoc)
    have ih: "tag_loop (tag_bytes (drop_bit 7 t) @ rest) (cnt + 1) len (shift + 7) number' =
        Some (Some (cnt + 1 + length (tag_bytes (drop_bit 7 t)), number' OR push_bit (shift + 7) (drop_bit 7 t)))" for number'
      using 1(1) [OF refl refl False s(1) d, of "cnt + 1"] c by simp
    have "tag_loop (tag_bytes t @ rest) cnt len shift number =
        tag_loop (tag_bytes (drop_bit 7 t) @ rest) (cnt + 1) len (shift + 7) (number OR push_bit shift (t AND 0x7f))"
      unfolding e append_Cons using s(2) c by (subst tag_loop_byte, linarith, simp, simp only: Let_def tag_bits if_False)
    also have "\<dots> = Some (Some (cnt + 1 + length (tag_bytes (drop_bit 7 t)), number OR push_bit shift t))"
      unfolding ih n by (rule refl)
    finally show ?thesis by (simp add: e)
  qed
qed

lemma tag_bytes_length: "0 < length (tag_bytes t)" "drop_bit (7 * k) t = 0 \<Longrightarrow> 0 < k \<Longrightarrow> length (tag_bytes t) \<le> k"
proof -
  show "0 < length (tag_bytes t)" by (subst tag_bytes.simps) (simp add: Let_def)
  show "length (tag_bytes t) \<le> k" if "drop_bit (7 * k) t = 0" "0 < k"
    using that
  proof (induction k arbitrary: t)
    case (Suc k)
    show ?case
    proof (cases "drop_bit 7 t = 0")
      case False
      then have "0 < k" using Suc.prems(1) by (cases k) simp_all
      moreover have "drop_bit (7 * k) (drop_bit 7 t) = 0" using Suc.prems(1) by (simp add: drop_bit_drop_bit add.commute)
      ultimately show ?thesis using Suc.IH False by (simp add: tag_bytes.simps [of t] Let_def)
    qed (simp add: tag_bytes.simps [of t] Let_def)
  qed simp
qed

lemma tag_bytes_5: "length (tag_bytes t) \<le> 5"
  by (rule tag_bytes_length(2)) (auto intro: bit_word_eqI simp: bit_simps dest: bit_imp_le_length)

lemma tag_loop_enc:
  "length (tag_bytes t) \<le> len \<Longrightarrow> tag_loop (tag_bytes t @ rest) 0 len 0 0 = Some (Some (length (tag_bytes t), t))"
  using tag_loop_spec [of 0 t 0 len rest 0] by (simp add: bit_word_eqI bit_simps)

interpretation tag_code: byte_code "\<lambda>_. True" tag_bytes tag_dec
  by unfold_locales (simp add: tag_dec_def tag_loop_enc)

section \<open>The code of tagged items\<close>

definition item_bytes :: "u32 \<times> byte list \<Rightarrow> byte list" where
  "item_bytes x = tag_bytes (fst x) @ encode_int_internal (of_nat (length (snd x)) :: u32) @ snd x"

definition item_dec :: "byte list \<Rightarrow> ((u32 \<times> byte list) \<times> byte list) option" where
  "item_dec bs =
     Option.bind (tag_dec bs) (\<lambda>(tag, bs1). Option.bind (int_dec 8 bs1) (\<lambda>(n :: u32, bs2).
       if length bs2 < unat n then None else Some ((tag, take (unat n) bs2), drop (unat n) bs2)))"

interpretation item_code: byte_code "\<lambda>x. length (snd x) < 2 ^ 32" item_bytes item_dec
proof unfold_locales
  fix x :: "u32 \<times> byte list" and rest
  assume "length (snd x) < 2 ^ 32"
  then have "unat (of_nat (length (snd x)) :: u32) = length (snd x)" by (simp add: unat_of_nat take_bit_nat_eq_self)
  then show "item_dec (item_bytes x @ rest) = Some (x, rest)"
    by (simp add: item_dec_def item_bytes_def tag_code.dec_enc int32_code.dec_enc)
qed

end
