(* ===== verification/Ev_Tagging_Props.thy ===== *)
theory Ev_Tagging_Props
  imports Ev_Tagging_Spec Ev_Buffer_Props
begin

text \<open>
  The functions of \<open>event_tagging.c\<close> on evbuffers, whatever the chains the bytes are in, refine the
  codes of \<open>Ev_Tagging_Spec\<close>.
\<close>

section \<open>Buffers that can be used\<close>

text \<open>Memory is there, and nothing is frozen.\<close>

definition unlimited :: "malloc \<Rightarrow> bool" where
  "unlimited m \<longleftrightarrow> malloc_documented m \<and> (\<forall>n. m n \<noteq> None)"

definition usable :: "evbuffer \<Rightarrow> bool" where
  "usable b \<longleftrightarrow> buffer_ok b \<and> \<not> freeze_start b \<and> \<not> freeze_end b"

lemma usable_length: "usable b \<Longrightarrow> evbuffer_get_length b = length (content b)" "usable b \<Longrightarrow> total_len b = length (content b)"
  by (simp_all add: usable_def buffer_ok_holds evbuffer_get_length_def)

lemma new_usable: "usable evbuffer_new" "content evbuffer_new = []"
  by (simp_all add: usable_def buffer_ok_def evbuffer_new_def content_def lwd_ok_def)

lemma add_usable:
  assumes m: "unlimited m" and b: "usable b" and n: "length (content b) + length data \<le> EV_SIZE_MAX"
    "length data \<le> EVBUFFER_CHAIN_MAX - EVBUFFER_CHAIN_SIZE"
  obtains b' where "evbuffer_add m b data = Some (b', 0)" "usable b'" "content b' = content b @ data"
proof -
  have ok: "buffer_ok b" and len: "total_len b = length (content b)" using b usable_length(2) [OF b] by (simp_all add: usable_def)
  have "\<not> no_room m (length data)" using m n(2) by (auto simp: unlimited_def no_room_def)
  then obtain cs l where a: "evbuffer_add m b data = Some (grown b cs l (length data), 0)" "holds cs l (content b @ data)"
    using add_spec [OF _ ok, of m data] m b n(1) by (auto simp: unlimited_def usable_def len)
  have "buffer_ok (grown b cs l (length data))" "content (grown b cs l (length data)) = content b @ data"
    using grown_ok [OF len a(2)] n(1) by simp_all
  then show ?thesis using that a(1) b by (simp add: usable_def)
qed

lemma add_ignoring_usable:
  assumes "unlimited m" "usable b" "length (content b) + length data \<le> EV_SIZE_MAX" "length data \<le> EVBUFFER_CHAIN_MAX - EVBUFFER_CHAIN_SIZE"
  obtains b' where "add_ignoring m b data = Some b'" "usable b'" "content b' = content b @ data"
proof (rule add_usable [OF assms])
  fix b'
  assume "evbuffer_add m b data = Some (b', 0)" "usable b'" "content b' = content b @ data"
  then show thesis by (intro that [of b']) (simp_all add: add_ignoring_def)
qed

lemma drain_usable:
  assumes b: "usable b" and n: "n \<le> length (content b)"
  obtains b' where "drain_ignoring b n = Some b'" "usable b'" "content b' = drop n (content b)"
proof (cases "total_len b = 0")
  case True
  then have "drain_ignoring b n = Some b" "content b = []"
    using usable_length(2) [OF b] by (simp_all add: drain_ignoring_def evbuffer_drain_def)
  then show ?thesis using that b by simp
next
  case False
  have ok: "buffer_ok b" and fs: "\<not> freeze_start b" using b by (simp_all add: usable_def)
  obtain cs l where d: "evbuffer_drain b n = Some (shrunk b cs l n, 0)" "holds cs l (drop n (content b))"
    using drain_spec(2) [OF ok False fs, of n] n usable_length(2) [OF b] by (auto simp: min_def)
  have "buffer_ok (shrunk b cs l n)" "content (shrunk b cs l n) = drop n (content b)"
    using shrunk_ok [OF ok d(2)] by simp_all
  then show ?thesis using that [of "shrunk b cs l n"] d(1) b by (simp add: drain_ignoring_def usable_def)
qed

lemma pullup_usable:
  assumes m: "unlimited m" and b: "usable b" and n: "0 < n" "n \<le> length (content b)" "n \<le> EVBUFFER_CHAIN_MAX - EVBUFFER_CHAIN_SIZE"
  obtains b' where "evbuffer_pullup m b (int n) = (b', Some (take n (content b)))" "usable b'" "content b' = content b"
    "take n (drop (misalign (hd (chains b'))) (buffer (hd (chains b')))) = take n (content b)"
proof -
  have ok: "buffer_ok b" and len: "total_len b = length (content b)" using b usable_length(2) [OF b] by (simp_all add: usable_def)
  have "evbuffer_chain_new m n \<noteq> None" using chain_new_None [of m n] m n(3) unfolding unlimited_def by (meson not_less)
  then obtain t rest l where p: "evbuffer_pullup m b (int n) = (b\<lparr>chains := t # rest, last_with_datap := l\<rparr>, Some (take n (content b)))"
    "holds (t # rest) l (content b)" "take n (payload t) = take n (content b)" "n \<le> off t"
    using pullup_spec [OF _ ok, of m n "int n"] m n(1,2) len by (auto simp: unlimited_def)
  define b' where "b' = b\<lparr>chains := t # rest, last_with_datap := l\<rparr>"
  have frame: "chains b' = t # rest" "last_with_datap b' = l" "total_len b' = total_len b" "freeze_start b' = freeze_start b" "freeze_end b' = freeze_end b"
    by (simp_all add: b'_def)
  have "holds (chains b') (last_with_datap b') (content b)" using p(2) by (simp only: frame)
  moreover have "total_len b' = length (content b)" "length (content b) \<le> EV_SIZE_MAX"
    using len ok by (simp_all add: frame(3) buffer_ok_holds)
  ultimately have "buffer_ok b'" "content b' = content b" using buffer_okI [of b' "content b"] by blast+
  moreover have "take n (drop (misalign t) (buffer t)) = take n (content b)"
    using p(3,4) by (simp add: payload_def min_def split: if_splits)
  ultimately show ?thesis using that [of b'] p(1) b by (simp only: usable_def frame list.sel b'_def [symmetric]) simp
qed

section \<open>Decoding from a buffer\<close>

lemma small_room: "n \<le> 2 ^ 32 \<Longrightarrow> n \<le> EVBUFFER_CHAIN_MAX - EVBUFFER_CHAIN_SIZE"
  by (simp add: EVBUFFER_CHAIN_MAX_def EV_SSIZE_MAX_def EVBUFFER_CHAIN_SIZE_def)

lemma decode_tag_spec:
  assumes m: "unlimited m" and b: "usable b" and c: "content b = tag_bytes t @ rest"
  obtains b' where "decode_tag_internal m b dodrain = Some (b', int (length (tag_bytes t)), t)" "usable b'"
    "content b' = (if dodrain then rest else content b)"
proof -
  define len where "len = length (content b)"
  define n where "n = (if len < 5 then len else 5)"
  have tl: "0 < length (tag_bytes t)" "length (tag_bytes t) \<le> 5" "length (tag_bytes t) \<le> len"
    using tag_bytes_length(1) tag_bytes_5 c by (auto simp: len_def)
  then have n: "0 < n" "n \<le> length (content b)" "length (tag_bytes t) \<le> n" "n \<le> 5" by (auto simp: n_def len_def)
  have nr: "n \<le> EVBUFFER_CHAIN_MAX - EVBUFFER_CHAIN_SIZE" using n(4) by (intro small_room) simp
  obtain b1 where p: "evbuffer_pullup m b (int n) = (b1, Some (take n (content b)))" "usable b1" "content b1 = content b"
    "take n (drop (misalign (hd (chains b1))) (buffer (hd (chains b1)))) = take n (content b)"
    using pullup_usable [OF m b n(1,2) nr] by blast
  define mem where "mem = drop (misalign (hd (chains b1))) (buffer (hd (chains b1)))"
  have "take (length (tag_bytes t)) mem = take (length (tag_bytes t)) (take n mem)" using n(3) by simp
  also have "\<dots> = tag_bytes t" using p(4) n(3) by (simp add: mem_def [symmetric] c)
  finally have "mem = tag_bytes t @ drop (length (tag_bytes t)) mem" by (metis append_take_drop_id)
  then have loop: "tag_loop mem 0 len 0 0 = Some (Some (length (tag_bytes t), t))" using tag_loop_enc [OF tl(3)] by metis
  have min: "min (length (tag_bytes t)) INT_MAX = length (tag_bytes t)" using tl(2) by (simp add: INT_MAX_def)
  obtain b2 where d: "drain_ignoring b1 (length (tag_bytes t)) = Some b2" "usable b2" "content b2 = drop (length (tag_bytes t)) (content b1)"
    using drain_usable [OF p(2), of "length (tag_bytes t)"] tl(3) by (auto simp: p(3) len_def)
  have eq: "decode_tag_internal m b dodrain =
      map_option (\<lambda>b2. (b2, int (length (tag_bytes t)), t)) (if dodrain then drain_ignoring b1 (length (tag_bytes t)) else Some b1)"
    using p(1) loop unfolding decode_tag_internal_def Let_def usable_length(1) [OF b] len_def [symmetric] n_def [symmetric] mem_def
    by (simp add: min)
  show ?thesis
  proof (cases dodrain)
    case True
    then show ?thesis using that [of b2] d eq p(3) c by simp
  next
    case False
    then show ?thesis using that [of b1] eq p(2,3) by simp
  qed
qed

text \<open>Integers, errors included: the decoder on the list is what the decoder on the buffer does.\<close>

lemma decode_int_spec:
  fixes maxn :: nat
  assumes m: "unlimited m" and b: "usable b" and w: "maxn \<le> 16" "offset \<le> 2 ^ 31"
  obtains b' where "decode_int_internal m b maxn offset =
      Some (b', case int_dec maxn (drop offset (content b)) of None \<Rightarrow> (-1, 0 :: 'a::len word)
        | Some (x, rest) \<Rightarrow> (int (length (drop offset (content b)) - length rest), x))"
    "usable b'" "content b' = content b"
proof (cases "length (content b) \<le> offset")
  case True
  then show ?thesis using that [OF _ b refl] usable_length(1) [OF b] by (simp add: decode_int_internal_def int_dec_def)
next
  case False
  let ?bs = "drop offset (content b)"
  have ne: "?bs \<noteq> []" using False by simp
  have nr: "offset + 1 \<le> EVBUFFER_CHAIN_MAX - EVBUFFER_CHAIN_SIZE" using w(2) by (intro small_room) simp
  have o: "0 < offset + 1" "offset + 1 \<le> length (content b)" using False by simp_all
  obtain b1 where p1: "evbuffer_pullup m b (int (offset + 1)) = (b1, Some (take (offset + 1) (content b)))" "usable b1" "content b1 = content b"
    using pullup_usable [OF m b o nr] by blast
  define k where "k = unat (drop_bit 4 (hd ?bs)) + 1"
  define n where "n = k div 2 + 1"
  have n_int: "int (k div 2) + 1 = int n" by (simp add: n_def)
  have hd: "take (offset + 1) (content b) ! offset = hd ?bs" using False by (simp add: hd_drop_conv_nth)
  have dec: "int_dec maxn ?bs = (if k > maxn \<or> n > length ?bs then None else Some (decode_loop ?bs k 0 :: 'a word, drop n ?bs))"
    using ne unfolding int_dec_def Let_def k_def n_def by (simp only: if_False)
  have len: "int (length (content b)) - int offset = int (length ?bs)" using False by simp
  have pos: "\<not> int (length ?bs) \<le> 0" using ne by simp
  have "decode_int_internal m b maxn offset =
     (if k > maxn \<or> n > length ?bs then Some (b1, -1, 0 :: 'a word)
      else (case evbuffer_pullup m b1 (int offset + int n) of
         (b2, None) \<Rightarrow> if offset = 0 then Some (b2, -1, 0) else None
       | (b2, Some data2) \<Rightarrow> Some (b2, int n, decode_loop (drop offset data2) k 0)))"
    using p1(1) unfolding of_nat_add of_nat_1 decode_int_internal_def Let_def usable_length(1) [OF b] len if_not_P [OF pos]
    by (simp only: hd high_half prod.case option.case of_nat_less_iff k_def [symmetric] n_int)
  note eq = this
  show ?thesis
  proof (cases "k > maxn \<or> n > length ?bs")
    case True
    then show ?thesis using that [OF _ p1(2,3)] eq dec by simp
  next
    case False
    then have n: "n \<le> length ?bs" "n \<le> 9" using w(1) by (auto simp: n_def)
    have nr: "offset + n \<le> EVBUFFER_CHAIN_MAX - EVBUFFER_CHAIN_SIZE" using w(2) n(2) by (intro small_room) simp
    have o: "0 < offset + n" "offset + n \<le> length (content b1)" using n(1) p1(3) by (simp_all add: n_def)
    obtain b2 where p2: "evbuffer_pullup m b1 (int (offset + n)) = (b2, Some (take (offset + n) (content b1)))" "usable b2" "content b2 = content b1"
      using pullup_usable [OF m p1(2) o nr] by blast
    have "decode_loop (drop offset (take (offset + n) (content b))) k 0 = (decode_loop ?bs k 0 :: 'a word)"
      by (rule decode_loop_cong) (simp add: drop_take n_def)
    then have "decode_int_internal m b maxn offset = Some (b2, int n, decode_loop ?bs k 0 :: 'a word)"
      using False eq p2(1) p1(3) by simp
    moreover have "length ?bs - length (drop n ?bs) = n" using n(1) by (simp only: length_drop)
    then have "(case int_dec maxn ?bs of None \<Rightarrow> (-1, 0) | Some (x, rest) \<Rightarrow> (int (length ?bs - length rest), x)) = (int n, decode_loop ?bs k 0 :: 'a word)"
      unfolding dec if_not_P [OF False] option.case prod.case by simp
    ultimately show ?thesis using that [OF _ p2(2)] p2(3) p1(3) by simp
  qed
qed

lemma decode_int_enc:
  assumes m: "unlimited m" and b: "usable b" and c: "content b = encode_int_internal (n :: u32) @ rest"
  obtains b' where "evtag_decode_int m b = Some (b', 0, n)" "usable b'" "content b' = rest"
proof -
  obtain b1 where "decode_int_internal m b 8 0 =
      Some (b1, case int_dec 8 (drop 0 (content b)) of None \<Rightarrow> (-1, 0) | Some (x, rest) \<Rightarrow> (int (length (drop 0 (content b)) - length rest), x :: u32))"
    and b1: "usable b1" "content b1 = content b"
    by (rule decode_int_spec [OF m b, of 8 0, where 'a = 32]) simp_all
  then have d: "decode_int32_internal m b 0 = Some (b1, int (length (encode_int_internal n)), n)"
    by (simp add: c int32_code.dec_enc)
  obtain b2 where "drain_ignoring b1 (length (encode_int_internal n)) = Some b2" "usable b2" "content b2 = rest"
    using drain_usable [OF b1(1), of "length (encode_int_internal n)"] b1(2) c by auto
  then show ?thesis using that [of b2] d by (simp add: evtag_decode_int_def drain_decoded_def)
qed

lemma unmarshal_header_spec:
  assumes m: "unlimited m" and b: "usable b" and n: "n \<le> INT_MAX" "n \<le> length rest"
    and c: "content b = tag_bytes t @ encode_int_internal (of_nat n :: u32) @ rest"
  obtains b' where "evtag_unmarshal_header m b = Some (b', int n, t)" "usable b'" "content b' = rest"
proof -
  obtain b1 where 1: "decode_tag_internal m b True = Some (b1, int (length (tag_bytes t)), t)" "usable b1"
    "content b1 = encode_int_internal (of_nat n :: u32) @ rest"
    using decode_tag_spec [OF m b c, of True] by auto
  obtain b2 where 2: "evtag_decode_int m b1 = Some (b2, 0, of_nat n)" "usable b2" "content b2 = rest"
    using decode_int_enc [OF m 1(2,3)] by blast
  have n': "unat (of_nat n :: u32) = n" using n(1) by (simp add: unat_of_nat INT_MAX_def take_bit_nat_eq_self)
  have u: "c_int (uint (of_nat n :: u32)) = int n" using c_int_small [OF n(1)] n' by (metis uint_nat)
  have "evtag_unmarshal_header m b = Some (b2, int n, t)"
    using 1(1) 2(1) n(2) n' u usable_length(1) [OF 2(2)] 2(3) by (simp add: evtag_unmarshal_header_def)
  then show ?thesis using that 2 by blast
qed

lemma size_of_int_nat: "n \<le> INT_MAX \<Longrightarrow> size_of_int (int n) = n"
  by (simp add: size_of_int_def INT_MAX_def unat_of_nat take_bit_nat_eq_self)

lemma unmarshal_spec:
  assumes m: "unlimited m" and s: "usable src" and d: "usable dst" and n: "length data \<le> INT_MAX" "length (content dst) + length data \<le> EV_SIZE_MAX"
    and c: "content src = item_bytes (t, data) @ rest"
  obtains src' dst' where "evtag_unmarshal m src dst = Some (src', dst', int (length data), t)"
    "usable src'" "content src' = rest" "usable dst'" "content dst' = content dst @ data"
proof -
  obtain s1 where 1: "evtag_unmarshal_header m src = Some (s1, int (length data), t)" "usable s1" "content s1 = data @ rest"
    by (rule unmarshal_header_spec [OF m s n(1), of "data @ rest" t]) (simp_all add: c item_bytes_def)
  have nr: "length data \<le> EVBUFFER_CHAIN_MAX - EVBUFFER_CHAIN_SIZE" using n(1) by (intro small_room) (simp add: INT_MAX_def)
  obtain s2 where 2: "evbuffer_pullup m s1 (int (length data)) = (s2, if data = [] then None else Some data)" "usable s2" "content s2 = data @ rest"
  proof (cases "data = []")
    case True
    then show ?thesis using that [of s1] 1 by (simp add: evbuffer_pullup_def)
  next
    case False
    then show ?thesis using pullup_usable [OF m 1(2) _ _ nr] 1(3) that by auto
  qed
  obtain d1 where 3: "evbuffer_add m dst data = Some (d1, 0)" "usable d1" "content d1 = content dst @ data"
    by (rule add_usable [OF m d n(2) nr])
  obtain s3 where 4: "drain_ignoring s2 (length data) = Some s3" "usable s3" "content s3 = rest"
    using drain_usable [OF 2(2), of "length data"] 2(3) by auto
  have "evtag_unmarshal m src dst = Some (s3, d1, int (length data), t)"
    using 1(1) 2(1) 3(1) 4(1) size_of_int_nat [OF n(1)] by (cases "data = []") (simp_all add: evtag_unmarshal_def)
  then show ?thesis using that 3 4 by blast
qed

section \<open>Encoding into a buffer\<close>

lemma item_length: "length (item_bytes x) \<le> length (snd x) + 10"
  using tag_bytes_5 [of "fst x"] encode_int_length(2) [of "of_nat (length (snd x)) :: u32"] by (simp add: item_bytes_def)

lemma marshal_spec:
  assumes m: "unlimited m" and b: "usable b" and n: "length data \<le> INT_MAX" "length (content b) + length (item_bytes (t, data)) \<le> EV_SIZE_MAX"
  obtains b' where "evtag_marshal m b t data = Some b'" "usable b'" "content b' = content b @ item_bytes (t, data)"
proof -
  let ?e = "encode_int_internal (of_nat (length data) :: u32)"
  have room: "k \<le> EVBUFFER_CHAIN_MAX - EVBUFFER_CHAIN_SIZE" if "k \<le> INT_MAX" for k using that by (intro small_room) (simp add: INT_MAX_def)
  have tl: "length (tag_bytes t) \<le> INT_MAX" "length ?e \<le> INT_MAX"
    using tag_bytes_5 [of t] encode_int_length(2) [of "of_nat (length data) :: u32"] by (simp_all add: INT_MAX_def)
  have fits: "length (content b) + length (tag_bytes t) + length ?e + length data \<le> EV_SIZE_MAX" using n(2) by (simp add: item_bytes_def)
  have f1: "length (content b) + length (tag_bytes t) \<le> EV_SIZE_MAX" using fits by linarith
  obtain b1 where 1: "add_ignoring m b (tag_bytes t) = Some b1" "usable b1" "content b1 = content b @ tag_bytes t"
    by (rule add_ignoring_usable [OF m b f1 room [OF tl(1)]])
  have f2: "length (content b1) + length ?e \<le> EV_SIZE_MAX" using fits 1(3) by simp
  obtain b2 where 2: "add_ignoring m b1 ?e = Some b2" "usable b2" "content b2 = content b1 @ ?e"
    by (rule add_ignoring_usable [OF m 1(2) f2 room [OF tl(2)]])
  have f3: "length (content b2) + length data \<le> EV_SIZE_MAX" using fits 1(3) 2(3) by simp
  obtain b3 where 3: "add_ignoring m b2 data = Some b3" "usable b3" "content b3 = content b2 @ data"
    by (rule add_ignoring_usable [OF m 2(2) f3 room [OF n(1)]])
  have "evtag_marshal m b t data = Some b3"
    using 1(1) 2(1) 3(1) by (simp add: evtag_marshal_def evtag_encode_tag_def evtag_encode_int_def)
  then show ?thesis using that [of b3] 1(3) 2(3) 3 by (simp add: item_bytes_def)
qed

section \<open>Round trip\<close>

text \<open>A number of items written one after the other, and read back, each into a new buffer.\<close>

fun marshal_items :: "malloc \<Rightarrow> evbuffer \<Rightarrow> (u32 \<times> byte list) list \<Rightarrow> evbuffer option" where
  "marshal_items m b [] = Some b"
| "marshal_items m b ((t, data) # items) = Option.bind (evtag_marshal m b t data) (\<lambda>b'. marshal_items m b' items)"

fun unmarshal_items :: "malloc \<Rightarrow> nat \<Rightarrow> evbuffer \<Rightarrow> (evbuffer \<times> (u32 \<times> int \<times> byte list) list) option" where
  "unmarshal_items m 0 b = Some (b, [])"
| "unmarshal_items m (Suc n) b =
     Option.bind (evtag_unmarshal m b evbuffer_new) (\<lambda>(b', dst, res, t).
       map_option (\<lambda>(b'', items). (b'', (t, res, content dst) # items)) (unmarshal_items m n b'))"

lemma marshal_items_spec:
  assumes "unlimited m" "usable b" "\<forall>x \<in> set items. length (snd x) \<le> INT_MAX"
    "length (content b) + length (concat (map item_bytes items)) \<le> EV_SIZE_MAX"
  shows "\<exists>b'. marshal_items m b items = Some b' \<and> usable b' \<and> content b' = content b @ concat (map item_bytes items)"
  using assms
proof (induction items arbitrary: b)
  case (Cons x items)
  obtain t data where x: "x = (t, data)" by (cases x) auto
  have n: "length data \<le> INT_MAX" "length (content b) + length (item_bytes (t, data)) \<le> EV_SIZE_MAX" using Cons.prems(3,4) by (simp_all add: x)
  obtain b1 where 1: "evtag_marshal m b t data = Some b1" "usable b1" "content b1 = content b @ item_bytes (t, data)"
    by (rule marshal_spec [OF Cons.prems(1,2) n])
  then show ?case using Cons.IH [OF Cons.prems(1) 1(2)] Cons.prems(3,4) by (simp add: x)
qed simp

lemma unmarshal_items_spec:
  assumes "unlimited m" "usable b" "\<forall>x \<in> set items. length (snd x) \<le> INT_MAX" "content b = concat (map item_bytes items) @ rest"
  shows "\<exists>b'. unmarshal_items m (length items) b = Some (b', map (\<lambda>(t, data). (t, int (length data), data)) items) \<and> usable b' \<and> content b' = rest"
  using assms
proof (induction items arbitrary: b)
  case (Cons x items)
  obtain t data where x: "x = (t, data)" by (cases x) auto
  have n: "length data \<le> INT_MAX" "length (content evbuffer_new) + length data \<le> EV_SIZE_MAX"
    and c: "content b = item_bytes (t, data) @ concat (map item_bytes items) @ rest"
    using Cons.prems(3,4) by (simp_all add: x new_usable INT_MAX_def EV_SIZE_MAX_def)
  obtain b1 dst where 1: "evtag_unmarshal m b evbuffer_new = Some (b1, dst, int (length data), t)" "usable b1"
    "content b1 = concat (map item_bytes items) @ rest" "content dst = data"
    by (rule unmarshal_spec [OF Cons.prems(1,2) new_usable(1) n c]) (simp add: new_usable)
  then show ?case using Cons.IH [OF Cons.prems(1) 1(2) _ 1(3)] Cons.prems(3) by (auto simp: x)
qed simp

text \<open>
  C39. Tagged items written to an empty buffer with \<open>evtag_marshal\<close>, one after the other, are read back
  with \<open>evtag_unmarshal\<close>: as long as there is memory, and the buffer is not frozen, every call gives the
  tag, the length and the data of the next item, whatever the tags (of one to five bytes), the
  lengths and the chains the bytes fell into, and leaves exactly the bytes of the items behind it: no
  item is read beyond its end, nor is a byte of it left.
\<close>

theorem evtag_roundtrip:
  assumes "unlimited m" "usable b" "\<forall>x \<in> set (items @ others). length (snd x) \<le> INT_MAX" "content b = []"
    "sum_list (map (\<lambda>x. length (snd x) + 10) (items @ others)) \<le> EV_SIZE_MAX"
  shows "\<exists>b1 b2. marshal_items m b (items @ others) = Some b1 \<and>
    unmarshal_items m (length items) b1 = Some (b2, map (\<lambda>(t, data). (t, int (length data), data)) items) \<and>
    content b2 = concat (map item_bytes others)"
proof -
  have "length (concat (map item_bytes xs)) \<le> sum_list (map (\<lambda>x. length (snd x) + 10) xs)" for xs
    by (induction xs) (use item_length in \<open>auto intro: add_mono\<close>)
  then have "length (concat (map item_bytes (items @ others))) \<le> EV_SIZE_MAX" using assms(5) by (rule order_trans)
  then have "length (content b) + length (concat (map item_bytes (items @ others))) \<le> EV_SIZE_MAX" by (simp only: assms(4) list.size add_0)
  from marshal_items_spec [OF assms(1-3) this] obtain b1 where 1: "marshal_items m b (items @ others) = Some b1" "usable b1"
    and c1: "content b1 = content b @ concat (map item_bytes (items @ others))" by blast
  have c: "content b1 = concat (map item_bytes items) @ concat (map item_bytes others)" unfolding c1 assms(4) by simp
  have "\<forall>x \<in> set items. length (snd x) \<le> INT_MAX" using assms(3) by simp
  then show ?thesis using unmarshal_items_spec [OF assms(1) 1(2) _ c] 1(1) by blast
qed

lemma zero_unlimited: "unlimited zero_malloc"
  by (simp add: unlimited_def zero_malloc_documented zero_malloc_def)

theorem evtag_roundtrip_witness:
  "\<exists>b1 b2. marshal_items zero_malloc evbuffer_new [(0x166, [1, 2, 3]), (7, [])] = Some b1 \<and>
    unmarshal_items zero_malloc 2 b1 = Some (b2, [(0x166, 3, [1, 2, 3]), (7, 0, [])]) \<and> content b2 = []"
  using evtag_roundtrip [of zero_malloc evbuffer_new "[(0x166, [1, 2, 3]), (7, [])]" "[]"]
  by (simp add: zero_unlimited new_usable INT_MAX_def EV_SIZE_MAX_def numeral_2_eq_2 [symmetric] del: marshal_items.simps unmarshal_items.simps)

end
