(* ===== verification/Spec2Isabelle.thy ===== *)
theory Spec2Isabelle
  imports Ev_Loop_Props Ev_Buffer_Props Ev_Search_Props Ev_Tagging_Props
begin

text \<open>
  A verification library for libevent 2.1.12 (\<open>src/libevent-2.1.12-stable\<close>).

  The program. A base (\<open>struct event_base\<close>, \<open>event.c\<close>) keeps events (\<open>struct event\<close>) that wait
  for descriptors, signals and times. Events for descriptors and signals are listed in the event
  maps (\<open>evmap.c\<close>), whose changes go to a backend, here epoll (\<open>epoll.c\<close>), either directly or
  through a changelist (\<open>evmap.c\<close>, \<open>changelist-internal.h\<close>) that one dispatch applies at once.
  Times are kept on a heap (\<open>minheap-internal.h\<close>) or, for durations many events share, on
  ordered lists (the common timeouts of \<open>event.c\<close>). What happened becomes active in the queue of
  its priority, and the loop runs the queues.

  Theories, in the order of their imports.
  \<^item> \<open>Ev_Prelude\<close>: C values, hints, lemmas on lists and words. \<open>Ev_Time\<close>: \<open>struct timeval\<close> with the
    macros of \<open>util.h\<close>, as a linear order, and the monotonic clock of \<open>evutil_time.c\<close>.
    \<open>Ev_Types\<close>: the flags of \<open>event.h\<close> and \<open>event_struct.h\<close>, the record of an event.
  \<^item> \<open>Ev_Minheap\<close>: every function of \<open>minheap-internal.h\<close> on an array and the heap indices of the
    events; the locale \<open>timer_queue\<close> is what a client relies on (a least element, removed when
    fired), interpreted here on the heap, and later on the heap of a base and on its common
    timeouts.
  \<^item> \<open>Ev_Changelist\<close>, \<open>Ev_Epoll_Table\<close>, \<open>Ev_Epoll\<close>: the changelist, the 512 entries of
    \<open>epolltable-internal.h\<close> against the rule of its comment (extended to close changes), one \<open>epoll_ctl\<close> call with its retries,
    the direct backend, one dispatch. \<open>Ev_Evmap\<close>: the maps, over any backend that meets the
    locale \<open>io_backend\<close>. \<open>Ev_Backend\<close>: maps, changelist and kernel together.
  \<^item> \<open>Ev_Base\<close>, \<open>Ev_Queues\<close>: \<open>struct event_base\<close>, its clock, the eight queue functions of \<open>event.c\<close> and
    the invariant of the queues. \<open>Ev_Event\<close>, \<open>Ev_Event_Inv\<close>, \<open>Ev_Event_Spec\<close>, \<open>Ev_Event_Add\<close>: adding,
    deleting, activating, finalizing, with the invariant \<open>base_inv\<close> over the locale
    \<open>event_backend\<close>. \<open>Ev_Config\<close>, \<open>Ev_Api\<close>: making a base, priorities, common timeouts, the
    self-check \<open>event_base_assert_ok_nolock_\<close>.
  \<^item> \<open>Ev_Core\<close>: the base over epoll, with the interpretation of the locales on it. \<open>Ev_Machine\<close>:
    calls of the interface and polls as the steps of a state machine. \<open>Ev_Core_Props\<close>: its
    properties.
  \<^item> \<open>Ev_Loop\<close>: \<open>timeout_next\<close>, \<open>timeout_process\<close>, \<open>common_timeout_callback\<close>, the closures of the
    callbacks, \<open>event_process_active\<close>, \<open>event_base_loop\<close> and its controls. \<open>Ev_Frames\<close>,
    \<open>Ev_Timeouts\<close>, \<open>Ev_Loop_Run\<close>, \<open>Ev_Loop_Spec\<close>, \<open>Ev_Loop_Api\<close>: what each operation leaves
    alone, the states the loop can run in (\<open>sound\<close>), the contract of callbacks
    (\<open>callbacks_ok\<close>), and that the interface keeps both. \<open>Ev_Loop_Records\<close>: the calls a queue, a
    round and a run of the loop make, counted with callbacks that record them. \<open>Ev_Loop_Props\<close>:
    the properties of the loop.

  \<^item> \<open>Ev_Chain\<close>: the chains of \<open>evbuffer-internal.h\<close>, \<open>struct evbuffer\<close>, its well-formedness and its
    content, the sequence of its bytes. \<open>Ev_Buffer\<close>, \<open>Ev_Buffer_Out\<close>: the operations of \<open>buffer.c\<close>
    that add data, and those that take, copy or move it or make it contiguous. \<open>Ev_Buffer_Spec\<close>,
    \<open>Ev_Buffer_Take\<close>: what each does to the content. \<open>Ev_Buffer_Props\<close>: their properties, with what
    the callbacks are told.
  \<^item> \<open>Ev_Search\<close>: positions in a buffer, searching for bytes, strings and the ends of lines, reading
    lines. \<open>Ev_Search_Spec\<close>, \<open>Ev_Search_Props\<close>: that they find in the chains what the same search
    finds in the content.
  \<^item> \<open>Ev_Tagging\<close>: the tagged items of \<open>event_tagging.c\<close>. \<open>Ev_Tagging_Spec\<close>: the encodings as codes of
    byte sequences, with the locale \<open>byte_code\<close> (decoding what was encoded, whatever follows it, so
    no encoding is the beginning of another) interpreted on integers of 32 and 64 bits, tags and
    items. \<open>Ev_Tagging_Props\<close>: the functions on buffers refine them.

  Conventions. An address of an event is a number, the store maps it to its record. Failed
  assertions, exits and undefined steps of the code are \<open>None\<close>; -1 and error numbers are values.
  Loops that may run for ever (the loop itself, a queue that callbacks refill) are partial
  functions of the option monad, and termination is a theorem where it holds. Lengths are
  natural numbers with the code's overflow checks written out for 64-bit \<open>size_t\<close>.

  Parameters. The system calls of epoll, with what their manual promises as named hypotheses
  (\<open>epoll_ctl_documented\<close>, for descriptors that can be polled and a kernel with room for them, so
  that it fails only with \<open>EEXIST\<close> and \<open>ENOENT\<close>; \<open>epoll_wait_documented\<close>); the clocks (\<open>clocks_documented\<close>); the
  allocator, by the size it is asked for; the program's callbacks (\<open>callbacks_ok\<close>). The
  witnesses instantiate all of them.

  Bounds. The heap holds fewer than \<open>2 ^ 31\<close> events, the limit of its 32-bit index arithmetic
  (\<open>add_ok\<close>, \<open>good\<close>). A base has at most 256 common timeouts, the code's own limit.

  Not modelled. Locks and other threads (one thread uses a base), with the notification pipe
  beyond the flag that it is pending; timerfd; signal delivery through a socket pair
  (\<open>signal.c\<close>); the hash table of descriptors that only Windows uses; freeing a base; the other
  backends; chains of files and chains shared between buffers (with their reference counts),
  chains pinned by overlapped operations of Windows (\<open>chain_ok\<close>), callbacks that change their
  own buffer; bufferevents, HTTP, the resolver, RPC
  and TLS; logging and debugging output.
\<close>

end
